(* ===== verification/Prelude.thy ===== *)
theory Prelude
  imports Main "HOL-Library.Word" "HOL-Library.Signed_Division"
begin

text \<open>
  Shared vocabulary of the development: the exception classes of the C++ code as values, the
  result type every fallible operation returns, the sequencing combinators that stand for
  ``evaluate, propagate the exception, go on'', and the checked 64-bit arithmetic of
  \<^verbatim>\<open>fc::safe<int64_t>\<close> (src/libraries/fc/include/fc/safe.hpp), which is the type
  \<^verbatim>\<open>share_type\<close> of every token amount.
\<close>

section \<open>Results and exceptions\<close>

text \<open>
  One constructor per exception class that the modelled code can throw:
  \<^verbatim>\<open>FC_ASSERT\<close> throws \<open>assert_exception\<close>; \<^verbatim>\<open>fc::safe\<close> throws the three
  arithmetic ones; \<^verbatim>\<open>chainbase::database::get\<close> throws \<open>out_of_range\<close> when there is
  no such object and \<^verbatim>\<open>emplace\<close> throws \<open>logic_error\<close> when a unique index is violated;
  the remaining ones are declared in \<^verbatim>\<open>protocol/exceptions.hpp\<close>,
  \<^verbatim>\<open>chain/database_exceptions.hpp\<close> and \<^verbatim>\<open>fork_database.hpp\<close>. The message of an
  assertion is diagnostic text and is not part of the value.
\<close>

datatype exception =
    assert_exception
  | overflow_exception
  | underflow_exception
  | divide_by_zero_exception
  | out_of_range
  | logic_error
  | order_match_exception
  | order_fill_exception
  | unlinkable_block_exception
  | tx_missing_active_auth
  | tx_missing_owner_auth
  | tx_missing_posting_auth
  | tx_missing_other_auth
  | tx_irrelevant_sig
  | transaction_tapos_exception
  | transaction_expiration_exception
  | undo_database_exception
  | pop_empty_chain
  | unknown_hardfork_exception

type_synonym 'a result = "exception + 'a"

fun bindE :: "'a result \<Rightarrow> ('a \<Rightarrow> 'b result) \<Rightarrow> 'b result" where
  "bindE (Inl e) f = Inl e"
| "bindE (Inr x) f = f x"

text \<open>\<open>fc_assert c k\<close> is \<^verbatim>\<open>FC_ASSERT( c ); k\<close>; \<open>throw_unless\<close> is \<^verbatim>\<open>GAMEBANK_ASSERT( c, e )\<close>.\<close>

definition throw_unless :: "bool \<Rightarrow> exception \<Rightarrow> 'a result \<Rightarrow> 'a result" where
  "throw_unless c e k = (if c then k else Inl e)"

definition fc_assert :: "bool \<Rightarrow> 'a result \<Rightarrow> 'a result" where
  "fc_assert c k = (if c then k else Inl assert_exception)"

text \<open>An assertion whose condition may itself throw (a comparison of assets does).\<close>

definition fc_assertE :: "bool result \<Rightarrow> 'a result \<Rightarrow> 'a result" where
  "fc_assertE c k = bindE c (\<lambda>b. fc_assert b k)"

text \<open>A loop over a list that stops at the first exception.\<close>

fun foldE :: "('x \<Rightarrow> 's \<Rightarrow> 's result) \<Rightarrow> 'x list \<Rightarrow> 's \<Rightarrow> 's result" where
  "foldE f [] s = Inr s"
| "foldE f (x # xs) s = bindE (f x s) (foldE f xs)"

definition returns :: "'a result \<Rightarrow> bool" where
  "returns r = (case r of Inl _ \<Rightarrow> False | Inr _ \<Rightarrow> True)"

named_theorems measure_simps \<open>the effect of an operation on a measure of the state\<close>
named_theorems frame_simps \<open>what an operation leaves unchanged\<close>

lemma bindE_Inr [simp]: "bindE m f = Inr y \<longleftrightarrow> (\<exists>x. m = Inr x \<and> f x = Inr y)"
  by (cases m) auto

lemma fc_assert_Inr [simp]: "fc_assert c k = Inr y \<longleftrightarrow> c \<and> k = Inr y"
  by (simp add: fc_assert_def)

lemma throw_unless_Inr [simp]: "throw_unless c e k = Inr y \<longleftrightarrow> c \<and> k = Inr y"
  by (simp add: throw_unless_def)

lemma fc_assertE_Inr [simp]: "fc_assertE c k = Inr y \<longleftrightarrow> c = Inr True \<and> k = Inr y"
  by (auto simp: fc_assertE_def)

lemma fc_assert_False [simp]: "fc_assert False k = Inl assert_exception"
  by (simp add: fc_assert_def)

lemma returns_iff: "returns r \<longleftrightarrow> (\<exists>x. r = Inr x)"
  by (simp add: returns_def split: sum.splits)

lemma returnsE:
  assumes "returns r"
  obtains x where "r = Inr x"
  using assms by (auto simp: returns_iff)

lemma if_Inr [simp]:
  "(if c then Inr x else Inl e) = Inr y \<longleftrightarrow> c \<and> x = y"
  "(if c then Inl e else Inr x) = Inr y \<longleftrightarrow> \<not> c \<and> x = y"
  by auto

text \<open>Congruences for concrete runs: evaluate the first step before looking at the rest.\<close>

lemma bindE_eager: "m = m' \<Longrightarrow> bindE m f = bindE m' f"
  by simp

lemma assert_eager:
  "c = c' \<Longrightarrow> fc_assert c k = fc_assert c' k" "c = c' \<Longrightarrow> throw_unless c e k = throw_unless c' e k"
  "r = r' \<Longrightarrow> fc_assertE r k = fc_assertE r' k"
  by simp_all

lemmas eager = bindE_eager assert_eager

definition returning :: "'a result \<Rightarrow> ('a \<Rightarrow> bool) \<Rightarrow> bool" where
  "returning r P = (case r of Inl _ \<Rightarrow> False | Inr x \<Rightarrow> P x)"

lemma returningD: "returning r P \<Longrightarrow> \<exists>x. r = Inr x \<and> P x"
  by (cases r) (auto simp: returning_def)

text \<open>Invariants of \<open>foldE\<close> loops, in the two forms the components use.\<close>

lemma foldE_invariant:
  assumes step: "\<And>x s s'. x \<in> set xs \<Longrightarrow> I s \<Longrightarrow> f x s = Inr s' \<Longrightarrow> I s'"
    and "I s" and "foldE f xs s = Inr s'"
  shows "I s'"
  using assms
proof (induction xs arbitrary: s)
  case Nil
  then show ?case by simp
next
  case (Cons x xs)
  then obtain t where t: "f x s = Inr t" "foldE f xs t = Inr s'" by auto
  with Cons.prems(1)[of x s t] Cons.prems(2) have "I t" by simp
  with t(2) Cons.IH[of t] Cons.prems(1) show ?case by (meson list.set_intros(2))
qed

lemma foldE_all:
  assumes "foldE f xs s = Inr s'" "I s" "\<And>x s s'. I s \<Longrightarrow> f x s = Inr s' \<Longrightarrow> I s' \<and> Q x"
  shows "I s' \<and> (\<forall>x \<in> set xs. Q x)"
  using assms(1,2)
proof (induction xs arbitrary: s)
  case (Cons x xs)
  then obtain t where t: "f x s = Inr t" "foldE f xs t = Inr s'" by auto
  with Cons.IH[of t] assms(3)[OF Cons.prems(2) t(1)] show ?case by auto
qed simp

lemma foldE_append: "foldE f (xs @ ys) s = bindE (foldE f xs s) (foldE f ys)"
proof (induction xs arbitrary: s)
  case (Cons x xs)
  then show ?case by (cases "f x s") auto
qed simp

section \<open>Checked 64-bit arithmetic: fc::safe\<close>

definition int64_max :: int where "int64_max = 9223372036854775807"

definition int64_min :: int where "int64_min = - 9223372036854775808"

definition in_int64 :: "int \<Rightarrow> bool" where
  "in_int64 x \<longleftrightarrow> int64_min \<le> x \<and> x \<le> int64_max"

text \<open>The operators of \<^verbatim>\<open>safe<int64_t>\<close>, guard by guard; C++ division truncates (\<open>sdiv\<close>).\<close>

definition safe_add :: "int \<Rightarrow> int \<Rightarrow> int result" where
  "safe_add a b =
     (if b > 0 \<and> a > int64_max - b then Inl overflow_exception
      else if b < 0 \<and> a < int64_min - b then Inl underflow_exception
      else Inr (a + b))"

definition safe_sub :: "int \<Rightarrow> int \<Rightarrow> int result" where
  "safe_sub a b =
     (if b > 0 \<and> a < int64_min + b then Inl underflow_exception
      else if b < 0 \<and> a > int64_max + b then Inl overflow_exception
      else Inr (a - b))"

definition safe_mul :: "int \<Rightarrow> int \<Rightarrow> int result" where
  "safe_mul a b =
     (if a > 0
      then if b > 0
           then if a > int64_max sdiv b then Inl overflow_exception else Inr (a * b)
           else if b < int64_min sdiv a then Inl underflow_exception else Inr (a * b)
      else if b > 0
           then if a < int64_min sdiv b then Inl underflow_exception else Inr (a * b)
           else if a \<noteq> 0 \<and> b < int64_max sdiv a then Inl overflow_exception else Inr (a * b))"

definition safe_div :: "int \<Rightarrow> int \<Rightarrow> int result" where
  "safe_div a b =
     (if b = 0 then Inl divide_by_zero_exception
      else if a = int64_min \<and> b = - 1 then Inl overflow_exception
      else Inr (a sdiv b))"

definition safe_mod :: "int \<Rightarrow> int \<Rightarrow> int result" where
  "safe_mod a b =
     (if b = 0 then Inl divide_by_zero_exception
      else if a = int64_min \<and> b = - 1 then Inl overflow_exception
      else Inr (a smod b))"

definition safe_neg :: "int \<Rightarrow> int result" where
  "safe_neg a = (if a = int64_min then Inl overflow_exception else Inr (- a))"

lemma safe_add_value: "safe_add a b = Inr c \<Longrightarrow> c = a + b"
  by (simp add: safe_add_def split: if_splits)

lemma safe_sub_value: "safe_sub a b = Inr c \<Longrightarrow> c = a - b"
  by (simp add: safe_sub_def split: if_splits)

lemma safe_mul_value: "safe_mul a b = Inr c \<Longrightarrow> c = a * b"
  by (simp add: safe_mul_def split: if_splits)

lemma safe_neg_value: "safe_neg a = Inr c \<Longrightarrow> c = - a"
  by (simp add: safe_neg_def split: if_splits)

lemma safe_div_value: "safe_div a b = Inr c \<Longrightarrow> c = a sdiv b"
  by (simp add: safe_div_def split: if_splits)

lemmas safe_values = safe_add_value safe_sub_value safe_mul_value safe_neg_value safe_div_value

lemma div_less_iff: "0 < b \<Longrightarrow> m div b < a \<longleftrightarrow> m < a * b" for a b m :: int
proof -
  assume b: "0 < b"
  then have "(m + (- a) * b) div b = m div b - a" by (subst div_mult_self1) simp_all
  then show ?thesis using pos_imp_zdiv_neg_iff[OF b, of "m + (- a) * b"] by simp
qed

lemma sdiv_pos: "0 \<le> m \<Longrightarrow> 0 < b \<Longrightarrow> m sdiv b = m div b" for m b :: int
  by (cases "m = 0") (simp_all add: signed_divide_int_def)

lemma sdiv_neg_left: "0 \<le> m \<Longrightarrow> 0 < b \<Longrightarrow> (- m) sdiv b = - (m div b)" for m b :: int
  by (cases "m = 0") (simp_all add: signed_divide_int_def)

lemma sdiv_neg_right: "0 \<le> m \<Longrightarrow> b < 0 \<Longrightarrow> m sdiv b = - (m div (- b))" for m b :: int
  by (cases "m = 0") (simp_all add: signed_divide_int_def)

lemma safe_mul_exact: "safe_mul a b = Inr c \<longleftrightarrow> c = a * b \<and> in_int64 (a * b)" if "in_int64 a" "in_int64 b"
proof -
  note M = int64_min_def int64_max_def
  consider "a > 0" "b > 0" | "a > 0" "b \<le> 0" | "a \<le> 0" "b > 0" | "a < 0" "b \<le> 0" | "a = 0" "b \<le> 0" by linarith
  then show ?thesis
  proof cases
    case 1
    then have "0 < a * b" by simp
    then have "int64_min \<le> a * b" by (simp add: M)
    with 1 show ?thesis
      using div_less_iff[of b int64_max a] sdiv_pos[of int64_max b]
      by (auto simp: safe_mul_def in_int64_def M)
  next
    case 2
    then have "a * b \<le> 0" by (simp add: mult_nonneg_nonpos)
    with 2 show ?thesis
      using div_less_iff[of a "- int64_min" "- b"] sdiv_neg_left[of "- int64_min" a]
      by (auto simp: safe_mul_def in_int64_def M mult.commute)
  next
    case 3
    then have "a * b \<le> 0" by (simp add: mult_nonpos_nonneg)
    with 3 show ?thesis
      using div_less_iff[of b "- int64_min" "- a"] sdiv_neg_left[of "- int64_min" b]
      by (auto simp: safe_mul_def in_int64_def M mult.commute)
  next
    case 4
    then have "0 \<le> a * b" by (simp add: mult_nonpos_nonpos)
    with 4 show ?thesis
      using div_less_iff[of "- a" "int64_max" "- b"] sdiv_neg_right[of "int64_max" a]
      by (auto simp: safe_mul_def in_int64_def M mult.commute)
  next
    case 5
    then show ?thesis by (auto simp: safe_mul_def in_int64_def M)
  qed
qed

lemma safe_add_exact: "safe_add a b = Inr c \<longleftrightarrow> c = a + b \<and> in_int64 c" if "in_int64 a" "in_int64 b"
  using that by (auto simp: safe_add_def in_int64_def int64_max_def int64_min_def)

lemma safe_sub_exact: "safe_sub a b = Inr c \<longleftrightarrow> c = a - b \<and> in_int64 c" if "in_int64 a" "in_int64 b"
  using that by (auto simp: safe_sub_def in_int64_def int64_max_def int64_min_def)

text \<open>
  The guards of \<^verbatim>\<open>fc::safe<int64_t>\<close> are exact: on 64-bit operands addition, subtraction,
  multiplication and negation return if and only if the mathematical result fits in 64 bits, and then
  they return it.
\<close>

theorem safe_arith_exact:
  assumes "in_int64 a" "in_int64 b"
  shows "(safe_add a b = Inr c \<longleftrightarrow> c = a + b \<and> in_int64 c) \<and>
         (safe_sub a b = Inr c \<longleftrightarrow> c = a - b \<and> in_int64 c) \<and>
         (safe_mul a b = Inr c \<longleftrightarrow> c = a * b \<and> in_int64 c) \<and>
         (safe_neg a = Inr c \<longleftrightarrow> c = - a \<and> in_int64 c)"
  using assms safe_mul_exact[of a b c] safe_add_exact[of a b c] safe_sub_exact[of a b c]
  by (auto simp: safe_neg_def in_int64_def int64_max_def int64_min_def)

theorem safe_arith_exact_witness:
  "safe_mul (- 3000000000) 3000000000 = Inr (- 9000000000000000000) \<and>
   safe_mul (- 3000000000) 4000000000 \<noteq> Inr (- 12000000000000000000)"
  using safe_arith_exact[of "- 3000000000" 3000000000 "- 9000000000000000000"]
    safe_arith_exact[of "- 3000000000" 4000000000 "- 12000000000000000000"]
  by (simp add: in_int64_def int64_min_def int64_max_def)

end
