(* ===== verification/AssetSymbol.thy ===== *)
theory AssetSymbol
  imports Prelude
begin

unbundle bit_operations_syntax

text \<open>
  Asset symbols: src/libraries/protocol/asset_symbol.hpp and the symbol part of asset.cpp. A symbol
  is its 32-bit \<^verbatim>\<open>asset_num\<close>. The theory models the pairing of symbols, the numerical asset
  identifier (NAI) with its Damm check digit, the NAI text format and the binary format, and shows the
  round trips of both formats and the error detection of the check digit.
\<close>

section \<open>Asset symbols\<close>

type_synonym asset_symbol_type = "32 word"

definition GB_MAX_NAI :: nat where "GB_MAX_NAI = 99999999"
definition GB_MIN_NAI :: nat where "GB_MIN_NAI = 1"
definition GAMEBANK_PRECISION_GBD :: nat where "GAMEBANK_PRECISION_GBD = 3"
definition GAMEBANK_PRECISION_GBC :: nat where "GAMEBANK_PRECISION_GBC = 3"
definition GAMEBANK_PRECISION_GBS :: nat where "GAMEBANK_PRECISION_GBS = 6"
definition GAMEBANK_NAI_GBD :: nat where "GAMEBANK_NAI_GBD = 1"
definition GAMEBANK_NAI_GBC :: nat where "GAMEBANK_NAI_GBC = 2"
definition GAMEBANK_NAI_GBS :: nat where "GAMEBANK_NAI_GBS = 3"
definition GAMEBANK_ASSET_MAX_DECIMALS :: nat where "GAMEBANK_ASSET_MAX_DECIMALS = 12"

definition GBD_SYMBOL :: asset_symbol_type where
  "GBD_SYMBOL = (push_bit 4 (of_nat (GB_MAX_NAI + GAMEBANK_NAI_GBD))) OR of_nat GAMEBANK_PRECISION_GBD"

definition GBC_SYMBOL :: asset_symbol_type where
  "GBC_SYMBOL = (push_bit 4 (of_nat (GB_MAX_NAI + GAMEBANK_NAI_GBC))) OR of_nat GAMEBANK_PRECISION_GBC"

definition GBS_SYMBOL :: asset_symbol_type where
  "GBS_SYMBOL = (push_bit 4 (of_nat (GB_MAX_NAI + GAMEBANK_NAI_GBS))) OR of_nat GAMEBANK_PRECISION_GBS"

datatype asset_symbol_space = legacy_space

definition symbol_space :: "asset_symbol_type \<Rightarrow> asset_symbol_space result" where
  "symbol_space sy =
     (if sy = GBC_SYMBOL \<or> sy = GBD_SYMBOL \<or> sy = GBS_SYMBOL then Inr legacy_space
      else Inl assert_exception)"

definition decimals :: "asset_symbol_type \<Rightarrow> 8 word" where
  "decimals sy = ucast (sy AND 0x0F)"

definition is_vesting :: "asset_symbol_type \<Rightarrow> bool result" where
  "is_vesting sy =
     bindE (symbol_space sy) (\<lambda>sp. case sp of legacy_space \<Rightarrow>
       if sy = GBC_SYMBOL then Inr False
       else if sy = GBD_SYMBOL then Inr False
       else if sy = GBS_SYMBOL then Inr True
       else Inl assert_exception)"

definition get_paired_symbol :: "asset_symbol_type \<Rightarrow> asset_symbol_type result" where
  "get_paired_symbol sy =
     bindE (symbol_space sy) (\<lambda>sp. case sp of legacy_space \<Rightarrow>
       if sy = GBC_SYMBOL then Inr GBS_SYMBOL
       else if sy = GBD_SYMBOL then Inr sy
       else if sy = GBS_SYMBOL then Inr GBC_SYMBOL
       else Inl assert_exception)"

definition symbol_validate :: "asset_symbol_type \<Rightarrow> unit result" where
  "symbol_validate sy =
     (if sy = GBC_SYMBOL \<or> sy = GBD_SYMBOL \<or> sy = GBS_SYMBOL then Inr ()
      else let nai_data_digits = drop_bit 5 sy; nai_1bit = sy AND 0x10; nai_decimal_places = sy AND 0x0F in
        fc_assert (unat nai_data_digits \<ge> GB_MIN_NAI \<and> unat nai_data_digits \<le> GB_MAX_NAI \<and>
                   nai_1bit = 0x10 \<and> unat nai_decimal_places \<le> GAMEBANK_ASSET_MAX_DECIMALS) (Inr ()))"

section \<open>Numerical asset identifiers and their check digit\<close>

definition damm_table :: "nat list" where
  "damm_table =
    [ 0, 30, 10, 70, 50, 90, 80, 60, 40, 20,
     70,  0, 90, 20, 10, 50, 40, 80, 60, 30,
     40, 20,  0, 60, 80, 70, 10, 30, 50, 90,
     10, 70, 50,  0, 90, 80, 30, 40, 20, 60,
     60, 10, 20, 30,  0, 40, 50, 90, 70, 80,
     30, 60, 70, 40, 20,  0, 90, 50, 80, 10,
     50, 80, 60, 90, 70, 20,  0, 10, 30, 40,
     80, 90, 40, 50, 30, 60, 20,  0, 10, 70,
     90, 40, 30, 80, 60, 10, 70, 20,  0, 50,
     20, 50, 80, 10, 40, 30, 60, 70, 90,  0]"

definition damm_checksum_8digit :: "nat \<Rightarrow> nat result" where
  "damm_checksum_8digit val =
     fc_assert (val < 100000000)
      (let q0 = val div 10; d0 = val mod 10;
           q1 = q0 div 10; d1 = q0 mod 10;
           q2 = q1 div 10; d2 = q1 mod 10;
           q3 = q2 div 10; d3 = q2 mod 10;
           q4 = q3 div 10; d4 = q3 mod 10;
           q5 = q4 div 10; d5 = q4 mod 10;
           d6 = q5 mod 10; d7 = q5 div 10;
           x = damm_table ! d7;
           x = damm_table ! (x + d6);
           x = damm_table ! (x + d5);
           x = damm_table ! (x + d4);
           x = damm_table ! (x + d3);
           x = damm_table ! (x + d2);
           x = damm_table ! (x + d1);
           x = damm_table ! (x + d0)
       in Inr (x div 10))"

definition asset_num_from_nai :: "nat \<Rightarrow> nat \<Rightarrow> asset_symbol_type result" where
  "asset_num_from_nai nai decimal_places =
     (let nai_check_digit = nai mod 10; nai_data_digits = nai div 10 in
      fc_assert (nai_data_digits \<ge> GB_MIN_NAI \<and> nai_data_digits \<le> GB_MAX_NAI)
      (bindE (damm_checksum_8digit nai_data_digits) (\<lambda>c.
       fc_assert (nai_check_digit = c)
       (if nai_data_digits = GAMEBANK_NAI_GBC then
          fc_assert (decimal_places = GAMEBANK_PRECISION_GBC) (Inr GBC_SYMBOL)
        else if nai_data_digits = GAMEBANK_NAI_GBD then
          fc_assert (decimal_places = GAMEBANK_PRECISION_GBD) (Inr GBD_SYMBOL)
        else if nai_data_digits = GAMEBANK_NAI_GBS then
          fc_assert (decimal_places = GAMEBANK_PRECISION_GBS) (Inr GBS_SYMBOL)
        else
          fc_assert (decimal_places \<le> GAMEBANK_ASSET_MAX_DECIMALS)
            (Inr ((push_bit 5 (of_nat nai_data_digits) OR 0x10) OR of_nat decimal_places))))))"

definition to_nai :: "asset_symbol_type \<Rightarrow> nat result" where
  "to_nai sy =
     bindE (if sy = GBC_SYMBOL then Inr GAMEBANK_NAI_GBC
            else if sy = GBD_SYMBOL then Inr GAMEBANK_NAI_GBD
            else if sy = GBS_SYMBOL then Inr GAMEBANK_NAI_GBS
            else Inl assert_exception) (\<lambda>nai_data_digits.
     bindE (damm_checksum_8digit nai_data_digits) (\<lambda>nai_check_digit.
       Inr (nai_data_digits * 10 + nai_check_digit)))"

definition digit_char :: "nat \<Rightarrow> char" where
  "digit_char d = char_of (d + of_char CHR ''0'')"

definition to_nai_string :: "asset_symbol_type \<Rightarrow> string result" where
  "to_nai_string sy =
     bindE (to_nai sy) (\<lambda>x.
      let x1 = x div 10; x2 = x1 div 10; x3 = x2 div 10; x4 = x3 div 10;
          x5 = x4 div 10; x6 = x5 div 10; x7 = x6 div 10; x8 = x7 div 10
      in Inr [CHR ''@'', CHR ''@'', digit_char x8, digit_char (x7 mod 10), digit_char (x6 mod 10),
              digit_char (x5 mod 10), digit_char (x4 mod 10), digit_char (x3 mod 10),
              digit_char (x2 mod 10), digit_char (x1 mod 10), digit_char (x mod 10)])"

definition is_blank :: "char \<Rightarrow> bool" where
  "is_blank c \<longleftrightarrow> c = CHR '' '' \<or> c = CHR 0x09 \<or> c = CHR 0x0A \<or> c = CHR 0x0D"

definition is_digit :: "char \<Rightarrow> bool" where
  "is_digit c \<longleftrightarrow> of_char CHR ''0'' \<le> (of_char c :: nat) \<and> (of_char c :: nat) \<le> of_char CHR ''9''"

text \<open>The digit loop of \<^verbatim>\<open>from_nai_string\<close>: the number, the count of digits and the rest of the text.\<close>

fun nai_digits :: "string \<Rightarrow> nat \<Rightarrow> nat \<Rightarrow> (nat \<times> nat \<times> string) result" where
  "nai_digits [] nai digit_count = Inr (nai, digit_count, [])"
| "nai_digits (c # p) nai digit_count =
     (if is_digit c then
        let new_nai = nai * 10 + (of_char c - of_char CHR ''0'') in
        fc_assert (new_nai \<ge> nai) (fc_assert (new_nai \<le> GB_MAX_NAI)
          (nai_digits p new_nai (digit_count + 1)))
      else Inr (nai, digit_count, c # p))"

fun blanks_to_end :: "string \<Rightarrow> bool" where
  "blanks_to_end [] = True"
| "blanks_to_end (c # p) = (if is_blank c then blanks_to_end p else c = CHR 0x00)"

definition from_nai_string :: "string \<Rightarrow> nat \<Rightarrow> asset_symbol_type result" where
  "from_nai_string p decimal_places =
     (case dropWhile is_blank p of
        c1 # p1 \<Rightarrow>
          fc_assert (c1 = CHR ''@'')
          (case p1 of
             c2 # p2 \<Rightarrow>
               fc_assert (c2 = CHR ''@'')
               (bindE (nai_digits p2 0 0) (\<lambda>(nai, digit_count, rest).
                fc_assert (digit_count = 9)
                (bindE (asset_num_from_nai nai decimal_places) (\<lambda>asset_num.
                 fc_assert (blanks_to_end rest) (Inr asset_num)))))
           | [] \<Rightarrow> Inl assert_exception)
      | [] \<Rightarrow> Inl assert_exception)"

section \<open>Binary serialization of symbols\<close>

definition GBS_SYMBOL_SER :: "64 word" where
  "GBS_SYMBOL_SER = 6 OR push_bit 8 (0x47 OR push_bit 8 0x42 OR push_bit 16 0x50)"

definition GBC_SYMBOL_SER :: "64 word" where
  "GBC_SYMBOL_SER = 3 OR push_bit 8 (0x47 OR push_bit 8 0x42)"

definition GBD_SYMBOL_SER :: "64 word" where
  "GBD_SYMBOL_SER = 3 OR push_bit 8 (0x47 OR push_bit 8 0x42 OR push_bit 16 0x44)"

text \<open>Little-endian bytes, as \<^verbatim>\<open>fc::raw\<close> writes and reads integers; reading past the end throws.\<close>

definition bytes_of :: "nat \<Rightarrow> 64 word \<Rightarrow> 8 word list" where
  "bytes_of n w = map (\<lambda>i. ucast (drop_bit (8 * i) w)) [0..<n]"

fun word_of_bytes :: "8 word list \<Rightarrow> 64 word" where
  "word_of_bytes [] = 0"
| "word_of_bytes (b # bs) = ucast b OR push_bit 8 (word_of_bytes bs)"

definition read_bytes :: "nat \<Rightarrow> 8 word list \<Rightarrow> (64 word \<times> 8 word list) result" where
  "read_bytes n s = (if length s < n then Inl out_of_range else Inr (word_of_bytes (take n s), drop n s))"

definition pack_symbol :: "asset_symbol_type \<Rightarrow> 8 word list result" where
  "pack_symbol sy =
     bindE (symbol_space sy) (\<lambda>sp. case sp of legacy_space \<Rightarrow>
       if sy = GBC_SYMBOL then Inr (bytes_of 8 GBC_SYMBOL_SER)
       else if sy = GBD_SYMBOL then Inr (bytes_of 8 GBD_SYMBOL_SER)
       else if sy = GBS_SYMBOL then Inr (bytes_of 8 GBS_SYMBOL_SER)
       else Inl assert_exception)"

definition unpack_symbol :: "8 word list \<Rightarrow> (asset_symbol_type \<times> 8 word list) result" where
  "unpack_symbol s =
     bindE (read_bytes 4 s) (\<lambda>(ser, s).
     bindE
      (if ser = GBC_SYMBOL_SER AND 0xFFFFFFFF then
         bindE (read_bytes 4 s) (\<lambda>(h, s).
           fc_assert (ser OR push_bit 32 h = GBC_SYMBOL_SER) (Inr (GBC_SYMBOL, s)))
       else if ser = GBD_SYMBOL_SER AND 0xFFFFFFFF then
         bindE (read_bytes 4 s) (\<lambda>(h, s).
           fc_assert (ser OR push_bit 32 h = GBD_SYMBOL_SER) (Inr (GBD_SYMBOL, s)))
       else if ser = GBS_SYMBOL_SER AND 0xFFFFFFFF then
         bindE (read_bytes 4 s) (\<lambda>(h, s).
           fc_assert (ser OR push_bit 32 h = GBS_SYMBOL_SER) (Inr (GBS_SYMBOL, s)))
       else Inr (ucast ser, s)) (\<lambda>(sy, s).
     bindE (symbol_validate sy) (\<lambda>_. Inr (sy, s))))"

section \<open>Symbols: values, pairing, round trips\<close>

lemma symbol_values:
  "GBD_SYMBOL = 1600000003" "GBC_SYMBOL = 1600000019" "GBS_SYMBOL = 1600000038"
  by (simp_all add: GBD_SYMBOL_def GBC_SYMBOL_def GBS_SYMBOL_def GB_MAX_NAI_def GAMEBANK_NAI_GBD_def
      GAMEBANK_NAI_GBC_def GAMEBANK_NAI_GBS_def GAMEBANK_PRECISION_GBD_def GAMEBANK_PRECISION_GBC_def
      GAMEBANK_PRECISION_GBS_def)

lemma symbols_distinct [simp]:
  "GBD_SYMBOL \<noteq> GBC_SYMBOL" "GBC_SYMBOL \<noteq> GBD_SYMBOL" "GBD_SYMBOL \<noteq> GBS_SYMBOL"
  "GBS_SYMBOL \<noteq> GBD_SYMBOL" "GBC_SYMBOL \<noteq> GBS_SYMBOL" "GBS_SYMBOL \<noteq> GBC_SYMBOL"
  by (simp_all add: symbol_values)

definition core_symbol :: "asset_symbol_type \<Rightarrow> bool" where
  "core_symbol sy \<longleftrightarrow> sy = GBC_SYMBOL \<or> sy = GBD_SYMBOL \<or> sy = GBS_SYMBOL"

lemma core_symbolE:
  assumes "core_symbol sy"
  obtains "sy = GBC_SYMBOL" | "sy = GBD_SYMBOL" | "sy = GBS_SYMBOL"
  using assms by (auto simp: core_symbol_def)

lemma paired_involutive:
  assumes "get_paired_symbol sy = Inr sy'"
  shows "get_paired_symbol sy' = Inr sy"
  using assms by (auto simp: get_paired_symbol_def symbol_space_def split: if_splits)

lemmas nai_consts = GB_MAX_NAI_def GB_MIN_NAI_def GAMEBANK_NAI_GBD_def GAMEBANK_NAI_GBC_def
  GAMEBANK_NAI_GBS_def GAMEBANK_PRECISION_GBD_def GAMEBANK_PRECISION_GBC_def
  GAMEBANK_PRECISION_GBS_def GAMEBANK_ASSET_MAX_DECIMALS_def

section \<open>The Damm check digit\<close>

text \<open>
  The check digit is a left fold of a quasigroup operation \<open>dq\<close> over the digits. The table of the
  source holds ten times the operation's value, so that the next index is one addition.
\<close>

definition dq :: "nat \<Rightarrow> nat \<Rightarrow> nat" where
  "dq i d = damm_table ! (10 * i + d) div 10"

definition nat_of_digits :: "nat list \<Rightarrow> nat" where
  "nat_of_digits ds = foldl (\<lambda>v d. 10 * v + d) 0 ds"

definition dq_rows :: "nat list list" where
  "dq_rows = [[0,3,1,7,5,9,8,6,4,2],[7,0,9,2,1,5,4,8,6,3],[4,2,0,6,8,7,1,3,5,9],[1,7,5,0,9,8,3,4,2,6],
   [6,1,2,3,0,4,5,9,7,8],[3,6,7,4,2,0,9,5,8,1],[5,8,6,9,7,2,0,1,3,4],[8,9,4,5,3,6,2,0,1,7],
   [9,4,3,8,6,1,7,2,0,5],[2,5,8,1,4,3,6,7,9,0]]"

lemma damm_table_rows: "damm_table = map ((*) 10) (concat dq_rows)"
  by (simp add: damm_table_def dq_rows_def)

lemma dq_rows_length: "list_all (\<lambda>r. length r = 10 \<and> list_all (\<lambda>x. x < 10) r) dq_rows" "length dq_rows = 10"
  by (simp_all add: dq_rows_def)

lemma concat_nth: "list_all (\<lambda>r. length r = n) xss \<Longrightarrow> i < length xss \<Longrightarrow> d < n \<Longrightarrow> concat xss ! (n * i + d) = xss ! i ! d"
proof (induction xss arbitrary: i)
  case (Cons r xss)
  then show ?case by (cases i) (auto simp: nth_append)
qed simp

lemma concat_length: "list_all (\<lambda>r. length r = n) xss \<Longrightarrow> length (concat xss) = n * length xss"
  by (induction xss) auto

lemma dq_rows_nth:
  assumes "i < 10" "d < 10"
  shows "damm_table ! (10 * i + d) = 10 * (dq_rows ! i ! d)" 
proof -
  have l: "list_all (\<lambda>r. length r = 10) dq_rows" using dq_rows_length(1) by (simp add: list_all_iff)
  have "10 * i + d < length (concat dq_rows)" using concat_length[OF l] dq_rows_length(2) assms by simp
  then show ?thesis using concat_nth[OF l, of i d] assms dq_rows_length(2) by (simp add: damm_table_rows)
qed

lemma dq_rows_dq: "i < 10 \<Longrightarrow> d < 10 \<Longrightarrow> dq i d = dq_rows ! i ! d"
  using dq_rows_nth by (simp add: dq_def)

lemma rows_distinct: "list_all distinct dq_rows" by (simp add: dq_rows_def)
lemma columns_distinct: "list_all (\<lambda>d. distinct (map (\<lambda>r. r ! d) dq_rows)) [0..<10]" 
  by code_simp
lemma transpose_all: "list_all (\<lambda>r. list_all (\<lambda>d. list_all (\<lambda>e. dq_rows ! (r ! d) ! e \<noteq> dq_rows ! (r ! e) ! d) [Suc d..<10]) [0..<10]) dq_rows"
  by code_simp
lemma dq_less [simp]: "i < 10 \<Longrightarrow> d < 10 \<Longrightarrow> dq i d < 10"
  using dq_rows_length by (simp add: dq_rows_dq list_all_length)

lemma damm_table_dq: "i < 10 \<Longrightarrow> d < 10 \<Longrightarrow> damm_table ! (10 * i + d) = 10 * dq i d"
  by (simp add: dq_rows_nth dq_rows_dq)

lemma dq_row: "i < 10 \<Longrightarrow> d < 10 \<Longrightarrow> e < 10 \<Longrightarrow> dq i d = dq i e \<Longrightarrow> d = e"
  using rows_distinct dq_rows_length by (simp add: dq_rows_dq list_all_length nth_eq_iff_index_eq)

lemma dq_column:
  assumes "i < 10" "j < 10" "d < 10" "dq i d = dq j d"
  shows "i = j"
proof -
  have "distinct (map (\<lambda>r. r ! d) dq_rows)"
    using columns_distinct assms(3) by (simp add: list_all_iff)
  then show ?thesis
    using assms dq_rows_length(2) by (simp add: dq_rows_dq distinct_conv_nth) metis
qed

lemma dq_transpose:
  assumes "i < 10" "d < 10" "e < 10" "d < e"
  shows "dq (dq i d) e \<noteq> dq (dq i e) d"
proof -
  have "list_all (\<lambda>d. list_all (\<lambda>e. dq_rows ! (dq_rows ! i ! d) ! e \<noteq> dq_rows ! (dq_rows ! i ! e) ! d) [Suc d..<10]) [0..<10]"
    using transpose_all assms(1) dq_rows_length(2) by (simp add: list_all_length)
  then have "dq_rows ! (dq_rows ! i ! d) ! e \<noteq> dq_rows ! (dq_rows ! i ! e) ! d"
    using assms by (simp add: list_all_iff)
  then show ?thesis using assms dq_less by (metis dq_rows_dq)
qed

lemma foldl_dq_less: "i < 10 \<Longrightarrow> \<forall>d \<in> set ds. d < 10 \<Longrightarrow> foldl dq i ds < 10"
  by (induction ds arbitrary: i) auto

lemma foldl_dq_inj:
  "i < 10 \<Longrightarrow> j < 10 \<Longrightarrow> \<forall>d \<in> set ds. d < 10 \<Longrightarrow> foldl dq i ds = foldl dq j ds \<Longrightarrow> i = j"
proof (induction ds arbitrary: i j)
  case (Cons d ds)
  then have "dq i d = dq j d" using Cons.IH[of "dq i d" "dq j d"] by simp
  then show ?case using dq_column[of i j d] Cons.prems by simp
qed simp

lemma length8E:
  assumes "length ds = 8"
  obtains a b c d e f g h where "ds = [a, b, c, d, e, f, g, h]"
proof -
  have "length ds = Suc (Suc (Suc (Suc (Suc (Suc (Suc (Suc 0)))))))" using assms by simp
  then show ?thesis using that by (auto simp only: length_Suc_conv length_0_conv)
qed

lemma div_mod_digit: "y < 10 \<Longrightarrow> (10 * x + y) div 10 = x" "y < 10 \<Longrightarrow> (10 * x + y) mod 10 = y"
  for x y :: nat
  by auto

lemma damm_checksum_fold:
  assumes "length ds = 8" "\<forall>d \<in> set ds. d < 10"
  shows "damm_checksum_8digit (nat_of_digits ds) = Inr (foldl dq 0 ds)"
proof -
  obtain a b c d e f g h where ds: "ds = [a, b, c, d, e, f, g, h]" using assms(1) by (rule length8E)
  let ?q5 = "10 * a + b" let ?q4 = "10 * ?q5 + c" let ?q3 = "10 * ?q4 + d"
  let ?q2 = "10 * ?q3 + e" let ?q1 = "10 * ?q2 + f" let ?q0 = "10 * ?q1 + g"
  have less: "a < 10" "b < 10" "c < 10" "d < 10" "e < 10" "f < 10" "g < 10" "h < 10"
    using assms(2) by (auto simp: ds)
  have val: "nat_of_digits ds = 10 * ?q0 + h" unfolding ds nat_of_digits_def foldl.simps by simp
  have t0: "damm_table ! a = 10 * dq 0 a" using damm_table_dq[of 0 a] less by simp
  have small: "10 * ?q0 + h < 100000000" using less by simp
  have "damm_checksum_8digit (10 * ?q0 + h) = Inr (10 * foldl dq 0 [a, b, c, d, e, f, g, h] div 10)"
    unfolding damm_checksum_8digit_def Let_def fc_assert_def
    by (simp only: small div_mod_digit less t0 damm_table_dq dq_less if_True foldl.simps zero_less_numeral)
  then have "damm_checksum_8digit (10 * ?q0 + h) = Inr (foldl dq 0 ds)" unfolding ds by simp
  then show ?thesis unfolding val .
qed

lemma foldl_dq_update:
  assumes "\<forall>d \<in> set ds. d < 10" "k < length ds" "d < 10" "d \<noteq> ds ! k" "i < 10"
  shows "foldl dq i (ds[k := d]) \<noteq> foldl dq i ds"
proof
  assume eq: "foldl dq i (ds[k := d]) = foldl dq i ds"
  let ?p = "foldl dq i (take k ds)"
  have p: "?p < 10" using assms foldl_dq_less[of i "take k ds"] in_set_takeD by fastforce
  have tl: "\<forall>d \<in> set (drop (Suc k) ds). d < 10" using assms(1) in_set_dropD by fastforce
  have dk: "ds ! k < 10" using assms by simp
  have "foldl dq (dq ?p d) (drop (Suc k) ds) = foldl dq (dq ?p (ds ! k)) (drop (Suc k) ds)"
    using eq assms(2) id_take_nth_drop[OF assms(2)] by (simp add: upd_conv_take_nth_drop) (metis foldl_Cons foldl_append)
  then have "dq ?p d = dq ?p (ds ! k)" using foldl_dq_inj[OF _ _ tl] p dk assms(3) by simp
  then show False using dq_row p dk assms(3,4) by blast
qed

lemma foldl_dq_swap:
  assumes "\<forall>d \<in> set ds. d < 10" "k + 1 < length ds" "ds ! k \<noteq> ds ! (k + 1)" "i < 10"
  shows "foldl dq i (ds[k := ds ! (k + 1), k + 1 := ds ! k]) \<noteq> foldl dq i ds"
proof
  assume eq: "foldl dq i (ds[k := ds ! (k + 1), k + 1 := ds ! k]) = foldl dq i ds"
  let ?p = "foldl dq i (take k ds)" let ?a = "ds ! k" let ?b = "ds ! (k + 1)" let ?r = "drop (k + 2) ds"
  have ds: "ds = take k ds @ ?a # ?b # ?r"
    using assms(2) by (metis Cons_nth_drop_Suc Suc_eq_plus1 Suc_lessD add_2_eq_Suc' append_take_drop_id)
  have "length (take k ds) = k" using assms(2) by simp
  then have upd: "ds[k := ?b, k + 1 := ?a] = take k ds @ ?b # ?a # ?r"
    by (subst ds) (simp add: list_update_append)
  have p: "?p < 10" using assms foldl_dq_less[of i "take k ds"] in_set_takeD by fastforce
  have ab: "?a < 10" "?b < 10" using assms by simp_all
  have tl: "\<forall>d \<in> set ?r. d < 10" using assms(1) in_set_dropD by fastforce
  have "foldl dq (dq (dq ?p ?b) ?a) ?r = foldl dq (dq (dq ?p ?a) ?b) ?r"
    using eq unfolding upd by (subst (asm) (3) ds) simp
  then have "dq (dq ?p ?b) ?a = dq (dq ?p ?a) ?b" using foldl_dq_inj[OF _ _ tl] p ab by simp
  then show False using dq_transpose[of ?p ?a ?b] dq_transpose[of ?p ?b ?a] p ab assms(3) by force
qed

text \<open>
  The check digit of a numerical asset identifier detects every substitution of one of the
  eight data digits and every transposition of two adjacent, different data digits.
\<close>

theorem damm_detects_errors:
  assumes "length ds = 8" "\<forall>d \<in> set ds. d < 10" "k < 8" "d < 10"
  shows "(d \<noteq> ds ! k \<longrightarrow>
           damm_checksum_8digit (nat_of_digits (ds[k := d])) \<noteq> damm_checksum_8digit (nat_of_digits ds)) \<and>
         (k < 7 \<and> ds ! k \<noteq> ds ! (k + 1) \<longrightarrow>
           damm_checksum_8digit (nat_of_digits (ds[k := ds ! (k + 1), k + 1 := ds ! k]))
             \<noteq> damm_checksum_8digit (nat_of_digits ds))"
proof -
  have upd: "\<forall>x \<in> set (ds[k := d]). x < 10" using assms set_update_subset_insert by fastforce
  have "ds ! k < 10" "k < 7 \<Longrightarrow> ds ! (k + 1) < 10" using assms by simp_all
  then have swap: "k < 7 \<Longrightarrow> \<forall>x \<in> set (ds[k := ds ! (k + 1), k + 1 := ds ! k]). x < 10"
    using assms(2) by (auto dest!: subsetD[OF set_update_subset_insert])
  show ?thesis
    using assms foldl_dq_update[of ds k d 0] foldl_dq_swap[of ds k 0]
    by (simp add: damm_checksum_fold upd swap)
qed

theorem damm_detects_errors_witness:
  "damm_checksum_8digit (nat_of_digits [0, 0, 0, 0, 0, 0, 0, 2]) \<noteq> damm_checksum_8digit (nat_of_digits [0, 0, 0, 0, 0, 0, 0, 1]) \<and>
   damm_checksum_8digit (nat_of_digits [0, 0, 0, 0, 0, 0, 1, 0]) \<noteq> damm_checksum_8digit (nat_of_digits [0, 0, 0, 0, 0, 0, 0, 1])"
  using damm_detects_errors[of "[0, 0, 0, 0, 0, 0, 0, 1]" 7 2] damm_detects_errors[of "[0, 0, 0, 0, 0, 0, 0, 1]" 6 0]
  by simp

section \<open>Round trips\<close>

lemma damm_core: "damm_checksum_8digit 1 = Inr 3" "damm_checksum_8digit 2 = Inr 1" "damm_checksum_8digit 3 = Inr 7"
proof -
  have "damm_checksum_8digit (nat_of_digits [0, 0, 0, 0, 0, 0, 0, d]) = Inr (dq 0 d)" if "d < 10" for d
    using that damm_checksum_fold[of "[0, 0, 0, 0, 0, 0, 0, d]"] by (simp add: dq_def damm_table_def)
  from this[of 1] this[of 2] this[of 3]
  show "damm_checksum_8digit 1 = Inr 3" "damm_checksum_8digit 2 = Inr 1" "damm_checksum_8digit 3 = Inr 7"
    by (simp_all add: nat_of_digits_def dq_def damm_table_def numeral_2_eq_2)
qed

lemma to_nai_core:
  "to_nai_string GBC_SYMBOL = Inr ''@@000000021''"
  "to_nai_string GBD_SYMBOL = Inr ''@@000000013''"
  "to_nai_string GBS_SYMBOL = Inr ''@@000000037''"
  by (simp_all add: to_nai_string_def to_nai_def nai_consts damm_core[simplified] digit_char_def char_of_def Let_def
      bit_0)

lemma from_nai_core:
  "from_nai_string ''@@000000021'' 3 = Inr GBC_SYMBOL"
  "from_nai_string ''@@000000013'' 3 = Inr GBD_SYMBOL"
  "from_nai_string ''@@000000037'' 6 = Inr GBS_SYMBOL"
  by (simp_all add: from_nai_string_def is_blank_def is_digit_def asset_num_from_nai_def nai_consts damm_core[simplified]
      fc_assert_def)

lemma decimals_core:
  "unat (decimals GBC_SYMBOL) = 3" "unat (decimals GBD_SYMBOL) = 3" "unat (decimals GBS_SYMBOL) = 6"
  by (simp_all add: decimals_def symbol_values)

lemma ser_values:
  "GBC_SYMBOL_SER = 0x424703" "GBD_SYMBOL_SER = 0x44424703" "GBS_SYMBOL_SER = 0x50424706"
  by (simp_all add: GBC_SYMBOL_SER_def GBD_SYMBOL_SER_def GBS_SYMBOL_SER_def)

lemma pack_core:
  "pack_symbol GBC_SYMBOL = Inr [0x03, 0x47, 0x42, 0, 0, 0, 0, 0]"
  "pack_symbol GBD_SYMBOL = Inr [0x03, 0x47, 0x42, 0x44, 0, 0, 0, 0]"
  "pack_symbol GBS_SYMBOL = Inr [0x06, 0x47, 0x42, 0x50, 0, 0, 0, 0]"
  by (simp_all add: pack_symbol_def symbol_space_def ser_values bytes_of_def upt_rec)

lemma validate_core [simp]: "core_symbol sy \<Longrightarrow> symbol_validate sy = Inr ()"
  by (auto simp: symbol_validate_def core_symbol_def)

lemma unpack_core:
  "unpack_symbol ([0x03, 0x47, 0x42, 0, 0, 0, 0, 0] @ rest) = Inr (GBC_SYMBOL, rest)"
  "unpack_symbol ([0x03, 0x47, 0x42, 0x44, 0, 0, 0, 0] @ rest) = Inr (GBD_SYMBOL, rest)"
  "unpack_symbol ([0x06, 0x47, 0x42, 0x50, 0, 0, 0, 0] @ rest) = Inr (GBS_SYMBOL, rest)"
  by (simp_all add: unpack_symbol_def read_bytes_def ser_values core_symbol_def fc_assert_def)

text \<open>
  Every symbol the chain issues (GBC, GBD, GBS) survives a round trip through its NAI text with
  its own precision, and through its binary form, whatever bytes follow it in the stream.
\<close>

theorem symbol_roundtrip:
  assumes "core_symbol sy"
  shows "bindE (to_nai_string sy) (\<lambda>p. from_nai_string p (unat (decimals sy))) = Inr sy \<and>
         bindE (pack_symbol sy) (\<lambda>bs. unpack_symbol (bs @ rest)) = Inr (sy, rest)"
  using assms
  by (cases rule: core_symbolE)
    (simp_all only: to_nai_core from_nai_core decimals_core pack_core unpack_core bindE.simps)

theorem symbol_roundtrip_witness:
  "bindE (to_nai_string GBS_SYMBOL) (\<lambda>p. from_nai_string p (unat (decimals GBS_SYMBOL))) = Inr GBS_SYMBOL \<and>
   bindE (pack_symbol GBS_SYMBOL) (\<lambda>bs. unpack_symbol (bs @ [1, 2])) = Inr (GBS_SYMBOL, [1, 2])"
  using symbol_roundtrip[of GBS_SYMBOL "[1, 2]"] by (simp add: core_symbol_def)

end
