(* ===== verification/Asset.thy ===== *)
theory Asset
  imports AssetSymbol
begin

text \<open>
  Assets and prices: src/libraries/protocol/asset.cpp and asset.hpp. An amount is a
  \<^verbatim>\<open>safe<int64_t>\<close> (an \<open>int\<close>, every operation of which is one of \<open>safe_add\<close>, ...); a
  conversion through a price computes in 128 bits and narrows to 64.
\<close>

section \<open>Assets\<close>

record asset =
  amount :: int
  symbol :: asset_symbol_type

abbreviation mk_asset :: "int \<Rightarrow> asset_symbol_type \<Rightarrow> asset" where
  "mk_asset a s \<equiv> \<lparr>amount = a, symbol = s\<rparr>"

definition GAMEBANK_MAX_SATOSHIS :: int where "GAMEBANK_MAX_SATOSHIS = 4611686018427387903"

definition asset_validate :: "asset \<Rightarrow> unit result" where
  "asset_validate a =
     bindE (symbol_validate (symbol a)) (\<lambda>_.
      fc_assert (amount a \<ge> 0) (fc_assert (amount a \<le> GAMEBANK_MAX_SATOSHIS) (Inr ())))"

definition asset_add :: "asset \<Rightarrow> asset \<Rightarrow> asset result" where
  "asset_add a b = fc_assert (symbol a = symbol b)
     (bindE (safe_add (amount a) (amount b)) (\<lambda>x. Inr (mk_asset x (symbol a))))"

definition asset_sub :: "asset \<Rightarrow> asset \<Rightarrow> asset result" where
  "asset_sub a b = fc_assert (symbol a = symbol b)
     (bindE (safe_sub (amount a) (amount b)) (\<lambda>x. Inr (mk_asset x (symbol a))))"

definition asset_mul :: "asset \<Rightarrow> asset \<Rightarrow> asset result" where
  "asset_mul a b = fc_assert (symbol a = symbol b)
     (bindE (safe_mul (amount a) (amount b)) (\<lambda>x. Inr (mk_asset x (symbol a))))"

definition asset_neg :: "asset \<Rightarrow> asset result" where
  "asset_neg a = bindE (safe_neg (amount a)) (\<lambda>x. Inr (mk_asset x (symbol a)))"

definition asset_less :: "asset \<Rightarrow> asset \<Rightarrow> bool result" where
  "asset_less a b = fc_assert (symbol a = symbol b) (Inr (amount a < amount b))"

definition asset_le :: "asset \<Rightarrow> asset \<Rightarrow> bool result" where
  "asset_le a b = fc_assert (symbol a = symbol b) (Inr (amount a \<le> amount b))"

abbreviation asset_gt :: "asset \<Rightarrow> asset \<Rightarrow> bool result" where
  "asset_gt a b \<equiv> fc_assert (symbol a = symbol b) (Inr (amount a > amount b))"

abbreviation asset_ge :: "asset \<Rightarrow> asset \<Rightarrow> bool result" where
  "asset_ge a b \<equiv> fc_assert (symbol a = symbol b) (Inr (amount a \<ge> amount b))"

section \<open>Prices\<close>

record price =
  base :: asset
  quote :: asset

definition price_validate :: "price \<Rightarrow> unit result" where
  "price_validate p =
     fc_assert (amount (base p) > 0)
     (fc_assert (amount (quote p) > 0)
     (fc_assert (symbol (base p) \<noteq> symbol (quote p)) (Inr ())))"

text \<open>The explicit constructor validates; the default one does not (both assets 0 GBC: the null price).\<close>

definition mk_price :: "asset \<Rightarrow> asset \<Rightarrow> price result" where
  "mk_price b q = bindE (price_validate \<lparr>base = b, quote = q\<rparr>) (\<lambda>_. Inr \<lparr>base = b, quote = q\<rparr>)"

definition null_price :: price where
  "null_price = \<lparr>base = mk_asset 0 GBC_SYMBOL, quote = mk_asset 0 GBC_SYMBOL\<rparr>"

definition price_div :: "asset \<Rightarrow> asset \<Rightarrow> price result" where
  "price_div b q = fc_assert (symbol b \<noteq> symbol q) (mk_price b q)"

definition price_inv :: "price \<Rightarrow> price result" where
  "price_inv p = mk_price (quote p) (base p)"

definition price_max :: "asset_symbol_type \<Rightarrow> asset_symbol_type \<Rightarrow> price result" where
  "price_max b q = price_div (mk_asset GAMEBANK_MAX_SATOSHIS b) (mk_asset 1 q)"

definition price_min :: "asset_symbol_type \<Rightarrow> asset_symbol_type \<Rightarrow> price result" where
  "price_min b q = price_div (mk_asset 1 b) (mk_asset GAMEBANK_MAX_SATOSHIS q)"

text \<open>\<^verbatim>\<open>uint128_t( int64 )\<close> sign-extends; products wrap at 128 bits.\<close>

abbreviation uint128 :: "int \<Rightarrow> 128 word" where
  "uint128 \<equiv> word_of_int"

definition price_mults :: "price \<Rightarrow> price \<Rightarrow> 128 word \<times> 128 word" where
  "price_mults a b =
     (uint128 (amount (quote b)) * uint128 (amount (base a)),
      uint128 (amount (quote a)) * uint128 (amount (base b)))"

definition symbol_pair_less :: "price \<Rightarrow> price \<Rightarrow> bool" where
  "symbol_pair_less a b \<longleftrightarrow>
     symbol (base a) < symbol (base b) \<or>
     symbol (base a) = symbol (base b) \<and> symbol (quote a) < symbol (quote b)"

definition same_market :: "price \<Rightarrow> price \<Rightarrow> bool" where
  "same_market a b \<longleftrightarrow> symbol (base a) = symbol (base b) \<and> symbol (quote a) = symbol (quote b)"

definition price_eq :: "price \<Rightarrow> price \<Rightarrow> bool" where
  "price_eq a b = (same_market a b \<and> (let (amult, bmult) = price_mults a b in amult = bmult))"

definition price_less :: "price \<Rightarrow> price \<Rightarrow> bool" where
  "price_less a b = (if \<not> same_market a b then symbol_pair_less a b
     else let (amult, bmult) = price_mults a b in amult < bmult)"

definition price_le :: "price \<Rightarrow> price \<Rightarrow> bool" where
  "price_le a b = (if \<not> same_market a b then symbol_pair_less a b
     else let (amult, bmult) = price_mults a b in amult \<le> bmult)"

definition is_null :: "price \<Rightarrow> bool" where
  "is_null p = price_eq p null_price"

text \<open>
  \<^verbatim>\<open>asset * price\<close>. The 128-bit quotient must have its high half zero; the low half becomes an
  \<^verbatim>\<open>int64_t\<close>, so a quotient of \<open>2 ^ 63\<close> or more turns negative.
\<close>

definition narrow_int64 :: "128 word \<Rightarrow> int" where
  "narrow_int64 r = sint (ucast r :: 64 word)"

definition asset_times_price :: "asset \<Rightarrow> price \<Rightarrow> asset result" where
  "asset_times_price a b =
     (if symbol a = symbol (base b) then
        fc_assert (amount (base b) > 0)
        (let result = (uint128 (amount a) * uint128 (amount (quote b))) div uint128 (amount (base b)) in
         fc_assert (drop_bit 64 result = 0)
          (Inr (mk_asset (narrow_int64 result) (symbol (quote b)))))
      else if symbol a = symbol (quote b) then
        fc_assert (amount (quote b) > 0)
        (let result = (uint128 (amount a) * uint128 (amount (base b))) div uint128 (amount (quote b)) in
         fc_assert (drop_bit 64 result = 0)
          (Inr (mk_asset (narrow_int64 result) (symbol (base b)))))
      else Inl assert_exception)"

section \<open>Conversion and comparison are exact\<close>

lemma uint128_small: "0 \<le> x \<Longrightarrow> x < 2 ^ 128 \<Longrightarrow> uint (uint128 x) = x"
  by (simp add: uint_word_of_int take_bit_int_eq_self)

lemma uint128_prod:
  assumes "0 \<le> x" "x \<le> int64_max" "0 \<le> y" "y \<le> int64_max"
  shows "uint (uint128 x * uint128 y) = x * y"
proof -
  have "x * y \<le> int64_max * int64_max" using assms by (intro mult_mono) auto
  then have "x * y < 2 ^ 128" by (simp add: int64_max_def)
  then show ?thesis using assms uint128_small[of "x * y"] by simp
qed

lemma high_half_zero: "drop_bit 64 r = 0 \<longleftrightarrow> uint r < 2 ^ 64" for r :: "128 word"
proof -
  have "drop_bit 64 r = 0 \<longleftrightarrow> uint (drop_bit 64 r) = 0" by (simp only: uint_0_iff)
  also have "\<dots> \<longleftrightarrow> uint r div 2 ^ 64 = 0" by (simp add: drop_bit_eq_div uint_div_distrib)
  also have "\<dots> \<longleftrightarrow> uint r < 2 ^ 64"
  proof -
    have eq: "x = 0 \<longleftrightarrow> x < 1" if "0 \<le> x" for x :: int using that by linarith
    have "0 \<le> uint r div 2 ^ 64" by (rule div_int_pos_iff[THEN iffD2]) simp
    from eq[OF this] show ?thesis using div_less_iff[of "2 ^ 64" "uint r" 1] by simp
  qed
  finally show ?thesis .
qed

lemma narrow_int64_eq:
  assumes "uint r < 2 ^ 64"
  shows "narrow_int64 r = (if uint r < 2 ^ 63 then uint r else uint r - 2 ^ 64)"
proof -
  have "uint (ucast r :: 64 word) = uint r" using assms by (simp add: unsigned_ucast_eq take_bit_int_eq_self)
  then have "narrow_int64 r = signed_take_bit 63 (uint r)"
    by (simp add: narrow_int64_def sint_uint)
  also have "\<dots> = take_bit 64 (uint r + 2 ^ 63) - 2 ^ 63"
    by (simp add: signed_take_bit_eq_take_bit_shift)
  also have "take_bit 64 (uint r + 2 ^ 63) = (if uint r < 2 ^ 63 then uint r + 2 ^ 63 else uint r + 2 ^ 63 - 2 ^ 64)"
  proof (cases "uint r < 2 ^ 63")
    case True
    then show ?thesis by (simp add: take_bit_int_eq_self)
  next
    case False
    then have "(uint r + 2 ^ 63) mod 2 ^ 64 = (uint r + 2 ^ 63 - 2 ^ 64) mod 2 ^ 64"
      by (metis minus_mod_self2)
    also have "\<dots> = uint r + 2 ^ 63 - 2 ^ 64" using False assms by simp
    finally show ?thesis using False by (simp add: take_bit_eq_mod)
  qed
  finally show ?thesis by simp
qed

lemma quotient_result:
  assumes "0 \<le> x" "x \<le> int64_max" "0 \<le> y" "y \<le> int64_max" "0 < z" "z \<le> int64_max"
  shows "uint ((uint128 x * uint128 y) div uint128 z) = x * y div z"
  using assms uint128_prod[of x y] uint128_small[of z]
  by (simp only: uint_div_distrib) (simp add: int64_max_def)

definition int64_of_quotient :: "int \<Rightarrow> asset_symbol_type \<Rightarrow> asset result" where
  "int64_of_quotient q sy =
     (if q < 2 ^ 63 then Inr (mk_asset q sy)
      else if q < 2 ^ 64 then Inr (mk_asset (q - 2 ^ 64) sy)
      else Inl assert_exception)"

lemma asset_times_price_base:
  assumes "0 \<le> amount a" "amount a \<le> int64_max" "price_validate p = Inr ()"
    and "amount (base p) \<le> int64_max" "amount (quote p) \<le> int64_max" "symbol a = symbol (base p)"
  shows "asset_times_price a p = int64_of_quotient (amount a * amount (quote p) div amount (base p)) (symbol (quote p))"
  using assms quotient_result[of "amount a" "amount (quote p)" "amount (base p)"]
  by (simp add: asset_times_price_def int64_of_quotient_def Let_def high_half_zero narrow_int64_eq fc_assert_def
      price_validate_def split: if_splits)

lemma asset_times_price_quote:
  assumes "0 \<le> amount a" "amount a \<le> int64_max" "price_validate p = Inr ()"
    and "amount (base p) \<le> int64_max" "amount (quote p) \<le> int64_max" "symbol a = symbol (quote p)"
  shows "asset_times_price a p = int64_of_quotient (amount a * amount (base p) div amount (quote p)) (symbol (base p))"
  using assms quotient_result[of "amount a" "amount (base p)" "amount (quote p)"]
  by (simp add: asset_times_price_def int64_of_quotient_def Let_def high_half_zero narrow_int64_eq fc_assert_def
      price_validate_def split: if_splits)

text \<open>
  C25. Conversion of a non-negative amount through a valid price returns the floor of the exact
  quotient when that is below \<open>2 ^ 63\<close>, throws when it does not fit in 64 unsigned bits, and in
  between, where only the high half of the 128-bit result is checked, wraps to a negative amount. An
  asset of a third symbol is rejected.
\<close>

theorem asset_times_price_exact:
  assumes "0 \<le> amount a" "amount a \<le> int64_max"
    and "price_validate p = Inr ()" "amount (base p) \<le> int64_max" "amount (quote p) \<le> int64_max"
  shows "asset_times_price a p =
           (if symbol a = symbol (base p) then
              int64_of_quotient (amount a * amount (quote p) div amount (base p)) (symbol (quote p))
            else if symbol a = symbol (quote p) then
              int64_of_quotient (amount a * amount (base p) div amount (quote p)) (symbol (base p))
            else Inl assert_exception)"
proof -
  consider "symbol a = symbol (base p)" | "symbol a \<noteq> symbol (base p)" "symbol a = symbol (quote p)"
    | "symbol a \<noteq> symbol (base p)" "symbol a \<noteq> symbol (quote p)" by blast
  then show ?thesis
  proof cases
    case 1
    then show ?thesis using asset_times_price_base[OF assms] by simp
  next
    case 2
    then show ?thesis using asset_times_price_quote[OF assms] by simp
  next
    case 3
    then show ?thesis by (simp add: asset_times_price_def)
  qed
qed

theorem asset_times_price_exact_witness:
  "asset_times_price (mk_asset 7 GBD_SYMBOL) \<lparr>base = mk_asset 3 GBD_SYMBOL, quote = mk_asset 10 GBC_SYMBOL\<rparr>
     = Inr (mk_asset 23 GBC_SYMBOL) \<and>
   asset_times_price (mk_asset 4611686018427387904 GBD_SYMBOL)
       \<lparr>base = mk_asset 1 GBD_SYMBOL, quote = mk_asset 2 GBC_SYMBOL\<rparr>
     = Inr (mk_asset (- 9223372036854775808) GBC_SYMBOL)"
  using asset_times_price_exact[of "mk_asset 7 GBD_SYMBOL" "\<lparr>base = mk_asset 3 GBD_SYMBOL, quote = mk_asset 10 GBC_SYMBOL\<rparr>"]
    asset_times_price_exact[of "mk_asset 4611686018427387904 GBD_SYMBOL"
      "\<lparr>base = mk_asset 1 GBD_SYMBOL, quote = mk_asset 2 GBC_SYMBOL\<rparr>"]
  by (simp add: price_validate_def int64_max_def int64_of_quotient_def)

lemma price_values:
  assumes "price_validate p = Inr ()" "price_validate q = Inr ()" "same_market p q"
    and "amount (base p) \<le> int64_max" "amount (quote p) \<le> int64_max"
    and "amount (base q) \<le> int64_max" "amount (quote q) \<le> int64_max"
  shows "(price_less p q \<longleftrightarrow> amount (quote q) * amount (base p) < amount (quote p) * amount (base q)) \<and>
    (price_le p q \<longleftrightarrow> amount (quote q) * amount (base p) \<le> amount (quote p) * amount (base q)) \<and>
    (price_eq p q \<longleftrightarrow> amount (quote q) * amount (base p) = amount (quote p) * amount (base q))"
proof -
  have pos: "0 < amount (base p)" "0 < amount (quote p)" "0 < amount (base q)" "0 < amount (quote q)"
    using assms(1,2) by (auto simp: price_validate_def)
  let ?A = "uint128 (amount (quote q)) * uint128 (amount (base p))"
  let ?B = "uint128 (amount (quote p)) * uint128 (amount (base q))"
  have u: "uint ?A = amount (quote q) * amount (base p)" "uint ?B = amount (quote p) * amount (base q)"
    using pos assms by (intro uint128_prod; simp)+
  have "?A = ?B \<longleftrightarrow> uint ?A = uint ?B" by (simp only: word_uint_eq_iff)
  then show ?thesis
    using assms(3) u
    by (simp add: price_less_def price_le_def price_eq_def price_mults_def word_less_def word_le_def)
qed

text \<open>
  On two valid prices of the same market the 128-bit comparison of \<^verbatim>\<open>price\<close> is exact: it compares
  the cross products as mathematical integers.
\<close>

theorem price_compare_exact:
  assumes "price_validate p = Inr ()" "price_validate q = Inr ()" "same_market p q"
    and "amount (base p) \<le> int64_max" "amount (quote p) \<le> int64_max"
    and "amount (base q) \<le> int64_max" "amount (quote q) \<le> int64_max"
  shows "(price_less p q \<longleftrightarrow> amount (quote q) * amount (base p) < amount (quote p) * amount (base q)) \<and>
    (price_le p q \<longleftrightarrow> amount (quote q) * amount (base p) \<le> amount (quote p) * amount (base q)) \<and>
    (price_eq p q \<longleftrightarrow> amount (quote q) * amount (base p) = amount (quote p) * amount (base q))"
  by (rule price_values[OF assms])

theorem price_compare_exact_witness:
  "price_less \<lparr>base = mk_asset 1 GBD_SYMBOL, quote = mk_asset 11 GBC_SYMBOL\<rparr>
              \<lparr>base = mk_asset 1 GBD_SYMBOL, quote = mk_asset 10 GBC_SYMBOL\<rparr>"
  using price_compare_exact[of "\<lparr>base = mk_asset 1 GBD_SYMBOL, quote = mk_asset 11 GBC_SYMBOL\<rparr>"
      "\<lparr>base = mk_asset 1 GBD_SYMBOL, quote = mk_asset 10 GBC_SYMBOL\<rparr>"]
  by (simp add: price_validate_def same_market_def int64_max_def)

end
