(* ===== verification/Table.thy ===== *)
theory Table
  imports Prelude
begin

text \<open>
  The object tables of the chain state. A \<open>table\<close> is one \<^verbatim>\<open>generic_index\<close> of
  \<^verbatim>\<open>chainbase.hpp\<close> without its undo stack (the stack is added in theory
  \<open>Chainbase\<close>): the rows in the order of their \<^verbatim>\<open>id\<close>, which is the order of creation, and the
  next free id. An object is found through an index by a predicate on the indexed fields, created
  with the next id unless a unique index already holds the key, modified in place and removed.
  The lemmas say how these operations change the sum of a measure over the rows; the conservation
  theorems of the later theories rest on them, through the locale \<open>keyed_store\<close>.
\<close>

record 'v table =
  next_id :: nat
  rows :: "'v list"

definition empty_table :: "'v table" where
  "empty_table = \<lparr>next_id = 0, rows = []\<rparr>"

fun upd_first :: "('v \<Rightarrow> bool) \<Rightarrow> 'v \<Rightarrow> 'v list \<Rightarrow> 'v list" where
  "upd_first P v' [] = []"
| "upd_first P v' (v # vs) = (if P v then v' # vs else v # upd_first P v' vs)"

fun del_first :: "('v \<Rightarrow> bool) \<Rightarrow> 'v list \<Rightarrow> 'v list" where
  "del_first P [] = []"
| "del_first P (v # vs) = (if P v then vs else v # del_first P vs)"

definition t_find :: "('v \<Rightarrow> bool) \<Rightarrow> 'v table \<Rightarrow> 'v option" where
  "t_find P t = List.find P (rows t)"

definition t_get :: "('v \<Rightarrow> bool) \<Rightarrow> 'v table \<Rightarrow> 'v result" where
  "t_get P t = (case t_find P t of None \<Rightarrow> Inl out_of_range | Some v \<Rightarrow> Inr v)"

text \<open>\<^verbatim>\<open>emplace\<close>: the constructor receives the new id; \<open>clash\<close> compares the keys of the unique indices.\<close>

definition t_create :: "('v \<Rightarrow> 'v \<Rightarrow> bool) \<Rightarrow> (nat \<Rightarrow> 'v) \<Rightarrow> 'v table \<Rightarrow> 'v table result" where
  "t_create clash c t =
     (let v = c (next_id t) in
      if list_ex (clash v) (rows t) then Inl logic_error
      else Inr (t\<lparr>next_id := next_id t + 1, rows := rows t @ [v]\<rparr>))"

definition t_modify :: "('v \<Rightarrow> bool) \<Rightarrow> ('v \<Rightarrow> 'v result) \<Rightarrow> 'v table \<Rightarrow> 'v table result" where
  "t_modify P f t =
     (case t_find P t of None \<Rightarrow> Inl out_of_range
      | Some v \<Rightarrow> bindE (f v) (\<lambda>v'. Inr (t\<lparr>rows := upd_first P v' (rows t)\<rparr>)))"

definition t_remove :: "('v \<Rightarrow> bool) \<Rightarrow> 'v table \<Rightarrow> 'v table" where
  "t_remove P t = t\<lparr>rows := del_first P (rows t)\<rparr>"

definition t_sum :: "('v \<Rightarrow> int) \<Rightarrow> 'v table \<Rightarrow> int" where
  "t_sum g t = sum_list (map g (rows t))"

section \<open>Lookup\<close>

lemma t_get_Inr [simp]: "t_get P t = Inr v \<longleftrightarrow> t_find P t = Some v"
  by (simp add: t_get_def split: option.splits)

lemma t_find_Some: "t_find P t = Some v \<Longrightarrow> P v \<and> v \<in> set (rows t)"
  unfolding t_find_def by (auto simp: find_Some_iff)

lemma t_modify_Inr:
  "t_modify P f t = Inr t' \<longleftrightarrow>
     (\<exists>v v'. t_find P t = Some v \<and> f v = Inr v' \<and> t' = t\<lparr>rows := upd_first P v' (rows t)\<rparr>)"
  by (auto simp: t_modify_def split: option.splits)

lemma t_create_Inr:
  "t_create clash c t = Inr t' \<longleftrightarrow>
     (\<forall>w \<in> set (rows t). \<not> clash (c (next_id t)) w) \<and>
     t' = t\<lparr>next_id := next_id t + 1, rows := rows t @ [c (next_id t)]\<rparr>"
  by (auto simp: t_create_def Let_def list_ex_iff)

lemma find_upd_first_same:
  "List.find P vs = Some v \<Longrightarrow> P v' \<Longrightarrow> List.find P (upd_first P v' vs) = Some v'"
  by (induction vs) (auto split: if_splits)

lemma find_upd_first_other:
  "List.find P vs = Some v \<Longrightarrow> \<not> Q v \<Longrightarrow> \<not> Q v' \<Longrightarrow> List.find Q (upd_first P v' vs) = List.find Q vs"
  by (induction vs) (auto split: if_splits)

lemma find_del_first_other:
  "List.find P vs = Some v \<Longrightarrow> \<not> Q v \<Longrightarrow> List.find Q (del_first P vs) = List.find Q vs"
  by (induction vs) (auto split: if_splits)

lemma t_find_modify_same:
  "t_modify P f t = Inr t' \<Longrightarrow> t_find P t = Some v \<Longrightarrow> f v = Inr v' \<Longrightarrow> P v' \<Longrightarrow> t_find P t' = Some v'"
  by (auto simp: t_modify_Inr t_find_def find_upd_first_same)

lemma t_find_modify_other:
  "t_modify P f t = Inr t' \<Longrightarrow> (\<And>v v'. P v \<Longrightarrow> f v = Inr v' \<Longrightarrow> \<not> Q v \<and> \<not> Q v') \<Longrightarrow>
   t_find Q t' = t_find Q t"
  by (fastforce simp: t_modify_Inr t_find_def dest: t_find_Some[unfolded t_find_def]
      intro: find_upd_first_other)

lemma t_find_remove_other:
  "(\<And>v. P v \<Longrightarrow> \<not> Q v) \<Longrightarrow> t_find Q (t_remove P t) = t_find Q t"
proof -
  assume "\<And>v. P v \<Longrightarrow> \<not> Q v"
  then have "List.find Q (del_first P vs) = List.find Q vs" for vs
    by (induction vs) auto
  then show ?thesis by (simp add: t_find_def t_remove_def)
qed

lemma set_upd_first: "set (upd_first P v' vs) \<subseteq> insert v' (set vs)"
  by (induction vs) auto

lemma set_del_first: "set (del_first P vs) \<subseteq> set vs"
  by (induction vs) auto

section \<open>Sums over a table\<close>

lemma sum_list_upd_first:
  "List.find P vs = Some v \<Longrightarrow>
   sum_list (map g (upd_first P v' vs)) = sum_list (map g vs) - g v + (g v' :: int)"
  by (induction vs) (auto split: if_splits)

lemma sum_list_del_first:
  "List.find P vs = Some v \<Longrightarrow> sum_list (map g (del_first P vs)) = sum_list (map g vs) - (g v :: int)"
  by (induction vs) (auto split: if_splits)

lemma t_sum_empty [simp]: "t_sum g empty_table = 0"
  by (simp add: t_sum_def empty_table_def)

lemma t_sum_modify:
  "t_modify P f t = Inr t' \<Longrightarrow> t_find P t = Some v \<Longrightarrow> f v = Inr v' \<Longrightarrow>
   t_sum g t' = t_sum g t - g v + g v'"
  by (auto simp: t_modify_Inr t_sum_def t_find_def sum_list_upd_first)

lemma t_sum_modify_delta:
  assumes "t_modify P f t = Inr t'" "\<And>v v'. f v = Inr v' \<Longrightarrow> g v' = g v + d"
  shows "t_sum g t' = t_sum g t + d"
  using assms by (auto simp: t_modify_Inr t_sum_def t_find_def sum_list_upd_first)

lemma t_sum_create:
  "t_create clash c t = Inr t' \<Longrightarrow> t_sum g t' = t_sum g t + g (c (next_id t))"
  by (auto simp: t_create_Inr t_sum_def)

lemma t_sum_remove:
  "t_find P t = Some v \<Longrightarrow> t_sum g (t_remove P t) = t_sum g t - g v"
  by (simp add: t_remove_def t_sum_def t_find_def sum_list_del_first)

lemma t_sum_remove_zero:
  assumes "\<And>v. P v \<Longrightarrow> g v = 0"
  shows "t_sum g (t_remove P t) = t_sum g t"
proof -
  have "sum_list (map g (del_first P vs)) = sum_list (map g vs)" for vs
    using assms by (induction vs) auto
  then show ?thesis by (simp add: t_sum_def t_remove_def)
qed

lemma t_sum_nonneg: "(\<And>v. v \<in> set (rows t) \<Longrightarrow> 0 \<le> g v) \<Longrightarrow> 0 \<le> t_sum g t"
  by (auto simp: t_sum_def intro!: sum_list_nonneg)

text \<open>The same facts as destruction rules, for every measure at once.\<close>

lemma t_create_dest:
  "t_create clash c t = Inr t' \<Longrightarrow> \<forall>g. t_sum g t' = t_sum g t + g (c (next_id t))"
  by (auto simp: t_sum_create)

lemma t_modify_dest:
  "t_modify P f t = Inr t' \<Longrightarrow>
     \<exists>v v'. t_find P t = Some v \<and> P v \<and> f v = Inr v' \<and> (P v' \<longrightarrow> t_find P t' = Some v') \<and>
       (\<forall>g. t_sum g t' = t_sum g t - g v + g v')"
  by (auto simp: t_modify_Inr t_sum_def t_find_def sum_list_upd_first find_upd_first_same
      dest: t_find_Some[unfolded t_find_def])

section \<open>Loops over an index\<close>

text \<open>
  The periodic processing of the database has one shape of loop: take the first object of an ordered
  index; stop if there is none or it is not due; process and remove it; start again from the
  beginning. \<open>t_begin\<close> is the first object in the order of the key, \<open>t_due\<close> the same object if it
  is due, and \<open>drain\<close> is the loop with a bound on its rounds. The locale \<open>draining\<close> says when the
  number of objects is enough of a bound: every round must leave fewer objects.
\<close>

definition t_begin :: "('v \<Rightarrow> 'k::linorder) \<Rightarrow> 'v table \<Rightarrow> 'v option" where
  "t_begin key t = (case sort_key key (rows t) of [] \<Rightarrow> None | v # _ \<Rightarrow> Some v)"

definition t_due :: "('v \<Rightarrow> 'k::linorder) \<Rightarrow> ('v \<Rightarrow> bool) \<Rightarrow> 'v table \<Rightarrow> 'v option" where
  "t_due key due t = (case t_begin key t of None \<Rightarrow> None | Some v \<Rightarrow> if due v then Some v else None)"

definition t_size :: "'v table \<Rightarrow> nat" where "t_size t = length (rows t)"

fun drain :: "nat \<Rightarrow> ('s \<Rightarrow> 'r option) \<Rightarrow> ('r \<Rightarrow> 's \<Rightarrow> 's result) \<Rightarrow> 's \<Rightarrow> 's result" where
  "drain 0 nxt step s = Inr s"
| "drain (Suc n) nxt step s = (case nxt s of None \<Rightarrow> Inr s | Some r \<Rightarrow> bindE (step r s) (drain n nxt step))"

lemma t_begin_Some:
  assumes "t_begin key t = Some v"
  shows "v \<in> set (rows t) \<and> (\<forall>w \<in> set (rows t). key v \<le> key w)"
proof -
  obtain vs where vs: "sort_key key (rows t) = v # vs" using assms by (auto simp: t_begin_def split: list.splits)
  have "sorted (map key (v # vs))" using sorted_sort_key[of key "rows t"] vs by metis
  moreover have "set (v # vs) = set (rows t)" using set_sort[of key "rows t"] vs by simp
  ultimately show ?thesis by auto
qed

lemma t_begin_None: "t_begin key t = None \<longleftrightarrow> rows t = []"
proof -
  have "sort_key key (rows t) = [] \<longleftrightarrow> rows t = []" using length_sort[of key "rows t"] by (metis length_0_conv)
  then show ?thesis by (auto simp: t_begin_def split: list.splits)
qed

lemma t_due_Some: "t_due key due t = Some v \<Longrightarrow> v \<in> set (rows t) \<and> due v"
  by (auto simp: t_due_def dest: t_begin_Some split: option.splits if_splits)

lemma t_due_None:
  assumes "t_due key due t = None" "\<And>v w. due w \<Longrightarrow> key v \<le> key w \<Longrightarrow> due v" "v \<in> set (rows t)"
  shows "\<not> due v"
proof (cases "t_begin key t")
  case None
  then show ?thesis using assms(3) by (simp add: t_begin_None)
next
  case (Some u)
  then show ?thesis using assms t_begin_Some[OF Some] by (auto simp: t_due_def split: if_splits)
qed

lemma t_find_self: "v \<in> set (rows t) \<Longrightarrow> t_find (\<lambda>w. w = v) t = Some v"
proof -
  have "v \<in> set vs \<Longrightarrow> List.find (\<lambda>w. w = v) vs = Some v" for vs by (induction vs) auto
  then show "v \<in> set (rows t) \<Longrightarrow> ?thesis" by (simp add: t_find_def)
qed

lemma t_size_remove: "t_find P t = Some v \<Longrightarrow> Suc (t_size (t_remove P t)) = t_size t"
proof -
  have "List.find P vs = Some v \<Longrightarrow> Suc (length (del_first P vs)) = length vs" for vs
    by (induction vs) (auto split: if_splits)
  then show "t_find P t = Some v \<Longrightarrow> ?thesis" by (simp add: t_find_def t_remove_def t_size_def)
qed

lemma drain_invariant:
  assumes "drain n nxt step s = Inr s'" "I s"
    and "\<And>r s s'. nxt s = Some r \<Longrightarrow> step r s = Inr s' \<Longrightarrow> I s \<Longrightarrow> I s'"
  shows "I s'"
  using assms(1,2)
proof (induction n arbitrary: s)
  case (Suc n)
  then show ?case using assms(3) by (auto split: option.splits)
qed simp

locale draining =
  fixes nxt :: "'s \<Rightarrow> 'r option" and step :: "'r \<Rightarrow> 's \<Rightarrow> 's result" and left :: "'s \<Rightarrow> nat"
  assumes step_left: "nxt s = Some r \<Longrightarrow> step r s = Inr s' \<Longrightarrow> left s' < left s"
    and some_left: "nxt s = Some r \<Longrightarrow> 0 < left s"
begin

text \<open>With as many rounds as there are objects the loop stops only because nothing is due.\<close>

lemma drained:
  assumes "left s \<le> n" "drain n nxt step s = Inr s'"
  shows "nxt s' = None"
  using assms
proof (induction n arbitrary: s)
  case 0
  then show ?case using some_left[of s] by (cases "nxt s") auto
next
  case (Suc n)
  show ?case
  proof (cases "nxt s")
    case (Some r)
    then obtain t where "step r s = Inr t" "drain n nxt step t = Inr s'" using Suc.prems(2) by auto
    then show ?thesis using Suc.IH[of t] step_left[OF Some] Suc.prems(1) by fastforce
  qed (use Suc.prems in auto)
qed

text \<open>More rounds do not change the result, so the bound is not part of the behaviour.\<close>

lemma drain_enough:
  assumes "left s \<le> n" "left s \<le> m"
  shows "drain n nxt step s = drain m nxt step s"
  using assms
proof (induction n arbitrary: s m)
  case 0
  then show ?case using some_left[of s] by (cases m; cases "nxt s") auto
next
  case (Suc n)
  show ?case
  proof (cases "nxt s")
    case (Some r)
    then obtain k where m: "m = Suc k" using Suc.prems(2) some_left[OF Some] by (cases m) auto
    have "drain n nxt step t = drain k nxt step t" if "step r s = Inr t" for t
      using Suc.IH[of t k] step_left[OF Some that] Suc.prems m by simp
    then show ?thesis using Some m by (cases "step r s") auto
  qed (cases m; auto)
qed

end

section \<open>Keyed stores\<close>

text \<open>
  What the evaluators rely on when they modify objects found by a unique key: a lookup finds an
  object with that key, an update needs the object and replaces just it, and the sum of any measure
  moves by the change of the one object.
\<close>

locale keyed_store =
  fixes lookup :: "'k \<Rightarrow> 's \<Rightarrow> 'v option"
    and update :: "'k \<Rightarrow> ('v \<Rightarrow> 'v result) \<Rightarrow> 's \<Rightarrow> 's result"
    and key :: "'v \<Rightarrow> 'k"
    and total :: "('v \<Rightarrow> int) \<Rightarrow> 's \<Rightarrow> int"
  assumes lookup_key: "lookup k s = Some v \<Longrightarrow> key v = k"
    and update_found: "update k f s = Inr s' \<Longrightarrow> \<exists>v v'. lookup k s = Some v \<and> f v = Inr v'"
    and update_returns: "lookup k s = Some v \<Longrightarrow> f v = Inr v' \<Longrightarrow> returns (update k f s)"
    and update_missing: "lookup k s = None \<Longrightarrow> update k f s = Inl out_of_range"
    and update_fails: "lookup k s = Some v \<Longrightarrow> f v = Inl e \<Longrightarrow> update k f s = Inl e"
    and lookup_update: "update k f s = Inr s' \<Longrightarrow> lookup k s = Some v \<Longrightarrow> f v = Inr v' \<Longrightarrow> key v' = k \<Longrightarrow>
          lookup k' s' = (if k' = k then Some v' else lookup k' s)"
    and total_update: "update k f s = Inr s' \<Longrightarrow> lookup k s = Some v \<Longrightarrow> f v = Inr v' \<Longrightarrow>
          total g s' = total g s - g v + g v'"
begin

lemma update_delta:
  assumes "update k f s = Inr s'" and "\<And>v v'. key v = k \<Longrightarrow> f v = Inr v' \<Longrightarrow> g v' = g v + d"
  shows "total g s' = total g s + d"
proof -
  from assms(1) obtain v v' where v: "lookup k s = Some v" "f v = Inr v'"
    using update_found by blast
  then show ?thesis using total_update[OF assms(1) v, of g] assms(2) lookup_key by force
qed

text \<open>A debit of one object and a credit of the same size of another (or the same) conserve the sum.\<close>

lemma debit_credit_conserve:
  assumes "update k f s = Inr s1" and "update k' f' s1 = Inr s2"
    and "\<And>v v'. key v = k \<Longrightarrow> f v = Inr v' \<Longrightarrow> g v' = g v - d"
    and "\<And>v v'. key v = k' \<Longrightarrow> f' v = Inr v' \<Longrightarrow> g v' = g v + d"
  shows "total g s2 = total g s"
  using update_delta[OF assms(1), of g "- d"] update_delta[OF assms(2), of g d] assms(3,4) by simp

end

text \<open>
  A table that is a field of a larger state is such a store: \<open>getter\<close> and \<open>putter\<close> are the field's
  selector and update.
\<close>

lemma keyed_field:
  assumes get_put: "\<And>t s. getter (putter t s) = t"
  shows "keyed_store (\<lambda>k s. t_find (\<lambda>v. key v = k) (getter s))
           (\<lambda>k f s. bindE (t_modify (\<lambda>v. key v = k) f (getter s)) (\<lambda>t. Inr (putter t s)))
           key (\<lambda>g s. t_sum g (getter s))"
proof (unfold_locales, goal_cases)
  case (1 k s v)
  then show ?case using t_find_Some by fastforce
next
  case (6 k f s s' v v' k')
  then show ?case using t_find_Some[OF 6(2)]
    by (auto simp: t_modify_Inr t_find_def find_upd_first_same find_upd_first_other get_put)
qed (auto simp: t_modify_def returns_iff t_sum_def t_find_def sum_list_upd_first get_put split: option.splits)

end
