(* ===== verification/Objects.thy ===== *)
theory Objects
  imports Asset Table "HOL-Library.List_Lexorder" "HOL-Library.Char_ord" "HOL-Library.Product_Lexorder"
begin

text \<open>
  The objects of the chain state (src/libraries/chain/include/gamebank/chain/*_object.hpp) as
  records, one field per member that the modelled code reads or writes, and the \<open>database\<close> record
  that holds one table per \<^verbatim>\<open>multi_index_container\<close>. An object's \<^verbatim>\<open>id\<close> is the order of its row in the
  table; it is a field only where another object refers to it. The order of a secondary index is
  computed by sorting the rows by the key (\<open>sort_key\<close> is stable, so ties keep the id order).

  A time is its number of seconds in 32 bits. A sum \<^verbatim>\<open>time_point_sec + microseconds\<close> is a 64-bit
  \<^verbatim>\<open>time_point\<close>: it is compared without wrap-around (\<open>secs\<close>) and wraps only when it is stored
  back into a \<^verbatim>\<open>time_point_sec\<close> (\<open>plus_secs\<close>).
\<close>

type_synonym account_name_type = string
type_synonym time_point_sec = "32 word"
type_synonym share_type = int
type_synonym public_key_type = string
type_synonym block_id_type = "160 word"

abbreviation secs :: "time_point_sec \<Rightarrow> int" where "secs \<equiv> uint"

abbreviation plus_secs :: "time_point_sec \<Rightarrow> int \<Rightarrow> time_point_sec" where
  "plus_secs t d \<equiv> t + word_of_int d"

abbreviation time_maximum :: time_point_sec where "time_maximum \<equiv> 0xFFFFFFFF"

abbreviation GBC :: "int \<Rightarrow> asset" where "GBC n \<equiv> mk_asset n GBC_SYMBOL"
abbreviation GBD :: "int \<Rightarrow> asset" where "GBD n \<equiv> mk_asset n GBD_SYMBOL"
abbreviation GBS :: "int \<Rightarrow> asset" where "GBS n \<equiv> mk_asset n GBS_SYMBOL"

section \<open>Accounts\<close>

record authority =
  weight_threshold :: "32 word"
  account_auths :: "(account_name_type \<times> 16 word) list"
  key_auths :: "(public_key_type \<times> 16 word) list"

record account_object =
  a_id :: nat
  a_name :: account_name_type
  a_memo_key :: public_key_type
  a_json_metadata :: string
  a_proxy :: account_name_type
  a_last_account_update :: time_point_sec
  a_created :: time_point_sec
  a_mined :: bool
  a_recovery_account :: account_name_type
  a_reset_account :: account_name_type
  a_last_account_recovery :: time_point_sec
  a_comment_count :: "32 word"
  a_lifetime_vote_count :: "32 word"
  a_post_count :: "32 word"
  a_can_vote :: bool
  a_voting_power :: "16 word"
  a_last_vote_time :: time_point_sec
  a_balance :: asset
  a_savings_balance :: asset
  a_gbd_balance :: asset
  a_gbd_seconds :: "128 word"
  a_gbd_seconds_last_update :: time_point_sec
  a_gbd_last_interest_payment :: time_point_sec
  a_savings_gbd_balance :: asset
  a_savings_gbd_seconds :: "128 word"
  a_savings_gbd_seconds_last_update :: time_point_sec
  a_savings_gbd_last_interest_payment :: time_point_sec
  a_savings_withdraw_requests :: "8 word"
  a_reward_gbd_balance :: asset
  a_reward_gbc_balance :: asset
  a_reward_vesting_balance :: asset
  a_reward_vesting_gbc :: asset
  a_curation_rewards :: share_type
  a_posting_rewards :: share_type
  a_vesting_shares :: asset
  a_delegated_vesting_shares :: asset
  a_received_vesting_shares :: asset
  a_vesting_withdraw_rate :: asset
  a_next_vesting_withdrawal :: time_point_sec
  a_withdrawn :: share_type
  a_to_withdraw :: share_type
  a_withdraw_routes :: "16 word"
  a_proxied_vsf_votes :: "share_type list"
  a_witnesses_voted_for :: "16 word"
  a_last_post :: time_point_sec
  a_last_root_post :: time_point_sec
  a_post_bandwidth :: "32 word"
  a_pending_claimed_accounts :: share_type
  a_last_crowdfunding_expire :: time_point_sec
  a_crowdfunding_count :: "32 word"

definition GAMEBANK_NULL_ACCOUNT :: account_name_type where "GAMEBANK_NULL_ACCOUNT = ''null''"

definition new_account :: "nat \<Rightarrow> account_object" where
  "new_account i =
    \<lparr>a_id = i, a_name = '''', a_memo_key = '''', a_json_metadata = '''', a_proxy = '''',
     a_last_account_update = 0, a_created = 0, a_mined = True, a_recovery_account = '''',
     a_reset_account = GAMEBANK_NULL_ACCOUNT, a_last_account_recovery = 0, a_comment_count = 0,
     a_lifetime_vote_count = 0, a_post_count = 0, a_can_vote = True, a_voting_power = 10000,
     a_last_vote_time = 0, a_balance = GBC 0, a_savings_balance = GBC 0, a_gbd_balance = GBD 0,
     a_gbd_seconds = 0, a_gbd_seconds_last_update = 0, a_gbd_last_interest_payment = 0,
     a_savings_gbd_balance = GBD 0, a_savings_gbd_seconds = 0, a_savings_gbd_seconds_last_update = 0,
     a_savings_gbd_last_interest_payment = 0, a_savings_withdraw_requests = 0,
     a_reward_gbd_balance = GBD 0, a_reward_gbc_balance = GBC 0, a_reward_vesting_balance = GBS 0,
     a_reward_vesting_gbc = GBC 0, a_curation_rewards = 0, a_posting_rewards = 0,
     a_vesting_shares = GBS 0, a_delegated_vesting_shares = GBS 0, a_received_vesting_shares = GBS 0,
     a_vesting_withdraw_rate = GBS 0, a_next_vesting_withdrawal = time_maximum, a_withdrawn = 0,
     a_to_withdraw = 0, a_withdraw_routes = 0, a_proxied_vsf_votes = [0, 0, 0, 0],
     a_witnesses_voted_for = 0, a_last_post = 0, a_last_root_post = 0, a_post_bandwidth = 0,
     a_pending_claimed_accounts = 0, a_last_crowdfunding_expire = 0, a_crowdfunding_count = 0\<rparr>"

text \<open>\<^verbatim>\<open>std::accumulate\<close> over the proxied votes, with the checked addition of \<^verbatim>\<open>share_type\<close>.\<close>

definition witness_vote_weight :: "account_object \<Rightarrow> share_type result" where
  "witness_vote_weight a = foldE (\<lambda>v acc. safe_add acc v) (a_proxied_vsf_votes a) (amount (a_vesting_shares a))"

definition proxied_vsf_votes_total :: "account_object \<Rightarrow> share_type result" where
  "proxied_vsf_votes_total a = foldE (\<lambda>v acc. safe_add acc v) (a_proxied_vsf_votes a) 0"

record account_authority_object =
  auth_account :: account_name_type
  auth_owner :: authority
  auth_active :: authority
  auth_posting :: authority
  auth_last_owner_update :: time_point_sec

record vesting_delegation_object =
  del_delegator :: account_name_type
  del_delegatee :: account_name_type
  del_vesting_shares :: asset
  del_min_delegation_time :: time_point_sec

record vesting_delegation_expiration_object =
  dex_delegator :: account_name_type
  dex_vesting_shares :: asset
  dex_expiration :: time_point_sec

record owner_authority_history_object =
  oah_account :: account_name_type
  oah_previous_owner_authority :: authority
  oah_last_valid_time :: time_point_sec

record account_recovery_request_object =
  arr_account_to_recover :: account_name_type
  arr_new_owner_authority :: authority
  arr_expires :: time_point_sec

record change_recovery_account_request_object =
  cra_account_to_recover :: account_name_type
  cra_recovery_account :: account_name_type
  cra_effective_on :: time_point_sec

section \<open>Funds in transit\<close>

record convert_request_object =
  cr_owner :: account_name_type
  cr_requestid :: "32 word"
  cr_amount :: asset
  cr_conversion_date :: time_point_sec

record escrow_object =
  esc_escrow_id :: "32 word"
  esc_from :: account_name_type
  esc_to :: account_name_type
  esc_agent :: account_name_type
  esc_ratification_deadline :: time_point_sec
  esc_escrow_expiration :: time_point_sec
  esc_gbd_balance :: asset
  esc_gbc_balance :: asset
  esc_pending_fee :: asset
  esc_to_approved :: bool
  esc_agent_approved :: bool
  esc_disputed :: bool

definition is_approved :: "escrow_object \<Rightarrow> bool" where
  "is_approved e \<longleftrightarrow> esc_to_approved e \<and> esc_agent_approved e"

record savings_withdraw_object =
  sw_from :: account_name_type
  sw_to :: account_name_type
  sw_memo :: string
  sw_request_id :: "32 word"
  sw_amount :: asset
  sw_complete :: time_point_sec

record liquidity_reward_balance_object =
  lr_owner :: nat
  lr_gbc_volume :: "64 word"
  lr_gbd_volume :: "64 word"
  lr_weight :: "128 word"
  lr_last_update :: time_point_sec

record feed_history_object =
  fh_current_median_history :: price
  fh_price_history :: "price list"

record limit_order_object =
  lo_id :: nat
  lo_created :: time_point_sec
  lo_expiration :: time_point_sec
  lo_seller :: account_name_type
  lo_orderid :: "32 word"
  lo_for_sale :: share_type
  lo_sell_price :: price

definition amount_for_sale :: "limit_order_object \<Rightarrow> asset" where
  "amount_for_sale ord = mk_asset (lo_for_sale ord) (symbol (base (lo_sell_price ord)))"

definition amount_to_receive :: "limit_order_object \<Rightarrow> asset result" where
  "amount_to_receive ord = asset_times_price (amount_for_sale ord) (lo_sell_price ord)"

record withdraw_vesting_route_object =
  wr_from_account :: account_name_type
  wr_to_account :: account_name_type
  wr_percent :: "16 word"
  wr_auto_vest :: bool

record decline_voting_rights_request_object =
  dv_account :: account_name_type
  dv_effective_date :: time_point_sec

datatype curve_id = quadratic | quadratic_curation | linear | square_root

record reward_fund_object =
  rf_name :: string
  rf_reward_balance :: asset
  rf_recent_claims :: "128 word"
  rf_last_update :: time_point_sec
  rf_content_constant :: "128 word"
  rf_percent_curation_rewards :: "16 word"
  rf_percent_content_rewards :: "16 word"
  rf_author_reward_curve :: curve_id
  rf_curation_reward_curve :: curve_id

section \<open>Witnesses\<close>

record chain_properties =
  cp_account_creation_fee :: asset
  cp_maximum_block_size :: "32 word"
  cp_gbd_interest_rate :: "16 word"
  cp_account_subsidy_limit :: "32 word"

datatype witness_schedule_type = top19 | timeshare | miner | none

type_synonym version = "32 word"

record witness_object =
  w_owner :: account_name_type
  w_created :: time_point_sec
  w_url :: string
  w_total_missed :: "32 word"
  w_last_aslot :: "64 word"
  w_last_confirmed_block_num :: "64 word"
  w_pow_worker :: "64 word"
  w_signing_key :: public_key_type
  w_props :: chain_properties
  w_gbd_exchange_rate :: price
  w_last_gbd_exchange_update :: time_point_sec
  w_votes :: share_type
  w_schedule :: witness_schedule_type
  w_virtual_last_update :: "128 word"
  w_virtual_position :: "128 word"
  w_virtual_scheduled_time :: "128 word"
  w_running_version :: version
  w_hardfork_version_vote :: version
  w_hardfork_time_vote :: time_point_sec

record witness_vote_object =
  wv_witness :: account_name_type
  wv_account :: account_name_type

record witness_schedule_object =
  ws_current_virtual_time :: "128 word"
  ws_next_shuffle_block_num :: "32 word"
  ws_current_shuffled_witnesses :: "account_name_type list"
  ws_num_scheduled_witnesses :: "8 word"
  ws_top19_weight :: "8 word"
  ws_timeshare_weight :: "8 word"
  ws_miner_weight :: "8 word"
  ws_witness_pay_normalization_factor :: "32 word"
  ws_median_props :: chain_properties
  ws_majority_version :: version
  ws_max_voted_witnesses :: "8 word"
  ws_max_miner_witnesses :: "8 word"
  ws_max_runner_witnesses :: "8 word"
  ws_hardfork_required_witnesses :: "8 word"

section \<open>Comments\<close>

record beneficiary_route_type =
  br_account :: account_name_type
  br_weight :: "16 word"

record comment_object =
  c_id :: nat
  c_category :: string
  c_parent_author :: account_name_type
  c_parent_permlink :: string
  c_author :: account_name_type
  c_permlink :: string
  c_game_name :: string
  c_last_update :: time_point_sec
  c_created :: time_point_sec
  c_active :: time_point_sec
  c_last_payout :: time_point_sec
  c_depth :: "16 word"
  c_children :: "32 word"
  c_net_rshares :: share_type
  c_abs_rshares :: share_type
  c_vote_rshares :: share_type
  c_children_abs_rshares :: share_type
  c_cashout_time :: time_point_sec
  c_max_cashout_time :: time_point_sec
  c_total_vote_weight :: "64 word"
  c_reward_weight :: "16 word"
  c_total_payout_value :: asset
  c_curator_payout_value :: asset
  c_beneficiary_payout_value :: asset
  c_author_rewards :: share_type
  c_net_votes :: "32 word"
  c_root_comment :: nat
  c_max_accepted_payout :: asset
  c_percent_gamebank_dollars :: "16 word"
  c_allow_replies :: bool
  c_allow_votes :: bool
  c_allow_curation_rewards :: bool
  c_beneficiaries :: "beneficiary_route_type list"

record comment_content_object =
  cc_comment :: nat
  cc_title :: string
  cc_body :: string
  cc_json_metadata :: string

record comment_vote_object =
  cv_voter :: nat
  cv_comment :: nat
  cv_weight :: "64 word"
  cv_rshares :: int
  cv_vote_percent :: "16 word"
  cv_last_update :: time_point_sec
  cv_num_changes :: "8 word"

section \<open>Crowdfunding, non-fungible funds, contracts\<close>

record crowdfunding_object =
  cf_id :: nat
  cf_originator :: account_name_type
  cf_permlink :: string
  cf_created :: time_point_sec
  cf_expire :: time_point_sec
  cf_last_raise :: time_point_sec
  cf_total_raise_value :: asset
  cf_curator_raise_value :: asset
  cf_finish :: "32 word"

record crowdfunding_content_object =
  cfc_crowdfunding :: nat
  cfc_title :: string
  cfc_body :: string
  cfc_json_metadata :: string

record crowdfunding_invest_object =
  inv_invester :: account_name_type
  inv_crowdfunding :: nat
  inv_expire :: time_point_sec
  inv_last_update :: time_point_sec
  inv_raise :: asset

record nonfungible_fund_object =
  nf_id :: nat
  nf_creator :: account_name_type
  nf_owner :: account_name_type
  nf_meta_data :: string
  nf_creator_sign :: string
  nf_last_update :: time_point_sec
  nf_created :: time_point_sec

record nonfungible_fund_on_sale_object =
  ns_fund_id :: int
  ns_created :: time_point_sec
  ns_expiration :: time_point_sec
  ns_seller :: account_name_type
  ns_selling_price :: asset

record contract_object =
  ct_name :: account_name_type
  ct_creator :: account_name_type
  ct_code :: string
  ct_abi :: string
  ct_balance :: asset
  ct_last_update :: time_point_sec
  ct_created :: time_point_sec

record contract_user_object =
  cu_contract_name :: account_name_type
  cu_user_name :: account_name_type
  cu_data :: string
  cu_last_update :: time_point_sec
  cu_created :: time_point_sec

section \<open>Global objects and the database\<close>

record dynamic_global_property_object =
  head_block_number :: "32 word"
  head_block_id :: block_id_type
  dgp_time :: time_point_sec
  current_witness :: account_name_type
  total_pow :: "64 word"
  num_pow_witnesses :: "32 word"
  virtual_supply :: asset
  current_supply :: asset
  confidential_supply :: asset
  current_gbd_supply :: asset
  confidential_gbd_supply :: asset
  total_vesting_fund_gbc :: asset
  total_vesting_shares :: asset
  total_reward_fund_gbc :: asset
  total_reward_shares2 :: "128 word"
  pending_rewarded_vesting_shares :: asset
  pending_rewarded_vesting_gbc :: asset
  gbd_interest_rate :: "16 word"
  gbd_print_rate :: "16 word"
  maximum_block_size :: "32 word"
  current_aslot :: "64 word"
  recent_slots_filled :: "128 word"
  participation_count :: "8 word"
  last_irreversible_block_num :: "32 word"
  vote_power_reserve_rate :: "32 word"
  delegation_return_period :: "32 word"

definition get_vesting_share_price :: "dynamic_global_property_object \<Rightarrow> price result" where
  "get_vesting_share_price d =
     (if amount (total_vesting_fund_gbc d) = 0 \<or> amount (total_vesting_shares d) = 0
      then mk_price (GBC 1000) (GBS 1000000)
      else mk_price (total_vesting_shares d) (total_vesting_fund_gbc d))"

definition get_reward_vesting_share_price :: "dynamic_global_property_object \<Rightarrow> price result" where
  "get_reward_vesting_share_price d =
     bindE (asset_add (total_vesting_shares d) (pending_rewarded_vesting_shares d)) (\<lambda>b.
     bindE (asset_add (total_vesting_fund_gbc d) (pending_rewarded_vesting_gbc d)) (\<lambda>q.
       mk_price b q))"

record hardfork_property_object =
  hf_processed_hardforks :: "time_point_sec list"
  hf_last_hardfork :: "32 word"
  hf_current_hardfork_version :: version
  hf_next_hardfork :: version
  hf_next_hardfork_time :: time_point_sec

record database =
  accounts :: "account_object table"
  account_authorities :: "account_authority_object table"
  vesting_delegations :: "vesting_delegation_object table"
  delegation_expirations :: "vesting_delegation_expiration_object table"
  owner_histories :: "owner_authority_history_object table"
  recovery_requests :: "account_recovery_request_object table"
  change_recovery_requests :: "change_recovery_account_request_object table"
  convert_requests :: "convert_request_object table"
  escrows :: "escrow_object table"
  savings_withdraws :: "savings_withdraw_object table"
  liquidity_rewards :: "liquidity_reward_balance_object table"
  limit_orders :: "limit_order_object table"
  withdraw_routes :: "withdraw_vesting_route_object table"
  decline_requests :: "decline_voting_rights_request_object table"
  reward_funds :: "reward_fund_object table"
  witnesses :: "witness_object table"
  witness_votes :: "witness_vote_object table"
  comments :: "comment_object table"
  comment_contents :: "comment_content_object table"
  comment_votes :: "comment_vote_object table"
  crowdfundings :: "crowdfunding_object table"
  crowdfunding_contents :: "crowdfunding_content_object table"
  crowdfunding_invests :: "crowdfunding_invest_object table"
  nonfungible_funds :: "nonfungible_fund_object table"
  nonfungible_on_sale :: "nonfungible_fund_on_sale_object table"
  contracts :: "contract_object table"
  contract_users :: "contract_user_object table"
  feed_history :: feed_history_object
  witness_schedule :: witness_schedule_object
  hardfork_property :: hardfork_property_object
  dgpo :: dynamic_global_property_object

end
