(* ===== verification/Balance.thy ===== *)
theory Balance
  imports Objects
begin

unbundle bit_operations_syntax

text \<open>
  The balance and supply primitives of src/libraries/chain/database.cpp: lookup of accounts and
  witnesses, \<^verbatim>\<open>modify_balance\<close> with the GBD interest it pays, the savings, reward and contract
  balances, \<^verbatim>\<open>adjust_supply\<close>, the propagation of vesting changes to witness votes, \<^verbatim>\<open>create_vesting\<close>
  and \<^verbatim>\<open>create_gbd\<close>, and the burning of the null account's funds. An account reference of the code
  is the account's name here, which identifies its row. Virtual operations are notifications to
  plugins and are not modelled.

  The measure of this theory is \<open>gap\<close>: for each ledger, the supply recorded in the global
  properties minus everything that is held, the difference that \<^verbatim>\<open>validate_invariants\<close> requires to be
  zero. Every primitive has a lemma that says how it moves each gap.
\<close>

section \<open>Lookup\<close>

definition find_account :: "account_name_type \<Rightarrow> database \<Rightarrow> account_object option" where
  "find_account n db = t_find (\<lambda>a. a_name a = n) (accounts db)"

definition get_account :: "account_name_type \<Rightarrow> database \<Rightarrow> account_object result" where
  "get_account n db = t_get (\<lambda>a. a_name a = n) (accounts db)"

definition modify_account ::
    "account_name_type \<Rightarrow> (account_object \<Rightarrow> account_object result) \<Rightarrow> database \<Rightarrow> database result" where
  "modify_account n f db =
     bindE (t_modify (\<lambda>a. a_name a = n) f (accounts db)) (\<lambda>t. Inr (db\<lparr>accounts := t\<rparr>))"

definition find_witness :: "account_name_type \<Rightarrow> database \<Rightarrow> witness_object option" where
  "find_witness n db = t_find (\<lambda>w. w_owner w = n) (witnesses db)"

definition get_witness :: "account_name_type \<Rightarrow> database \<Rightarrow> witness_object result" where
  "get_witness n db = t_get (\<lambda>w. w_owner w = n) (witnesses db)"

definition modify_witness ::
    "account_name_type \<Rightarrow> (witness_object \<Rightarrow> witness_object result) \<Rightarrow> database \<Rightarrow> database result" where
  "modify_witness n f db =
     bindE (t_modify (\<lambda>w. w_owner w = n) f (witnesses db)) (\<lambda>t. Inr (db\<lparr>witnesses := t\<rparr>))"

definition get_contract :: "account_name_type \<Rightarrow> database \<Rightarrow> contract_object result" where
  "get_contract n db = t_get (\<lambda>c. ct_name c = n) (contracts db)"

definition modify_dgpo ::
    "(dynamic_global_property_object \<Rightarrow> dynamic_global_property_object result) \<Rightarrow> database \<Rightarrow> database result" where
  "modify_dgpo f db = bindE (f (dgpo db)) (\<lambda>d. Inr (db\<lparr>dgpo := d\<rparr>))"

abbreviation head_block_time :: "database \<Rightarrow> time_point_sec" where
  "head_block_time db \<equiv> dgp_time (dgpo db)"

abbreviation head_block_num :: "database \<Rightarrow> 32 word" where
  "head_block_num db \<equiv> head_block_number (dgpo db)"

definition has_hardfork :: "nat \<Rightarrow> database \<Rightarrow> bool" where
  "has_hardfork hardfork db \<longleftrightarrow> length (hf_processed_hardforks (hardfork_property db)) > hardfork"

definition GAMEBANK_HARDFORK_0_1 :: nat where "GAMEBANK_HARDFORK_0_1 = 1"

abbreviation median_price :: "database \<Rightarrow> price" where
  "median_price db \<equiv> fh_current_median_history (feed_history db)"

section \<open>Balances\<close>

definition GAMEBANK_SECONDS_PER_YEAR :: "128 word" where "GAMEBANK_SECONDS_PER_YEAR = 31536000"
definition GAMEBANK_GBD_INTEREST_COMPOUND_INTERVAL_SEC :: int where
  "GAMEBANK_GBD_INTEREST_COMPOUND_INTERVAL_SEC = 2592000"

text \<open>The interest due on accumulated dollar seconds, in 128-bit arithmetic.\<close>

definition gbd_interest :: "128 word \<Rightarrow> 16 word \<Rightarrow> asset result" where
  "gbd_interest gbd_seconds rate =
     (let interest = (gbd_seconds div GAMEBANK_SECONDS_PER_YEAR) * ucast rate div 10000 in
      fc_assert (drop_bit 64 interest = 0) (Inr (GBD (narrow_int64 interest))))"

definition pay_interest_supply :: "asset \<Rightarrow> database \<Rightarrow> database result" where
  "pay_interest_supply interest_paid db =
     modify_dgpo (\<lambda>p.
       bindE (asset_add (current_gbd_supply p) interest_paid) (\<lambda>gs.
       bindE (asset_times_price interest_paid (median_price db)) (\<lambda>v.
       bindE (asset_add (virtual_supply p) v) (\<lambda>vs.
         Inr (p\<lparr>current_gbd_supply := gs, virtual_supply := vs\<rparr>))))) db"

text \<open>The interest branch of \<^verbatim>\<open>modify_balance\<close>: the account with its dollar seconds brought up to date.\<close>

definition accrue_gbd :: "account_object \<Rightarrow> database \<Rightarrow> (account_object \<times> database) result" where
  "accrue_gbd a db =
     (if a_gbd_seconds_last_update a \<noteq> head_block_time db then
        let gs = a_gbd_seconds a + uint128 (amount (a_gbd_balance a)) *
                   word_of_int (secs (head_block_time db) - secs (a_gbd_seconds_last_update a));
            acnt = a\<lparr>a_gbd_seconds := gs, a_gbd_seconds_last_update := head_block_time db\<rparr>
        in if gs > 0 \<and> secs (head_block_time db) - secs (a_gbd_last_interest_payment acnt)
                         > GAMEBANK_GBD_INTEREST_COMPOUND_INTERVAL_SEC
           then bindE (gbd_interest gs (gbd_interest_rate (dgpo db))) (\<lambda>interest_paid.
                bindE (asset_add (a_gbd_balance acnt) interest_paid) (\<lambda>b.
                bindE (pay_interest_supply interest_paid db) (\<lambda>db'.
                  Inr (acnt\<lparr>a_gbd_balance := b, a_gbd_seconds := 0,
                            a_gbd_last_interest_payment := head_block_time db\<rparr>, db'))))
           else Inr (acnt, db)
      else Inr (a, db))"

definition accrue_savings_gbd :: "account_object \<Rightarrow> database \<Rightarrow> (account_object \<times> database) result" where
  "accrue_savings_gbd a db =
     (if a_savings_gbd_seconds_last_update a \<noteq> head_block_time db then
        let gs = a_savings_gbd_seconds a + uint128 (amount (a_savings_gbd_balance a)) *
                   word_of_int (secs (head_block_time db) - secs (a_savings_gbd_seconds_last_update a));
            acnt = a\<lparr>a_savings_gbd_seconds := gs, a_savings_gbd_seconds_last_update := head_block_time db\<rparr>
        in if gs > 0 \<and> secs (head_block_time db) - secs (a_savings_gbd_last_interest_payment acnt)
                         > GAMEBANK_GBD_INTEREST_COMPOUND_INTERVAL_SEC
           then bindE (gbd_interest gs (gbd_interest_rate (dgpo db))) (\<lambda>interest_paid.
                bindE (asset_add (a_savings_gbd_balance acnt) interest_paid) (\<lambda>b.
                bindE (pay_interest_supply interest_paid db) (\<lambda>db'.
                  Inr (acnt\<lparr>a_savings_gbd_balance := b, a_savings_gbd_seconds := 0,
                            a_savings_gbd_last_interest_payment := head_block_time db\<rparr>, db'))))
           else Inr (acnt, db)
      else Inr (a, db))"

definition modify_balance :: "account_name_type \<Rightarrow> asset \<Rightarrow> bool \<Rightarrow> database \<Rightarrow> database result" where
  "modify_balance n delta check_balance db =
     bindE (get_account n db) (\<lambda>a.
      if symbol delta = GBC_SYMBOL then
        bindE (asset_add (a_balance a) delta) (\<lambda>b.
          fc_assert (check_balance \<longrightarrow> amount b \<ge> 0)
           (modify_account n (\<lambda>acnt. Inr (acnt\<lparr>a_balance := b\<rparr>)) db))
      else if symbol delta = GBD_SYMBOL then
        bindE (accrue_gbd a db) (\<lambda>(a', db').
        bindE (asset_add (a_gbd_balance a') delta) (\<lambda>b.
          fc_assert (check_balance \<longrightarrow> amount b \<ge> 0)
           (modify_account n (\<lambda>_. Inr (a'\<lparr>a_gbd_balance := b\<rparr>)) db')))
      else if symbol delta = GBS_SYMBOL then
        bindE (asset_add (a_vesting_shares a) delta) (\<lambda>b.
          fc_assert (check_balance \<longrightarrow> amount b \<ge> 0)
           (modify_account n (\<lambda>acnt. Inr (acnt\<lparr>a_vesting_shares := b\<rparr>)) db))
      else Inl assert_exception)"

definition modify_reward_balance ::
    "account_name_type \<Rightarrow> asset \<Rightarrow> asset \<Rightarrow> bool \<Rightarrow> database \<Rightarrow> database result" where
  "modify_reward_balance n value_delta share_delta check_balance db =
     modify_account n (\<lambda>acnt.
      if symbol value_delta = GBC_SYMBOL then
        if amount share_delta = 0 then
          bindE (asset_add (a_reward_gbc_balance acnt) value_delta) (\<lambda>b.
            fc_assert (check_balance \<longrightarrow> amount b \<ge> 0) (Inr (acnt\<lparr>a_reward_gbc_balance := b\<rparr>)))
        else
          bindE (asset_add (a_reward_vesting_gbc acnt) value_delta) (\<lambda>v.
          bindE (asset_add (a_reward_vesting_balance acnt) share_delta) (\<lambda>b.
            fc_assert (check_balance \<longrightarrow> amount b \<ge> 0)
              (Inr (acnt\<lparr>a_reward_vesting_gbc := v, a_reward_vesting_balance := b\<rparr>))))
      else if symbol value_delta = GBD_SYMBOL then
        fc_assert (amount share_delta = 0)
        (bindE (asset_add (a_reward_gbd_balance acnt) value_delta) (\<lambda>b.
           fc_assert (check_balance \<longrightarrow> amount b \<ge> 0) (Inr (acnt\<lparr>a_reward_gbd_balance := b\<rparr>))))
      else Inl assert_exception) db"

definition adjust_balance :: "account_name_type \<Rightarrow> asset \<Rightarrow> database \<Rightarrow> database result" where
  "adjust_balance n delta db = modify_balance n delta (has_hardfork GAMEBANK_HARDFORK_0_1 db) db"

definition adjust_savings_balance :: "account_name_type \<Rightarrow> asset \<Rightarrow> database \<Rightarrow> database result" where
  "adjust_savings_balance n delta db =
     (let check_balance = has_hardfork GAMEBANK_HARDFORK_0_1 db in
      bindE (get_account n db) (\<lambda>a.
      if symbol delta = GBC_SYMBOL then
        bindE (asset_add (a_savings_balance a) delta) (\<lambda>b.
          fc_assert (check_balance \<longrightarrow> amount b \<ge> 0)
           (modify_account n (\<lambda>acnt. Inr (acnt\<lparr>a_savings_balance := b\<rparr>)) db))
      else if symbol delta = GBD_SYMBOL then
        bindE (accrue_savings_gbd a db) (\<lambda>(a', db').
        bindE (asset_add (a_savings_gbd_balance a') delta) (\<lambda>b.
          fc_assert (check_balance \<longrightarrow> amount b \<ge> 0)
           (modify_account n (\<lambda>_. Inr (a'\<lparr>a_savings_gbd_balance := b\<rparr>)) db')))
      else Inl assert_exception))"

definition adjust_contract_balance :: "account_name_type \<Rightarrow> asset \<Rightarrow> database \<Rightarrow> database result" where
  "adjust_contract_balance n delta db =
     bindE (t_modify (\<lambda>c. ct_name c = n) (\<lambda>cot.
        if symbol delta = GBC_SYMBOL then
          bindE (asset_add (ct_balance cot) delta) (\<lambda>b. Inr (cot\<lparr>ct_balance := b\<rparr>))
        else Inl assert_exception) (contracts db)) (\<lambda>t. Inr (db\<lparr>contracts := t\<rparr>))"

definition adjust_reward_balance :: "account_name_type \<Rightarrow> asset \<Rightarrow> asset \<Rightarrow> database \<Rightarrow> database result" where
  "adjust_reward_balance n value_delta share_delta db =
     bindE (is_vesting (symbol value_delta)) (\<lambda>v.
     bindE (if v then Inr False else is_vesting (symbol share_delta)) (\<lambda>s.
      fc_assert s
       (modify_reward_balance n value_delta share_delta (has_hardfork GAMEBANK_HARDFORK_0_1 db) db)))"

definition adjust_supply :: "asset \<Rightarrow> bool \<Rightarrow> database \<Rightarrow> database result" where
  "adjust_supply delta adjust_vesting db =
     (let check_supply = has_hardfork GAMEBANK_HARDFORK_0_1 db;
          adjust_vesting = (if unat (head_block_num db) < 28800 * 7 then False else adjust_vesting)
      in modify_dgpo (\<lambda>p.
        if symbol delta = GBC_SYMBOL then
          bindE (if adjust_vesting \<and> amount delta > 0 then safe_mul (amount delta) 9 else Inr 0) (\<lambda>nv.
          bindE (asset_add delta (GBC nv)) (\<lambda>d.
          bindE (asset_add (current_supply p) d) (\<lambda>cs.
          bindE (asset_add (virtual_supply p) d) (\<lambda>vs.
          bindE (asset_add (total_vesting_fund_gbc p) (GBC nv)) (\<lambda>vf.
            fc_assert (check_supply \<longrightarrow> amount cs \<ge> 0)
              (Inr (p\<lparr>current_supply := cs, virtual_supply := vs, total_vesting_fund_gbc := vf\<rparr>)))))))
        else if symbol delta = GBD_SYMBOL then
          bindE (asset_add (current_gbd_supply p) delta) (\<lambda>gs.
          bindE (asset_times_price gs (median_price db)) (\<lambda>v.
          bindE (asset_add v (current_supply p)) (\<lambda>vs.
            fc_assert (check_supply \<longrightarrow> amount gs \<ge> 0)
              (Inr (p\<lparr>current_gbd_supply := gs, virtual_supply := vs\<rparr>)))))
        else Inl assert_exception) db)"

definition get_balance :: "account_object \<Rightarrow> asset_symbol_type \<Rightarrow> asset result" where
  "get_balance a s =
     (if s = GBC_SYMBOL then Inr (a_balance a)
      else if s = GBD_SYMBOL then Inr (a_gbd_balance a)
      else Inl assert_exception)"

definition get_savings_balance :: "account_object \<Rightarrow> asset_symbol_type \<Rightarrow> asset result" where
  "get_savings_balance a s =
     (if s = GBC_SYMBOL then Inr (a_savings_balance a)
      else if s = GBD_SYMBOL then Inr (a_savings_gbd_balance a)
      else Inl assert_exception)"

definition get_contract_balance :: "account_name_type \<Rightarrow> asset_symbol_type \<Rightarrow> database \<Rightarrow> asset result" where
  "get_contract_balance n s db =
     bindE (get_contract n db) (\<lambda>c. if s = GBC_SYMBOL then Inr (ct_balance c) else Inl assert_exception)"

section \<open>Witness votes and vesting\<close>

definition GAMEBANK_MAX_PROXY_RECURSION_DEPTH :: nat where "GAMEBANK_MAX_PROXY_RECURSION_DEPTH = 4"

definition udiv128 :: "128 word \<Rightarrow> 128 word \<Rightarrow> 128 word result" where
  "udiv128 a b = (if b = 0 then Inl divide_by_zero_exception else Inr (a div b))"

definition adjust_witness_vote :: "account_name_type \<Rightarrow> share_type \<Rightarrow> database \<Rightarrow> database result" where
  "adjust_witness_vote n delta db =
     modify_witness n (\<lambda>w.
       let vt = ws_current_virtual_time (witness_schedule db);
           pos = w_virtual_position w + uint128 (w_votes w) * (vt - w_virtual_last_update w)
       in bindE (safe_add (w_votes w) delta) (\<lambda>votes.
          fc_assert (votes \<le> amount (total_vesting_shares (dgpo db)))
          (bindE (udiv128 (- 1 - pos) (uint128 (votes + 1))) (\<lambda>lap.
            let st = vt + lap in
            Inr (w\<lparr>w_virtual_position := pos, w_virtual_last_update := vt, w_votes := votes,
                   w_virtual_scheduled_time := (if st < vt then - 1 else st)\<rparr>))))) db"

definition votes_of :: "account_name_type \<Rightarrow> database \<Rightarrow> account_name_type list" where
  "votes_of n db = sort (map wv_witness (filter (\<lambda>v. wv_account v = n) (rows (witness_votes db))))"

definition adjust_witness_votes :: "account_name_type \<Rightarrow> share_type \<Rightarrow> database \<Rightarrow> database result" where
  "adjust_witness_votes n delta db =
     foldE (\<lambda>w db. adjust_witness_vote w delta db) (votes_of n db) db"

function adjust_proxied_witness_votes ::
    "account_name_type \<Rightarrow> share_type \<Rightarrow> nat \<Rightarrow> database \<Rightarrow> database result" where
  "adjust_proxied_witness_votes n delta depth db =
     bindE (get_account n db) (\<lambda>a.
      if a_proxy a \<noteq> '''' then
        if depth \<ge> GAMEBANK_MAX_PROXY_RECURSION_DEPTH then Inr db
        else bindE (modify_account (a_proxy a) (\<lambda>p.
               bindE (safe_add (a_proxied_vsf_votes p ! depth) delta) (\<lambda>v.
                 Inr (p\<lparr>a_proxied_vsf_votes := (a_proxied_vsf_votes p)[depth := v]\<rparr>))) db) (\<lambda>db'.
               adjust_proxied_witness_votes (a_proxy a) delta (depth + 1) db')
      else adjust_witness_votes n delta db)"
  by pat_completeness auto

termination
  by (relation "measure (\<lambda>(n, delta, depth, db). 5 - depth)") (auto simp: GAMEBANK_MAX_PROXY_RECURSION_DEPTH_def)

text \<open>The array form: the votes an account carries at each proxy depth move together.\<close>

function adjust_proxied_witness_votes_array ::
    "account_name_type \<Rightarrow> share_type list \<Rightarrow> nat \<Rightarrow> database \<Rightarrow> database result" where
  "adjust_proxied_witness_votes_array n delta depth db =
     bindE (get_account n db) (\<lambda>a.
      if a_proxy a \<noteq> '''' then
        if depth \<ge> GAMEBANK_MAX_PROXY_RECURSION_DEPTH then Inr db
        else bindE (modify_account (a_proxy a) (\<lambda>p.
               foldE (\<lambda>i p. bindE (safe_add (a_proxied_vsf_votes p ! (i + depth)) (delta ! i)) (\<lambda>v.
                        Inr (p\<lparr>a_proxied_vsf_votes := (a_proxied_vsf_votes p)[i + depth := v]\<rparr>)))
                 (rev [0..<GAMEBANK_MAX_PROXY_RECURSION_DEPTH - depth]) p) db) (\<lambda>db'.
               adjust_proxied_witness_votes_array (a_proxy a) delta (depth + 1) db')
      else bindE (foldE (\<lambda>i t. safe_add t (delta ! i))
                    (rev [0..<GAMEBANK_MAX_PROXY_RECURSION_DEPTH - depth + 1]) 0) (\<lambda>total_delta.
             adjust_witness_votes n total_delta db))"
  by pat_completeness auto

termination
  by (relation "measure (\<lambda>(n, delta, depth, db). 5 - depth)") (auto simp: GAMEBANK_MAX_PROXY_RECURSION_DEPTH_def)

definition clear_witness_votes :: "account_name_type \<Rightarrow> database \<Rightarrow> database result" where
  "clear_witness_votes n db =
     modify_account n (\<lambda>a. Inr (a\<lparr>a_witnesses_voted_for := 0\<rparr>))
       (db\<lparr>witness_votes := (witness_votes db)\<lparr>rows := filter (\<lambda>v. wv_account v \<noteq> n) (rows (witness_votes db))\<rparr>\<rparr>)"

definition create_vesting :: "account_name_type \<Rightarrow> asset \<Rightarrow> bool \<Rightarrow> database \<Rightarrow> (asset \<times> database) result" where
  "create_vesting n liquid to_reward_balance db =
     fc_assert (symbol liquid = GBC_SYMBOL)
     (bindE (if to_reward_balance then get_reward_vesting_share_price (dgpo db)
             else get_vesting_share_price (dgpo db)) (\<lambda>vesting_share_price.
      bindE (asset_times_price liquid vesting_share_price) (\<lambda>new_vesting.
      bindE (if to_reward_balance then adjust_reward_balance n liquid new_vesting db
             else adjust_balance n new_vesting db) (\<lambda>db1.
      bindE (modify_dgpo (\<lambda>p.
        if to_reward_balance then
          bindE (asset_add (pending_rewarded_vesting_shares p) new_vesting) (\<lambda>ps.
          bindE (asset_add (pending_rewarded_vesting_gbc p) liquid) (\<lambda>pg.
            Inr (p\<lparr>pending_rewarded_vesting_shares := ps, pending_rewarded_vesting_gbc := pg\<rparr>)))
        else
          bindE (asset_add (total_vesting_fund_gbc p) liquid) (\<lambda>vf.
          bindE (asset_add (total_vesting_shares p) new_vesting) (\<lambda>vs.
            Inr (p\<lparr>total_vesting_fund_gbc := vf, total_vesting_shares := vs\<rparr>)))) db1) (\<lambda>db2.
      bindE (if \<not> to_reward_balance then adjust_proxied_witness_votes n (amount new_vesting) 0 db2
             else Inr db2) (\<lambda>db3.
        Inr (new_vesting, db3)))))))"

definition create_gbd ::
    "account_name_type \<Rightarrow> asset \<Rightarrow> bool \<Rightarrow> database \<Rightarrow> ((asset \<times> asset) \<times> database) result" where
  "create_gbd n gbc to_reward_balance db =
     (if amount gbc = 0 then Inr ((GBD 0, GBC 0), db)
      else if \<not> is_null (median_price db) then
        bindE (safe_mul (uint (gbd_print_rate (dgpo db))) (amount gbc)) (\<lambda>m.
        bindE (safe_div m 10000) (\<lambda>to_gbd.
        bindE (safe_sub (amount gbc) to_gbd) (\<lambda>to_gbc.
        bindE (asset_times_price (GBC to_gbd) (median_price db)) (\<lambda>gbd.
        bindE (if to_reward_balance then
                 bindE (adjust_reward_balance n gbd (GBS 0) db) (adjust_reward_balance n (GBC to_gbc) (GBS 0))
               else
                 bindE (adjust_balance n gbd db) (adjust_balance n (GBC to_gbc))) (\<lambda>db1.
        bindE (safe_neg to_gbd) (\<lambda>neg.
        bindE (adjust_supply (GBC neg) False db1) (\<lambda>db2.
        bindE (adjust_supply gbd False db2) (\<lambda>db3.
          Inr ((gbd, GBC to_gbc), db3)))))))))
      else bindE (adjust_balance n gbc db) (\<lambda>db1. Inr ((GBD 0, gbc), db1)))"

text \<open>
  Burning what was sent to the null account; every \<^verbatim>\<open>if\<close> of the source reads the account as the
  previous statements left it.
\<close>

definition burn_step ::
    "(account_object \<Rightarrow> asset) \<Rightarrow> (asset \<Rightarrow> database \<Rightarrow> database result) \<Rightarrow> asset \<times> database \<Rightarrow> (asset \<times> database) result"
  where
  "burn_step bal adjust td =
     bindE (get_account GAMEBANK_NULL_ACCOUNT (snd td)) (\<lambda>null_account.
      if amount (bal null_account) > 0 then
        bindE (asset_add (fst td) (bal null_account)) (\<lambda>total.
        bindE (asset_neg (bal null_account)) (\<lambda>neg.
        bindE (adjust neg (snd td)) (\<lambda>db'. Inr (total, db'))))
      else Inr td)"

definition burn_vesting :: "asset \<times> database \<Rightarrow> (asset \<times> database) result" where
  "burn_vesting td =
     bindE (get_account GAMEBANK_NULL_ACCOUNT (snd td)) (\<lambda>null_account.
      if amount (a_vesting_shares null_account) > 0 then
        bindE (get_vesting_share_price (dgpo (snd td))) (\<lambda>p.
        bindE (asset_times_price (a_vesting_shares null_account) p) (\<lambda>converted_gbc.
        bindE (modify_dgpo (\<lambda>g.
           bindE (asset_sub (total_vesting_shares g) (a_vesting_shares null_account)) (\<lambda>vs.
           bindE (asset_sub (total_vesting_fund_gbc g) converted_gbc) (\<lambda>vf.
             Inr (g\<lparr>total_vesting_shares := vs, total_vesting_fund_gbc := vf\<rparr>)))) (snd td)) (\<lambda>db1.
        bindE (modify_account GAMEBANK_NULL_ACCOUNT
           (\<lambda>a. Inr (a\<lparr>a_vesting_shares := (a_vesting_shares a)\<lparr>amount := 0\<rparr>\<rparr>)) db1) (\<lambda>db2.
        bindE (asset_add (fst td) converted_gbc) (\<lambda>total. Inr (total, db2))))))
      else Inr td)"

definition burn_reward_vesting :: "asset \<times> database \<Rightarrow> (asset \<times> database) result" where
  "burn_reward_vesting td =
     bindE (get_account GAMEBANK_NULL_ACCOUNT (snd td)) (\<lambda>null_account.
      if amount (a_reward_vesting_balance null_account) > 0 then
        bindE (asset_add (fst td) (a_reward_vesting_gbc null_account)) (\<lambda>total.
        bindE (modify_dgpo (\<lambda>g.
           bindE (asset_sub (pending_rewarded_vesting_shares g) (a_reward_vesting_balance null_account)) (\<lambda>ps.
           bindE (asset_sub (pending_rewarded_vesting_gbc g) (a_reward_vesting_gbc null_account)) (\<lambda>pg.
             Inr (g\<lparr>pending_rewarded_vesting_shares := ps, pending_rewarded_vesting_gbc := pg\<rparr>)))) (snd td)) (\<lambda>db1.
        bindE (modify_account GAMEBANK_NULL_ACCOUNT
           (\<lambda>a. Inr (a\<lparr>a_reward_vesting_gbc := (a_reward_vesting_gbc a)\<lparr>amount := 0\<rparr>,
                       a_reward_vesting_balance := (a_reward_vesting_balance a)\<lparr>amount := 0\<rparr>\<rparr>)) db1) (\<lambda>db2.
          Inr (total, db2))))
      else Inr td)"

definition clear_null_account_balance :: "database \<Rightarrow> database result" where
  "clear_null_account_balance db =
     (let null = GAMEBANK_NULL_ACCOUNT in
      bindE (burn_step a_balance (adjust_balance null) (GBC 0, db)) (\<lambda>(gbc1, db1).
      bindE (burn_step a_savings_balance (adjust_savings_balance null) (gbc1, db1)) (\<lambda>(gbc2, db2).
      bindE (burn_step a_gbd_balance (adjust_balance null) (GBD 0, db2)) (\<lambda>(gbd1, db3).
      bindE (burn_step a_savings_gbd_balance (adjust_savings_balance null) (gbd1, db3)) (\<lambda>(gbd2, db4).
      bindE (burn_vesting (gbc2, db4)) (\<lambda>(gbc3, db5).
      bindE (burn_step a_reward_gbc_balance (\<lambda>d. adjust_reward_balance null d (GBS 0)) (gbc3, db5)) (\<lambda>(gbc4, db6).
      bindE (burn_step a_reward_gbd_balance (\<lambda>d. adjust_reward_balance null d (GBS 0)) (gbd2, db6)) (\<lambda>(gbd3, db7).
      bindE (burn_reward_vesting (gbc4, db7)) (\<lambda>(total_gbc, db8).
      bindE (if amount total_gbc > 0 then bindE (asset_neg total_gbc) (\<lambda>d. adjust_supply d False db8)
             else Inr db8) (\<lambda>db9.
      if amount gbd3 > 0 then bindE (asset_neg gbd3) (\<lambda>d. adjust_supply d False db9)
      else Inr db9))))))))))"

section \<open>The supply invariant\<close>

datatype ledger = Liquid | Dollar | Vesting | Pending

definition of_symbol :: "ledger \<Rightarrow> asset_symbol_type \<Rightarrow> bool" where
  "of_symbol l s \<longleftrightarrow> l = Liquid \<and> s = GBC_SYMBOL \<or> l = Dollar \<and> s = GBD_SYMBOL \<or> l = Vesting \<and> s = GBS_SYMBOL"

definition part :: "ledger \<Rightarrow> asset \<Rightarrow> int" where
  "part l x = (if of_symbol l (symbol x) then amount x else 0)"

definition account_part :: "ledger \<Rightarrow> account_object \<Rightarrow> int" where
  "account_part l a =
     part l (a_balance a) + part l (a_savings_balance a) + part l (a_reward_gbc_balance a) +
     part l (a_gbd_balance a) + part l (a_savings_gbd_balance a) + part l (a_reward_gbd_balance a) +
     part l (a_vesting_shares a) + part l (a_reward_vesting_balance a) +
     (if l = Pending then amount (a_reward_vesting_gbc a) else 0)"

definition order_part :: "ledger \<Rightarrow> limit_order_object \<Rightarrow> int" where
  "order_part l ord = part l (amount_for_sale ord)"

definition escrow_part :: "ledger \<Rightarrow> escrow_object \<Rightarrow> int" where
  "escrow_part l e = part l (esc_gbc_balance e) + part l (esc_gbd_balance e) + part l (esc_pending_fee e)"

definition supply_part :: "ledger \<Rightarrow> dynamic_global_property_object \<Rightarrow> int" where
  "supply_part l p =
     part l (current_supply p) + part l (current_gbd_supply p) +
     part l (total_vesting_shares p) + part l (pending_rewarded_vesting_shares p)
     - part l (total_vesting_fund_gbc p) - part l (total_reward_fund_gbc p)
     - part l (pending_rewarded_vesting_gbc p) + (if l = Pending then amount (pending_rewarded_vesting_gbc p) else 0)"

definition gap :: "ledger \<Rightarrow> database \<Rightarrow> int" where
  "gap l db = supply_part l (dgpo db)
     - t_sum (account_part l) (accounts db)
     - t_sum (\<lambda>c. part l (cr_amount c)) (convert_requests db)
     - t_sum (order_part l) (limit_orders db)
     - t_sum (escrow_part l) (escrows db)
     - t_sum (\<lambda>s. part l (sw_amount s)) (savings_withdraws db)
     - t_sum (\<lambda>f. part l (rf_reward_balance f)) (reward_funds db)"

named_theorems gap_move \<open>how an operation moves every gap, as destruction rules\<close>
named_theorems asset_dest \<open>results of asset operations\<close>

lemma asset_add_dest [asset_dest]:
  "asset_add a b = Inr c \<Longrightarrow>
     symbol b = symbol a \<and> amount c = amount a + amount b \<and> symbol c = symbol a \<and> (\<forall>l. part l c = part l a + part l b)"
  by (auto simp: asset_add_def part_def dest: safe_values)

lemma asset_sub_dest [asset_dest]:
  "asset_sub a b = Inr c \<Longrightarrow>
     symbol b = symbol a \<and> amount c = amount a - amount b \<and> symbol c = symbol a \<and> (\<forall>l. part l c = part l a - part l b)"
  by (auto simp: asset_sub_def part_def dest: safe_values)

lemma asset_neg_dest [asset_dest]:
  "asset_neg a = Inr c \<Longrightarrow> amount c = - amount a \<and> symbol c = symbol a \<and> (\<forall>l. part l c = - part l a)"
  by (auto simp: asset_neg_def part_def dest: safe_values)

declare safe_add_value [asset_dest] safe_sub_value [asset_dest] safe_neg_value [asset_dest]

lemma part_simps [simp]:
  "part l (GBC n) = (if l = Liquid then n else 0)" "part l (GBD n) = (if l = Dollar then n else 0)"
  "part l (GBS n) = (if l = Vesting then n else 0)" "part Pending x = 0" "part l (mk_asset 0 s) = 0"
  "part l (x\<lparr>amount := 0\<rparr>) = 0"
  by (auto simp: part_def of_symbol_def)

lemma part_symbol:
  "symbol x = GBC_SYMBOL \<Longrightarrow> part l x = (if l = Liquid then amount x else 0)"
  "symbol x = GBD_SYMBOL \<Longrightarrow> part l x = (if l = Dollar then amount x else 0)"
  "symbol x = GBS_SYMBOL \<Longrightarrow> part l x = (if l = Vesting then amount x else 0)"
  by (auto simp: part_def of_symbol_def)

lemma part_zero: "amount x = 0 \<Longrightarrow> part l x = 0"
  by (simp add: part_def)

lemma account_part_upd [simp]:
  "account_part l (a\<lparr>a_balance := b\<rparr>) = account_part l a + (part l b - part l (a_balance a))"
  "account_part l (a\<lparr>a_savings_balance := b\<rparr>) = account_part l a + (part l b - part l (a_savings_balance a))"
  "account_part l (a\<lparr>a_reward_gbc_balance := b\<rparr>) = account_part l a + (part l b - part l (a_reward_gbc_balance a))"
  "account_part l (a\<lparr>a_gbd_balance := b\<rparr>) = account_part l a + (part l b - part l (a_gbd_balance a))"
  "account_part l (a\<lparr>a_savings_gbd_balance := b\<rparr>) = account_part l a + (part l b - part l (a_savings_gbd_balance a))"
  "account_part l (a\<lparr>a_reward_gbd_balance := b\<rparr>) = account_part l a + (part l b - part l (a_reward_gbd_balance a))"
  "account_part l (a\<lparr>a_vesting_shares := b\<rparr>) = account_part l a + (part l b - part l (a_vesting_shares a))"
  "account_part l (a\<lparr>a_reward_vesting_balance := b\<rparr>) = account_part l a + (part l b - part l (a_reward_vesting_balance a))"
  "account_part l (a\<lparr>a_reward_vesting_gbc := b\<rparr>) = account_part l a +
     (if l = Pending then amount b - amount (a_reward_vesting_gbc a) else 0)"
  by (simp_all add: account_part_def)

lemma account_part_frame [simp]:
  "account_part l (a\<lparr>a_id := x0\<rparr>) = account_part l a"
  "account_part l (a\<lparr>a_name := x1\<rparr>) = account_part l a"
  "account_part l (a\<lparr>a_memo_key := x2\<rparr>) = account_part l a"
  "account_part l (a\<lparr>a_json_metadata := x3\<rparr>) = account_part l a"
  "account_part l (a\<lparr>a_proxy := x4\<rparr>) = account_part l a"
  "account_part l (a\<lparr>a_last_account_update := x5\<rparr>) = account_part l a"
  "account_part l (a\<lparr>a_created := x6\<rparr>) = account_part l a"
  "account_part l (a\<lparr>a_mined := x7\<rparr>) = account_part l a"
  "account_part l (a\<lparr>a_recovery_account := x8\<rparr>) = account_part l a"
  "account_part l (a\<lparr>a_reset_account := x9\<rparr>) = account_part l a"
  "account_part l (a\<lparr>a_last_account_recovery := x10\<rparr>) = account_part l a"
  "account_part l (a\<lparr>a_comment_count := x11\<rparr>) = account_part l a"
  "account_part l (a\<lparr>a_lifetime_vote_count := x12\<rparr>) = account_part l a"
  "account_part l (a\<lparr>a_post_count := x13\<rparr>) = account_part l a"
  "account_part l (a\<lparr>a_can_vote := x14\<rparr>) = account_part l a"
  "account_part l (a\<lparr>a_voting_power := x15\<rparr>) = account_part l a"
  "account_part l (a\<lparr>a_last_vote_time := x16\<rparr>) = account_part l a"
  "account_part l (a\<lparr>a_gbd_seconds := x20\<rparr>) = account_part l a"
  "account_part l (a\<lparr>a_gbd_seconds_last_update := x21\<rparr>) = account_part l a"
  "account_part l (a\<lparr>a_gbd_last_interest_payment := x22\<rparr>) = account_part l a"
  "account_part l (a\<lparr>a_savings_gbd_seconds := x24\<rparr>) = account_part l a"
  "account_part l (a\<lparr>a_savings_gbd_seconds_last_update := x25\<rparr>) = account_part l a"
  "account_part l (a\<lparr>a_savings_gbd_last_interest_payment := x26\<rparr>) = account_part l a"
  "account_part l (a\<lparr>a_savings_withdraw_requests := x27\<rparr>) = account_part l a"
  "account_part l (a\<lparr>a_curation_rewards := x32\<rparr>) = account_part l a"
  "account_part l (a\<lparr>a_posting_rewards := x33\<rparr>) = account_part l a"
  "account_part l (a\<lparr>a_delegated_vesting_shares := x35\<rparr>) = account_part l a"
  "account_part l (a\<lparr>a_received_vesting_shares := x36\<rparr>) = account_part l a"
  "account_part l (a\<lparr>a_vesting_withdraw_rate := x37\<rparr>) = account_part l a"
  "account_part l (a\<lparr>a_next_vesting_withdrawal := x38\<rparr>) = account_part l a"
  "account_part l (a\<lparr>a_withdrawn := x39\<rparr>) = account_part l a"
  "account_part l (a\<lparr>a_to_withdraw := x40\<rparr>) = account_part l a"
  "account_part l (a\<lparr>a_withdraw_routes := x41\<rparr>) = account_part l a"
  "account_part l (a\<lparr>a_proxied_vsf_votes := x42\<rparr>) = account_part l a"
  "account_part l (a\<lparr>a_witnesses_voted_for := x43\<rparr>) = account_part l a"
  "account_part l (a\<lparr>a_last_post := x44\<rparr>) = account_part l a"
  "account_part l (a\<lparr>a_last_root_post := x45\<rparr>) = account_part l a"
  "account_part l (a\<lparr>a_post_bandwidth := x46\<rparr>) = account_part l a"
  "account_part l (a\<lparr>a_pending_claimed_accounts := x47\<rparr>) = account_part l a"
  "account_part l (a\<lparr>a_last_crowdfunding_expire := x48\<rparr>) = account_part l a"
  "account_part l (a\<lparr>a_crowdfunding_count := x49\<rparr>) = account_part l a"
  by (simp_all add: account_part_def)

lemma supply_part_upd [simp]:
  "supply_part l (p\<lparr>current_supply := b\<rparr>) = supply_part l p + (part l b - part l (current_supply p))"
  "supply_part l (p\<lparr>current_gbd_supply := b\<rparr>) = supply_part l p + (part l b - part l (current_gbd_supply p))"
  "supply_part l (p\<lparr>total_vesting_fund_gbc := b\<rparr>) = supply_part l p - (part l b - part l (total_vesting_fund_gbc p))"
  "supply_part l (p\<lparr>total_reward_fund_gbc := b\<rparr>) = supply_part l p - (part l b - part l (total_reward_fund_gbc p))"
  "supply_part l (p\<lparr>total_vesting_shares := b\<rparr>) = supply_part l p + (part l b - part l (total_vesting_shares p))"
  "supply_part l (p\<lparr>pending_rewarded_vesting_shares := b\<rparr>) = supply_part l p + (part l b - part l (pending_rewarded_vesting_shares p))"
  "supply_part l (p\<lparr>pending_rewarded_vesting_gbc := b\<rparr>) = supply_part l p
     - (part l b - part l (pending_rewarded_vesting_gbc p))
     + (if l = Pending then amount b - amount (pending_rewarded_vesting_gbc p) else 0)"
  by (simp_all add: supply_part_def)

lemma supply_part_frame [simp]:
  "supply_part l (p\<lparr>head_block_number := x0\<rparr>) = supply_part l p"
  "supply_part l (p\<lparr>head_block_id := x1\<rparr>) = supply_part l p"
  "supply_part l (p\<lparr>dgp_time := x2\<rparr>) = supply_part l p"
  "supply_part l (p\<lparr>current_witness := x3\<rparr>) = supply_part l p"
  "supply_part l (p\<lparr>total_pow := x24\<rparr>) = supply_part l p"
  "supply_part l (p\<lparr>num_pow_witnesses := x25\<rparr>) = supply_part l p"
  "supply_part l (p\<lparr>virtual_supply := x4\<rparr>) = supply_part l p"
  "supply_part l (p\<lparr>confidential_supply := x6\<rparr>) = supply_part l p"
  "supply_part l (p\<lparr>confidential_gbd_supply := x8\<rparr>) = supply_part l p"
  "supply_part l (p\<lparr>total_reward_shares2 := x12\<rparr>) = supply_part l p"
  "supply_part l (p\<lparr>gbd_interest_rate := x15\<rparr>) = supply_part l p"
  "supply_part l (p\<lparr>gbd_print_rate := x16\<rparr>) = supply_part l p"
  "supply_part l (p\<lparr>maximum_block_size := x17\<rparr>) = supply_part l p"
  "supply_part l (p\<lparr>current_aslot := x18\<rparr>) = supply_part l p"
  "supply_part l (p\<lparr>recent_slots_filled := x19\<rparr>) = supply_part l p"
  "supply_part l (p\<lparr>participation_count := x20\<rparr>) = supply_part l p"
  "supply_part l (p\<lparr>last_irreversible_block_num := x21\<rparr>) = supply_part l p"
  "supply_part l (p\<lparr>vote_power_reserve_rate := x22\<rparr>) = supply_part l p"
  "supply_part l (p\<lparr>delegation_return_period := x23\<rparr>) = supply_part l p"
  by (simp_all add: supply_part_def)

lemma gap_upd [simp]:
  "gap l (db\<lparr>accounts := t0\<rparr>) = gap l db + t_sum (account_part l) (accounts db) - t_sum (account_part l) t0"
  "gap l (db\<lparr>convert_requests := t1\<rparr>) = gap l db + t_sum (\<lambda>c. part l (cr_amount c)) (convert_requests db) - t_sum (\<lambda>c. part l (cr_amount c)) t1"
  "gap l (db\<lparr>limit_orders := t2\<rparr>) = gap l db + t_sum (order_part l) (limit_orders db) - t_sum (order_part l) t2"
  "gap l (db\<lparr>escrows := t3\<rparr>) = gap l db + t_sum (escrow_part l) (escrows db) - t_sum (escrow_part l) t3"
  "gap l (db\<lparr>savings_withdraws := t4\<rparr>) = gap l db + t_sum (\<lambda>s. part l (sw_amount s)) (savings_withdraws db) - t_sum (\<lambda>s. part l (sw_amount s)) t4"
  "gap l (db\<lparr>reward_funds := t5\<rparr>) = gap l db + t_sum (\<lambda>f. part l (rf_reward_balance f)) (reward_funds db) - t_sum (\<lambda>f. part l (rf_reward_balance f)) t5"
  "gap l (db\<lparr>dgpo := p\<rparr>) = gap l db - supply_part l (dgpo db) + supply_part l p"
  by (simp_all add: gap_def)

lemma gap_frame [simp]:
  "gap l (db\<lparr>account_authorities := x1\<rparr>) = gap l db"
  "gap l (db\<lparr>vesting_delegations := x2\<rparr>) = gap l db"
  "gap l (db\<lparr>delegation_expirations := x3\<rparr>) = gap l db"
  "gap l (db\<lparr>owner_histories := x4\<rparr>) = gap l db"
  "gap l (db\<lparr>recovery_requests := x5\<rparr>) = gap l db"
  "gap l (db\<lparr>change_recovery_requests := x6\<rparr>) = gap l db"
  "gap l (db\<lparr>liquidity_rewards := x10\<rparr>) = gap l db"
  "gap l (db\<lparr>withdraw_routes := x12\<rparr>) = gap l db"
  "gap l (db\<lparr>decline_requests := x13\<rparr>) = gap l db"
  "gap l (db\<lparr>witnesses := x15\<rparr>) = gap l db"
  "gap l (db\<lparr>witness_votes := x16\<rparr>) = gap l db"
  "gap l (db\<lparr>comments := x17\<rparr>) = gap l db"
  "gap l (db\<lparr>comment_contents := x18\<rparr>) = gap l db"
  "gap l (db\<lparr>comment_votes := x19\<rparr>) = gap l db"
  "gap l (db\<lparr>crowdfundings := x20\<rparr>) = gap l db"
  "gap l (db\<lparr>crowdfunding_contents := x21\<rparr>) = gap l db"
  "gap l (db\<lparr>crowdfunding_invests := x22\<rparr>) = gap l db"
  "gap l (db\<lparr>nonfungible_funds := x23\<rparr>) = gap l db"
  "gap l (db\<lparr>nonfungible_on_sale := x24\<rparr>) = gap l db"
  "gap l (db\<lparr>contracts := x25\<rparr>) = gap l db"
  "gap l (db\<lparr>contract_users := x26\<rparr>) = gap l db"
  "gap l (db\<lparr>feed_history := x27\<rparr>) = gap l db"
  "gap l (db\<lparr>witness_schedule := x28\<rparr>) = gap l db"
  "gap l (db\<lparr>hardfork_property := x29\<rparr>) = gap l db"
  by (simp_all add: gap_def)

declare adjust_proxied_witness_votes.simps [simp del] adjust_proxied_witness_votes_array.simps [simp del]

section \<open>How the primitives move the gaps\<close>

interpretation accts: keyed_store find_account modify_account a_name "\<lambda>g db. t_sum g (accounts db)"
  unfolding find_account_def modify_account_def by (rule keyed_field) simp

interpretation wits: keyed_store find_witness modify_witness w_owner "\<lambda>g db. t_sum g (witnesses db)"
  unfolding find_witness_def modify_witness_def by (rule keyed_field) simp

lemma modify_account_frame:
  "modify_account n f db = Inr db' \<Longrightarrow> \<exists>t. db' = db\<lparr>accounts := t\<rparr>"
  by (auto simp: modify_account_def)

lemma modify_witness_gap [gap_move]:
  "modify_witness n f db = Inr db' \<Longrightarrow> \<forall>l. gap l db' = gap l db"
  by (auto simp: modify_witness_def)

lemma get_account_Inr [simp]: "get_account n db = Inr a \<longleftrightarrow> find_account n db = Some a"
  by (simp add: get_account_def find_account_def)

lemma gap_modify_account:
  assumes "modify_account n f db = Inr db'"
    and "\<And>a a'. find_account n db = Some a \<Longrightarrow> f a = Inr a' \<Longrightarrow> account_part l a' = account_part l a + d"
  shows "gap l db' = gap l db - d"
proof -
  obtain a a' where a: "find_account n db = Some a" "f a = Inr a'" using accts.update_found[OF assms(1)] by blast
  have "t_sum (account_part l) (accounts db') = t_sum (account_part l) (accounts db) + d"
    using accts.total_update[OF assms(1) a, of "account_part l"] assms(2)[OF a] by simp
  then show ?thesis using modify_account_frame[OF assms(1)] by auto
qed

lemma pay_interest_gap:
  "pay_interest_supply x db = Inr db' \<Longrightarrow>
     accounts db' = accounts db \<and> (\<forall>l. symbol x = GBD_SYMBOL \<longrightarrow> gap l db' = gap l db + part l x)"
  by (auto simp: pay_interest_supply_def modify_dgpo_def part_symbol dest!: asset_dest)

lemma gbd_interest_symbol: "gbd_interest s r = Inr x \<Longrightarrow> symbol x = GBD_SYMBOL"
  by (auto simp: gbd_interest_def Let_def)

lemma accrue_gbd_gap:
  assumes "accrue_gbd a db = Inr (a', db')"
  shows "accounts db' = accounts db \<and> a_name a' = a_name a \<and>
         (\<forall>l. gap l db' = gap l db + (account_part l a' - account_part l a))"
  using assms
  by (auto simp: accrue_gbd_def Let_def part_symbol split: if_splits
      dest!: asset_dest pay_interest_gap gbd_interest_symbol)

lemma accrue_savings_gbd_gap:
  assumes "accrue_savings_gbd a db = Inr (a', db')"
  shows "accounts db' = accounts db \<and> a_name a' = a_name a \<and>
         (\<forall>l. gap l db' = gap l db + (account_part l a' - account_part l a))"
  using assms
  by (auto simp: accrue_savings_gbd_def Let_def part_symbol split: if_splits
      dest!: asset_dest pay_interest_gap gbd_interest_symbol)

lemma find_account_cong: "accounts db' = accounts db \<Longrightarrow> find_account n db' = find_account n db"
  by (simp add: find_account_def)

lemma replace_account_gap:
  assumes "modify_account n f db = Inr db'" "find_account n db = Some a"
  shows "\<exists>a'. f a = Inr a' \<and> (\<forall>l. gap l db' = gap l db - (account_part l a' - account_part l a))"
proof -
  obtain a' where "f a = Inr a'" using accts.update_found[OF assms(1)] assms(2) by auto
  then show ?thesis using gap_modify_account[OF assms(1)] assms(2) by fastforce
qed

lemma modify_balance_gap [gap_move]:
  assumes "modify_balance n delta check db = Inr db'"
  shows "\<forall>l. gap l db' = gap l db - part l delta"
proof
  fix l
  obtain a where a: "find_account n db = Some a" using assms by (auto simp: modify_balance_def)
  consider "symbol delta = GBC_SYMBOL" | "symbol delta = GBD_SYMBOL" | "symbol delta = GBS_SYMBOL"
    using assms by (auto simp: modify_balance_def split: if_splits)
  then show "gap l db' = gap l db - part l delta"
  proof cases
    case 2
    then obtain a' db1 b where h: "accrue_gbd a db = Inr (a', db1)" "asset_add (a_gbd_balance a') delta = Inr b"
      "modify_account n (\<lambda>_. Inr (a'\<lparr>a_gbd_balance := b\<rparr>)) db1 = Inr db'"
      using assms a by (auto simp: modify_balance_def)
    note acc = accrue_gbd_gap[OF h(1)]
    have a1: "find_account n db1 = Some a" using acc a find_account_cong by metis
    have "\<forall>l. part l b = part l (a_gbd_balance a') + part l delta" using h(2) by (auto dest: asset_dest)
    with acc replace_account_gap[OF h(3) a1] show ?thesis by simp
  qed (use assms a in \<open>auto simp: modify_balance_def part_symbol dest!: asset_dest replace_account_gap\<close>)
qed

lemma adjust_balance_gap [gap_move]:
  "adjust_balance n delta db = Inr db' \<Longrightarrow> \<forall>l. gap l db' = gap l db - part l delta"
  by (auto simp: adjust_balance_def dest: modify_balance_gap)

lemma adjust_savings_balance_gap [gap_move]:
  assumes "adjust_savings_balance n delta db = Inr db'"
  shows "\<forall>l. gap l db' = gap l db - part l delta"
proof
  fix l
  obtain a where a: "find_account n db = Some a" using assms by (auto simp: adjust_savings_balance_def Let_def)
  consider "symbol delta = GBC_SYMBOL" | "symbol delta = GBD_SYMBOL"
    using assms by (auto simp: adjust_savings_balance_def Let_def split: if_splits)
  then show "gap l db' = gap l db - part l delta"
  proof cases
    case 2
    then obtain a' db1 b where h: "accrue_savings_gbd a db = Inr (a', db1)" "asset_add (a_savings_gbd_balance a') delta = Inr b"
      "modify_account n (\<lambda>_. Inr (a'\<lparr>a_savings_gbd_balance := b\<rparr>)) db1 = Inr db'"
      using assms a by (auto simp: adjust_savings_balance_def Let_def)
    note acc = accrue_savings_gbd_gap[OF h(1)]
    have a1: "find_account n db1 = Some a" using acc a find_account_cong by metis
    have "\<forall>l. part l b = part l (a_savings_gbd_balance a') + part l delta" using h(2) by (auto dest: asset_dest)
    with acc replace_account_gap[OF h(3) a1] show ?thesis by simp
  qed (use assms a in \<open>auto simp: adjust_savings_balance_def Let_def part_symbol dest!: asset_dest replace_account_gap\<close>)
qed

lemma is_vesting_Inr: "is_vesting s = Inr b \<Longrightarrow> (b \<longleftrightarrow> s = GBS_SYMBOL)"
  by (auto simp: is_vesting_def symbol_space_def split: if_splits asset_symbol_space.splits)

definition reward_part :: "ledger \<Rightarrow> asset \<Rightarrow> asset \<Rightarrow> int" where
  "reward_part l v sh = (if amount sh = 0 then part l v
     else if l = Pending then amount v else part l sh)"

lemma adjust_reward_balance_gap [gap_move]:
  assumes "adjust_reward_balance n v sh db = Inr db'"
  shows "\<forall>l. gap l db' = gap l db - reward_part l v sh"
proof
  fix l
  have "symbol sh = GBS_SYMBOL" using assms
    by (auto simp: adjust_reward_balance_def split: if_splits dest: is_vesting_Inr)
  moreover obtain c where "modify_reward_balance n v sh c db = Inr db'"
    using assms by (auto simp: adjust_reward_balance_def)
  ultimately show "gap l db' = gap l db - reward_part l v sh"
    unfolding modify_reward_balance_def
    by - (rule gap_modify_account, assumption,
      auto simp: reward_part_def part_symbol split: if_splits dest!: asset_dest)
qed

lemma adjust_contract_balance_gap [gap_move]:
  "adjust_contract_balance n d db = Inr db' \<Longrightarrow> \<forall>l. gap l db' = gap l db"
  by (auto simp: adjust_contract_balance_def)

lemma adjust_supply_gap [gap_move]:
  "adjust_supply d v db = Inr db' \<Longrightarrow> \<forall>l. gap l db' = gap l db + part l d"
  by (auto simp: adjust_supply_def Let_def modify_dgpo_def part_symbol split: if_splits dest!: asset_dest)

lemma adjust_witness_vote_gap [gap_move]:
  "adjust_witness_vote n d db = Inr db' \<Longrightarrow> \<forall>l. gap l db' = gap l db"
  by (auto simp: adjust_witness_vote_def dest: gap_move)

lemma foldE_gap:
  assumes "foldE f xs db = Inr db'" "\<And>x db db'. f x db = Inr db' \<Longrightarrow> \<forall>l. gap l db' = gap l db"
  shows "\<forall>l. gap l db' = gap l db"
proof -
  have "\<forall>l. gap l db' = gap l db"
    by (rule foldE_invariant[where I = "\<lambda>d. \<forall>l. gap l d = gap l db", OF _ _ assms(1)]) (use assms(2) in auto)
  then show ?thesis .
qed

lemma adjust_witness_votes_gap [gap_move]:
  "adjust_witness_votes n d db = Inr db' \<Longrightarrow> \<forall>l. gap l db' = gap l db"
  unfolding adjust_witness_votes_def by (erule foldE_gap) (rule adjust_witness_vote_gap)

lemma modify_account_gap_same:
  assumes "modify_account n f db = Inr db'" "\<And>a a' l. f a = Inr a' \<Longrightarrow> account_part l a' = account_part l a"
  shows "\<forall>l. gap l db' = gap l db"
  using gap_modify_account[OF assms(1), where d = 0] assms(2) by simp

lemma adjust_proxied_witness_votes_gap [gap_move]:
  "adjust_proxied_witness_votes n d k db = Inr db' \<Longrightarrow> \<forall>l. gap l db' = gap l db"
proof (induction n d k db rule: adjust_proxied_witness_votes.induct)
  case (1 n d k db)
  from "1.prems" obtain a where a: "find_account n db = Some a"
    by (subst (asm) adjust_proxied_witness_votes.simps) auto
  show ?case
  proof (cases "a_proxy a = '''' \<or> k \<ge> GAMEBANK_MAX_PROXY_RECURSION_DEPTH")
    case True
    then show ?thesis using "1.prems" a
      by (subst (asm) adjust_proxied_witness_votes.simps) (auto dest: adjust_witness_votes_gap split: if_splits)
  next
    case False
    then obtain db1 where "modify_account (a_proxy a) (\<lambda>p. bindE (safe_add (a_proxied_vsf_votes p ! k) d) (\<lambda>v.
         Inr (p\<lparr>a_proxied_vsf_votes := (a_proxied_vsf_votes p)[k := v]\<rparr>))) db = Inr db1"
      and rest: "adjust_proxied_witness_votes (a_proxy a) d (k + 1) db1 = Inr db'"
      using "1.prems" a by (subst (asm) adjust_proxied_witness_votes.simps) auto
    then have "\<forall>l. gap l db1 = gap l db" by (auto elim!: modify_account_gap_same)
    moreover have "\<forall>l. gap l db' = gap l db1" using "1.IH"[of a db1] a False rest by auto
    ultimately show ?thesis by simp
  qed
qed

lemma adjust_proxied_witness_votes_array_gap [gap_move]:
  "adjust_proxied_witness_votes_array n d k db = Inr db' \<Longrightarrow> \<forall>l. gap l db' = gap l db"
proof (induction n d k db rule: adjust_proxied_witness_votes_array.induct)
  case (1 n d k db)
  from "1.prems" obtain a where a: "find_account n db = Some a"
    by (subst (asm) adjust_proxied_witness_votes_array.simps) auto
  let ?f = "\<lambda>p. foldE (\<lambda>i p. bindE (safe_add (a_proxied_vsf_votes p ! (i + k)) (d ! i)) (\<lambda>v.
                        Inr (p\<lparr>a_proxied_vsf_votes := (a_proxied_vsf_votes p)[i + k := v]\<rparr>)))
                 (rev [0..<GAMEBANK_MAX_PROXY_RECURSION_DEPTH - k]) p"
  have f: "account_part l p' = account_part l p" if "?f p = Inr p'" for l p p'
    by (rule foldE_invariant[where I = "\<lambda>q. account_part l q = account_part l p", OF _ _ that]) auto
  show ?case
  proof (cases "a_proxy a = '''' \<or> k \<ge> GAMEBANK_MAX_PROXY_RECURSION_DEPTH")
    case True
    then show ?thesis using "1.prems" a
      by (subst (asm) adjust_proxied_witness_votes_array.simps) (auto dest: adjust_witness_votes_gap split: if_splits)
  next
    case False
    then obtain db1 where mod: "modify_account (a_proxy a) ?f db = Inr db1"
      and rest: "adjust_proxied_witness_votes_array (a_proxy a) d (k + 1) db1 = Inr db'"
      using "1.prems" a by (subst (asm) adjust_proxied_witness_votes_array.simps) auto
    have "\<forall>l. gap l db1 = gap l db" using mod by (rule modify_account_gap_same) (rule f)
    moreover have "\<forall>l. gap l db' = gap l db1" using "1.IH"[of a db1] a False rest mod by auto
    ultimately show ?thesis by simp
  qed
qed

lemma clear_witness_votes_gap [gap_move]:
  "clear_witness_votes n db = Inr db' \<Longrightarrow> \<forall>l. gap l db' = gap l db"
  unfolding clear_witness_votes_def by (drule modify_account_gap_same) auto

text \<open>
  \<^verbatim>\<open>create_vesting\<close> moves the liquid tokens into the vesting fund (or, for rewards, into the pending
  vesting fund): the liquid gap falls by them, since the payer is debited by the caller. On the reward
  path with no new shares the liquid amount is credited to the account's liquid reward as well as to
  the pending fund; then the liquid and the pending gap move apart.
\<close>

definition vesting_part :: "ledger \<Rightarrow> asset \<Rightarrow> asset \<Rightarrow> bool \<Rightarrow> int" where
  "vesting_part l liquid nv rew = part l liquid +
     (if rew \<and> amount nv = 0 then part l liquid - (if l = Pending then amount liquid else 0) else 0)"

lemma create_vesting_gap [gap_move]:
  assumes "create_vesting n liquid rew db = Inr (nv, db')"
  shows "\<forall>l. gap l db' = gap l db - vesting_part l liquid nv rew"
proof (cases rew)
  case True
  with assms show ?thesis
    by (auto simp: create_vesting_def modify_dgpo_def reward_part_def vesting_part_def part_zero
        dest!: asset_dest adjust_reward_balance_gap)
next
  case False
  with assms show ?thesis
    by (auto simp: create_vesting_def modify_dgpo_def vesting_part_def
        dest!: asset_dest adjust_balance_gap adjust_proxied_witness_votes_gap)
qed

lemma create_gbd_gap [gap_move]:
  assumes "create_gbd n gbc rew db = Inr (paid, db')"
  shows "symbol gbc = GBC_SYMBOL \<longrightarrow> (\<forall>l. gap l db' = gap l db - part l gbc)"
  using assms
  by (auto simp: create_gbd_def reward_part_def part_zero part_symbol split: if_splits dest!: asset_dest gap_move)

lemma burn_step_gap:
  assumes "burn_step bal adj (t, db) = Inr (t', db')"
    and "\<And>d db db'. adj d db = Inr db' \<Longrightarrow> \<forall>l. gap l db' = gap l db - part l d"
  shows "\<forall>l. gap l db' - part l t' = gap l db - part l t"
  using assms(1) by (auto simp: burn_step_def split: if_splits dest!: asset_dest assms(2))

lemma burn_vesting_gap:
  assumes "burn_vesting (t, db) = Inr (t', db')"
  shows "\<forall>l. gap l db' - part l t' = gap l db - part l t"
proof -
  have "find_account n (db\<lparr>dgpo := p\<rparr>) = find_account n db" for n p by (simp add: find_account_def)
  then show ?thesis
    using assms by (auto simp: burn_vesting_def modify_dgpo_def split: if_splits dest!: asset_dest replace_account_gap)
qed

lemma burn_reward_vesting_gap:
  assumes "burn_reward_vesting (t, db) = Inr (t', db')"
  shows "\<forall>l. gap l db' - part l t' = gap l db - part l t"
proof -
  have "find_account n (db\<lparr>dgpo := p\<rparr>) = find_account n db" for n p by (simp add: find_account_def)
  then show ?thesis
    using assms by (auto simp: burn_reward_vesting_def modify_dgpo_def split: if_splits dest!: asset_dest replace_account_gap)
qed

section \<open>What the balance primitives leave alone\<close>

text \<open>
  The balance primitives change the account table and the supply figures of the global properties,
  nothing else; in particular no object that holds funds in transit, and not the head block.
\<close>

definition balances_only :: "database \<Rightarrow> database \<Rightarrow> bool" where
  "balances_only db db' \<longleftrightarrow>
     db' = db\<lparr>accounts := accounts db', dgpo := dgpo db'\<rparr> \<and>
     head_block_time db' = head_block_time db \<and> head_block_num db' = head_block_num db \<and>
     map a_name (rows (accounts db')) = map a_name (rows (accounts db))"

lemma balances_onlyD:
  assumes "balances_only db db'"
  shows "escrows db' = escrows db" "savings_withdraws db' = savings_withdraws db"
    "limit_orders db' = limit_orders db" "convert_requests db' = convert_requests db"
    "reward_funds db' = reward_funds db" "feed_history db' = feed_history db"
    "hardfork_property db' = hardfork_property db" "witnesses db' = witnesses db"
    "witness_votes db' = witness_votes db" "head_block_time db' = head_block_time db"
    "vesting_delegations db' = vesting_delegations db" "delegation_expirations db' = delegation_expirations db"
proof -
  have eq: "db' = db\<lparr>accounts := accounts db', dgpo := dgpo db'\<rparr>" and "head_block_time db' = head_block_time db"
    using assms by (simp_all add: balances_only_def)
  then show "head_block_time db' = head_block_time db" by simp
  show "escrows db' = escrows db" "savings_withdraws db' = savings_withdraws db"
    "limit_orders db' = limit_orders db" "convert_requests db' = convert_requests db"
    "reward_funds db' = reward_funds db" "feed_history db' = feed_history db"
    "hardfork_property db' = hardfork_property db" "witnesses db' = witnesses db"
    "witness_votes db' = witness_votes db"
    "vesting_delegations db' = vesting_delegations db" "delegation_expirations db' = delegation_expirations db"
    by (subst eq, simp)+
qed

lemma balances_only_refl: "balances_only db db"
  by (simp add: balances_only_def)

lemma balances_only_trans: 
  assumes "balances_only a b" "balances_only b c"
  shows "balances_only a c"
proof -
  obtain t p where b: "b = a\<lparr>accounts := t, dgpo := p\<rparr>" using assms(1) by (auto simp: balances_only_def)
  obtain u q where c: "c = b\<lparr>accounts := u, dgpo := q\<rparr>" using assms(2) by (auto simp: balances_only_def)
  show ?thesis using assms by (simp add: balances_only_def b c)
qed

lemma modify_account_only:
  assumes "modify_account n f db = Inr db'" "\<And>a a'. find_account n db = Some a \<Longrightarrow> f a = Inr a' \<Longrightarrow> a_name a' = n"
  shows "balances_only db db'"
proof -
  obtain a a' where a: "find_account n db = Some a" "f a = Inr a'"
    and db': "db' = db\<lparr>accounts := (accounts db)\<lparr>rows := upd_first (\<lambda>a. a_name a = n) a' (rows (accounts db))\<rparr>\<rparr>"
    using assms(1) by (auto simp: modify_account_def t_modify_Inr find_account_def)
  have n: "a_name a = n" using accts.lookup_key[OF a(1)] .
  have "map a_name (upd_first (\<lambda>a. a_name a = n) a' vs) = map a_name vs" for vs
    using assms(2)[OF a] n by (induction vs) auto
  then show ?thesis by (simp add: balances_only_def db')
qed

lemma pay_interest_only: "pay_interest_supply x db = Inr db' \<Longrightarrow> balances_only db db'"
  by (auto simp: pay_interest_supply_def modify_dgpo_def balances_only_def)

lemma accrue_gbd_only: "accrue_gbd a db = Inr (a', db') \<Longrightarrow> balances_only db db' \<and> a_name a' = a_name a"
  by (auto simp: accrue_gbd_def Let_def split: if_splits intro: pay_interest_only balances_only_refl)

lemma accrue_savings_gbd_only: "accrue_savings_gbd a db = Inr (a', db') \<Longrightarrow> balances_only db db' \<and> a_name a' = a_name a"
  by (auto simp: accrue_savings_gbd_def Let_def split: if_splits intro: pay_interest_only balances_only_refl)

lemma find_account_name: "find_account n db = Some a \<Longrightarrow> a_name a = n"
  by (rule accts.lookup_key)

lemma modify_balance_only: "modify_balance n d c db = Inr db' \<Longrightarrow> balances_only db db'"
  by (auto simp: modify_balance_def split: if_splits dest!: accrue_gbd_only
      dest: find_account_name
      elim!: balances_only_trans modify_account_only)

lemma adjust_savings_balance_only: "adjust_savings_balance n d db = Inr db' \<Longrightarrow> balances_only db db'"
  by (auto simp: adjust_savings_balance_def Let_def split: if_splits dest!: accrue_savings_gbd_only
      dest: find_account_name
      elim!: balances_only_trans modify_account_only)

lemma adjust_reward_balance_only: "adjust_reward_balance n v s db = Inr db' \<Longrightarrow> balances_only db db'"
  by (auto simp: adjust_reward_balance_def modify_reward_balance_def find_account_name split: if_splits
      elim!: modify_account_only)

text \<open>The two kinds of fact together, as the evaluators' proofs consume them.\<close>

named_theorems moves \<open>how an operation moves the gaps, and what it leaves alone\<close>

lemma adjust_balance_moves [moves]:
  "adjust_balance n d db = Inr db' \<Longrightarrow> (\<forall>l. gap l db' = gap l db - part l d) \<and> balances_only db db'"
  using adjust_balance_gap[of n d db db'] modify_balance_only[of n d _ db db']
  by (simp add: adjust_balance_def)

lemma adjust_savings_balance_moves [moves]:
  "adjust_savings_balance n d db = Inr db' \<Longrightarrow> (\<forall>l. gap l db' = gap l db - part l d) \<and> balances_only db db'"
  using adjust_savings_balance_gap[of n d db db'] adjust_savings_balance_only[of n d db db'] by simp

lemma adjust_reward_balance_moves [moves]:
  "adjust_reward_balance n v s db = Inr db' \<Longrightarrow> (\<forall>l. gap l db' = gap l db - reward_part l v s) \<and> balances_only db db'"
  using adjust_reward_balance_gap[of n v s db db'] adjust_reward_balance_only[of n v s db db'] by simp

end
