(* ===== verification/Authority.thy ===== *)
theory Authority
  imports Objects
begin

text \<open>
  Account names, authorities and the check of signatures against them:
  src/libraries/protocol/authority.cpp, sign_state.cpp and transaction_util.hpp. The check keeps a
  state (which signatures have been used, which accounts are known to approve) and recurses through
  account authorities up to a depth. The theorems show that a successful check is justified by an
  actual derivation from the signatures, and that the index-based check of account names recognises
  exactly the names whose dot-separated labels are well formed.
\<close>

section \<open>Account names\<close>

definition is_letter :: "char \<Rightarrow> bool" where
  "is_letter c \<longleftrightarrow> of_char CHR ''a'' \<le> (of_char c :: nat) \<and> (of_char c :: nat) \<le> of_char CHR ''z''"

definition is_let_dig :: "char \<Rightarrow> bool" where
  "is_let_dig c \<longleftrightarrow> is_letter c \<or> is_digit c"

definition is_let_dig_hyp :: "char \<Rightarrow> bool" where
  "is_let_dig_hyp c \<longleftrightarrow> is_let_dig c \<or> c = CHR ''-''"

text \<open>\<^verbatim>\<open>name.find_first_of( '.', start )\<close>, with \<^verbatim>\<open>npos\<close> replaced by the length.\<close>

definition find_dot :: "string \<Rightarrow> nat \<Rightarrow> nat" where
  "find_dot name start = start + length (takeWhile (\<lambda>c. c \<noteq> CHR ''.'') (drop start name))"

lemma find_dot_le: "start \<le> length name \<Longrightarrow> find_dot name start \<le> length name"
  using length_takeWhile_le[of "\<lambda>c. c \<noteq> CHR ''.''" "drop start name"] by (simp add: find_dot_def)

function valid_labels :: "string \<Rightarrow> nat \<Rightarrow> bool" where
  "valid_labels name start =
     (let stop = find_dot name start in
      if stop - start < 3 then False
      else if \<not> is_letter (name ! start) then False
      else if \<not> is_let_dig (name ! (stop - 1)) then False
      else if \<not> list_all (\<lambda>i. is_let_dig_hyp (name ! i)) [start + 1..<stop - 1] then False
      else if stop = length name then True
      else valid_labels name (stop + 1))"
  by pat_completeness auto

termination
proof (relation "measure (\<lambda>(name, start). length name + 1 - start)", simp, clarsimp)
  fix name :: string and start :: nat
  assume a: "\<not> find_dot name start - start < 3"
  have "start \<le> length name"
  proof (rule ccontr)
    assume "\<not> start \<le> length name"
    then show False using a by (simp add: find_dot_def)
  qed
  then have "find_dot name start \<le> length name" by (rule find_dot_le)
  then show "length name - find_dot name start < Suc (length name) - start" using a by linarith
qed

declare valid_labels.simps [simp del]

definition is_valid_account_name :: "string \<Rightarrow> bool" where
  "is_valid_account_name name =
     (if length name < 3 then False
      else if length name > 16 then False
      else valid_labels name 0)"

definition validate_account_name :: "string \<Rightarrow> unit result" where
  "validate_account_name name = fc_assert (is_valid_account_name name) (Inr ())"

section \<open>Authorities\<close>

text \<open>A \<^verbatim>\<open>flat_map\<close> is an association list sorted by key.\<close>

fun flat_insert :: "'k::linorder \<Rightarrow> 'w \<Rightarrow> ('k \<times> 'w) list \<Rightarrow> ('k \<times> 'w) list" where
  "flat_insert k w [] = [(k, w)]"
| "flat_insert k w ((k', w') # m) =
     (if k < k' then (k, w) # (k', w') # m
      else if k = k' then (k, w) # m
      else (k', w') # flat_insert k w m)"

definition add_authority_key :: "public_key_type \<Rightarrow> 16 word \<Rightarrow> authority \<Rightarrow> authority" where
  "add_authority_key k w a = a\<lparr>key_auths := flat_insert k w (key_auths a)\<rparr>"

definition add_authority_account :: "account_name_type \<Rightarrow> 16 word \<Rightarrow> authority \<Rightarrow> authority" where
  "add_authority_account k w a = a\<lparr>account_auths := flat_insert k w (account_auths a)\<rparr>"

definition get_keys :: "authority \<Rightarrow> public_key_type list" where
  "get_keys a = map fst (key_auths a)"

definition is_impossible :: "authority \<Rightarrow> bool" where
  "is_impossible a =
     (let w1 = foldl (\<lambda>acc item. acc + ucast (snd item)) (0 :: 64 word) (account_auths a);
          w2 = foldl (\<lambda>acc item. acc + ucast (snd item)) w1 (key_auths a)
      in w2 < ucast (weight_threshold a))"

definition num_auths :: "authority \<Rightarrow> nat" where
  "num_auths a = length (account_auths a) + length (key_auths a)"

definition authority_clear :: "authority \<Rightarrow> authority" where
  "authority_clear a = a\<lparr>account_auths := [], key_auths := []\<rparr>"

definition authority_validate :: "authority \<Rightarrow> unit result" where
  "authority_validate a = fc_assert (list_all (\<lambda>item. is_valid_account_name (fst item)) (account_auths a)) (Inr ())"

section \<open>The signature check\<close>

type_synonym authority_getter = "account_name_type \<Rightarrow> authority result"

record sign_state =
  get_active :: authority_getter
  available_keys :: "public_key_type list"
  provided_signatures :: "(public_key_type \<times> bool) list"
  approved_by :: "account_name_type list"
  max_recursion :: nat

definition GAMEBANK_MAX_SIG_CHECK_DEPTH :: nat where "GAMEBANK_MAX_SIG_CHECK_DEPTH = 2"

definition new_sign_state ::
    "public_key_type list \<Rightarrow> authority_getter \<Rightarrow> public_key_type list \<Rightarrow> sign_state" where
  "new_sign_state sigs a keys =
     \<lparr>get_active = a, available_keys = keys,
      provided_signatures = fold (\<lambda>key m. flat_insert key False m) sigs [],
      approved_by = [''temp''], max_recursion = GAMEBANK_MAX_SIG_CHECK_DEPTH\<rparr>"

definition signed_by :: "public_key_type \<Rightarrow> sign_state \<Rightarrow> bool \<times> sign_state" where
  "signed_by k s =
     (case map_of (provided_signatures s) k of
        None \<Rightarrow>
          if k \<in> set (available_keys s)
          then (True, s\<lparr>provided_signatures := flat_insert k True (provided_signatures s)\<rparr>)
          else (False, s)
      | Some _ \<Rightarrow> (True, s\<lparr>provided_signatures := flat_insert k True (provided_signatures s)\<rparr>))"

text \<open>
  The key loop returns \<open>Inl\<close> of the state when the threshold was reached (the early return), else the
  weight so far. The account loop is mutually recursive with the check; \<open>n\<close> is \<^verbatim>\<open>max_recursion - depth\<close>.
\<close>

fun check_keys :: "32 word \<Rightarrow> (public_key_type \<times> 16 word) list \<Rightarrow> 32 word \<Rightarrow> sign_state \<Rightarrow>
    sign_state + (32 word \<times> sign_state)" where
  "check_keys threshold [] total_weight s = Inr (total_weight, s)"
| "check_keys threshold ((k, w) # ks) total_weight s =
     (let (b, s) = signed_by k s in
      if b then
        let total_weight = total_weight + ucast w in
        if total_weight \<ge> threshold then Inl s else check_keys threshold ks total_weight s
      else check_keys threshold ks total_weight s)"

function (sequential)
      check_authority :: "nat \<Rightarrow> authority \<Rightarrow> sign_state \<Rightarrow> (bool \<times> sign_state) result"
  and check_accounts :: "nat \<Rightarrow> 32 word \<Rightarrow> (account_name_type \<times> 16 word) list \<Rightarrow> 32 word \<Rightarrow> sign_state \<Rightarrow>
        (bool \<times> sign_state) result" where
  "check_authority n auth s =
     (case check_keys (weight_threshold auth) (key_auths auth) 0 s of
        Inl s' \<Rightarrow> Inr (True, s')
      | Inr (total_weight, s') \<Rightarrow> check_accounts n (weight_threshold auth) (account_auths auth) total_weight s')"
| "check_accounts n threshold [] total_weight s = Inr (total_weight \<ge> threshold, s)"
| "check_accounts n threshold ((a, w) # as) total_weight s =
     (if a \<notin> set (approved_by s) then
        case n of
          0 \<Rightarrow> check_accounts n threshold as total_weight s
        | Suc m \<Rightarrow>
            bindE (get_active s a) (\<lambda>auth.
            bindE (check_authority m auth s) (\<lambda>(b, s').
              if b then
                let s'' = s'\<lparr>approved_by := a # approved_by s'\<rparr>; total_weight = total_weight + ucast w in
                if total_weight \<ge> threshold then Inr (True, s'')
                else check_accounts n threshold as total_weight s''
              else check_accounts n threshold as total_weight s'))
      else
        let total_weight = total_weight + ucast w in
        if total_weight \<ge> threshold then Inr (True, s)
        else check_accounts n threshold as total_weight s)"
  by pat_completeness auto

termination
  by (relation "inv_image (less_than <*lex*> less_than <*lex*> less_than)
        (\<lambda>x. case x of Inl (n, auth, s) \<Rightarrow> (n, 1::nat, 0::nat)
                     | Inr (n, t, as, w, s) \<Rightarrow> (n, 0, length as))") auto

definition check_authority_of :: "account_name_type \<Rightarrow> sign_state \<Rightarrow> (bool \<times> sign_state) result" where
  "check_authority_of i s =
     (if i \<in> set (approved_by s) then Inr (True, s)
      else bindE (get_active s i) (\<lambda>auth. check_authority (max_recursion s) auth s))"

definition remove_unused_signatures :: "sign_state \<Rightarrow> bool \<times> sign_state" where
  "remove_unused_signatures s =
     (let remove_sigs = map fst (filter (\<lambda>sig. \<not> snd sig) (provided_signatures s)) in
      (remove_sigs \<noteq> [],
       s\<lparr>provided_signatures := filter (\<lambda>sig. fst sig \<notin> set remove_sigs) (provided_signatures s)\<rparr>))"

text \<open>Trying authorities in turn, as the disjunctions of \<^verbatim>\<open>verify_authority\<close> do.\<close>

definition or_check ::
    "(sign_state \<Rightarrow> (bool \<times> sign_state) result) \<Rightarrow> (sign_state \<Rightarrow> (bool \<times> sign_state) result) \<Rightarrow>
     sign_state \<Rightarrow> (bool \<times> sign_state) result" where
  "or_check c1 c2 s = bindE (c1 s) (\<lambda>(b, s'). if b then Inr (True, s') else c2 s')"

definition check_with :: "authority_getter \<Rightarrow> account_name_type \<Rightarrow> sign_state \<Rightarrow> (bool \<times> sign_state) result" where
  "check_with getter i s = bindE (getter i) (\<lambda>auth. check_authority (max_recursion s) auth s)"

definition require ::
    "exception \<Rightarrow> (sign_state \<Rightarrow> (bool \<times> sign_state) result) \<Rightarrow> sign_state \<Rightarrow> sign_state result" where
  "require e c s = bindE (c s) (\<lambda>(b, s'). throw_unless b e (Inr s'))"

record required_auths =
  required_active :: "account_name_type list"
  required_owner :: "account_name_type list"
  required_posting :: "account_name_type list"
  required_other :: "authority list"

definition verify_authority ::
    "required_auths \<Rightarrow> public_key_type list \<Rightarrow> authority_getter \<Rightarrow> authority_getter \<Rightarrow> authority_getter \<Rightarrow>
     nat \<Rightarrow> account_name_type list \<Rightarrow> account_name_type list \<Rightarrow> account_name_type list \<Rightarrow> unit result" where
  "verify_authority req sigs get_act get_own get_post max_recursion_depth
       active_approvals owner_approvals posting_approvals =
     (if required_posting req \<noteq> [] then
        fc_assert (required_active req = [])
        (fc_assert (required_owner req = [])
        (fc_assert (required_other req = [])
        (let s = (new_sign_state sigs get_post [])\<lparr>max_recursion := max_recursion_depth\<rparr>;
             s = s\<lparr>approved_by := posting_approvals @ approved_by s\<rparr>
         in bindE (foldE (\<lambda>i. require tx_missing_posting_auth
                     (or_check (check_authority_of i) (or_check (check_with get_act i) (check_with get_own i))))
                   (required_posting req) s) (\<lambda>s.
            throw_unless (\<not> fst (remove_unused_signatures s)) tx_irrelevant_sig (Inr ())))))
      else
        let s = (new_sign_state sigs get_act [])\<lparr>max_recursion := max_recursion_depth\<rparr>;
            s = s\<lparr>approved_by := owner_approvals @ active_approvals @ approved_by s\<rparr>
        in bindE (foldE (\<lambda>auth. require tx_missing_other_auth (\<lambda>s. check_authority (max_recursion s) auth s))
                    (required_other req) s) (\<lambda>s.
           bindE (foldE (\<lambda>i. require tx_missing_active_auth
                     (or_check (check_authority_of i) (check_with get_own i))) (required_active req) s) (\<lambda>s.
           bindE (foldE (\<lambda>i. require tx_missing_owner_auth
                     (or_check (\<lambda>s. Inr (i \<in> set owner_approvals, s)) (check_with get_own i)))
                   (required_owner req) s) (\<lambda>s.
           throw_unless (\<not> fst (remove_unused_signatures s)) tx_irrelevant_sig (Inr ())))))"

section \<open>Account names: the check is exact\<close>

fun split_dot :: "string \<Rightarrow> string list" where
  "split_dot [] = [[]]"
| "split_dot (c # cs) =
     (if c = CHR ''.'' then [] # split_dot cs
      else case split_dot cs of l # ls \<Rightarrow> (c # l) # ls | [] \<Rightarrow> [[c]])"

definition label_ok :: "string \<Rightarrow> bool" where
  "label_ok l \<longleftrightarrow> length l \<ge> 3 \<and> is_letter (hd l) \<and> is_let_dig (last l) \<and>
     list_all is_let_dig_hyp (butlast (tl l))"

lemma split_dot_unfold:
  "split_dot s = takeWhile (\<lambda>c. c \<noteq> CHR ''.'') s #
     (case dropWhile (\<lambda>c. c \<noteq> CHR ''.'') s of [] \<Rightarrow> [] | _ # r \<Rightarrow> split_dot r)"
  by (induction s) auto

lemma slice_upt: "j \<le> length s \<Longrightarrow> map ((!) s) [i..<j] = drop i (take j s)"
  by (rule nth_equalityI) auto

lemma label_at:
  assumes "start \<le> length name"
  defines "l \<equiv> takeWhile (\<lambda>c. c \<noteq> CHR ''.'') (drop start name)"
  shows "l = drop start (take (find_dot name start) name)"
  using assms takeWhile_eq_take[of "\<lambda>c. c \<noteq> CHR ''.''" "drop start name"]
  by (simp add: find_dot_def take_drop add.commute)

lemma valid_labels_spec:
  "start \<le> length name \<Longrightarrow> valid_labels name start \<longleftrightarrow> list_all label_ok (split_dot (drop start name))"
proof (induction name start rule: valid_labels.induct)
  case (1 name start)
  define stop where "stop = find_dot name start"
  define l where "l = takeWhile (\<lambda>c. c \<noteq> CHR ''.'') (drop start name)"
  have stop: "stop \<le> length name" "length l = stop - start" "start \<le> stop"
    using find_dot_le[OF "1.prems"] by (auto simp: stop_def l_def find_dot_def)
  have l: "l = map ((!) name) [start..<stop]"
    using label_at[OF "1.prems"] slice_upt[OF stop(1)] by (simp add: l_def stop_def)
  have ok: "label_ok l \<longleftrightarrow> 3 \<le> stop - start \<and> is_letter (name ! start) \<and> is_let_dig (name ! (stop - 1)) \<and>
      list_all (\<lambda>i. is_let_dig_hyp (name ! i)) [start + 1..<stop - 1]"
  proof (cases "3 \<le> stop - start")
    case True
    then have "start < stop" by linarith
    then have "[start..<stop] \<noteq> []" by simp
    then have "hd l = name ! start" "last l = name ! (stop - 1)"
      using l \<open>start < stop\<close> hd_map[of "[start..<stop]" "(!) name"] last_map[of "[start..<stop]" "(!) name"] by simp_all
    moreover have "butlast (tl l) = map ((!) name) [start + 1..<stop - 1]"
      using True l by (intro nth_equalityI) (auto simp: nth_butlast nth_tl)
    ultimately show ?thesis using stop True by (simp add: label_ok_def list_all_iff)
  qed (use stop in \<open>simp add: label_ok_def\<close>)
  have rest: "dropWhile (\<lambda>c. c \<noteq> CHR ''.'') (drop start name) = drop stop name"
    using "1.prems" by (simp add: dropWhile_eq_drop stop_def find_dot_def add.commute)
  show ?case
  proof (cases "stop = length name")
    case True
    then have "split_dot (drop start name) = [l]" using split_dot_unfold[of "drop start name"] rest by (simp add: l_def)
    then show ?thesis
      using ok True by (subst valid_labels.simps) (simp add: Let_def stop_def[symmetric] not_less)
  next
    case False
    with stop have lt: "stop < length name" by simp
    then have "split_dot (drop start name) = l # split_dot (drop (stop + 1) name)"
      using split_dot_unfold[of "drop start name"] rest by (simp add: l_def Cons_nth_drop_Suc[symmetric])
    then show ?thesis
      using ok False lt "1.IH"[OF stop_def]
      by (subst valid_labels.simps) (auto simp: Let_def stop_def[symmetric] not_less)
  qed
qed

text \<open>
  C26. The index-based check of account names accepts exactly the names of 3 to 16 characters whose
  dot-separated labels each have at least three characters, start with a letter, end with a letter or
  digit and contain only letters, digits and hyphens in between.
\<close>

theorem is_valid_account_name_spec:
  "is_valid_account_name name \<longleftrightarrow>
     3 \<le> length name \<and> length name \<le> 16 \<and> list_all label_ok (split_dot name)"
  using valid_labels_spec[of 0 name] by (auto simp: is_valid_account_name_def)

section \<open>Soundness of the signature check\<close>

text \<open>
  What a successful check must mean. \<open>satisfied\<close> is the least predicate such that an authority is
  satisfied when the weights of its keys with a signature and of its accounts that are either approved
  from the outset or have a satisfied authority of their own reach the threshold.
\<close>

definition weight_of :: "('k \<times> 16 word) list \<Rightarrow> nat" where
  "weight_of xs = sum_list (map (\<lambda>x. unat (snd x)) xs)"

inductive satisfied :: "authority_getter \<Rightarrow> public_key_type set \<Rightarrow> account_name_type set \<Rightarrow> authority \<Rightarrow> bool"
  for getter :: authority_getter and sigs :: "public_key_type set" and approved :: "account_name_type set" where
  satisfiedI: "\<lbrakk>\<And>a. a \<in> A \<Longrightarrow> a \<in> approved \<or> (\<exists>auth'. getter a = Inr auth' \<and> satisfied getter sigs approved auth');
     unat (weight_threshold auth) \<le>
       weight_of (filter (\<lambda>x. fst x \<in> sigs) (key_auths auth)) + weight_of (filter (\<lambda>x. fst x \<in> A) (account_auths auth))\<rbrakk>
   \<Longrightarrow> satisfied getter sigs approved auth"

definition justified :: "authority_getter \<Rightarrow> public_key_type set \<Rightarrow> account_name_type set \<Rightarrow> account_name_type \<Rightarrow> bool" where
  "justified getter sigs approved a \<longleftrightarrow>
     a \<in> approved \<or> (\<exists>auth'. getter a = Inr auth' \<and> satisfied getter sigs approved auth')"

text \<open>The invariant of the check: what has been approved so far is justified, and no signature is invented.\<close>

definition sign_inv :: "authority_getter \<Rightarrow> public_key_type set \<Rightarrow> account_name_type set \<Rightarrow> sign_state \<Rightarrow> bool" where
  "sign_inv getter sigs approved s \<longleftrightarrow>
     get_active s = getter \<and> available_keys s = [] \<and> fst ` set (provided_signatures s) \<subseteq> sigs \<and>
     (\<forall>a \<in> set (approved_by s). justified getter sigs approved a)"

lemma flat_insert_keys: "fst ` set (flat_insert k w m) = insert k (fst ` set m)"
  by (induction k w m rule: flat_insert.induct) (simp_all add: insert_commute)

lemma signed_by_inv:
  assumes "sign_inv getter sigs approved s" "signed_by k s = (b, s')"
  shows "sign_inv getter sigs approved s' \<and> (b \<longrightarrow> k \<in> sigs) \<and> max_recursion s' = max_recursion s"
proof (cases "map_of (provided_signatures s) k")
  case None
  then show ?thesis using assms by (auto simp: signed_by_def sign_inv_def)
next
  case (Some v)
  then have "k \<in> fst ` set (provided_signatures s)" by (metis domI dom_map_of_conv_image_fst)
  moreover from this have "fst ` set (flat_insert k True (provided_signatures s)) \<subseteq> sigs"
    using assms(1) by (simp add: flat_insert_keys sign_inv_def) blast
  moreover have "b \<and> s' = s\<lparr>provided_signatures := flat_insert k True (provided_signatures s)\<rparr>"
    using assms(2) Some by (simp add: signed_by_def)
  ultimately show ?thesis using assms(1) by (auto simp: sign_inv_def simp del: image_subset_iff)
qed

lemma unat_ucast_weight [simp]: "unat (ucast (w :: 16 word) :: 32 word) = unat w"
proof -
  have "unat w < 2 ^ 16" using unsigned_less[of w] by simp
  then show ?thesis by (simp add: unsigned_ucast_eq take_bit_nat_eq_self)
qed

lemma unat_plus_le: "unat (a + b) \<le> unat a + unat (b :: 32 word)"
  using unat_word_ariths(1)[of a b] by (metis mod_less_eq_dividend)

lemma weight_cons [simp]: "weight_of [] = 0" "weight_of (x # xs) = unat (snd x) + weight_of xs"
  by (simp_all add: weight_of_def)

lemma check_keys_sound:
  assumes "sign_inv getter sigs approved s" "unat t \<le> n"
  shows "(\<forall>s'. check_keys th ks t s = Inl s' \<longrightarrow>
            sign_inv getter sigs approved s' \<and> max_recursion s' = max_recursion s \<and>
            unat th \<le> n + weight_of (filter (\<lambda>x. fst x \<in> sigs) ks)) \<and>
         (\<forall>t' s'. check_keys th ks t s = Inr (t', s') \<longrightarrow>
            sign_inv getter sigs approved s' \<and> max_recursion s' = max_recursion s \<and>
            unat t' \<le> n + weight_of (filter (\<lambda>x. fst x \<in> sigs) ks))"
  using assms
proof (induction th ks t s arbitrary: n rule: check_keys.induct)
  case (2 th k w ks t s)
  obtain b s1 where s1: "signed_by k s = (b, s1)" by (cases "signed_by k s")
  note inv = signed_by_inv[OF "2.prems"(1) s1]
  have up: "unat (t + ucast w) \<le> n + unat w"
    using unat_plus_le[of t "ucast w"] "2.prems"(2) by simp
  show ?case
  proof (cases b)
    case True
    show ?thesis
    proof (cases "th \<le> t + ucast w")
      case reached: True
      then have "unat th \<le> n + unat w" using up by (simp add: word_le_nat_alt)
      then show ?thesis using True reached inv s1 by (auto simp: Let_def)
    next
      case False
      then show ?thesis
        using "2.IH"(1)[OF s1[symmetric] refl True refl False, of "n + unat w"] inv up s1 True
        by (auto simp: Let_def ac_simps)
    qed
  next
    case False
    then show ?thesis
      using "2.IH"(2)[OF s1[symmetric] refl False, of n] inv s1 "2.prems"(2) by auto
  qed
qed auto

lemma satisfied_from_parts:
  assumes "\<And>a. a \<in> A \<Longrightarrow> justified getter sigs approved a"
    and "unat (weight_threshold auth) \<le> weight_of (filter (\<lambda>x. fst x \<in> sigs) (key_auths auth)) +
           weight_of (filter (\<lambda>x. fst x \<in> A) (account_auths auth))"
  shows "satisfied getter sigs approved auth"
  using assms by (intro satisfiedI[where A = A]) (auto simp: justified_def)

lemma check_sound:
  "check_authority n auth s = Inr (b, s') \<Longrightarrow> sign_inv getter sigs approved s \<Longrightarrow>
     sign_inv getter sigs approved s' \<and> max_recursion s' = max_recursion s \<and> (b \<longrightarrow> satisfied getter sigs approved auth)"
  "check_accounts n th as t s = Inr (b, s') \<Longrightarrow> sign_inv getter sigs approved s \<Longrightarrow> unat t \<le> k \<Longrightarrow>
     sign_inv getter sigs approved s' \<and> max_recursion s' = max_recursion s \<and>
     (b \<longrightarrow> unat th \<le> k + weight_of (filter (\<lambda>x. justified getter sigs approved (fst x)) as))"
proof (induction n auth s and n th as t s arbitrary: b s' and b s' k rule: check_authority_check_accounts.induct)
  case (1 n auth s)
  let ?th = "weight_threshold auth"
  note ks = check_keys_sound[OF "1.prems"(2), of 0 0 ?th "key_auths auth"]
  show ?case
  proof (cases "check_keys ?th (key_auths auth) 0 s")
    case (Inl s1)
    then have "satisfied getter sigs approved auth"
      using ks by (intro satisfied_from_parts[where A = "{}"]) auto
    then show ?thesis using Inl ks "1.prems"(1) by auto
  next
    case (Inr p)
    obtain t s1 where p: "p = (t, s1)" by (cases p)
    have r: "check_accounts n ?th (account_auths auth) t s1 = Inr (b, s')" using "1.prems"(1) Inr p by simp
    have inv: "sign_inv getter sigs approved s1" "max_recursion s1 = max_recursion s"
      "unat t \<le> weight_of (filter (\<lambda>x. fst x \<in> sigs) (key_auths auth))" using ks Inr p by auto
    note IH = "1.IH"[OF Inr p[symmetric] r inv(1) inv(3)]
    have "satisfied getter sigs approved auth" if b
      using IH that by (intro satisfied_from_parts[where A = "{a. justified getter sigs approved a}"]) auto
    then show ?thesis using IH inv by simp
  qed
next
  case (2 n th t s)
  then show ?case by (auto simp: word_le_nat_alt)
next
  case (3 n th a w as t s)
  have up: "unat (t + ucast w) \<le> k + unat w" using unat_plus_le[of t "ucast w"] "3.prems"(3) by simp
  show ?case
  proof (cases "a \<in> set (approved_by s)")
    case True
    then have "justified getter sigs approved a" using "3.prems"(2) by (auto simp: sign_inv_def)
    then show ?thesis using "3.prems" True up "3.IH"(5)[of "t + ucast w" b s' "k + unat w"]
      by (auto simp: Let_def word_le_nat_alt ac_simps split: if_splits)
  next
    case False
    show ?thesis
    proof (cases n)
      case 0
      then show ?thesis using "3.IH"(1)[OF False 0 _ "3.prems"(2,3), of b s'] "3.prems"(1) False by auto
    next
      case (Suc m)
      then obtain auth b1 s1 where auth: "get_active s a = Inr auth" "check_authority m auth s = Inr (b1, s1)"
        using "3.prems"(1) False by auto
      note IH2 = "3.IH"(2)[OF False Suc auth(2) "3.prems"(2)]
      have g: "getter a = Inr auth" using auth(1) "3.prems"(2) by (simp add: sign_inv_def)
      show ?thesis
      proof (cases b1)
        case True
        let ?s = "s1\<lparr>approved_by := a # approved_by s1\<rparr>"
        have just: "justified getter sigs approved a" using IH2 True g by (auto simp: justified_def)
        then have inv: "sign_inv getter sigs approved ?s" using IH2 by (simp add: sign_inv_def)
        show ?thesis
        proof (cases "th \<le> t + ucast w")
          case reached: True
          then have "unat th \<le> k + unat w" using up by (simp add: word_le_nat_alt)
          then show ?thesis using reached "3.prems"(1) False Suc auth True inv IH2 just by (auto simp: Let_def)
        next
          case not_reached: False
          then have "check_accounts n th as (t + ucast w) ?s = Inr (b, s')"
            using "3.prems"(1) False Suc auth True by (auto simp: Let_def simp del: check_authority.simps)
          then show ?thesis
            using "3.IH"(3)[OF False Suc True refl refl not_reached _ inv up] IH2 just by (auto simp: ac_simps)
        qed
      next
        case b1: False
        then have "check_accounts n th as t s1 = Inr (b, s')"
          using "3.prems"(1) False Suc auth by (auto simp del: check_authority.simps)
        from "3.IH"(4)[OF False Suc b1 this _ "3.prems"(3)] IH2 show ?thesis by auto
      qed
    qed
  qed
qed

declare check_authority.simps [simp del] check_accounts.simps [simp del]

text \<open>A check is sound for a property when it keeps the invariant and succeeds only where the property holds.\<close>

definition sound_check :: "(sign_state \<Rightarrow> bool) \<Rightarrow> bool \<Rightarrow> (sign_state \<Rightarrow> (bool \<times> sign_state) result) \<Rightarrow> bool" where
  "sound_check I Q c \<longleftrightarrow> (\<forall>s b s'. I s \<longrightarrow> c s = Inr (b, s') \<longrightarrow> I s' \<and> (b \<longrightarrow> Q))"

lemma sound_or: "sound_check I Q1 c1 \<Longrightarrow> sound_check I Q2 c2 \<Longrightarrow> sound_check I (Q1 \<or> Q2) (or_check c1 c2)"
proof (unfold sound_check_def, intro allI impI)
  fix s b s'
  assume c1: "\<forall>s b s'. I s \<longrightarrow> c1 s = Inr (b, s') \<longrightarrow> I s' \<and> (b \<longrightarrow> Q1)"
    and c2: "\<forall>s b s'. I s \<longrightarrow> c2 s = Inr (b, s') \<longrightarrow> I s' \<and> (b \<longrightarrow> Q2)"
    and "I s" and c: "or_check c1 c2 s = Inr (b, s')"
  from c obtain b1 s1 where b1: "c1 s = Inr (b1, s1)" "(if b1 then Inr (True, s1) else c2 s1) = Inr (b, s')"
    by (auto simp: or_check_def)
  then have i: "I s1 \<and> (b1 \<longrightarrow> Q1)" using c1 \<open>I s\<close> by blast
  show "I s' \<and> (b \<longrightarrow> Q1 \<or> Q2)"
  proof (cases b1)
    case True
    then show ?thesis using i b1(2) by simp
  next
    case False
    then have "c2 s1 = Inr (b, s')" using b1(2) by simp
    then show ?thesis using i c2 by blast
  qed
qed

lemma sound_require: "sound_check I Q c \<Longrightarrow> I s \<Longrightarrow> require e c s = Inr s' \<Longrightarrow> I s' \<and> Q"
  unfolding sound_check_def require_def by auto

lemma foldE_require:
  assumes "foldE (\<lambda>x. require e (c x)) xs s = Inr s'" "I s" "\<And>x. sound_check I (Q x) (c x)"
  shows "I s' \<and> (\<forall>x \<in> set xs. Q x)"
  by (rule foldE_all[where f = "\<lambda>x. require e (c x)", OF assms(1), where I = I, OF assms(2)])
    (rule sound_require[OF assms(3)])

lemma sound_authority:
  "sound_check (sign_inv g S A) (satisfied g S A auth) (\<lambda>s. check_authority (max_recursion s) auth s)"
  unfolding sound_check_def by (auto dest: check_sound(1))

lemma sound_with:
  "sound_check (sign_inv g S A) (\<exists>auth. h i = Inr auth \<and> satisfied g S A auth) (check_with h i)"
  unfolding sound_check_def check_with_def
  by (auto simp del: check_authority.simps dest: check_sound(1))

lemma sound_of: "sound_check (sign_inv g S A) (justified g S A i) (check_authority_of i)"
  unfolding sound_check_def check_authority_of_def
  by (auto simp: justified_def simp del: check_authority.simps split: if_splits dest!: check_sound(1))
    (auto simp: sign_inv_def justified_def)

lemma sound_const: "sound_check I b (\<lambda>s. Inr (b, s))"
  by (simp add: sound_check_def)

lemma fold_flat_insert_keys: "fst ` set (fold (\<lambda>k m. flat_insert k w m) ks m) = set ks \<union> fst ` set m"
  by (induction ks arbitrary: m) (auto simp: flat_insert_keys)

lemma new_sign_state_inv:
  "sign_inv g (set sigs) (insert ''temp'' (set xs))
     ((new_sign_state sigs g [])\<lparr>max_recursion := d, approved_by := xs @ approved_by (new_sign_state sigs g [])\<rparr>)"
  by (auto simp: sign_inv_def new_sign_state_def justified_def fold_flat_insert_keys simp del: image_subset_iff)

text \<open>
  C7. Signature checking is sound: when \<^verbatim>\<open>verify_authority\<close> accepts a transaction, every authority it
  requires has been met by the signatures. For each account whose posting (respectively active, owner)
  authority is required there is a derivation from the provided signatures and the approvals given at
  the start, through that authority or a stronger one of the same account; a transaction with a posting
  requirement has no other.
\<close>

theorem verify_authority_sound:
  assumes "verify_authority req sigs get_act get_own get_post depth actives owners postings = Inr ()"
  shows "(required_posting req \<noteq> [] \<longrightarrow>
           required_active req = [] \<and> required_owner req = [] \<and> required_other req = [] \<and>
           (\<forall>i \<in> set (required_posting req).
              let ok = satisfied get_post (set sigs) (insert ''temp'' (set postings)) in
              i \<in> insert ''temp'' (set postings) \<or> (\<exists>auth. get_post i = Inr auth \<and> ok auth) \<or>
              (\<exists>auth. get_act i = Inr auth \<and> ok auth) \<or> (\<exists>auth. get_own i = Inr auth \<and> ok auth))) \<and>
         (required_posting req = [] \<longrightarrow>
           (let approved = insert ''temp'' (set owners \<union> set actives); ok = satisfied get_act (set sigs) approved in
            (\<forall>auth \<in> set (required_other req). ok auth) \<and>
            (\<forall>i \<in> set (required_active req).
               i \<in> approved \<or> (\<exists>auth. get_act i = Inr auth \<and> ok auth) \<or> (\<exists>auth. get_own i = Inr auth \<and> ok auth)) \<and>
            (\<forall>i \<in> set (required_owner req). i \<in> set owners \<or> (\<exists>auth. get_own i = Inr auth \<and> ok auth))))"
proof (cases "required_posting req = []")
  case False
  let ?A = "insert ''temp'' (set postings)" let ?I = "sign_inv get_post (set sigs) ?A"
  let ?c = "\<lambda>i. or_check (check_authority_of i) (or_check (check_with get_act i) (check_with get_own i))"
  from assms False obtain s s' where
    s: "foldE (\<lambda>i. require tx_missing_posting_auth (?c i)) (required_posting req) s = Inr s'" "?I s"
    and empty: "required_active req = []" "required_owner req = []" "required_other req = []"
    using new_sign_state_inv[of get_post sigs postings depth] by (auto simp: verify_authority_def Let_def)
  have c: "sound_check ?I (justified get_post (set sigs) ?A i \<or>
       (\<exists>auth. get_act i = Inr auth \<and> satisfied get_post (set sigs) ?A auth) \<or>
       (\<exists>auth. get_own i = Inr auth \<and> satisfied get_post (set sigs) ?A auth)) (?c i)" for i
    by (intro sound_or sound_of sound_with)
  show ?thesis using False empty foldE_require[OF s c] by (auto simp: justified_def Let_def)
next
  case True
  let ?A = "insert ''temp'' (set owners \<union> set actives)" let ?I = "sign_inv get_act (set sigs) ?A"
  let ?ok = "satisfied get_act (set sigs) ?A"
  let ?c = "\<lambda>i. or_check (check_authority_of i) (check_with get_own i)"
  let ?d = "\<lambda>i. or_check (\<lambda>s. Inr (i \<in> set owners, s)) (check_with get_own i)"
  from assms True obtain s s1 s2 s3 where "?I s"
    and s: "foldE (\<lambda>auth. require tx_missing_other_auth (\<lambda>s. check_authority (max_recursion s) auth s))
         (required_other req) s = Inr s1"
      "foldE (\<lambda>i. require tx_missing_active_auth (?c i)) (required_active req) s1 = Inr s2"
      "foldE (\<lambda>i. require tx_missing_owner_auth (?d i)) (required_owner req) s2 = Inr s3"
    using new_sign_state_inv[of get_act sigs "owners @ actives" depth] by (auto simp: verify_authority_def Let_def)
  note other = foldE_require[OF s(1) \<open>?I s\<close> sound_authority]
  have c: "sound_check ?I (justified get_act (set sigs) ?A i \<or> (\<exists>auth. get_own i = Inr auth \<and> ?ok auth)) (?c i)"
    and d: "sound_check ?I (i \<in> set owners \<or> (\<exists>auth. get_own i = Inr auth \<and> ?ok auth)) (?d i)" for i
    by (intro sound_or sound_of sound_with sound_const)+
  note active = foldE_require[OF s(2) conjunct1[OF other] c]
  note owner = foldE_require[OF s(3) conjunct1[OF active] d]
  show ?thesis using True other active owner by (auto simp: justified_def Let_def)
qed

theorem verify_authority_sound_witness:
  "satisfied (\<lambda>_. Inr \<lparr>weight_threshold = 1, account_auths = [], key_auths = [(''K'', 1)]\<rparr>) {''K''} {''temp''}
     \<lparr>weight_threshold = 1, account_auths = [], key_auths = [(''K'', 1)]\<rparr>"
proof -
  let ?g = "\<lambda>_. Inr \<lparr>weight_threshold = 1, account_auths = [], key_auths = [(''K'', 1)]\<rparr>"
  have "verify_authority \<lparr>required_active = [''alice''], required_owner = [], required_posting = [], required_other = []\<rparr>
      [''K''] ?g ?g ?g 2 [] [] [] = Inr ()"
    by code_simp
  from verify_authority_sound[OF this] show ?thesis by simp
qed

end
