(* ===== verification/Operations.thy ===== *)
theory Operations
  imports Authority
begin

text \<open>
  The operations of src/libraries/protocol/include/gamebank/protocol/gamebank_operations.hpp, one
  record per struct (extension fields that the code requires to be empty are their number), and their
  \<^verbatim>\<open>validate\<close> methods (gamebank_operations.cpp), the stateless checks that run before an operation
  reaches its evaluator.
\<close>

section \<open>Operations\<close>

record account_create_operation =
  oac_fee :: asset
  oac_creator :: account_name_type
  oac_new_account_name :: account_name_type
  oac_owner :: authority
  oac_active :: authority
  oac_posting :: authority
  oac_memo_key :: public_key_type
  oac_json_metadata :: string

record account_create_with_delegation_operation =
  oacd_fee :: asset
  oacd_delegation :: asset
  oacd_creator :: account_name_type
  oacd_new_account_name :: account_name_type
  oacd_owner :: authority
  oacd_active :: authority
  oacd_posting :: authority
  oacd_memo_key :: public_key_type
  oacd_json_metadata :: string

record account_update_operation =
  oau_account :: account_name_type
  oau_owner :: "authority option"
  oau_active :: "authority option"
  oau_posting :: "authority option"
  oau_memo_key :: public_key_type
  oau_json_metadata :: string

record comment_operation =
  oco_parent_author :: account_name_type
  oco_parent_permlink :: string
  oco_author :: account_name_type
  oco_permlink :: string
  oco_title :: string
  oco_body :: string
  oco_json_metadata :: string

record comment_options_operation =
  ocop_author :: account_name_type
  ocop_permlink :: string
  ocop_max_accepted_payout :: asset
  ocop_percent_gamebank_dollars :: "16 word"
  ocop_allow_votes :: bool
  ocop_allow_curation_rewards :: bool
  ocop_beneficiaries :: "beneficiary_route_type list list"

record claim_account_operation =
  oca_creator :: account_name_type
  oca_fee :: asset
  oca_extensions :: nat

record create_claimed_account_operation =
  occa_creator :: account_name_type
  occa_new_account_name :: account_name_type
  occa_owner :: authority
  occa_active :: authority
  occa_posting :: authority
  occa_memo_key :: public_key_type
  occa_json_metadata :: string
  occa_extensions :: nat

record delete_comment_operation =
  odc_author :: account_name_type
  odc_permlink :: string

record vote_operation =
  ovo_voter :: account_name_type
  ovo_author :: account_name_type
  ovo_permlink :: string
  ovo_weight :: int

record transfer_operation =
  otr_from :: account_name_type
  otr_to :: account_name_type
  otr_amount :: asset
  otr_memo :: string

record escrow_transfer_operation =
  oet_from :: account_name_type
  oet_to :: account_name_type
  oet_agent :: account_name_type
  oet_escrow_id :: "32 word"
  oet_gbd_amount :: asset
  oet_gbc_amount :: asset
  oet_fee :: asset
  oet_ratification_deadline :: time_point_sec
  oet_escrow_expiration :: time_point_sec
  oet_json_meta :: string

record escrow_approve_operation =
  oea_from :: account_name_type
  oea_to :: account_name_type
  oea_agent :: account_name_type
  oea_who :: account_name_type
  oea_escrow_id :: "32 word"
  oea_approve :: bool

record escrow_dispute_operation =
  oed_from :: account_name_type
  oed_to :: account_name_type
  oed_agent :: account_name_type
  oed_who :: account_name_type
  oed_escrow_id :: "32 word"

record escrow_release_operation =
  oer_from :: account_name_type
  oer_to :: account_name_type
  oer_agent :: account_name_type
  oer_who :: account_name_type
  oer_receiver :: account_name_type
  oer_escrow_id :: "32 word"
  oer_gbd_amount :: asset
  oer_gbc_amount :: asset

record transfer_to_vesting_operation =
  otv_from :: account_name_type
  otv_to :: account_name_type
  otv_amount :: asset

record withdraw_vesting_operation =
  owvs_account :: account_name_type
  owvs_vesting_shares :: asset

record set_withdraw_vesting_route_operation =
  osr_from_account :: account_name_type
  osr_to_account :: account_name_type
  osr_percent :: "16 word"
  osr_auto_vest :: bool

record witness_update_operation =
  owu_owner :: account_name_type
  owu_url :: string
  owu_block_signing_key :: public_key_type
  owu_account_creation_fee :: asset
  owu_maximum_block_size :: "32 word"
  owu_gbd_interest_rate :: "16 word"
  owu_fee :: asset

record account_witness_vote_operation =
  oawv_account :: account_name_type
  oawv_witness :: account_name_type
  oawv_approve :: bool

record account_witness_proxy_operation =
  oawp_account :: account_name_type
  oawp_proxy :: account_name_type

record feed_publish_operation =
  ofp_publisher :: account_name_type
  ofp_exchange_rate :: price

record convert_operation =
  ocv_owner :: account_name_type
  ocv_requestid :: "32 word"
  ocv_amount :: asset

record limit_order_create_operation =
  oloc_owner :: account_name_type
  oloc_orderid :: "32 word"
  oloc_amount_to_sell :: asset
  oloc_min_to_receive :: asset
  oloc_fill_or_kill :: bool
  oloc_expiration :: time_point_sec

record limit_order_create2_operation =
  oloc2_owner :: account_name_type
  oloc2_orderid :: "32 word"
  oloc2_amount_to_sell :: asset
  oloc2_fill_or_kill :: bool
  oloc2_exchange_rate :: price
  oloc2_expiration :: time_point_sec

record limit_order_cancel_operation =
  olox_owner :: account_name_type
  olox_orderid :: "32 word"

record request_account_recovery_operation =
  orar_recovery_account :: account_name_type
  orar_account_to_recover :: account_name_type
  orar_new_owner_authority :: authority

record recover_account_operation =
  ora_account_to_recover :: account_name_type
  ora_new_owner_authority :: authority
  ora_recent_owner_authority :: authority

record reset_account_operation =
  orst_reset_account :: account_name_type
  orst_account_to_reset :: account_name_type
  orst_new_owner_authority :: authority

record set_reset_account_operation =
  osrst_account :: account_name_type
  osrst_current_reset_account :: account_name_type
  osrst_reset_account :: account_name_type

record change_recovery_account_operation =
  ochr_account_to_recover :: account_name_type
  ochr_new_recovery_account :: account_name_type

record transfer_to_savings_operation =
  ots_from :: account_name_type
  ots_to :: account_name_type
  ots_amount :: asset
  ots_memo :: string

record transfer_from_savings_operation =
  otf_from :: account_name_type
  otf_request_id :: "32 word"
  otf_to :: account_name_type
  otf_amount :: asset
  otf_memo :: string

record cancel_transfer_from_savings_operation =
  octs_from :: account_name_type
  octs_request_id :: "32 word"

record decline_voting_rights_operation =
  odvr_account :: account_name_type
  odvr_decline :: bool

record claim_reward_balance_operation =
  ocrb_account :: account_name_type
  ocrb_reward_gbc :: asset
  ocrb_reward_gbd :: asset
  ocrb_reward_vests :: asset

record delegate_vesting_shares_operation =
  odvs_delegator :: account_name_type
  odvs_delegatee :: account_name_type
  odvs_vesting_shares :: asset

record crowdfunding_operation =
  ocrf_originator :: account_name_type
  ocrf_permlink :: string
  ocrf_raise :: asset
  ocrf_title :: string
  ocrf_body :: string
  ocrf_json_metadata :: string

record invest_operation =
  oiv_invester :: account_name_type
  oiv_originator :: account_name_type
  oiv_permlink :: string
  oiv_raise :: asset

record nonfungible_fund_create_operation =
  onfc_creator :: account_name_type
  onfc_owner :: account_name_type
  onfc_meta_data :: string

record nonfungible_fund_transfer_operation =
  onft_from :: account_name_type
  onft_to :: account_name_type
  onft_fund_id :: int

record nonfungible_fund_put_up_for_sale_operation =
  onfs_seller :: account_name_type
  onfs_fund_id :: int
  onfs_selling_price :: asset
  onfs_expiration :: time_point_sec

record nonfungible_fund_withdraw_from_sale_operation =
  onfw_seller :: account_name_type
  onfw_fund_id :: int

record nonfungible_fund_buy_operation =
  onfb_buyer :: account_name_type
  onfb_fund_id :: int

record contract_deploy_operation =
  ocd_creator :: account_name_type
  ocd_name :: account_name_type
  ocd_code :: string
  ocd_abi :: string

record contract_call_operation =
  ocl_caller :: account_name_type
  ocl_contract_name :: account_name_type
  ocl_method :: string
  ocl_args :: string

section \<open>Validation\<close>

text \<open>
  The text checks of the fc library (\<^verbatim>\<open>fc::is_utf8\<close>, \<^verbatim>\<open>fc::json::is_valid\<close>) are parameters.
\<close>

record text_checks =
  is_utf8 :: "string \<Rightarrow> bool"
  json_is_valid :: "string \<Rightarrow> bool"

definition must :: "bool \<Rightarrow> unit result" where
  "must b = fc_assert b (Inr ())"

fun checks :: "unit result list \<Rightarrow> unit result" where
  "checks [] = Inr ()"
| "checks (c # cs) = bindE c (\<lambda>_. checks cs)"

definition validate_permlink :: "text_checks \<Rightarrow> string \<Rightarrow> unit result" where
  "validate_permlink tc permlink = checks [must (length permlink < 256), must (is_utf8 tc permlink)]"

definition validate_json :: "text_checks \<Rightarrow> string \<Rightarrow> unit result" where
  "validate_json tc j =
     (if length j > 0 then checks [must (is_utf8 tc j), must (json_is_valid tc j)] else Inr ())"

definition account_create_validate :: "text_checks \<Rightarrow> account_create_operation \<Rightarrow> unit result" where
  "account_create_validate tc op = checks
     [validate_account_name (oac_new_account_name op),
      must (symbol (oac_fee op) = GBC_SYMBOL),
      authority_validate (oac_owner op), authority_validate (oac_active op),
      validate_json tc (oac_json_metadata op),
      fc_assertE (asset_ge (oac_fee op) (GBC 0)) (Inr ())]"

definition account_create_with_delegation_validate ::
    "text_checks \<Rightarrow> account_create_with_delegation_operation \<Rightarrow> unit result" where
  "account_create_with_delegation_validate tc op = checks
     [validate_account_name (oacd_new_account_name op), validate_account_name (oacd_creator op),
      must (symbol (oacd_fee op) = GBC_SYMBOL), must (symbol (oacd_delegation op) = GBS_SYMBOL),
      authority_validate (oacd_owner op), authority_validate (oacd_active op), authority_validate (oacd_posting op),
      validate_json tc (oacd_json_metadata op),
      fc_assertE (asset_ge (oacd_fee op) (GBC 0)) (Inr ()),
      fc_assertE (asset_ge (oacd_delegation op) (GBS 0)) (Inr ())]"

definition account_update_validate :: "text_checks \<Rightarrow> account_update_operation \<Rightarrow> unit result" where
  "account_update_validate tc op = checks
     [validate_account_name (oau_account op), validate_json tc (oau_json_metadata op)]"

definition comment_validate :: "text_checks \<Rightarrow> comment_operation \<Rightarrow> unit result" where
  "comment_validate tc op = checks
     [must (length (oco_title op) < 256), must (is_utf8 tc (oco_title op)),
      must (length (oco_body op) > 0), must (is_utf8 tc (oco_body op)),
      if length (oco_parent_author op) > 0 then validate_account_name (oco_parent_author op) else Inr (),
      validate_account_name (oco_author op),
      validate_permlink tc (oco_parent_permlink op), validate_permlink tc (oco_permlink op),
      if length (oco_json_metadata op) > 0 then must (json_is_valid tc (oco_json_metadata op)) else Inr ()]"

text \<open>The beneficiary loop: \<open>prev\<close> is the previous route, \<open>wsum\<close> the sum of weights in 32 bits.\<close>

fun validate_beneficiaries ::
    "beneficiary_route_type option \<Rightarrow> 32 word \<Rightarrow> beneficiary_route_type list \<Rightarrow> unit result" where
  "validate_beneficiaries prev wsum [] = Inr ()"
| "validate_beneficiaries prev wsum (b # bs) =
     bindE (checks
       [validate_account_name (br_account b), must (br_weight b \<le> 10000),
        must (wsum + ucast (br_weight b) \<le> 10000),
        case prev of None \<Rightarrow> Inr () | Some p \<Rightarrow> must (br_account p < br_account b)]) (\<lambda>_.
     validate_beneficiaries (Some b) (wsum + ucast (br_weight b)) bs)"

definition comment_payout_beneficiaries_validate :: "beneficiary_route_type list \<Rightarrow> unit result" where
  "comment_payout_beneficiaries_validate bs = checks
     [must (bs \<noteq> []), must (length bs < 128), validate_beneficiaries None 0 bs]"

definition comment_options_validate :: "text_checks \<Rightarrow> comment_options_operation \<Rightarrow> unit result" where
  "comment_options_validate tc op = checks
     ([validate_account_name (ocop_author op), must (ocop_percent_gamebank_dollars op \<le> 10000),
       must (symbol (ocop_max_accepted_payout op) = GBD_SYMBOL), must (amount (ocop_max_accepted_payout op) \<ge> 0),
       validate_permlink tc (ocop_permlink op)]
      @ map comment_payout_beneficiaries_validate (ocop_beneficiaries op))"

definition delete_comment_validate :: "text_checks \<Rightarrow> delete_comment_operation \<Rightarrow> unit result" where
  "delete_comment_validate tc op = checks
     [validate_permlink tc (odc_permlink op), validate_account_name (odc_author op)]"

definition claim_account_validate :: "claim_account_operation \<Rightarrow> unit result" where
  "claim_account_validate op = checks
     [validate_account_name (oca_creator op), must (symbol (oca_fee op) = GBC_SYMBOL),
      fc_assertE (asset_ge (oca_fee op) (GBC 0)) (Inr ()), must (oca_extensions op = 0)]"

definition create_claimed_account_validate :: "text_checks \<Rightarrow> create_claimed_account_operation \<Rightarrow> unit result" where
  "create_claimed_account_validate tc op = checks
     [validate_account_name (occa_creator op), validate_account_name (occa_new_account_name op),
      authority_validate (occa_owner op), authority_validate (occa_active op), authority_validate (occa_posting op),
      validate_json tc (occa_json_metadata op), must (occa_extensions op = 0)]"

definition vote_validate :: "text_checks \<Rightarrow> vote_operation \<Rightarrow> unit result" where
  "vote_validate tc op = checks
     [validate_account_name (ovo_voter op), validate_account_name (ovo_author op),
      must (\<bar>ovo_weight op\<bar> \<le> 10000), validate_permlink tc (ovo_permlink op)]"

definition transfer_validate :: "text_checks \<Rightarrow> transfer_operation \<Rightarrow> unit result" where
  "transfer_validate tc op = checks
     [validate_account_name (otr_from op), validate_account_name (otr_to op),
      must (symbol (otr_amount op) \<noteq> GBS_SYMBOL), must (amount (otr_amount op) > 0),
      must (length (otr_memo op) < 2048), must (is_utf8 tc (otr_memo op))]"

definition transfer_to_vesting_validate :: "transfer_to_vesting_operation \<Rightarrow> unit result" where
  "transfer_to_vesting_validate op = checks
     [validate_account_name (otv_from op), must (symbol (otv_amount op) = GBC_SYMBOL),
      if otv_to op \<noteq> '''' then validate_account_name (otv_to op) else Inr (),
      must (amount (otv_amount op) > 0)]"

definition withdraw_vesting_validate :: "withdraw_vesting_operation \<Rightarrow> unit result" where
  "withdraw_vesting_validate op = checks
     [validate_account_name (owvs_account op), must (symbol (owvs_vesting_shares op) = GBS_SYMBOL)]"

definition set_withdraw_vesting_route_validate :: "set_withdraw_vesting_route_operation \<Rightarrow> unit result" where
  "set_withdraw_vesting_route_validate op = checks
     [validate_account_name (osr_from_account op), validate_account_name (osr_to_account op),
      must (osr_percent op \<le> 10000)]"

definition witness_update_validate :: "text_checks \<Rightarrow> witness_update_operation \<Rightarrow> unit result" where
  "witness_update_validate tc op = checks
     [validate_account_name (owu_owner op), must (length (owu_url op) \<le> 2048), must (length (owu_url op) > 0),
      must (is_utf8 tc (owu_url op)), fc_assertE (asset_ge (owu_fee op) (GBC 0)) (Inr ()),
      must (amount (owu_account_creation_fee op) \<ge> 1), must (owu_maximum_block_size op \<ge> 65536),
      must (owu_gbd_interest_rate op \<le> 10000)]"

definition account_witness_vote_validate :: "account_witness_vote_operation \<Rightarrow> unit result" where
  "account_witness_vote_validate op = checks
     [validate_account_name (oawv_account op), validate_account_name (oawv_witness op)]"

definition account_witness_proxy_validate :: "account_witness_proxy_operation \<Rightarrow> unit result" where
  "account_witness_proxy_validate op = checks
     [validate_account_name (oawp_account op),
      if length (oawp_proxy op) > 0 then validate_account_name (oawp_proxy op) else Inr (),
      must (oawp_proxy op \<noteq> oawp_account op)]"

definition feed_publish_validate :: "feed_publish_operation \<Rightarrow> unit result" where
  "feed_publish_validate op = checks
     [validate_account_name (ofp_publisher op),
      must (symbol (base (ofp_exchange_rate op)) = GBC_SYMBOL \<and> symbol (quote (ofp_exchange_rate op)) = GBD_SYMBOL \<or>
            symbol (base (ofp_exchange_rate op)) = GBD_SYMBOL \<and> symbol (quote (ofp_exchange_rate op)) = GBC_SYMBOL),
      price_validate (ofp_exchange_rate op)]"

definition limit_order_create_validate :: "limit_order_create_operation \<Rightarrow> unit result" where
  "limit_order_create_validate op = checks
     [validate_account_name (oloc_owner op),
      must (symbol (oloc_amount_to_sell op) = GBC_SYMBOL \<and> symbol (oloc_min_to_receive op) = GBD_SYMBOL \<or>
            symbol (oloc_amount_to_sell op) = GBD_SYMBOL \<and> symbol (oloc_min_to_receive op) = GBC_SYMBOL),
      bindE (price_div (oloc_amount_to_sell op) (oloc_min_to_receive op)) price_validate]"

definition limit_order_create2_validate :: "limit_order_create2_operation \<Rightarrow> unit result" where
  "limit_order_create2_validate op = checks
     [validate_account_name (oloc2_owner op),
      must (symbol (oloc2_amount_to_sell op) = symbol (base (oloc2_exchange_rate op))),
      price_validate (oloc2_exchange_rate op),
      must (symbol (oloc2_amount_to_sell op) = GBC_SYMBOL \<and> symbol (quote (oloc2_exchange_rate op)) = GBD_SYMBOL \<or>
            symbol (oloc2_amount_to_sell op) = GBD_SYMBOL \<and> symbol (quote (oloc2_exchange_rate op)) = GBC_SYMBOL),
      bindE (asset_times_price (oloc2_amount_to_sell op) (oloc2_exchange_rate op)) (\<lambda>r. must (amount r > 0))]"

definition limit_order_cancel_validate :: "limit_order_cancel_operation \<Rightarrow> unit result" where
  "limit_order_cancel_validate op = validate_account_name (olox_owner op)"

definition convert_validate :: "convert_operation \<Rightarrow> unit result" where
  "convert_validate op = checks
     [validate_account_name (ocv_owner op), must (symbol (ocv_amount op) = GBD_SYMBOL), must (amount (ocv_amount op) > 0)]"

definition escrow_transfer_validate :: "text_checks \<Rightarrow> escrow_transfer_operation \<Rightarrow> unit result" where
  "escrow_transfer_validate tc op = checks
     [validate_account_name (oet_from op), validate_account_name (oet_to op), validate_account_name (oet_agent op),
      must (amount (oet_fee op) \<ge> 0), must (amount (oet_gbd_amount op) \<ge> 0), must (amount (oet_gbc_amount op) \<ge> 0),
      must (amount (oet_gbd_amount op) > 0 \<or> amount (oet_gbc_amount op) > 0),
      must (oet_from op \<noteq> oet_agent op \<and> oet_to op \<noteq> oet_agent op),
      must (symbol (oet_fee op) = GBC_SYMBOL \<or> symbol (oet_fee op) = GBD_SYMBOL),
      must (symbol (oet_gbd_amount op) = GBD_SYMBOL), must (symbol (oet_gbc_amount op) = GBC_SYMBOL),
      must (oet_ratification_deadline op < oet_escrow_expiration op),
      validate_json tc (oet_json_meta op)]"

definition escrow_approve_validate :: "escrow_approve_operation \<Rightarrow> unit result" where
  "escrow_approve_validate op = checks
     [validate_account_name (oea_from op), validate_account_name (oea_to op), validate_account_name (oea_agent op),
      validate_account_name (oea_who op), must (oea_who op = oea_to op \<or> oea_who op = oea_agent op)]"

definition escrow_dispute_validate :: "escrow_dispute_operation \<Rightarrow> unit result" where
  "escrow_dispute_validate op = checks
     [validate_account_name (oed_from op), validate_account_name (oed_to op), validate_account_name (oed_agent op),
      validate_account_name (oed_who op), must (oed_who op = oed_from op \<or> oed_who op = oed_to op)]"

definition escrow_release_validate :: "escrow_release_operation \<Rightarrow> unit result" where
  "escrow_release_validate op = checks
     [validate_account_name (oer_from op), validate_account_name (oer_to op), validate_account_name (oer_agent op),
      validate_account_name (oer_who op), validate_account_name (oer_receiver op),
      must (oer_who op = oer_from op \<or> oer_who op = oer_to op \<or> oer_who op = oer_agent op),
      must (oer_receiver op = oer_from op \<or> oer_receiver op = oer_to op),
      must (amount (oer_gbd_amount op) \<ge> 0), must (amount (oer_gbc_amount op) \<ge> 0),
      must (amount (oer_gbd_amount op) > 0 \<or> amount (oer_gbc_amount op) > 0),
      must (symbol (oer_gbd_amount op) = GBD_SYMBOL), must (symbol (oer_gbc_amount op) = GBC_SYMBOL)]"

definition request_account_recovery_validate :: "request_account_recovery_operation \<Rightarrow> unit result" where
  "request_account_recovery_validate op = checks
     [validate_account_name (orar_recovery_account op), validate_account_name (orar_account_to_recover op),
      authority_validate (orar_new_owner_authority op)]"

definition recover_account_validate :: "recover_account_operation \<Rightarrow> unit result" where
  "recover_account_validate op = checks
     [validate_account_name (ora_account_to_recover op),
      must (ora_new_owner_authority op \<noteq> ora_recent_owner_authority op),
      must (\<not> is_impossible (ora_new_owner_authority op)), must (\<not> is_impossible (ora_recent_owner_authority op)),
      must (weight_threshold (ora_new_owner_authority op) \<noteq> 0),
      authority_validate (ora_new_owner_authority op), authority_validate (ora_recent_owner_authority op)]"

definition change_recovery_account_validate :: "change_recovery_account_operation \<Rightarrow> unit result" where
  "change_recovery_account_validate op = checks
     [validate_account_name (ochr_account_to_recover op), validate_account_name (ochr_new_recovery_account op)]"

definition transfer_to_savings_validate :: "text_checks \<Rightarrow> transfer_to_savings_operation \<Rightarrow> unit result" where
  "transfer_to_savings_validate tc op = checks
     [validate_account_name (ots_from op), validate_account_name (ots_to op), must (amount (ots_amount op) > 0),
      must (symbol (ots_amount op) = GBC_SYMBOL \<or> symbol (ots_amount op) = GBD_SYMBOL),
      must (length (ots_memo op) < 2048), must (is_utf8 tc (ots_memo op))]"

definition transfer_from_savings_validate :: "text_checks \<Rightarrow> transfer_from_savings_operation \<Rightarrow> unit result" where
  "transfer_from_savings_validate tc op = checks
     [validate_account_name (otf_from op), validate_account_name (otf_to op), must (amount (otf_amount op) > 0),
      must (symbol (otf_amount op) = GBC_SYMBOL \<or> symbol (otf_amount op) = GBD_SYMBOL),
      must (length (otf_memo op) < 2048), must (is_utf8 tc (otf_memo op))]"

definition cancel_transfer_from_savings_validate :: "cancel_transfer_from_savings_operation \<Rightarrow> unit result" where
  "cancel_transfer_from_savings_validate op = validate_account_name (octs_from op)"

definition decline_voting_rights_validate :: "decline_voting_rights_operation \<Rightarrow> unit result" where
  "decline_voting_rights_validate op = validate_account_name (odvr_account op)"

definition reset_account_validate :: "reset_account_operation \<Rightarrow> unit result" where
  "reset_account_validate op = checks
     [validate_account_name (orst_reset_account op), validate_account_name (orst_account_to_reset op),
      must (\<not> is_impossible (orst_new_owner_authority op)), must (weight_threshold (orst_new_owner_authority op) \<noteq> 0),
      authority_validate (orst_new_owner_authority op)]"

definition set_reset_account_validate :: "set_reset_account_operation \<Rightarrow> unit result" where
  "set_reset_account_validate op = checks
     [validate_account_name (osrst_account op),
      if length (osrst_current_reset_account op) > 0 then validate_account_name (osrst_current_reset_account op) else Inr (),
      validate_account_name (osrst_reset_account op),
      must (osrst_current_reset_account op \<noteq> osrst_reset_account op)]"

definition claim_reward_balance_validate :: "claim_reward_balance_operation \<Rightarrow> unit result" where
  "claim_reward_balance_validate op = checks
     [validate_account_name (ocrb_account op),
      must (symbol (ocrb_reward_gbc op) = GBC_SYMBOL), must (symbol (ocrb_reward_gbd op) = GBD_SYMBOL),
      must (symbol (ocrb_reward_vests op) = GBS_SYMBOL),
      must (amount (ocrb_reward_gbc op) \<ge> 0), must (amount (ocrb_reward_gbd op) \<ge> 0), must (amount (ocrb_reward_vests op) \<ge> 0),
      must (amount (ocrb_reward_gbc op) > 0 \<or> amount (ocrb_reward_gbd op) > 0 \<or> amount (ocrb_reward_vests op) > 0)]"

definition delegate_vesting_shares_validate :: "delegate_vesting_shares_operation \<Rightarrow> unit result" where
  "delegate_vesting_shares_validate op = checks
     [validate_account_name (odvs_delegator op), validate_account_name (odvs_delegatee op),
      must (odvs_delegator op \<noteq> odvs_delegatee op), must (symbol (odvs_vesting_shares op) = GBS_SYMBOL),
      fc_assertE (asset_ge (odvs_vesting_shares op) (GBS 0)) (Inr ())]"

definition crowdfunding_validate :: "text_checks \<Rightarrow> crowdfunding_operation \<Rightarrow> unit result" where
  "crowdfunding_validate tc op = checks
     [must (length (ocrf_title op) < 256), must (is_utf8 tc (ocrf_title op)),
      must (length (ocrf_body op) > 0), must (is_utf8 tc (ocrf_body op)),
      validate_account_name (ocrf_originator op), validate_permlink tc (ocrf_permlink op),
      if length (ocrf_json_metadata op) > 0 then must (json_is_valid tc (ocrf_json_metadata op)) else Inr (),
      must (symbol (ocrf_raise op) = GBC_SYMBOL), fc_assertE (asset_ge (ocrf_raise op) (GBC 0)) (Inr ())]"

definition invest_validate :: "text_checks \<Rightarrow> invest_operation \<Rightarrow> unit result" where
  "invest_validate tc op = checks
     [validate_account_name (oiv_invester op), validate_account_name (oiv_originator op),
      validate_permlink tc (oiv_permlink op),
      must (symbol (oiv_raise op) = GBC_SYMBOL), fc_assertE (asset_ge (oiv_raise op) (GBC 0)) (Inr ())]"

definition nonfungible_fund_create_validate :: "text_checks \<Rightarrow> nonfungible_fund_create_operation \<Rightarrow> unit result" where
  "nonfungible_fund_create_validate tc op = checks
     [must (length (onfc_meta_data op) > 0), must (length (onfc_meta_data op) < 256), must (is_utf8 tc (onfc_meta_data op)),
      validate_account_name (onfc_creator op), validate_account_name (onfc_owner op)]"

definition nonfungible_fund_transfer_validate :: "nonfungible_fund_transfer_operation \<Rightarrow> unit result" where
  "nonfungible_fund_transfer_validate op = checks
     [must (onft_fund_id op > 0), must (onft_from op \<noteq> onft_to op),
      validate_account_name (onft_from op), validate_account_name (onft_to op)]"

definition nonfungible_fund_put_up_for_sale_validate :: "nonfungible_fund_put_up_for_sale_operation \<Rightarrow> unit result" where
  "nonfungible_fund_put_up_for_sale_validate op = checks
     [must (onfs_fund_id op > 0),
      must (symbol (onfs_selling_price op) = GBC_SYMBOL \<or> symbol (onfs_selling_price op) = GBD_SYMBOL),
      must (amount (onfs_selling_price op) > 0), validate_account_name (onfs_seller op)]"

definition nonfungible_fund_withdraw_from_sale_validate ::
    "nonfungible_fund_withdraw_from_sale_operation \<Rightarrow> unit result" where
  "nonfungible_fund_withdraw_from_sale_validate op = checks
     [must (onfw_fund_id op > 0), validate_account_name (onfw_seller op)]"

definition nonfungible_fund_buy_validate :: "nonfungible_fund_buy_operation \<Rightarrow> unit result" where
  "nonfungible_fund_buy_validate op = checks [must (onfb_fund_id op > 0), validate_account_name (onfb_buyer op)]"

definition contract_deploy_validate :: "contract_deploy_operation \<Rightarrow> unit result" where
  "contract_deploy_validate op = checks
     [validate_account_name (ocd_creator op), validate_account_name (ocd_name op),
      must (length (ocd_code op) > 0), must (length (ocd_code op) < 1048576),
      must (length (ocd_abi op) > 0), must (length (ocd_abi op) < 65536)]"

definition contract_call_validate :: "contract_call_operation \<Rightarrow> unit result" where
  "contract_call_validate op = checks
     [validate_account_name (ocl_contract_name op), validate_account_name (ocl_caller op),
      must (length (ocl_method op) > 0), must (length (ocl_method op) < 256),
      must (length (ocl_args op) > 0), must (length (ocl_args op) < 65536)]"

lemma must_Inr [simp]: "must b = Inr x \<longleftrightarrow> b"
  by (simp add: must_def)

lemma checks_Inr [simp]: "checks (c # cs) = Inr x \<longleftrightarrow> c = Inr () \<and> checks cs = Inr x" "checks [] = Inr x"
  by auto

end
