(* ===== verification/Genesis.thy ===== *)
theory Genesis
  imports Balance Operations
begin

text \<open>
  The first state of the chain: \<^verbatim>\<open>database::init_genesis\<close> of src/libraries/chain/database.cpp on an
  empty database, with the default member values that the object classes declare (an account's are in
  \<open>new_account\<close>). The skip flags that it sets around its own work and the ring of empty
  block summaries are not part of the modelled state.
\<close>

section \<open>Default values\<close>

definition default_chain_properties :: chain_properties where
  "default_chain_properties =
     \<lparr>cp_account_creation_fee = GBC 1, cp_maximum_block_size = 131072, cp_gbd_interest_rate = 1000,
      cp_account_subsidy_limit = 0\<rparr>"

definition GAMEBANK_GENESIS_TIME :: time_point_sec where "GAMEBANK_GENESIS_TIME = 1458835200"

definition new_witness :: witness_object where
  "new_witness =
     \<lparr>w_owner = '''', w_created = 0, w_url = '''', w_total_missed = 0, w_last_aslot = 0,
      w_last_confirmed_block_num = 0, w_pow_worker = 0, w_signing_key = '''', w_props = default_chain_properties,
      w_gbd_exchange_rate = null_price, w_last_gbd_exchange_update = 0, w_votes = 0, w_schedule = miner,
      w_virtual_last_update = 0, w_virtual_position = 0, w_virtual_scheduled_time = - 1,
      w_running_version = 0, w_hardfork_version_vote = 0, w_hardfork_time_vote = GAMEBANK_GENESIS_TIME\<rparr>"

definition new_dgpo :: dynamic_global_property_object where
  "new_dgpo =
     \<lparr>head_block_number = 0, head_block_id = 0, dgp_time = 0, current_witness = '''', total_pow = - 1, num_pow_witnesses = 0,
      virtual_supply = GBC 0,
      current_supply = GBC 0, confidential_supply = GBC 0, current_gbd_supply = GBD 0, confidential_gbd_supply = GBD 0,
      total_vesting_fund_gbc = GBC 0, total_vesting_shares = GBS 0, total_reward_fund_gbc = GBC 0,
      total_reward_shares2 = 0, pending_rewarded_vesting_shares = GBS 0, pending_rewarded_vesting_gbc = GBC 0,
      gbd_interest_rate = 0, gbd_print_rate = 10000, maximum_block_size = 0, current_aslot = 0,
      recent_slots_filled = 0, participation_count = 0, last_irreversible_block_num = 0,
      vote_power_reserve_rate = 40, delegation_return_period = 604800\<rparr>"

definition new_witness_schedule :: witness_schedule_object where
  "new_witness_schedule =
     \<lparr>ws_current_virtual_time = 0, ws_next_shuffle_block_num = 1,
      ws_current_shuffled_witnesses = replicate 21 '''', ws_num_scheduled_witnesses = 1, ws_top19_weight = 1,
      ws_timeshare_weight = 5, ws_miner_weight = 1, ws_witness_pay_normalization_factor = 25,
      ws_median_props = default_chain_properties, ws_majority_version = 0, ws_max_voted_witnesses = 20,
      ws_max_miner_witnesses = 0, ws_max_runner_witnesses = 1, ws_hardfork_required_witnesses = 17\<rparr>"

definition empty_authority :: authority where
  "empty_authority = \<lparr>weight_threshold = 0, account_auths = [], key_auths = []\<rparr>"

definition empty_database :: database where
  "empty_database =
     \<lparr>accounts = empty_table, account_authorities = empty_table, vesting_delegations = empty_table,
      delegation_expirations = empty_table, owner_histories = empty_table, recovery_requests = empty_table,
      change_recovery_requests = empty_table, convert_requests = empty_table, escrows = empty_table,
      savings_withdraws = empty_table, liquidity_rewards = empty_table, limit_orders = empty_table,
      withdraw_routes = empty_table, decline_requests = empty_table, reward_funds = empty_table,
      witnesses = empty_table, witness_votes = empty_table, comments = empty_table,
      comment_contents = empty_table, comment_votes = empty_table, crowdfundings = empty_table,
      crowdfunding_contents = empty_table, crowdfunding_invests = empty_table, nonfungible_funds = empty_table,
      nonfungible_on_sale = empty_table, contracts = empty_table, contract_users = empty_table,
      feed_history = \<lparr>fh_current_median_history = null_price, fh_price_history = []\<rparr>,
      witness_schedule = new_witness_schedule,
      hardfork_property = \<lparr>hf_processed_hardforks = [], hf_last_hardfork = 0, hf_current_hardfork_version = 0,
                          hf_next_hardfork = 0, hf_next_hardfork_time = 0\<rparr>,
      dgpo = new_dgpo\<rparr>"

section \<open>Creating accounts and witnesses\<close>

definition account_clash :: "account_object \<Rightarrow> account_object \<Rightarrow> bool" where
  "account_clash a b \<longleftrightarrow> a_name a = a_name b"

definition create_account ::
    "(account_object \<Rightarrow> account_object) \<Rightarrow> database \<Rightarrow> database result" where
  "create_account f db =
     bindE (t_create account_clash (\<lambda>i. f (new_account i)) (accounts db)) (\<lambda>t. Inr (db\<lparr>accounts := t\<rparr>))"

definition create_account_authority ::
    "account_name_type \<Rightarrow> authority \<Rightarrow> authority \<Rightarrow> authority \<Rightarrow> time_point_sec \<Rightarrow> database \<Rightarrow> database result" where
  "create_account_authority n owner active posting upd db =
     bindE (t_create (\<lambda>_ _. False) (\<lambda>_.
        \<lparr>auth_account = n, auth_owner = owner, auth_active = active, auth_posting = posting,
         auth_last_owner_update = upd\<rparr>) (account_authorities db)) (\<lambda>t.
       Inr (db\<lparr>account_authorities := t\<rparr>))"

definition create_witness :: "(witness_object \<Rightarrow> witness_object) \<Rightarrow> database \<Rightarrow> database result" where
  "create_witness f db =
     bindE (t_create (\<lambda>v w. w_owner v = w_owner w) (\<lambda>_. f new_witness) (witnesses db)) (\<lambda>t.
       Inr (db\<lparr>witnesses := t\<rparr>))"

section \<open>init_genesis\<close>

definition GAMEBANK_MINER_ACCOUNT :: account_name_type where "GAMEBANK_MINER_ACCOUNT = ''miners''"
definition GAMEBANK_TEMP_ACCOUNT :: account_name_type where "GAMEBANK_TEMP_ACCOUNT = ''temp''"
definition GAMEBANK_INIT_MINER_NAME :: account_name_type where "GAMEBANK_INIT_MINER_NAME = ''initminer''"
definition GAMEBANK_INIT_PUBLIC_KEY :: public_key_type where
  "GAMEBANK_INIT_PUBLIC_KEY = ''TST6MH4Q1JbHp2AYmBpuux6nAbiQEW4nyunbVAdHpgWPoYPushxCo''"

definition genesis_account :: "account_name_type \<Rightarrow> 32 word \<Rightarrow> database \<Rightarrow> database result" where
  "genesis_account n threshold db =
     bindE (create_account (\<lambda>a. a\<lparr>a_name := n\<rparr>) db)
       (create_account_authority n (empty_authority\<lparr>weight_threshold := threshold\<rparr>)
          (empty_authority\<lparr>weight_threshold := threshold\<rparr>) empty_authority 0)"

text \<open>The initial supply is a \<^verbatim>\<open>uint64_t\<close> that becomes the signed amount of an asset.\<close>

definition init_genesis :: "64 word \<Rightarrow> database result" where
  "init_genesis init_supply =
     (let own = add_authority_key GAMEBANK_INIT_PUBLIC_KEY 1 (empty_authority\<lparr>weight_threshold := 1\<rparr>) in
      bindE (genesis_account GAMEBANK_MINER_ACCOUNT 1 empty_database) (\<lambda>db1.
      bindE (genesis_account GAMEBANK_NULL_ACCOUNT 1 db1) (\<lambda>db2.
      bindE (genesis_account GAMEBANK_TEMP_ACCOUNT 0 db2) (\<lambda>db3.
      bindE (create_account (\<lambda>a. a\<lparr>a_name := GAMEBANK_INIT_MINER_NAME, a_memo_key := GAMEBANK_INIT_PUBLIC_KEY,
               a_balance := GBC (sint init_supply)\<rparr>) db3) (\<lambda>db4.
      bindE (create_account_authority GAMEBANK_INIT_MINER_NAME own own own 0 db4) (\<lambda>db5.
      bindE (create_witness (\<lambda>w. w\<lparr>w_owner := GAMEBANK_INIT_MINER_NAME, w_signing_key := GAMEBANK_INIT_PUBLIC_KEY,
               w_schedule := miner\<rparr>) db5) (\<lambda>db6.
        Inr (db6\<lparr>dgpo := new_dgpo\<lparr>current_witness := GAMEBANK_INIT_MINER_NAME, dgp_time := GAMEBANK_GENESIS_TIME,
                      recent_slots_filled := - 1, participation_count := 128, current_supply := GBC (sint init_supply),
                      virtual_supply := GBC (sint init_supply), maximum_block_size := 393216000\<rparr>,
                 hardfork_property := (hardfork_property db6)\<lparr>hf_processed_hardforks := [GAMEBANK_GENESIS_TIME]\<rparr>,
                 witness_schedule := (witness_schedule db6)\<lparr>ws_current_shuffled_witnesses :=
                      (ws_current_shuffled_witnesses (witness_schedule db6))[0 := GAMEBANK_INIT_MINER_NAME]\<rparr>\<rparr>))))))))"

lemmas genesis_defs = init_genesis_def genesis_account_def create_account_def create_account_authority_def
  create_witness_def empty_database_def empty_table_def t_create_def account_clash_def new_account_def
  GAMEBANK_MINER_ACCOUNT_def GAMEBANK_NULL_ACCOUNT_def GAMEBANK_TEMP_ACCOUNT_def GAMEBANK_INIT_MINER_NAME_def

text \<open>Genesis succeeds and every ledger balances.\<close>

lemma create_account_gap [gap_move]:
  assumes "create_account f db = Inr db'"
  shows "\<forall>l. gap l db' = gap l db - account_part l (f (new_account (next_id (accounts db))))"
  using assms by (auto simp: create_account_def dest!: t_create_dest)

lemma create_account_authority_gap [gap_move]:
  "create_account_authority n x y z u db = Inr db' \<Longrightarrow> \<forall>l. gap l db' = gap l db"
  by (auto simp: create_account_authority_def)

lemma create_witness_gap [gap_move]:
  "create_witness f db = Inr db' \<Longrightarrow> \<forall>l. gap l db' = gap l db"
  by (auto simp: create_witness_def)

lemma new_account_part [simp]: "account_part l (new_account i) = 0"
  by (simp add: account_part_def new_account_def)

lemma new_account_balance [simp]: "a_balance (new_account i) = GBC 0"
  by (simp add: new_account_def)

text \<open>
  Genesis succeeds for every initial supply, and in the state it builds the supply of every ledger
  equals what is held.
\<close>

lemma init_genesis_balanced:
  "\<exists>db. init_genesis init_supply = Inr db \<and> (\<forall>l. gap l db = 0)"
  by (simp add: genesis_defs Let_def gap_def t_sum_def supply_part_def account_part_def new_dgpo_def)

text \<open>The genesis state itself, for concrete runs.\<close>

definition genesis_state :: "64 word \<Rightarrow> database" where
  "genesis_state init_supply = (case init_genesis init_supply of Inl _ \<Rightarrow> empty_database | Inr db \<Rightarrow> db)"

text \<open>
  The definitions that a concrete run unfolds: states, lookups, checked arithmetic and the balance
  primitives.
\<close>

lemmas concrete = genesis_state_def genesis_defs Let_def get_account_def find_account_def t_get_def t_find_def
  adjust_balance_def adjust_savings_balance_def modify_balance_def accrue_gbd_def accrue_savings_gbd_def
  get_balance_def get_savings_balance_def
  modify_account_def t_modify_def t_remove_def t_size_def fc_assertE_def fc_assert_def asset_add_def asset_sub_def asset_neg_def
  safe_add_def safe_sub_def safe_neg_def int64_max_def int64_min_def returns_def new_dgpo_def has_hardfork_def
  GAMEBANK_GENESIS_TIME_def GAMEBANK_HARDFORK_0_1_def GAMEBANK_GBD_INTEREST_COMPOUND_INTERVAL_SEC_def
  t_due_def t_begin_def

end
