(* ===== verification/Transfers.thy ===== *)
theory Transfers
  imports Genesis
begin

text \<open>
  Transfers, savings and escrow: the evaluators \<^verbatim>\<open>transfer\<close>, \<^verbatim>\<open>transfer_to_vesting\<close>,
  \<^verbatim>\<open>transfer_to_savings\<close>, \<^verbatim>\<open>transfer_from_savings\<close>, \<^verbatim>\<open>cancel_transfer_from_savings\<close> and
  \<^verbatim>\<open>escrow_*\<close> of src/libraries/chain/gamebank_evaluator.cpp, and the block processing that finishes
  them, \<^verbatim>\<open>process_savings_withdraws\<close> and \<^verbatim>\<open>expire_escrow_ratification\<close> of database.cpp.
\<close>

section \<open>Transfers\<close>

definition transfer_evaluator :: "transfer_operation \<Rightarrow> database \<Rightarrow> database result" where
  "transfer_evaluator op db =
     bindE (get_account (otr_from op) db) (\<lambda>from.
     bindE (get_balance from (symbol (otr_amount op))) (\<lambda>bal.
     fc_assertE (asset_ge bal (otr_amount op))
     (bindE (asset_neg (otr_amount op)) (\<lambda>neg.
      bindE (adjust_balance (otr_from op) neg db) (\<lambda>db1.
        adjust_balance (otr_to op) (otr_amount op) db1)))))"

definition transfer_to_vesting_evaluator :: "transfer_to_vesting_operation \<Rightarrow> database \<Rightarrow> database result" where
  "transfer_to_vesting_evaluator op db =
     bindE (get_account (otv_from op) db) (\<lambda>from_account.
     bindE (if otv_to op \<noteq> '''' then get_account (otv_to op) db else Inr from_account) (\<lambda>to_account.
     bindE (get_balance from_account (symbol (otv_amount op))) (\<lambda>bal.
     fc_assertE (asset_ge bal (otv_amount op))
     (bindE (asset_neg (otv_amount op)) (\<lambda>neg.
      bindE (adjust_balance (otv_from op) neg db) (\<lambda>db1.
      bindE (create_vesting (a_name to_account) (otv_amount op) False db1) (\<lambda>(_, db2). Inr db2)))))))"

section \<open>Savings\<close>

definition GAMEBANK_SAVINGS_WITHDRAW_TIME :: int where "GAMEBANK_SAVINGS_WITHDRAW_TIME = 3 * 86400"
definition GAMEBANK_SAVINGS_WITHDRAW_REQUEST_LIMIT :: "8 word" where
  "GAMEBANK_SAVINGS_WITHDRAW_REQUEST_LIMIT = 100"

definition transfer_to_savings_evaluator :: "transfer_to_savings_operation \<Rightarrow> database \<Rightarrow> database result" where
  "transfer_to_savings_evaluator op db =
     bindE (get_account (ots_from op) db) (\<lambda>from.
     bindE (get_account (ots_to op) db) (\<lambda>_.
     bindE (get_balance from (symbol (ots_amount op))) (\<lambda>bal.
     fc_assertE (asset_ge bal (ots_amount op))
     (bindE (asset_neg (ots_amount op)) (\<lambda>neg.
      bindE (adjust_balance (ots_from op) neg db) (\<lambda>db1.
        adjust_savings_balance (ots_to op) (ots_amount op) db1))))))"

text \<open>The unique indices of the withdrawal table: \<^verbatim>\<open>by_from_rid\<close> (\<^verbatim>\<open>by_complete_from_rid\<close> refines it).\<close>

definition savings_clash :: "savings_withdraw_object \<Rightarrow> savings_withdraw_object \<Rightarrow> bool" where
  "savings_clash s t \<longleftrightarrow> sw_from s = sw_from t \<and> sw_request_id s = sw_request_id t"

definition transfer_from_savings_evaluator :: "transfer_from_savings_operation \<Rightarrow> database \<Rightarrow> database result" where
  "transfer_from_savings_evaluator op db =
     bindE (get_account (otf_from op) db) (\<lambda>from.
     bindE (get_account (otf_to op) db) (\<lambda>_.
     fc_assert (a_savings_withdraw_requests from < GAMEBANK_SAVINGS_WITHDRAW_REQUEST_LIMIT)
     (bindE (get_savings_balance from (symbol (otf_amount op))) (\<lambda>bal.
      fc_assertE (asset_ge bal (otf_amount op))
      (bindE (asset_neg (otf_amount op)) (\<lambda>neg.
       bindE (adjust_savings_balance (otf_from op) neg db) (\<lambda>db1.
       bindE (t_create savings_clash (\<lambda>_.
          \<lparr>sw_from = otf_from op, sw_to = otf_to op, sw_memo = otf_memo op, sw_request_id = otf_request_id op,
           sw_amount = otf_amount op,
           sw_complete = plus_secs (head_block_time db) GAMEBANK_SAVINGS_WITHDRAW_TIME\<rparr>) (savings_withdraws db1)) (\<lambda>t.
         modify_account (otf_from op) (\<lambda>a. Inr (a\<lparr>a_savings_withdraw_requests := a_savings_withdraw_requests a + 1\<rparr>))
           (db1\<lparr>savings_withdraws := t\<rparr>)))))))))"

definition get_savings_withdraw ::
    "account_name_type \<Rightarrow> 32 word \<Rightarrow> database \<Rightarrow> savings_withdraw_object result" where
  "get_savings_withdraw owner request_id db =
     t_get (\<lambda>s. sw_from s = owner \<and> sw_request_id s = request_id) (savings_withdraws db)"

definition cancel_transfer_from_savings_evaluator ::
    "cancel_transfer_from_savings_operation \<Rightarrow> database \<Rightarrow> database result" where
  "cancel_transfer_from_savings_evaluator op db =
     bindE (get_savings_withdraw (octs_from op) (octs_request_id op) db) (\<lambda>swo.
     bindE (get_account (sw_from swo) db) (\<lambda>_.
     bindE (adjust_savings_balance (sw_from swo) (sw_amount swo) db) (\<lambda>db1.
     bindE (get_account (octs_from op) db1) (\<lambda>_.
       modify_account (octs_from op) (\<lambda>a. Inr (a\<lparr>a_savings_withdraw_requests := a_savings_withdraw_requests a - 1\<rparr>))
         (db1\<lparr>savings_withdraws := t_remove (\<lambda>s. s = swo) (savings_withdraws db1)\<rparr>)))))"

text \<open>One round of \<^verbatim>\<open>process_savings_withdraws\<close> and the loop over the index \<^verbatim>\<open>by_complete_from_rid\<close>.\<close>

definition next_savings_withdraw :: "database \<Rightarrow> savings_withdraw_object option" where
  "next_savings_withdraw db =
     t_due (\<lambda>s. (sw_complete s, sw_from s, sw_request_id s))
       (\<lambda>s. \<not> sw_complete s > head_block_time db) (savings_withdraws db)"

definition fill_savings_withdraw :: "savings_withdraw_object \<Rightarrow> database \<Rightarrow> database result" where
  "fill_savings_withdraw s db =
     bindE (get_account (sw_to s) db) (\<lambda>_.
     bindE (adjust_balance (sw_to s) (sw_amount s) db) (\<lambda>db1.
     bindE (modify_account (sw_from s)
        (\<lambda>a. Inr (a\<lparr>a_savings_withdraw_requests := a_savings_withdraw_requests a - 1\<rparr>)) db1) (\<lambda>db2.
       Inr (db2\<lparr>savings_withdraws := t_remove (\<lambda>r. r = s) (savings_withdraws db2)\<rparr>))))"

definition process_savings_withdraws :: "database \<Rightarrow> database result" where
  "process_savings_withdraws db =
     drain (t_size (savings_withdraws db)) next_savings_withdraw fill_savings_withdraw db"

section \<open>Escrow\<close>

definition escrow_clash :: "escrow_object \<Rightarrow> escrow_object \<Rightarrow> bool" where
  "escrow_clash e f \<longleftrightarrow> esc_from e = esc_from f \<and> esc_escrow_id e = esc_escrow_id f"

definition is_escrow :: "account_name_type \<Rightarrow> 32 word \<Rightarrow> escrow_object \<Rightarrow> bool" where
  "is_escrow n i e \<longleftrightarrow> esc_from e = n \<and> esc_escrow_id e = i"

definition get_escrow :: "account_name_type \<Rightarrow> 32 word \<Rightarrow> database \<Rightarrow> escrow_object result" where
  "get_escrow n i db = t_get (is_escrow n i) (escrows db)"

definition modify_escrow ::
    "account_name_type \<Rightarrow> 32 word \<Rightarrow> (escrow_object \<Rightarrow> escrow_object result) \<Rightarrow> database \<Rightarrow> database result" where
  "modify_escrow n i f db = bindE (t_modify (is_escrow n i) f (escrows db)) (\<lambda>t. Inr (db\<lparr>escrows := t\<rparr>))"

definition escrow_transfer_evaluator :: "escrow_transfer_operation \<Rightarrow> database \<Rightarrow> database result" where
  "escrow_transfer_evaluator op db =
     bindE (get_account (oet_from op) db) (\<lambda>from_account.
     bindE (get_account (oet_to op) db) (\<lambda>_.
     bindE (get_account (oet_agent op) db) (\<lambda>_.
     fc_assert (oet_ratification_deadline op > head_block_time db)
     (fc_assert (oet_escrow_expiration op > head_block_time db)
     (bindE (if symbol (oet_fee op) = GBC_SYMBOL then asset_add (oet_gbc_amount op) (oet_fee op)
             else Inr (oet_gbc_amount op)) (\<lambda>gbc_spent.
      bindE (if symbol (oet_fee op) = GBC_SYMBOL then Inr (oet_gbd_amount op)
             else asset_add (oet_gbd_amount op) (oet_fee op)) (\<lambda>gbd_spent.
      fc_assertE (asset_ge (a_balance from_account) gbc_spent)
      (fc_assertE (asset_ge (a_gbd_balance from_account) gbd_spent)
      (bindE (asset_neg gbc_spent) (\<lambda>ngbc.
       bindE (adjust_balance (oet_from op) ngbc db) (\<lambda>db1.
       bindE (asset_neg gbd_spent) (\<lambda>ngbd.
       bindE (adjust_balance (oet_from op) ngbd db1) (\<lambda>db2.
       bindE (t_create escrow_clash (\<lambda>_.
          \<lparr>esc_escrow_id = oet_escrow_id op, esc_from = oet_from op, esc_to = oet_to op, esc_agent = oet_agent op,
           esc_ratification_deadline = oet_ratification_deadline op,
           esc_escrow_expiration = oet_escrow_expiration op,
           esc_gbd_balance = oet_gbd_amount op, esc_gbc_balance = oet_gbc_amount op, esc_pending_fee = oet_fee op,
           esc_to_approved = False, esc_agent_approved = False, esc_disputed = False\<rparr>) (escrows db2)) (\<lambda>t.
         Inr (db2\<lparr>escrows := t\<rparr>)))))))))))))))"

text \<open>Paying an escrow back to its sender and dropping it, on rejection and on missed ratification.\<close>

definition refund_escrow :: "account_name_type \<Rightarrow> escrow_object \<Rightarrow> database \<Rightarrow> database result" where
  "refund_escrow n e db =
     bindE (adjust_balance n (esc_gbc_balance e) db) (\<lambda>db1.
     bindE (adjust_balance n (esc_gbd_balance e) db1) (\<lambda>db2.
     bindE (adjust_balance n (esc_pending_fee e) db2) (\<lambda>db3.
       Inr (db3\<lparr>escrows := t_remove (\<lambda>f. f = e) (escrows db3)\<rparr>))))"

definition escrow_approve_evaluator :: "escrow_approve_operation \<Rightarrow> database \<Rightarrow> database result" where
  "escrow_approve_evaluator op db =
     (let from = oea_from op; i = oea_escrow_id op; reject_escrow = (\<not> oea_approve op) in
      bindE (get_escrow from i db) (\<lambda>escrow.
      fc_assert (esc_to escrow = oea_to op)
      (fc_assert (esc_agent escrow = oea_agent op)
      (fc_assert (esc_ratification_deadline escrow \<ge> head_block_time db)
      (bindE (if oea_who op = oea_to op then
                fc_assert (\<not> esc_to_approved escrow)
                 (if \<not> reject_escrow then modify_escrow from i (\<lambda>esc. Inr (esc\<lparr>esc_to_approved := True\<rparr>)) db
                  else Inr db)
              else Inr db) (\<lambda>db1.
       bindE (get_escrow from i db1) (\<lambda>escrow1.
       bindE (if oea_who op = oea_agent op then
                fc_assert (\<not> esc_agent_approved escrow1)
                 (if \<not> reject_escrow then modify_escrow from i (\<lambda>esc. Inr (esc\<lparr>esc_agent_approved := True\<rparr>)) db1
                  else Inr db1)
              else Inr db1) (\<lambda>db2.
       bindE (get_escrow from i db2) (\<lambda>escrow2.
       if reject_escrow then refund_escrow from escrow2 db2
       else if esc_to_approved escrow2 \<and> esc_agent_approved escrow2 then
         bindE (adjust_balance (oea_agent op) (esc_pending_fee escrow2) db2)
           (modify_escrow from i (\<lambda>esc. Inr (esc\<lparr>esc_pending_fee := (esc_pending_fee esc)\<lparr>amount := 0\<rparr>\<rparr>)))
       else Inr db2)))))))))"

definition escrow_dispute_evaluator :: "escrow_dispute_operation \<Rightarrow> database \<Rightarrow> database result" where
  "escrow_dispute_evaluator op db =
     bindE (get_account (oed_from op) db) (\<lambda>_.
     bindE (get_escrow (oed_from op) (oed_escrow_id op) db) (\<lambda>e.
     fc_assert (head_block_time db < esc_escrow_expiration e)
     (fc_assert (esc_to_approved e \<and> esc_agent_approved e)
     (fc_assert (\<not> esc_disputed e)
     (fc_assert (esc_to e = oed_to op)
     (fc_assert (esc_agent e = oed_agent op)
       (modify_escrow (oed_from op) (oed_escrow_id op) (\<lambda>esc. Inr (esc\<lparr>esc_disputed := True\<rparr>)) db)))))))"

definition escrow_release_evaluator :: "escrow_release_operation \<Rightarrow> database \<Rightarrow> database result" where
  "escrow_release_evaluator op db =
     (let from = oer_from op; i = oer_escrow_id op in
      bindE (get_account from db) (\<lambda>_.
      bindE (get_escrow from i db) (\<lambda>e.
      fc_assertE (asset_ge (esc_gbc_balance e) (oer_gbc_amount op))
      (fc_assertE (asset_ge (esc_gbd_balance e) (oer_gbd_amount op))
      (fc_assert (esc_to e = oer_to op)
      (fc_assert (esc_agent e = oer_agent op)
      (fc_assert (oer_receiver op = esc_from e \<or> oer_receiver op = esc_to e)
      (fc_assert (esc_to_approved e \<and> esc_agent_approved e)
      (bindE (if esc_disputed e then fc_assert (oer_who op = esc_agent e) (Inr ())
              else fc_assert (oer_who op = esc_from e \<or> oer_who op = esc_to e)
                (if esc_escrow_expiration e > head_block_time db then
                   if oer_who op = esc_from e then fc_assert (oer_receiver op = esc_to e) (Inr ())
                   else if oer_who op = esc_to e then fc_assert (oer_receiver op = esc_from e) (Inr ())
                   else Inr ()
                 else Inr ())) (\<lambda>_.
       bindE (adjust_balance (oer_receiver op) (oer_gbc_amount op) db) (\<lambda>db1.
       bindE (adjust_balance (oer_receiver op) (oer_gbd_amount op) db1) (\<lambda>db2.
       bindE (modify_escrow from i (\<lambda>esc.
          bindE (asset_sub (esc_gbc_balance esc) (oer_gbc_amount op)) (\<lambda>b.
          bindE (asset_sub (esc_gbd_balance esc) (oer_gbd_amount op)) (\<lambda>d.
            Inr (esc\<lparr>esc_gbc_balance := b, esc_gbd_balance := d\<rparr>)))) db2) (\<lambda>db3.
       bindE (get_escrow from i db3) (\<lambda>e'.
       if amount (esc_gbc_balance e') = 0 \<and> amount (esc_gbd_balance e') = 0
       then Inr (db3\<lparr>escrows := t_remove (is_escrow from i) (escrows db3)\<rparr>)
       else Inr db3))))))))))))))"

text \<open>
  \<^verbatim>\<open>expire_escrow_ratification\<close> walks the index \<^verbatim>\<open>by_ratification_deadline\<close>, where the unratified
  escrows come first; each round removes the object it has just stepped over.
\<close>

definition next_expired_escrow :: "database \<Rightarrow> escrow_object option" where
  "next_expired_escrow db =
     t_due (\<lambda>e. (is_approved e, esc_ratification_deadline e))
       (\<lambda>e. \<not> is_approved e \<and> esc_ratification_deadline e \<le> head_block_time db) (escrows db)"

definition expire_escrow :: "escrow_object \<Rightarrow> database \<Rightarrow> database result" where
  "expire_escrow e db = refund_escrow (esc_from e) e db"

definition expire_escrow_ratification :: "database \<Rightarrow> database result" where
  "expire_escrow_ratification db =
     drain (t_size (escrows db)) next_expired_escrow expire_escrow db"

section \<open>Conservation\<close>

lemmas movers = moves asset_dest t_create_dest t_modify_dest

lemma transfer_gap [gap_move]:
  "transfer_evaluator op db = Inr db' \<Longrightarrow> \<forall>l. gap l db' = gap l db"
  by (auto simp: transfer_evaluator_def dest!: movers)

lemma transfer_to_vesting_gap [gap_move]:
  "transfer_to_vesting_evaluator op db = Inr db' \<Longrightarrow> \<forall>l. gap l db' = gap l db"
  by (auto simp: transfer_to_vesting_evaluator_def vesting_part_def dest!: movers create_vesting_gap)

lemma transfer_to_savings_gap [gap_move]:
  "transfer_to_savings_evaluator op db = Inr db' \<Longrightarrow> \<forall>l. gap l db' = gap l db"
  by (auto simp: transfer_to_savings_evaluator_def dest!: movers)

text \<open>An update of an account that touches no balance.\<close>

definition no_funds :: "(account_object \<Rightarrow> account_object result) \<Rightarrow> bool" where
  "no_funds f \<longleftrightarrow> (\<forall>a a'. f a = Inr a' \<longrightarrow> a_name a' = a_name a \<and> (\<forall>l. account_part l a' = account_part l a))"

lemma modify_account_moves:
  assumes "modify_account n f db = Inr db'" "no_funds f"
  shows "(\<forall>l. gap l db' = gap l db) \<and> balances_only db db'"
  using modify_account_gap_same[OF assms(1)] modify_account_only[OF assms(1)] assms(2)
  by (auto simp: no_funds_def find_account_name)

lemma transfer_from_savings_gap [gap_move]:
  assumes "transfer_from_savings_evaluator op db = Inr db'"
  shows "\<forall>l. gap l db' = gap l db"
  using assms
  by (auto simp: transfer_from_savings_evaluator_def no_funds_def dest!: movers modify_account_moves)

lemma t_sum_remove_self: "v \<in> set (rows t) \<Longrightarrow> t_sum g (t_remove (\<lambda>w. w = v) t) = t_sum g t - g v"
  by (rule t_sum_remove[OF t_find_self])

lemma cancel_transfer_from_savings_gap [gap_move]:
  assumes "cancel_transfer_from_savings_evaluator op db = Inr db'"
  shows "\<forall>l. gap l db' = gap l db"
  using assms
  by (auto simp: cancel_transfer_from_savings_evaluator_def get_savings_withdraw_def no_funds_def
      balances_onlyD t_sum_remove_self dest!: movers modify_account_moves t_find_Some)

lemma fill_savings_withdraw_moves:
  assumes "fill_savings_withdraw s db = Inr db'" "s \<in> set (rows (savings_withdraws db))"
  shows "(\<forall>l. gap l db' = gap l db) \<and> head_block_time db' = head_block_time db \<and>
    savings_withdraws db' = t_remove (\<lambda>r. r = s) (savings_withdraws db)"
  using assms
  by (auto simp: fill_savings_withdraw_def no_funds_def
      balances_onlyD t_sum_remove_self dest!: movers modify_account_moves)

interpretation savings_loop: draining next_savings_withdraw fill_savings_withdraw "\<lambda>db. t_size (savings_withdraws db)"
proof
  fix s db db'
  assume *: "next_savings_withdraw db = Some s" "fill_savings_withdraw s db = Inr db'"
  then have "s \<in> set (rows (savings_withdraws db))" by (auto simp: next_savings_withdraw_def dest: t_due_Some)
  then show "t_size (savings_withdraws db') < t_size (savings_withdraws db)"
    using fill_savings_withdraw_moves[OF *(2)] t_size_remove[OF t_find_self] by fastforce
next
  fix s db
  assume "next_savings_withdraw db = Some s"
  then have "s \<in> set (rows (savings_withdraws db))" by (auto simp: next_savings_withdraw_def dest: t_due_Some)
  then show "0 < t_size (savings_withdraws db)" by (auto simp: t_size_def)
qed

lemma process_savings_withdraws_gap [gap_move]:
  assumes "process_savings_withdraws db = Inr db'"
  shows "\<forall>l. gap l db' = gap l db"
  by (rule drain_invariant[where I = "\<lambda>s. \<forall>l. gap l s = gap l db", OF assms[unfolded process_savings_withdraws_def]])
    (auto simp: next_savings_withdraw_def dest!: t_due_Some fill_savings_withdraw_moves)

text \<open>
  Escrow. A ratified escrow has paid its fee to the agent; without this a release that empties the
  escrow and drops it would destroy the fee.
\<close>

definition escrow_inv :: "database \<Rightarrow> bool" where
  "escrow_inv db \<longleftrightarrow> (\<forall>e \<in> set (rows (escrows db)). is_approved e \<longrightarrow> amount (esc_pending_fee e) = 0)"

definition escrow_keeps :: "database \<Rightarrow> database \<Rightarrow> bool" where
  "escrow_keeps db db' \<longleftrightarrow> escrow_inv db' \<and> (\<forall>l. gap l db' = gap l db)"

lemma escrow_part_upd [simp]:
  "escrow_part l (e\<lparr>esc_to_approved := x1\<rparr>) = escrow_part l e"
  "escrow_part l (e\<lparr>esc_agent_approved := x2\<rparr>) = escrow_part l e"
  "escrow_part l (e\<lparr>esc_disputed := x3\<rparr>) = escrow_part l e"
  "escrow_part l (e\<lparr>esc_gbc_balance := b\<rparr>) = escrow_part l e + (part l b - part l (esc_gbc_balance e))"
  "escrow_part l (e\<lparr>esc_gbd_balance := b\<rparr>) = escrow_part l e + (part l b - part l (esc_gbd_balance e))"
  "escrow_part l (e\<lparr>esc_pending_fee := b\<rparr>) = escrow_part l e + (part l b - part l (esc_pending_fee e))"
  by (simp_all add: escrow_part_def)

lemma is_approved_upd [simp]:
  "is_approved (e\<lparr>esc_gbc_balance := b\<rparr>) = is_approved e" "is_approved (e\<lparr>esc_gbd_balance := b\<rparr>) = is_approved e"
  "is_approved (e\<lparr>esc_pending_fee := b\<rparr>) = is_approved e" "is_approved (e\<lparr>esc_disputed := x\<rparr>) = is_approved e"
  by (simp_all add: is_approved_def)

lemma is_escrow_upd [simp]:
  "is_escrow n i (e\<lparr>esc_gbc_balance := b\<rparr>) = is_escrow n i e" "is_escrow n i (e\<lparr>esc_gbd_balance := b\<rparr>) = is_escrow n i e"
  "is_escrow n i (e\<lparr>esc_pending_fee := b\<rparr>) = is_escrow n i e" "is_escrow n i (e\<lparr>esc_disputed := x\<rparr>) = is_escrow n i e"
  "is_escrow n i (e\<lparr>esc_to_approved := x\<rparr>) = is_escrow n i e" "is_escrow n i (e\<lparr>esc_agent_approved := x\<rparr>) = is_escrow n i e"
  by (simp_all add: is_escrow_def)

lemma escrow_inv_cong: "balances_only db db' \<Longrightarrow> escrow_inv db' = escrow_inv db"
  by (simp add: escrow_inv_def balances_onlyD)

lemma escrow_inv_find:
  "escrow_inv db \<Longrightarrow> t_find (is_escrow n i) (escrows db) = Some e \<Longrightarrow> is_approved e \<Longrightarrow> amount (esc_pending_fee e) = 0"
  using t_find_Some[of "is_escrow n i" "escrows db" e] by (auto simp: escrow_inv_def)

lemma escrow_inv_remove: "escrow_inv db \<Longrightarrow> escrow_inv (db\<lparr>escrows := t_remove P (escrows db)\<rparr>)"
  using set_del_first by (fastforce simp: escrow_inv_def t_remove_def)

lemma escrow_inv_create:
  "t_create clash c (escrows db) = Inr t \<Longrightarrow> escrow_inv db \<Longrightarrow> \<not> is_approved (c (next_id (escrows db))) \<Longrightarrow>
   escrow_inv (db\<lparr>escrows := t\<rparr>)"
  by (auto simp: escrow_inv_def t_create_Inr)

lemma refund_escrow_keeps:
  assumes "refund_escrow n e db = Inr db'" "e \<in> set (rows (escrows db))" "escrow_inv db"
  shows "escrow_keeps db db'"
  using assms
  by (auto simp: refund_escrow_def escrow_keeps_def t_sum_remove_self escrow_part_def balances_onlyD escrow_inv_cong
      intro!: escrow_inv_remove dest!: moves)

lemma escrow_transfer_keeps:
  assumes "escrow_transfer_evaluator op db = Inr db'" "escrow_inv db"
  shows "escrow_keeps db db'"
proof -
  have "\<forall>l. gap l db' = gap l db" using assms(1)
    by (auto simp: escrow_transfer_evaluator_def escrow_part_def split: if_splits dest!: movers)
  moreover have "escrow_inv db'" using assms
    by (auto simp: escrow_transfer_evaluator_def is_approved_def escrow_inv_cong balances_onlyD
        split: if_splits dest!: moves intro!: escrow_inv_create)
  ultimately show ?thesis by (simp add: escrow_keeps_def)
qed

text \<open>Replacing the escrow with a given key, and what that does to the measures.\<close>

definition put_escrow :: "account_name_type \<Rightarrow> 32 word \<Rightarrow> escrow_object \<Rightarrow> escrow_object table \<Rightarrow> escrow_object table" where
  "put_escrow n i e t = t\<lparr>rows := upd_first (is_escrow n i) e (rows t)\<rparr>"

lemma modify_escrow_Inr [simp]:
  "modify_escrow n i f db = Inr db' \<longleftrightarrow>
     (\<exists>e e'. t_find (is_escrow n i) (escrows db) = Some e \<and> f e = Inr e' \<and>
        db' = db\<lparr>escrows := put_escrow n i e' (escrows db)\<rparr>)"
  by (auto simp: modify_escrow_def t_modify_Inr put_escrow_def)

lemma put_escrow_find [simp]:
  "t_find (is_escrow n i) t = Some e \<Longrightarrow> is_escrow n i e' \<Longrightarrow> t_find (is_escrow n i) (put_escrow n i e' t) = Some e'"
  by (simp add: put_escrow_def t_find_def find_upd_first_same)

lemma put_escrow_twice [simp]:
  "is_escrow n i e' \<Longrightarrow> put_escrow n i e (put_escrow n i e' t) = put_escrow n i e t"
proof -
  have "is_escrow n i e' \<Longrightarrow> upd_first (is_escrow n i) e (upd_first (is_escrow n i) e' vs) = upd_first (is_escrow n i) e vs" for vs
    by (induction vs) auto
  then show "is_escrow n i e' \<Longrightarrow> ?thesis" by (simp add: put_escrow_def)
qed

lemma put_escrow_sum [simp]:
  "t_find (is_escrow n i) t = Some e \<Longrightarrow> t_sum g (put_escrow n i e' t) = t_sum g t - g e + g e'"
  by (simp add: put_escrow_def t_find_def t_sum_def sum_list_upd_first)

lemma put_escrow_inv:
  "escrow_inv db \<Longrightarrow> (is_approved e \<longrightarrow> amount (esc_pending_fee e) = 0) \<Longrightarrow>
   escrow_inv (db\<lparr>escrows := put_escrow n i e (escrows db)\<rparr>)"
  using set_upd_first by (fastforce simp: escrow_inv_def put_escrow_def)

lemma get_escrow_Inr [simp]: "get_escrow n i db = Inr e \<longleftrightarrow> t_find (is_escrow n i) (escrows db) = Some e"
  by (simp add: get_escrow_def)

lemma is_escrow_find: "t_find (is_escrow n i) t = Some e \<Longrightarrow> is_escrow n i e"
  using t_find_Some by fastforce

lemma escrow_dispute_keeps:
  assumes "escrow_dispute_evaluator op db = Inr db'" "escrow_inv db"
  shows "escrow_keeps db db'"
  using assms
  by (auto simp: escrow_dispute_evaluator_def escrow_keeps_def intro!: put_escrow_inv intro: escrow_inv_find)

text \<open>The balance primitives between two escrow updates.\<close>

lemma escrow_inv_put_cong:
  "balances_only db db' \<Longrightarrow> escrow_inv (db'\<lparr>escrows := t\<rparr>) = escrow_inv (db\<lparr>escrows := t\<rparr>)"
  by (simp add: escrow_inv_def)

lemma escrow_inv_put:
  "escrow_inv (db\<lparr>escrows := t\<rparr>) \<longleftrightarrow> (\<forall>e \<in> set (rows t). is_approved e \<longrightarrow> amount (esc_pending_fee e) = 0)"
  by (simp add: escrow_inv_def)

lemma put_escrow_inv_rows:
  assumes "escrow_inv db" "is_approved e \<longrightarrow> amount (esc_pending_fee e) = 0"
    "f \<in> set (rows (put_escrow n i e (escrows db)))" "is_approved f"
  shows "amount (esc_pending_fee f) = 0"
  using put_escrow_inv[OF assms(1,2), of n i] assms(3,4) by (simp add: escrow_inv_def)

lemma put_escrow_same:
  assumes "t_find (is_escrow n i) t = Some e"
  shows "put_escrow n i e t = t"
proof -
  have "List.find (is_escrow n i) vs = Some e \<Longrightarrow> upd_first (is_escrow n i) e vs = vs" for vs
    by (induction vs) (auto split: if_splits)
  then show ?thesis using assms by (simp add: put_escrow_def t_find_def)
qed

lemma escrows_same [simp]: "db\<lparr>escrows := escrows db\<rparr> = db"
  by (cases db) simp

definition with_approval :: "bool \<Rightarrow> bool \<Rightarrow> escrow_object \<Rightarrow> escrow_object" where
  "with_approval by_to by_agent e =
     (let e' = (if by_to then e\<lparr>esc_to_approved := True\<rparr> else e)
      in if by_agent then e'\<lparr>esc_agent_approved := True\<rparr> else e')"

lemma with_approval_simps [simp]:
  "is_escrow n i (with_approval p q e) = is_escrow n i e" "escrow_part l (with_approval p q e) = escrow_part l e"
  "esc_pending_fee (with_approval p q e) = esc_pending_fee e"
  by (simp_all add: with_approval_def Let_def)

lemma adjust_balance_escrows: "adjust_balance n d db = Inr db' \<Longrightarrow> escrows db' = escrows db"
  by (auto dest!: moves simp: balances_onlyD)

text \<open>Approval in closed form: the flags are set, and the last of the two pays the fee.\<close>

lemma escrow_approve_form:
  assumes "escrow_approve_evaluator op db = Inr db'" "oea_approve op"
  obtains e e2 db2 where
    "t_find (is_escrow (oea_from op) (oea_escrow_id op)) (escrows db) = Some e"
    "e2 = with_approval (oea_who op = oea_to op) (oea_who op = oea_agent op) e"
    "db2 = db\<lparr>escrows := put_escrow (oea_from op) (oea_escrow_id op) e2 (escrows db)\<rparr>"
    "if is_approved e2
     then \<exists>db3. adjust_balance (oea_agent op) (esc_pending_fee e) db2 = Inr db3 \<and>
            db' = db3\<lparr>escrows := put_escrow (oea_from op) (oea_escrow_id op)
                        (e2\<lparr>esc_pending_fee := (esc_pending_fee e)\<lparr>amount := 0\<rparr>\<rparr>) (escrows db3)\<rparr>
     else db' = db2"
proof -
  let ?P = "is_escrow (oea_from op) (oea_escrow_id op)"
  obtain e where e: "t_find ?P (escrows db) = Some e" using assms(1)
    by (auto simp: escrow_approve_evaluator_def Let_def)
  note same = put_escrow_same[OF e]
  show ?thesis
  proof (rule that[OF e refl refl])
    show "if is_approved (with_approval (oea_who op = oea_to op) (oea_who op = oea_agent op) e)
     then \<exists>db3. adjust_balance (oea_agent op) (esc_pending_fee e)
            (db\<lparr>escrows := put_escrow (oea_from op) (oea_escrow_id op)
               (with_approval (oea_who op = oea_to op) (oea_who op = oea_agent op) e) (escrows db)\<rparr>) = Inr db3 \<and>
            db' = db3\<lparr>escrows := put_escrow (oea_from op) (oea_escrow_id op)
                        ((with_approval (oea_who op = oea_to op) (oea_who op = oea_agent op) e)
                           \<lparr>esc_pending_fee := (esc_pending_fee e)\<lparr>amount := 0\<rparr>\<rparr>) (escrows db3)\<rparr>
     else db' = db\<lparr>escrows := put_escrow (oea_from op) (oea_escrow_id op)
               (with_approval (oea_who op = oea_to op) (oea_who op = oea_agent op) e) (escrows db)\<rparr>"
      using assms e is_escrow_find[OF e] same
      by (auto simp: escrow_approve_evaluator_def Let_def with_approval_def is_approved_def adjust_balance_escrows
          split: if_splits)
  qed
qed


lemma escrow_approve_keeps:
  assumes "escrow_approve_evaluator op db = Inr db'" "escrow_inv db"
  shows "escrow_keeps db db'"
proof (cases "oea_approve op")
  case False
  then obtain e where "get_escrow (oea_from op) (oea_escrow_id op) db = Inr e" "refund_escrow (oea_from op) e db = Inr db'"
    using assms(1) by (auto simp: escrow_approve_evaluator_def Let_def split: if_splits)
  then show ?thesis using refund_escrow_keeps[of "oea_from op" e db db'] assms(2) t_find_Some by fastforce
next
  case True
  obtain e e2 db2 where e: "t_find (is_escrow (oea_from op) (oea_escrow_id op)) (escrows db) = Some e"
    and e2: "e2 = with_approval (oea_who op = oea_to op) (oea_who op = oea_agent op) e"
    and db2: "db2 = db\<lparr>escrows := put_escrow (oea_from op) (oea_escrow_id op) e2 (escrows db)\<rparr>"
    and r: "if is_approved e2
     then \<exists>db3. adjust_balance (oea_agent op) (esc_pending_fee e) db2 = Inr db3 \<and>
            db' = db3\<lparr>escrows := put_escrow (oea_from op) (oea_escrow_id op)
                        (e2\<lparr>esc_pending_fee := (esc_pending_fee e)\<lparr>amount := 0\<rparr>\<rparr>) (escrows db3)\<rparr>
     else db' = db2"
    by (rule escrow_approve_form[OF assms(1) True])
  have "\<forall>l. gap l db' = gap l db"
    using r e is_escrow_find[OF e] by (auto simp: e2 db2 balances_onlyD split: if_splits dest!: moves)
  moreover have "escrow_inv db'"
  proof (cases "is_approved e2")
    case False
    then show ?thesis using r assms(2) by (auto simp: db2 intro!: put_escrow_inv)
  next
    case True
    then obtain db3 where "adjust_balance (oea_agent op) (esc_pending_fee e) db2 = Inr db3"
      "db' = db3\<lparr>escrows := put_escrow (oea_from op) (oea_escrow_id op) (e2\<lparr>esc_pending_fee := (esc_pending_fee e)\<lparr>amount := 0\<rparr>\<rparr>) (escrows db3)\<rparr>"
      using r by auto
    then show ?thesis
      using put_escrow_inv[OF assms(2), of "e2\<lparr>esc_pending_fee := (esc_pending_fee e)\<lparr>amount := 0\<rparr>\<rparr>" "oea_from op" "oea_escrow_id op"]
        is_escrow_find[OF e] by (simp add: escrow_inv_def db2 e2 adjust_balance_escrows)
  qed
  ultimately show ?thesis by (simp add: escrow_keeps_def)
qed

text \<open>
  Who may move the funds of an escrow, and where to: both parties have ratified; in a dispute only the
  agent decides; otherwise, before the expiration, each of the two parties can only give to the other,
  and afterwards either of them can release to either.
\<close>

definition may_release ::
    "escrow_object \<Rightarrow> account_name_type \<Rightarrow> account_name_type \<Rightarrow> time_point_sec \<Rightarrow> bool" where
  "may_release e who receiver now \<longleftrightarrow>
     is_approved e \<and> (receiver = esc_from e \<or> receiver = esc_to e) \<and>
     (if esc_disputed e then who = esc_agent e
      else if now < esc_escrow_expiration e
           then who = esc_from e \<and> receiver = esc_to e \<or> who = esc_to e \<and> receiver = esc_from e
           else who = esc_from e \<or> who = esc_to e)"

definition released :: "escrow_release_operation \<Rightarrow> escrow_object \<Rightarrow> escrow_object" where
  "released op e =
     e\<lparr>esc_gbc_balance := mk_asset (amount (esc_gbc_balance e) - amount (oer_gbc_amount op)) (symbol (esc_gbc_balance e)),
       esc_gbd_balance := mk_asset (amount (esc_gbd_balance e) - amount (oer_gbd_amount op)) (symbol (esc_gbd_balance e))\<rparr>"

lemma asset_sub_eq: "asset_sub a b = Inr c \<Longrightarrow> c = mk_asset (amount a - amount b) (symbol a)"
  by (auto simp: asset_sub_def dest: safe_values)

lemma escrow_release_form:
  assumes "escrow_release_evaluator op db = Inr db'"
  obtains e db1 db2 where
    "t_find (is_escrow (oer_from op) (oer_escrow_id op)) (escrows db) = Some e"
    "may_release e (oer_who op) (oer_receiver op) (head_block_time db)"
    "symbol (oer_gbc_amount op) = symbol (esc_gbc_balance e)" "symbol (oer_gbd_amount op) = symbol (esc_gbd_balance e)"
    "amount (oer_gbc_amount op) \<le> amount (esc_gbc_balance e)" "amount (oer_gbd_amount op) \<le> amount (esc_gbd_balance e)"
    "adjust_balance (oer_receiver op) (oer_gbc_amount op) db = Inr db1"
    "adjust_balance (oer_receiver op) (oer_gbd_amount op) db1 = Inr db2"
    "db' = db2\<lparr>escrows :=
       (if amount (esc_gbc_balance (released op e)) = 0 \<and> amount (esc_gbd_balance (released op e)) = 0
        then t_remove (is_escrow (oer_from op) (oer_escrow_id op))
               (put_escrow (oer_from op) (oer_escrow_id op) (released op e) (escrows db))
        else put_escrow (oer_from op) (oer_escrow_id op) (released op e) (escrows db))\<rparr>"
proof -
  obtain e db1 db2 where e: "t_find (is_escrow (oer_from op) (oer_escrow_id op)) (escrows db) = Some e"
    and b: "adjust_balance (oer_receiver op) (oer_gbc_amount op) db = Inr db1"
      "adjust_balance (oer_receiver op) (oer_gbd_amount op) db1 = Inr db2"
    using assms by (auto simp: escrow_release_evaluator_def Let_def)
  note esc = adjust_balance_escrows[OF b(1)] adjust_balance_escrows[OF b(2)]
  show ?thesis
  proof (rule that[OF e _ _ _ _ _ b])
    show "may_release e (oer_who op) (oer_receiver op) (head_block_time db)"
      using assms e by (simp add: escrow_release_evaluator_def Let_def may_release_def is_approved_def split: if_splits)
    show "symbol (oer_gbc_amount op) = symbol (esc_gbc_balance e)" "symbol (oer_gbd_amount op) = symbol (esc_gbd_balance e)"
      "amount (oer_gbc_amount op) \<le> amount (esc_gbc_balance e)" "amount (oer_gbd_amount op) \<le> amount (esc_gbd_balance e)"
      using assms e by (simp_all add: escrow_release_evaluator_def Let_def)
    show "db' = db2\<lparr>escrows :=
       (if amount (esc_gbc_balance (released op e)) = 0 \<and> amount (esc_gbd_balance (released op e)) = 0
        then t_remove (is_escrow (oer_from op) (oer_escrow_id op))
               (put_escrow (oer_from op) (oer_escrow_id op) (released op e) (escrows db))
        else put_escrow (oer_from op) (oer_escrow_id op) (released op e) (escrows db))\<rparr>"
      using assms e b esc is_escrow_find[OF e]
      by (auto simp: escrow_release_evaluator_def Let_def released_def dest!: asset_sub_eq)
  qed
qed

lemma escrow_release_keeps:
  assumes "escrow_release_evaluator op db = Inr db'" "escrow_inv db"
  shows "escrow_keeps db db'"
proof -
  obtain e db1 db2 where e: "t_find (is_escrow (oer_from op) (oer_escrow_id op)) (escrows db) = Some e"
    and m: "may_release e (oer_who op) (oer_receiver op) (head_block_time db)"
    and s: "symbol (oer_gbc_amount op) = symbol (esc_gbc_balance e)" "symbol (oer_gbd_amount op) = symbol (esc_gbd_balance e)"
    and b: "adjust_balance (oer_receiver op) (oer_gbc_amount op) db = Inr db1"
      "adjust_balance (oer_receiver op) (oer_gbd_amount op) db1 = Inr db2"
    and r: "db' = db2\<lparr>escrows :=
       (if amount (esc_gbc_balance (released op e)) = 0 \<and> amount (esc_gbd_balance (released op e)) = 0
        then t_remove (is_escrow (oer_from op) (oer_escrow_id op))
               (put_escrow (oer_from op) (oer_escrow_id op) (released op e) (escrows db))
        else put_escrow (oer_from op) (oer_escrow_id op) (released op e) (escrows db))\<rparr>"
    by (rule escrow_release_form[OF assms(1)])
  have fee: "amount (esc_pending_fee e) = 0" using escrow_inv_find[OF assms(2) e] m by (simp add: may_release_def)
  have sub: "part l (mk_asset (amount x - amount y) (symbol x)) = part l x - part l y" if "symbol y = symbol x" for l x y
    using that by (simp add: part_def)
  have e': "is_escrow (oer_from op) (oer_escrow_id op) (released op e)"
    "escrow_part l e = escrow_part l (released op e) + part l (oer_gbc_amount op) + part l (oer_gbd_amount op)" for l
    using is_escrow_find[OF e] s by (simp_all add: released_def sub)
  have gone: "escrow_part l (released op e) = 0"
    if "amount (esc_gbc_balance (released op e)) = 0" "amount (esc_gbd_balance (released op e)) = 0" for l
    using that fee by (simp add: escrow_part_def part_zero released_def)
  note esc = adjust_balance_escrows[OF b(1)] adjust_balance_escrows[OF b(2)]
  note g = adjust_balance_gap[OF b(1)] adjust_balance_gap[OF b(2)]
  have "\<forall>l. gap l db' = gap l db"
    using r e e' g gone by (auto simp: t_sum_remove[OF put_escrow_find[OF e e'(1)]] esc)
  moreover have "escrow_inv db'"
    using r put_escrow_inv[OF assms(2), of "released op e"] set_del_first fee
    by (fastforce simp: escrow_inv_def t_remove_def released_def split: if_splits)
  ultimately show ?thesis by (simp add: escrow_keeps_def)
qed


lemma expire_escrow_moves:
  assumes "expire_escrow e db = Inr db'" "e \<in> set (rows (escrows db))" "escrow_inv db"
  shows "escrow_keeps db db' \<and> head_block_time db' = head_block_time db \<and>
    escrows db' = t_remove (\<lambda>f. f = e) (escrows db)"
  using assms refund_escrow_keeps[OF assms(1)[unfolded expire_escrow_def] assms(2,3)]
  by (auto simp: expire_escrow_def refund_escrow_def balances_onlyD dest!: moves)

lemma next_expired_escrow_Some: "next_expired_escrow db = Some e \<Longrightarrow> e \<in> set (rows (escrows db))"
  by (auto simp: next_expired_escrow_def dest: t_due_Some)

lemma refund_escrow_escrows:
  "refund_escrow n e db = Inr db' \<Longrightarrow>
   escrows db' = t_remove (\<lambda>f. f = e) (escrows db) \<and> head_block_time db' = head_block_time db"
  by (auto simp: refund_escrow_def balances_onlyD dest!: moves)

interpretation escrow_loop: draining next_expired_escrow expire_escrow "\<lambda>db. t_size (escrows db)"
proof
  fix e db db'
  assume *: "next_expired_escrow db = Some e" "expire_escrow e db = Inr db'"
  then show "t_size (escrows db') < t_size (escrows db)"
    using refund_escrow_escrows[of "esc_from e" e db db'] next_expired_escrow_Some[OF *(1)]
      t_size_remove[OF t_find_self, of e "escrows db"] by (auto simp: expire_escrow_def)
next
  fix e db
  assume "next_expired_escrow db = Some e"
  then show "0 < t_size (escrows db)" by (auto simp: t_size_def dest: next_expired_escrow_Some)
qed

lemma expire_escrow_ratification_keeps:
  assumes "expire_escrow_ratification db = Inr db'" "escrow_inv db"
  shows "escrow_keeps db db' \<and> head_block_time db' = head_block_time db"
proof (rule drain_invariant[OF assms(1)[unfolded expire_escrow_ratification_def],
      where I = "\<lambda>s. escrow_keeps db s \<and> head_block_time s = head_block_time db"])
  show "escrow_keeps db db \<and> head_block_time db = head_block_time db" using assms(2) by (simp add: escrow_keeps_def)
  show "escrow_keeps db s' \<and> head_block_time s' = head_block_time db"
    if "next_expired_escrow s = Some e" "expire_escrow e s = Inr s'" "escrow_keeps db s \<and> head_block_time s = head_block_time db"
    for e s s'
    using expire_escrow_moves[OF that(2) next_expired_escrow_Some[OF that(1)]] that(3) by (auto simp: escrow_keeps_def)
qed

section \<open>Properties\<close>

text \<open>
  C3. No escrow operation creates or destroys tokens: creating, approving or rejecting, disputing and
  releasing an escrow and the expiry of unratified ones leave the difference between supply and
  holdings of every ledger as it was, in every state where ratified escrows have paid their fee; and
  all of them keep the states so.
\<close>

theorem escrow_conserves:
  assumes "escrow_inv db"
    and "escrow_transfer_evaluator o1 db = Inr db' \<or> escrow_approve_evaluator o2 db = Inr db' \<or>
      escrow_dispute_evaluator o3 db = Inr db' \<or> escrow_release_evaluator o4 db = Inr db' \<or>
      expire_escrow_ratification db = Inr db'"
  shows "escrow_inv db' \<and> (\<forall>l. gap l db' = gap l db)"

proof -
  have "escrow_keeps db db'"
    using assms(2) escrow_transfer_keeps[OF _ assms(1)] escrow_approve_keeps[OF _ assms(1)] escrow_dispute_keeps[OF _ assms(1)]
      escrow_release_keeps[OF _ assms(1)] expire_escrow_ratification_keeps[OF _ assms(1)] by blast
  then show ?thesis by (simp add: escrow_keeps_def)
qed

definition example_escrow :: escrow_transfer_operation where
  "example_escrow = \<lparr>oet_from = ''initminer'', oet_to = ''temp'', oet_agent = ''miners'', oet_escrow_id = 1,
     oet_gbd_amount = GBD 0, oet_gbc_amount = GBC 700, oet_fee = GBC 20, oet_ratification_deadline = 1458835300,
     oet_escrow_expiration = 1458835400, oet_json_meta = ''''\<rparr>"

definition example_approval :: "account_name_type \<Rightarrow> escrow_approve_operation" where
  "example_approval who = \<lparr>oea_from = ''initminer'', oea_to = ''temp'', oea_agent = ''miners'', oea_who = who,
     oea_escrow_id = 1, oea_approve = True\<rparr>"

definition ratified :: "(database \<Rightarrow> database result) list" where
  "ratified = [escrow_transfer_evaluator example_escrow, escrow_approve_evaluator (example_approval ''temp''),
     escrow_approve_evaluator (example_approval ''miners'')]"

definition example_release :: escrow_release_operation where
  "example_release = \<lparr>oer_from = ''initminer'', oer_to = ''temp'', oer_agent = ''miners'', oer_who = ''initminer'',
     oer_receiver = ''temp'', oer_escrow_id = 1, oer_gbd_amount = GBD 0, oer_gbc_amount = GBC 700\<rparr>"

theorem escrow_conserves_witness:
  "escrow_inv (genesis_state 1000) \<and>
   (\<exists>db'. escrow_transfer_evaluator example_escrow (genesis_state 1000) = Inr db' \<and> escrow_inv db' \<and>
      gap Liquid db' = gap Liquid (genesis_state 1000))"
proof -
  have inv: "escrow_inv (genesis_state 1000)" by (simp add: concrete escrow_inv_def)
  have "returns (escrow_transfer_evaluator example_escrow (genesis_state 1000))"
    by (simp add: concrete escrow_transfer_evaluator_def example_escrow_def)
  then obtain db' where db': "escrow_transfer_evaluator example_escrow (genesis_state 1000) = Inr db'" by (auto simp: returns_iff)
  then show ?thesis using inv escrow_conserves[OF inv disjI1[OF db']] by simp
qed

lemma replace_account_other:
  assumes "modify_account n f db = Inr db'" "m \<noteq> n"
    and "\<And>a a'. find_account n db = Some a \<Longrightarrow> f a = Inr a' \<Longrightarrow> a_name a' = n"
  shows "find_account m db' = find_account m db"
proof -
  obtain a a' where a: "find_account n db = Some a" "f a = Inr a'" using accts.update_found[OF assms(1)] by blast
  show ?thesis using accts.lookup_update[OF assms(1) a, of m] assms(2) assms(3)[OF a] by simp
qed

lemma adjust_balance_other:
  assumes "adjust_balance n d db = Inr db'" "m \<noteq> n"
  shows "find_account m db' = find_account m db"
proof (cases "symbol d = GBD_SYMBOL")
  case True
  then obtain a a' db1 b where h: "find_account n db = Some a" "accrue_gbd a db = Inr (a', db1)"
    "modify_account n (\<lambda>_. Inr (a'\<lparr>a_gbd_balance := b\<rparr>)) db1 = Inr db'"
    using assms(1) by (auto simp: adjust_balance_def modify_balance_def)
  have nm: "a_name a' = n" "accounts db1 = accounts db"
    using accrue_gbd_gap[OF h(2)] find_account_name[OF h(1)] by simp_all
  have "find_account m db' = find_account m db1"
    by (rule replace_account_other[OF h(3) assms(2)]) (use nm(1) in auto)
  then show ?thesis using find_account_cong[OF nm(2)] by simp
next
  case False
  then obtain f where "modify_account n f db = Inr db'" "\<And>a a'. f a = Inr a' \<Longrightarrow> a_name a' = a_name a"
    using assms(1) by (fastforce simp: adjust_balance_def modify_balance_def split: if_splits)
  then show ?thesis using replace_account_other[OF _ assms(2)] find_account_name by metis
qed

text \<open>
  C20. Funds leave an escrow only by a release that the state of the escrow allows to the party that
  signs it (\<open>may_release\<close>), in amounts that the escrow holds, and only the receiver's account changes;
  the escrow keeps exactly the rest, or is dropped when nothing is left.
\<close>

theorem escrow_release_authorised:
  assumes "escrow_release_evaluator op db = Inr db'"
  shows "\<exists>e. get_escrow (oer_from op) (oer_escrow_id op) db = Inr e \<and>
     may_release e (oer_who op) (oer_receiver op) (head_block_time db) \<and>
     amount (oer_gbc_amount op) \<le> amount (esc_gbc_balance e) \<and> amount (oer_gbd_amount op) \<le> amount (esc_gbd_balance e) \<and>
     (\<forall>n. n \<noteq> oer_receiver op \<longrightarrow> find_account n db' = find_account n db) \<and>
     (if amount (esc_gbc_balance e) = amount (oer_gbc_amount op) \<and> amount (esc_gbd_balance e) = amount (oer_gbd_amount op)
      then Suc (t_size (escrows db')) = t_size (escrows db)
      else get_escrow (oer_from op) (oer_escrow_id op) db' = Inr (released op e))"
proof -
  obtain e db1 db2 where e: "t_find (is_escrow (oer_from op) (oer_escrow_id op)) (escrows db) = Some e"
    and m: "may_release e (oer_who op) (oer_receiver op) (head_block_time db)"
    and le: "amount (oer_gbc_amount op) \<le> amount (esc_gbc_balance e)" "amount (oer_gbd_amount op) \<le> amount (esc_gbd_balance e)"
    and b: "adjust_balance (oer_receiver op) (oer_gbc_amount op) db = Inr db1"
      "adjust_balance (oer_receiver op) (oer_gbd_amount op) db1 = Inr db2"
    and r: "db' = db2\<lparr>escrows :=
       (if amount (esc_gbc_balance (released op e)) = 0 \<and> amount (esc_gbd_balance (released op e)) = 0
        then t_remove (is_escrow (oer_from op) (oer_escrow_id op))
               (put_escrow (oer_from op) (oer_escrow_id op) (released op e) (escrows db))
        else put_escrow (oer_from op) (oer_escrow_id op) (released op e) (escrows db))\<rparr>"
    by (rule escrow_release_form[OF assms])
  have e': "is_escrow (oer_from op) (oer_escrow_id op) (released op e)"
    using is_escrow_find[OF e] by (simp add: released_def)
  have zero: "amount (esc_gbc_balance (released op e)) = 0 \<and> amount (esc_gbd_balance (released op e)) = 0 \<longleftrightarrow>
      amount (esc_gbc_balance e) = amount (oer_gbc_amount op) \<and> amount (esc_gbd_balance e) = amount (oer_gbd_amount op)"
    by (auto simp: released_def)
  have size: "t_size (put_escrow n i x t) = t_size t" for n i x and t :: "escrow_object table"
  proof -
    have "length (upd_first P x vs) = length vs" for P and vs :: "escrow_object list" by (induction vs) auto
    then show ?thesis by (simp add: put_escrow_def t_size_def)
  qed
  have "\<forall>n. n \<noteq> oer_receiver op \<longrightarrow> find_account n db' = find_account n db"
    using adjust_balance_other[OF b(1)] adjust_balance_other[OF b(2)] r by (simp add: find_account_def)
  moreover have "Suc (t_size (t_remove (is_escrow (oer_from op) (oer_escrow_id op))
        (put_escrow (oer_from op) (oer_escrow_id op) (released op e) (escrows db)))) = t_size (escrows db)"
    using t_size_remove[OF put_escrow_find[OF e e']] by (simp add: size)
  ultimately show ?thesis using e e' m le r zero by (intro exI[of _ e]) auto
qed

definition ratified_escrow :: escrow_object where
  "ratified_escrow = \<lparr>esc_escrow_id = 1, esc_from = ''initminer'', esc_to = ''temp'', esc_agent = ''miners'',
     esc_ratification_deadline = 1458835300, esc_escrow_expiration = 1458835400, esc_gbd_balance = GBD 0,
     esc_gbc_balance = GBC 700, esc_pending_fee = GBC 0, esc_to_approved = True, esc_agent_approved = True,
     esc_disputed = False\<rparr>"

definition with_escrow :: "escrow_object \<Rightarrow> database" where
  "with_escrow e = (genesis_state 300)\<lparr>escrows := \<lparr>next_id = 1, rows = [e]\<rparr>\<rparr>"

theorem escrow_release_authorised_witness:
  "\<exists>db'. escrow_release_evaluator example_release (with_escrow ratified_escrow) = Inr db' \<and>
     may_release ratified_escrow ''initminer'' ''temp'' (head_block_time (with_escrow ratified_escrow)) \<and>
     find_account ''initminer'' db' = find_account ''initminer'' (with_escrow ratified_escrow) \<and>
     t_size (escrows db') = 0"
proof -
  have "returns (escrow_release_evaluator example_release (with_escrow ratified_escrow))"
    by (simp add: concrete escrow_release_evaluator_def example_release_def with_escrow_def ratified_escrow_def
        get_escrow_def modify_escrow_def is_escrow_def)
  then obtain db' where db': "escrow_release_evaluator example_release (with_escrow ratified_escrow) = Inr db'"
    by (auto simp: returns_iff)
  have e: "get_escrow (oer_from example_release) (oer_escrow_id example_release) (with_escrow ratified_escrow) = Inr ratified_escrow"
    by (simp add: with_escrow_def t_find_def is_escrow_def ratified_escrow_def example_release_def)
  from escrow_release_authorised[OF db'] e db' show ?thesis
    by (auto simp: example_release_def ratified_escrow_def with_escrow_def t_size_def)
qed

text \<open>
  The ratification sweep is complete: after \<^verbatim>\<open>expire_escrow_ratification\<close> no unratified escrow whose
  deadline has passed is left. (The loop has a bound on its rounds in the model, the number of
  escrows; the theorem shows that it is never the bound that stops it.)
\<close>

theorem expire_escrow_ratification_complete:
  assumes "expire_escrow_ratification db = Inr db'" "e \<in> set (rows (escrows db'))"
  shows "is_approved e \<or> head_block_time db' < esc_ratification_deadline e"
proof -
  have "next_expired_escrow db' = None"
    using escrow_loop.drained[OF _ assms(1)[unfolded expire_escrow_ratification_def]] by simp
  then have "\<not> (\<not> is_approved e \<and> esc_ratification_deadline e \<le> head_block_time db')"
    unfolding next_expired_escrow_def by (rule t_due_None[OF _ _ assms(2)]) auto
  then show ?thesis by auto
qed

theorem expire_escrow_ratification_complete_witness:
  "\<exists>db'. expire_escrow_ratification (with_escrow (ratified_escrow\<lparr>esc_agent_approved := False, esc_ratification_deadline := 0\<rparr>)) = Inr db' \<and>
     ratified_escrow\<lparr>esc_agent_approved := False, esc_ratification_deadline := 0\<rparr> \<notin> set (rows (escrows db'))"
proof -
  let ?e = "ratified_escrow\<lparr>esc_agent_approved := False, esc_ratification_deadline := 0\<rparr>"
  have "returns (expire_escrow_ratification (with_escrow ?e))"
    by (simp add: concrete expire_escrow_ratification_def with_escrow_def ratified_escrow_def expire_escrow_def
        refund_escrow_def next_expired_escrow_def is_approved_def)
  then obtain db' where db': "expire_escrow_ratification (with_escrow ?e) = Inr db'" by (auto simp: returns_iff)
  have "\<not> (is_approved ?e \<or> head_block_time db' < esc_ratification_deadline ?e)"
    by (simp add: is_approved_def)
  then show ?thesis using db' expire_escrow_ratification_complete[OF db', of ?e] by blast
qed

text \<open>
  The savings sweep is complete and conserves tokens: after \<^verbatim>\<open>process_savings_withdraws\<close> every
  pending withdrawal completes later than the head block, and supply minus holdings of every ledger
  is as before.
\<close>

theorem process_savings_withdraws_complete:
  assumes "process_savings_withdraws db = Inr db'"
  shows "(\<forall>l. gap l db' = gap l db) \<and>
         list_all (\<lambda>s. head_block_time db' < sw_complete s) (rows (savings_withdraws db'))"
proof -
  have "next_savings_withdraw db' = None"
    using savings_loop.drained[OF _ assms[unfolded process_savings_withdraws_def]] by simp
  then have "\<not> \<not> sw_complete s > head_block_time db'" if "s \<in> set (rows (savings_withdraws db'))" for s
    unfolding next_savings_withdraw_def by (rule t_due_None[OF _ _ that]) (auto simp: less_eq_prod_def)
  then show ?thesis using process_savings_withdraws_gap[OF assms] by (simp add: list_all_iff)
qed

definition due_withdrawal :: savings_withdraw_object where
  "due_withdrawal = \<lparr>sw_from = ''temp'', sw_to = ''initminer'', sw_memo = '''', sw_request_id = 7,
     sw_amount = GBC 50, sw_complete = 5\<rparr>"

theorem process_savings_withdraws_complete_witness:
  "\<exists>db'. process_savings_withdraws ((genesis_state 1000)\<lparr>savings_withdraws := \<lparr>next_id = 1, rows = [due_withdrawal]\<rparr>\<rparr>) = Inr db' \<and>
     list_all (\<lambda>s. head_block_time db' < sw_complete s) (rows (savings_withdraws db'))"
proof -
  let ?db = "(genesis_state 1000)\<lparr>savings_withdraws := \<lparr>next_id = 1, rows = [due_withdrawal]\<rparr>\<rparr>"
  have "returns (process_savings_withdraws ?db)"
    by (simp add: concrete process_savings_withdraws_def next_savings_withdraw_def fill_savings_withdraw_def due_withdrawal_def)
  then obtain db' where "process_savings_withdraws ?db = Inr db'" by (auto simp: returns_iff)
  then show ?thesis using process_savings_withdraws_complete by blast
qed

text \<open>A balance change in the liquid token, exactly.\<close>

lemma adjust_balance_gbc:
  assumes "find_account n db = Some a" "symbol (a_balance a) = GBC_SYMBOL" "symbol d = GBC_SYMBOL"
    and "in_int64 (amount (a_balance a) + amount d)" "in_int64 (amount (a_balance a))" "in_int64 (amount d)"
    and "0 \<le> amount (a_balance a) + amount d"
  shows "\<exists>db'. adjust_balance n d db = Inr db' \<and>
    (\<forall>m. find_account m db' = (if m = n then Some (a\<lparr>a_balance := GBC (amount (a_balance a) + amount d)\<rparr>) else find_account m db))"
proof -
  let ?f = "\<lambda>acnt :: account_object. Inr (acnt\<lparr>a_balance := GBC (amount (a_balance a) + amount d)\<rparr>)"
  obtain db' where db': "modify_account n ?f db = Inr db'"
    using accts.update_returns[OF assms(1), of ?f] by (auto simp: returns_iff)
  have "asset_add (a_balance a) d = Inr (GBC (amount (a_balance a) + amount d))"
    using assms safe_add_exact[of "amount (a_balance a)" "amount d"] by (simp add: asset_add_def fc_assert_def)
  then have "adjust_balance n d db = Inr db'"
    using assms db' by (simp add: adjust_balance_def modify_balance_def get_account_def find_account_def t_get_def fc_assert_def)
  then show ?thesis using accts.lookup_update[OF db' assms(1)] find_account_name[OF assms(1)] by simp
qed

text \<open>
  C22. A transfer of liquid tokens (GBC) either throws because the sender holds less than the amount or
  the receiver's balance would leave 64 bits, or it takes exactly the amount from the sender and gives
  exactly the amount to the receiver, touching no other field and no other account; a transfer to
  oneself leaves every account as it is. (A transfer of dollars may also pay out interest.)
\<close>

theorem transfer_exact:
  assumes "find_account (otr_from op) db = Some a" "find_account (otr_to op) db = Some b"
    and "symbol (otr_amount op) = GBC_SYMBOL" "symbol (a_balance a) = GBC_SYMBOL" "symbol (a_balance b) = GBC_SYMBOL"
    and "0 < amount (otr_amount op)" "in_int64 (amount (otr_amount op))"
    and "0 \<le> amount (a_balance a)" "in_int64 (amount (a_balance a))" "0 \<le> amount (a_balance b)" "in_int64 (amount (a_balance b))"
  shows "if amount (a_balance a) < amount (otr_amount op) then transfer_evaluator op db = Inl assert_exception
    else if otr_from op = otr_to op then
      \<exists>db'. transfer_evaluator op db = Inr db' \<and> (\<forall>n. find_account n db' = find_account n db)
    else if int64_max < amount (a_balance b) + amount (otr_amount op) then transfer_evaluator op db = Inl overflow_exception
    else \<exists>db'. transfer_evaluator op db = Inr db' \<and>
      find_account (otr_from op) db' = Some (a\<lparr>a_balance := GBC (amount (a_balance a) - amount (otr_amount op))\<rparr>) \<and>
      find_account (otr_to op) db' = Some (b\<lparr>a_balance := GBC (amount (a_balance b) + amount (otr_amount op))\<rparr>) \<and>
      (\<forall>n. n \<noteq> otr_from op \<and> n \<noteq> otr_to op \<longrightarrow> find_account n db' = find_account n db)"
proof (cases "amount (a_balance a) < amount (otr_amount op)")
  case True
  then show ?thesis using assms
    by (simp add: transfer_evaluator_def get_account_def t_get_def find_account_def get_balance_def fc_assertE_def fc_assert_def)
next
  case False
  let ?x = "otr_amount op" and ?a1 = "a\<lparr>a_balance := GBC (amount (a_balance a) + - amount (otr_amount op))\<rparr>"
  have neg: "asset_neg ?x = Inr (GBC (- amount ?x))"
    using assms(3,6) by (simp add: asset_neg_def safe_neg_def int64_min_def)
  have lower: "in_int64 (- amount ?x)" "in_int64 (amount (a_balance a) + - amount ?x)"
    using assms(6,7,9) False by (auto simp: in_int64_def int64_min_def int64_max_def)
  obtain db1 where d1: "adjust_balance (otr_from op) (GBC (- amount ?x)) db = Inr db1"
    and f1: "\<And>m. find_account m db1 = (if m = otr_from op then Some ?a1 else find_account m db)"
    using adjust_balance_gbc[OF assms(1,4), of "GBC (- amount ?x)"] assms(9) lower False by auto
  have step: "transfer_evaluator op db = adjust_balance (otr_to op) ?x db1"
    using assms(1,3,4) False neg d1
    by (simp add: transfer_evaluator_def get_account_def t_get_def find_account_def get_balance_def fc_assertE_def fc_assert_def)
  consider (self) "otr_from op = otr_to op" | (over) "otr_from op \<noteq> otr_to op" "int64_max < amount (a_balance b) + amount ?x"
    | (paid) "otr_from op \<noteq> otr_to op" "\<not> int64_max < amount (a_balance b) + amount ?x" by blast
  then show ?thesis
  proof cases
    case self
    have same: "a\<lparr>a_balance := GBC (amount (a_balance a))\<rparr> = a" using assms(4) by (cases a; cases "a_balance a") simp
    have a1: "find_account (otr_to op) db1 = Some ?a1" using f1 self by simp
    obtain db2 where "adjust_balance (otr_to op) ?x db1 = Inr db2"
      and f2: "\<And>m. find_account m db2 = (if m = otr_to op then Some (a\<lparr>a_balance := GBC (amount (a_balance a))\<rparr>) else find_account m db1)"
      using adjust_balance_gbc[OF a1, of ?x] assms(3,7,8,9) lower(2) by auto
    moreover have "find_account n db2 = find_account n db" for n using f2[of n] f1[of n] same self assms(1) by simp
    ultimately show ?thesis using step self False by auto
  next
    case over
    have b1: "find_account (otr_to op) db1 = Some b" using f1 assms(2) over(1) by simp
    have "safe_add (amount (a_balance b)) (amount ?x) = Inl overflow_exception"
      using assms(6) over(2) by (simp add: safe_add_def)
    then have "adjust_balance (otr_to op) ?x db1 = Inl overflow_exception"
      using b1 assms(3,5)
      by (simp add: adjust_balance_def modify_balance_def get_account_def t_get_def find_account_def asset_add_def fc_assert_def)
    then show ?thesis using step over False by simp
  next
    case paid
    have b1: "find_account (otr_to op) db1 = Some b" using f1 assms(2) paid(1) by simp
    have up: "in_int64 (amount (a_balance b) + amount ?x)" "0 \<le> amount (a_balance b) + amount ?x"
      using paid(2) assms(6,7,10,11) by (auto simp: in_int64_def)
    obtain db2 where d2: "adjust_balance (otr_to op) ?x db1 = Inr db2"
      and f2: "\<And>m. find_account m db2 = (if m = otr_to op
          then Some (b\<lparr>a_balance := GBC (amount (a_balance b) + amount ?x)\<rparr>) else find_account m db1)"
      using adjust_balance_gbc[OF b1 assms(5) assms(3) up(1) assms(11) assms(7) up(2)] by blast
    then show ?thesis using step f1 paid False by auto
  qed
qed

theorem transfer_exact_witness:
  "\<exists>db'. transfer_evaluator \<lparr>otr_from = ''initminer'', otr_to = ''temp'', otr_amount = GBC 400, otr_memo = ''''\<rparr>
        (genesis_state 1000) = Inr db' \<and>
      find_account ''temp'' db' = Some ((new_account 2)\<lparr>a_name := ''temp'', a_balance := GBC 400\<rparr>)"
proof -
  let ?op = "\<lparr>otr_from = ''initminer'', otr_to = ''temp'', otr_amount = GBC 400, otr_memo = ''''\<rparr>"
  let ?a = "(new_account 3)\<lparr>a_name := ''initminer'', a_memo_key := GAMEBANK_INIT_PUBLIC_KEY, a_balance := GBC 1000\<rparr>"
  let ?b = "(new_account 2)\<lparr>a_name := ''temp''\<rparr>"
  have "find_account ''initminer'' (genesis_state 1000) = Some ?a" "find_account ''temp'' (genesis_state 1000) = Some ?b"
    by (simp_all add: concrete)
  then show ?thesis
    using transfer_exact[of ?op "genesis_state 1000" ?a ?b] by (auto simp: in_int64_def int64_min_def int64_max_def)
qed

end
