(* ===== verification/Vesting.thy ===== *)
theory Vesting
  imports Transfers
begin

text \<open>
  Vesting shares: powering down (\<^verbatim>\<open>withdraw_vesting\<close>, its routes, \<^verbatim>\<open>process_vesting_withdrawals\<close>),
  delegation (\<^verbatim>\<open>delegate_vesting_shares\<close>, \<^verbatim>\<open>clear_expired_delegations\<close>,
  \<^verbatim>\<open>reclaim_account_creation_delegations\<close>), claiming rewards, and the conversion of dollars. Evaluators
  of src/libraries/chain/gamebank_evaluator.cpp, block processing of database.cpp.
\<close>

section \<open>Powering down\<close>

definition GAMEBANK_VESTING_WITHDRAW_INTERVALS :: int where "GAMEBANK_VESTING_WITHDRAW_INTERVALS = 13"
definition GAMEBANK_VESTING_WITHDRAW_INTERVAL_SECONDS :: int where
  "GAMEBANK_VESTING_WITHDRAW_INTERVAL_SECONDS = 604800"
definition GAMEBANK_MAX_WITHDRAW_ROUTES :: "16 word" where "GAMEBANK_MAX_WITHDRAW_ROUTES = 10"

definition withdraw_vesting_evaluator :: "withdraw_vesting_operation \<Rightarrow> database \<Rightarrow> database result" where
  "withdraw_vesting_evaluator op db =
     fc_assertE (asset_gt (owvs_vesting_shares op) (GBS 0))
     (bindE (get_account (owvs_account op) db) (\<lambda>account.
      fc_assertE (asset_ge (a_vesting_shares account) (GBS 0))
      (bindE (asset_sub (a_vesting_shares account) (a_delegated_vesting_shares account)) (\<lambda>available.
       fc_assertE (asset_ge available (owvs_vesting_shares op))
       (if amount (owvs_vesting_shares op) = 0 then
          fc_assert (amount (a_vesting_withdraw_rate account) \<noteq> 0)
           (modify_account (owvs_account op) (\<lambda>a. Inr (a\<lparr>a_vesting_withdraw_rate := GBS 0,
               a_next_vesting_withdrawal := time_maximum, a_to_withdraw := 0, a_withdrawn := 0\<rparr>)) db)
        else
          modify_account (owvs_account op) (\<lambda>a.
            bindE (safe_div (amount (owvs_vesting_shares op)) GAMEBANK_VESTING_WITHDRAW_INTERVALS) (\<lambda>q.
            let new_vesting_withdraw_rate = GBS (if q = 0 then 1 else q) in
            fc_assert (a_vesting_withdraw_rate account \<noteq> new_vesting_withdraw_rate)
             (Inr (a\<lparr>a_vesting_withdraw_rate := new_vesting_withdraw_rate,
                a_next_vesting_withdrawal := plus_secs (head_block_time db) GAMEBANK_VESTING_WITHDRAW_INTERVAL_SECONDS,
                a_to_withdraw := amount (owvs_vesting_shares op), a_withdrawn := 0\<rparr>)))) db)))))"

definition is_route :: "account_name_type \<Rightarrow> account_name_type \<Rightarrow> withdraw_vesting_route_object \<Rightarrow> bool" where
  "is_route f t r \<longleftrightarrow> wr_from_account r = f \<and> wr_to_account r = t"

text \<open>
  The routes of an account in the order of the index \<^verbatim>\<open>by_withdraw_route\<close>, from the first one whose
  destination is above the empty name.
\<close>

definition routes_of :: "account_name_type \<Rightarrow> database \<Rightarrow> withdraw_vesting_route_object list" where
  "routes_of n db =
     sort_key wr_to_account (filter (\<lambda>r. wr_from_account r = n \<and> wr_to_account r > '''') (rows (withdraw_routes db)))"

definition set_withdraw_vesting_route_evaluator ::
    "set_withdraw_vesting_route_operation \<Rightarrow> database \<Rightarrow> database result" where
  "set_withdraw_vesting_route_evaluator op db =
     (let f = osr_from_account op; t = osr_to_account op;
          route = \<lparr>wr_from_account = f, wr_to_account = t, wr_percent = osr_percent op, wr_auto_vest = osr_auto_vest op\<rparr>
      in
      bindE (get_account f db) (\<lambda>from_account.
      bindE (get_account t db) (\<lambda>to_account.
      bindE (case t_find (is_route f t) (withdraw_routes db) of
          None \<Rightarrow>
            fc_assert (osr_percent op \<noteq> 0)
            (fc_assert (a_withdraw_routes from_account < GAMEBANK_MAX_WITHDRAW_ROUTES)
            (bindE (t_create (\<lambda>r s. is_route (wr_from_account s) (wr_to_account s) r) (\<lambda>_. route) (withdraw_routes db)) (\<lambda>tb.
              modify_account f (\<lambda>a. Inr (a\<lparr>a_withdraw_routes := a_withdraw_routes a + 1\<rparr>)) (db\<lparr>withdraw_routes := tb\<rparr>))))
        | Some r \<Rightarrow>
            if osr_percent op = 0 then
              modify_account f (\<lambda>a. Inr (a\<lparr>a_withdraw_routes := a_withdraw_routes a - 1\<rparr>))
                (db\<lparr>withdraw_routes := t_remove (is_route f t) (withdraw_routes db)\<rparr>)
            else bindE (t_modify (is_route f t) (\<lambda>_. Inr route) (withdraw_routes db)) (\<lambda>tb.
                   Inr (db\<lparr>withdraw_routes := tb\<rparr>))) (\<lambda>db1.
      let total_percent = sum_list (map wr_percent (routes_of f db1)) in
      fc_assert (total_percent \<le> 10000) (Inr db1)))))"

text \<open>
  \<^verbatim>\<open>process_vesting_withdrawals\<close>. The state of the loops over the routes of one account: the database
  and the shares deposited so far.
\<close>

definition withdrawal_amount :: "account_object \<Rightarrow> share_type result" where
  "withdrawal_amount a =
     bindE (safe_sub (a_to_withdraw a) (a_withdrawn a)) (\<lambda>left.
      if left < amount (a_vesting_withdraw_rate a) then
        bindE (safe_mod (a_to_withdraw a) (amount (a_vesting_withdraw_rate a))) (\<lambda>m.
          Inr (min (amount (a_vesting_shares a)) m))
      else Inr (min (amount (a_vesting_shares a)) (amount (a_vesting_withdraw_rate a))))"

definition route_deposit :: "share_type \<Rightarrow> withdraw_vesting_route_object \<Rightarrow> share_type" where
  "route_deposit to_withdraw r = narrow_int64 (uint128 to_withdraw * ucast (wr_percent r) div 10000)"

text \<open>The check of \<^verbatim>\<open>to_uint64\<close>: the high half of the quotient is zero.\<close>

definition route_fits :: "share_type \<Rightarrow> withdraw_vesting_route_object \<Rightarrow> bool" where
  "route_fits to_withdraw r \<longleftrightarrow> drop_bit 64 (uint128 to_withdraw * ucast (wr_percent r) div 10000) = 0"

definition deposit_vests ::
    "share_type \<Rightarrow> withdraw_vesting_route_object \<Rightarrow> database \<times> share_type \<Rightarrow> (database \<times> share_type) result" where
  "deposit_vests to_withdraw r s = (case s of (db, deposited) \<Rightarrow>
     if wr_auto_vest r then
       let to_deposit = route_deposit to_withdraw r in
       fc_assert (route_fits to_withdraw r)
       (bindE (safe_add deposited to_deposit) (\<lambda>deposited'.
        if to_deposit > 0 then
          bindE (modify_account (wr_to_account r) (\<lambda>a.
            bindE (safe_add (amount (a_vesting_shares a)) to_deposit) (\<lambda>v.
              Inr (a\<lparr>a_vesting_shares := (a_vesting_shares a)\<lparr>amount := v\<rparr>\<rparr>))) db) (\<lambda>db1.
          bindE (adjust_proxied_witness_votes (wr_to_account r) to_deposit 0 db1) (\<lambda>db2.
            Inr (db2, deposited')))
        else Inr (db, deposited')))
     else Inr s)"

definition leave_vesting :: "asset \<Rightarrow> share_type \<Rightarrow> database \<Rightarrow> database result" where
  "leave_vesting converted_gbc shares db =
     modify_dgpo (\<lambda>p.
       bindE (asset_sub (total_vesting_fund_gbc p) converted_gbc) (\<lambda>vf.
       bindE (safe_sub (amount (total_vesting_shares p)) shares) (\<lambda>vs.
         Inr (p\<lparr>total_vesting_fund_gbc := vf, total_vesting_shares := (total_vesting_shares p)\<lparr>amount := vs\<rparr>\<rparr>)))) db"

definition shares_to_gbc :: "share_type \<Rightarrow> database \<Rightarrow> asset result" where
  "shares_to_gbc shares db =
     bindE (get_vesting_share_price (dgpo db)) (\<lambda>p. asset_times_price (GBS shares) p)"

definition deposit_gbc ::
    "share_type \<Rightarrow> withdraw_vesting_route_object \<Rightarrow> database \<times> share_type \<times> asset \<Rightarrow>
     (database \<times> share_type \<times> asset) result" where
  "deposit_gbc to_withdraw r s = (case s of (db, deposited, total_gbc_converted) \<Rightarrow>
     if \<not> wr_auto_vest r then
       bindE (get_account (wr_to_account r) db) (\<lambda>_.
       let to_deposit = route_deposit to_withdraw r in
       fc_assert (route_fits to_withdraw r)
       (bindE (safe_add deposited to_deposit) (\<lambda>deposited'.
       bindE (shares_to_gbc to_deposit db) (\<lambda>converted_gbc.
       bindE (asset_add total_gbc_converted converted_gbc) (\<lambda>total'.
        if to_deposit > 0 then
          bindE (modify_account (wr_to_account r) (\<lambda>a.
            bindE (asset_add (a_balance a) converted_gbc) (\<lambda>b. Inr (a\<lparr>a_balance := b\<rparr>))) db) (\<lambda>db1.
          bindE (leave_vesting converted_gbc to_deposit db1) (\<lambda>db2. Inr (db2, deposited', total')))
        else Inr (db, deposited', total'))))))
     else Inr s)"

definition settle_withdrawal :: "share_type \<Rightarrow> asset \<Rightarrow> account_object \<Rightarrow> account_object result" where
  "settle_withdrawal to_withdraw converted_gbc a =
     bindE (safe_sub (amount (a_vesting_shares a)) to_withdraw) (\<lambda>v.
     bindE (asset_add (a_balance a) converted_gbc) (\<lambda>b.
     bindE (safe_add (a_withdrawn a) to_withdraw) (\<lambda>w.
     let a1 = a\<lparr>a_vesting_shares := (a_vesting_shares a)\<lparr>amount := v\<rparr>, a_balance := b, a_withdrawn := w\<rparr> in
     if w \<ge> a_to_withdraw a \<or> v = 0
     then Inr (a1\<lparr>a_vesting_withdraw_rate := (a_vesting_withdraw_rate a)\<lparr>amount := 0\<rparr>,
                  a_next_vesting_withdrawal := time_maximum\<rparr>)
     else Inr (a1\<lparr>a_next_vesting_withdrawal :=
                  plus_secs (a_next_vesting_withdrawal a) GAMEBANK_VESTING_WITHDRAW_INTERVAL_SECONDS\<rparr>))))"

definition withdraw_from :: "account_name_type \<Rightarrow> database \<Rightarrow> database result" where
  "withdraw_from n db =
     bindE (get_account n db) (\<lambda>from_account.
     bindE (withdrawal_amount from_account) (\<lambda>to_withdraw.
     bindE (foldE (deposit_vests to_withdraw) (routes_of n db) (db, 0)) (\<lambda>(db1, as_vests).
     bindE (foldE (deposit_gbc to_withdraw) (routes_of n db) (db1, 0, GBC 0)) (\<lambda>(db2, as_gbc, _).
     bindE (safe_sub to_withdraw as_gbc) (\<lambda>rest.
     bindE (safe_sub rest as_vests) (\<lambda>to_convert.
     fc_assert (to_convert \<ge> 0)
     (bindE (shares_to_gbc to_convert db2) (\<lambda>converted_gbc.
      bindE (modify_account n (settle_withdrawal to_withdraw converted_gbc) db2) (\<lambda>db3.
      bindE (leave_vesting converted_gbc to_convert db3) (\<lambda>db4.
      if to_withdraw > 0 then
        bindE (safe_neg to_withdraw) (\<lambda>d. adjust_proxied_witness_votes n d 0 db4)
      else Inr db4))))))))))"

text \<open>
  The iterator of the outer loop through the index \<^verbatim>\<open>by_next_vesting_withdrawal\<close> stands at an account,
  or at the end. It is moved to the successor in the index before the account is paid and re-dated, so
  the account it stands at next is the successor under the old dates; an account that is still due at
  its new date is met again in the same block only when that date lies behind the successor's. \<open>n\<close>
  bounds the rounds.
\<close>

definition withdrawal_key :: "account_object \<Rightarrow> time_point_sec \<times> account_name_type" where
  "withdrawal_key a = (a_next_vesting_withdrawal a, a_name a)"

definition withdrawal_index :: "database \<Rightarrow> account_object list" where
  "withdrawal_index db = sort_key withdrawal_key (rows (accounts db))"

definition first_name :: "account_object list \<Rightarrow> account_name_type option" where
  "first_name as = (case as of [] \<Rightarrow> None | a # _ \<Rightarrow> Some (a_name a))"

definition successor :: "account_object \<Rightarrow> database \<Rightarrow> account_name_type option" where
  "successor a db = first_name (filter (\<lambda>b. withdrawal_key a < withdrawal_key b) (withdrawal_index db))"

fun withdraw_rounds :: "nat \<Rightarrow> account_name_type option \<Rightarrow> database \<Rightarrow> database result" where
  "withdraw_rounds 0 current db = Inr db"
| "withdraw_rounds (Suc n) current db =
     (case current of None \<Rightarrow> Inr db
      | Some m \<Rightarrow>
          bindE (get_account m db) (\<lambda>from_account.
           if a_next_vesting_withdrawal from_account \<le> head_block_time db then
             bindE (withdraw_from m db) (withdraw_rounds n (successor from_account db))
           else Inr db))"

text \<open>An account is visited at most once for each week that it is overdue.\<close>

definition visits :: "time_point_sec \<Rightarrow> account_object \<Rightarrow> nat" where
  "visits now a = (if a_next_vesting_withdrawal a \<le> now
     then Suc (unat (now - a_next_vesting_withdrawal a) div 604800) else 0)"

definition process_vesting_withdrawals :: "database \<Rightarrow> database result" where
  "process_vesting_withdrawals db =
     withdraw_rounds (sum_list (map (visits (head_block_time db)) (rows (accounts db))))
       (first_name (withdrawal_index db)) db"

section \<open>Delegation\<close>

definition is_delegation :: "account_name_type \<Rightarrow> account_name_type \<Rightarrow> vesting_delegation_object \<Rightarrow> bool" where
  "is_delegation r e d \<longleftrightarrow> del_delegator d = r \<and> del_delegatee d = e"

definition min_delegation_amounts :: "database \<Rightarrow> (asset \<times> asset) result" where
  "min_delegation_amounts db =
     (let fee = cp_account_creation_fee (ws_median_props (witness_schedule db)) in
      bindE (get_vesting_share_price (dgpo db)) (\<lambda>p.
      bindE (if has_hardfork GAMEBANK_HARDFORK_0_1 db
             then bindE (safe_div (amount fee) 3) (\<lambda>q. asset_times_price (GBC q) p)
             else bindE (safe_mul (amount fee) 10) (\<lambda>q. asset_times_price (GBC q) p)) (\<lambda>min_delegation.
      bindE (if has_hardfork GAMEBANK_HARDFORK_0_1 db
             then bindE (safe_div (amount fee) 30) (\<lambda>q. asset_times_price (GBC q) p)
             else asset_times_price fee p) (\<lambda>min_update.
        Inr (min_delegation, min_update)))))"

definition add_delegated :: "asset \<Rightarrow> account_object \<Rightarrow> account_object result" where
  "add_delegated d a = bindE (asset_add (a_delegated_vesting_shares a) d) (\<lambda>x. Inr (a\<lparr>a_delegated_vesting_shares := x\<rparr>))"

definition sub_delegated :: "asset \<Rightarrow> account_object \<Rightarrow> account_object result" where
  "sub_delegated d a = bindE (asset_sub (a_delegated_vesting_shares a) d) (\<lambda>x. Inr (a\<lparr>a_delegated_vesting_shares := x\<rparr>))"

definition add_received :: "asset \<Rightarrow> account_object \<Rightarrow> account_object result" where
  "add_received d a = bindE (asset_add (a_received_vesting_shares a) d) (\<lambda>x. Inr (a\<lparr>a_received_vesting_shares := x\<rparr>))"

definition sub_received :: "asset \<Rightarrow> account_object \<Rightarrow> account_object result" where
  "sub_received d a = bindE (asset_sub (a_received_vesting_shares a) d) (\<lambda>x. Inr (a\<lparr>a_received_vesting_shares := x\<rparr>))"

definition create_delegation_expiration ::
    "account_name_type \<Rightarrow> asset \<Rightarrow> time_point_sec \<Rightarrow> database \<Rightarrow> database result" where
  "create_delegation_expiration delegator shares expiration db =
     bindE (t_create (\<lambda>_ _. False) (\<lambda>_.
        \<lparr>dex_delegator = delegator, dex_vesting_shares = shares, dex_expiration = expiration\<rparr>) (delegation_expirations db))
      (\<lambda>t. Inr (db\<lparr>delegation_expirations := t\<rparr>))"

definition create_delegation ::
    "account_name_type \<Rightarrow> account_name_type \<Rightarrow> asset \<Rightarrow> time_point_sec \<Rightarrow> database \<Rightarrow> database result" where
  "create_delegation delegator delegatee shares min_time db =
     bindE (t_create (\<lambda>d e. is_delegation (del_delegator e) (del_delegatee e) d) (\<lambda>_.
        \<lparr>del_delegator = delegator, del_delegatee = delegatee, del_vesting_shares = shares,
         del_min_delegation_time = min_time\<rparr>) (vesting_delegations db))
      (\<lambda>t. Inr (db\<lparr>vesting_delegations := t\<rparr>))"

definition set_delegation ::
    "account_name_type \<Rightarrow> account_name_type \<Rightarrow> asset \<Rightarrow> database \<Rightarrow> database result" where
  "set_delegation delegator delegatee shares db =
     bindE (t_modify (is_delegation delegator delegatee) (\<lambda>d. Inr (d\<lparr>del_vesting_shares := shares\<rparr>)) (vesting_delegations db))
      (\<lambda>t. Inr (db\<lparr>vesting_delegations := t\<rparr>))"

definition delegate_vesting_shares_evaluator :: "delegate_vesting_shares_operation \<Rightarrow> database \<Rightarrow> database result" where
  "delegate_vesting_shares_evaluator op db =
     (let r = odvs_delegator op; e = odvs_delegatee op; shares = odvs_vesting_shares op in
      bindE (get_account r db) (\<lambda>delegator.
      bindE (get_account e db) (\<lambda>_.
      bindE (asset_sub (a_vesting_shares delegator) (a_delegated_vesting_shares delegator)) (\<lambda>undelegated.
      bindE (safe_sub (a_to_withdraw delegator) (a_withdrawn delegator)) (\<lambda>withdrawing.
      bindE (asset_sub undelegated (GBS withdrawing)) (\<lambda>available_shares.
      bindE (min_delegation_amounts db) (\<lambda>(min_delegation, min_update).
      case t_find (is_delegation r e) (vesting_delegations db) of
        None \<Rightarrow>
          fc_assertE (asset_ge available_shares shares)
          (fc_assertE (asset_ge shares min_delegation)
          (bindE (create_delegation r e shares (head_block_time db) db) (\<lambda>db1.
           bindE (modify_account r (add_delegated shares) db1) (modify_account e (add_received shares)))))
      | Some delegation \<Rightarrow>
          bindE (asset_ge shares (del_vesting_shares delegation)) (\<lambda>increasing.
          if increasing then
            bindE (asset_sub shares (del_vesting_shares delegation)) (\<lambda>delta.
            fc_assertE (asset_ge delta min_update)
            (fc_assertE (asset_ge available_shares delta)
            (bindE (modify_account r (add_delegated delta) db) (\<lambda>db1.
             bindE (modify_account e (add_received delta) db1) (set_delegation r e shares)))))
          else
            bindE (asset_sub (del_vesting_shares delegation) shares) (\<lambda>delta.
            bindE (if amount shares > 0 then
                     fc_assertE (asset_ge delta min_update) (fc_assertE (asset_ge shares min_delegation) (Inr ()))
                   else fc_assert (amount (del_vesting_shares delegation) > 0) (Inr ())) (\<lambda>_.
            bindE (create_delegation_expiration r delta
                     (max (head_block_time db + delegation_return_period (dgpo db)) (del_min_delegation_time delegation)) db) (\<lambda>db1.
            bindE (modify_account e (sub_received delta) db1) (\<lambda>db2.
            if amount shares > 0 then set_delegation r e shares db2
            else Inr (db2\<lparr>vesting_delegations := t_remove (is_delegation r e) (vesting_delegations db2)\<rparr>)))))))))))))"

definition next_expired_delegation :: "database \<Rightarrow> vesting_delegation_expiration_object option" where
  "next_expired_delegation db = t_due dex_expiration (\<lambda>d. dex_expiration d < head_block_time db) (delegation_expirations db)"

definition return_delegation :: "vesting_delegation_expiration_object \<Rightarrow> database \<Rightarrow> database result" where
  "return_delegation d db =
     bindE (modify_account (dex_delegator d) (sub_delegated (dex_vesting_shares d)) db) (\<lambda>db1.
       Inr (db1\<lparr>delegation_expirations := t_remove (\<lambda>x. x = d) (delegation_expirations db1)\<rparr>))"

definition clear_expired_delegations :: "database \<Rightarrow> database result" where
  "clear_expired_delegations db =
     drain (t_size (delegation_expirations db)) next_expired_delegation return_delegation db"

text \<open>
  \<^verbatim>\<open>reclaim_account_creation_delegations\<close> ends the delegations that the first miner made to new
  accounts. The source increments the iterator of the object it has just removed; the model goes on
  with the next object of the index.
\<close>

definition next_creation_delegation :: "database \<Rightarrow> vesting_delegation_object option" where
  "next_creation_delegation db =
     t_due (\<lambda>d. (del_delegator d \<noteq> GAMEBANK_INIT_MINER_NAME, del_min_delegation_time d))
       (\<lambda>d. del_delegator d = GAMEBANK_INIT_MINER_NAME \<and> del_min_delegation_time d < head_block_time db) (vesting_delegations db)"

definition reclaim_delegation :: "vesting_delegation_object \<Rightarrow> database \<Rightarrow> database result" where
  "reclaim_delegation d db =
     bindE (modify_account (del_delegatee d) (sub_received (del_vesting_shares d)) db) (\<lambda>db1.
     bindE (create_delegation_expiration (del_delegator d) (del_vesting_shares d)
              (max (head_block_time db + delegation_return_period (dgpo db)) (del_min_delegation_time d)) db1) (\<lambda>db2.
       Inr (db2\<lparr>vesting_delegations := t_remove (\<lambda>x. x = d) (vesting_delegations db2)\<rparr>)))"

definition reclaim_account_creation_delegations :: "database \<Rightarrow> database result" where
  "reclaim_account_creation_delegations db =
     drain (t_size (vesting_delegations db)) next_creation_delegation reclaim_delegation db"

section \<open>Rewards and conversion\<close>

definition claim_reward_balance_evaluator :: "claim_reward_balance_operation \<Rightarrow> database \<Rightarrow> database result" where
  "claim_reward_balance_evaluator op db =
     (let n = ocrb_account op; vests = ocrb_reward_vests op in
      bindE (get_account n db) (\<lambda>acnt.
      fc_assertE (asset_le (ocrb_reward_gbc op) (a_reward_gbc_balance acnt))
      (fc_assertE (asset_le (ocrb_reward_gbd op) (a_reward_gbd_balance acnt))
      (fc_assertE (asset_le vests (a_reward_vesting_balance acnt))
      (bindE (if vests = a_reward_vesting_balance acnt then Inr (a_reward_vesting_gbc acnt)
              else bindE (udiv128 (uint128 (amount vests) * uint128 (amount (a_reward_vesting_gbc acnt)))
                            (uint128 (amount (a_reward_vesting_balance acnt)))) (\<lambda>q.
                     fc_assert (drop_bit 64 q = 0) (Inr (GBC (narrow_int64 q)))))
       (\<lambda>to_move.
       bindE (asset_neg (ocrb_reward_gbc op)) (\<lambda>ngbc.
       bindE (adjust_reward_balance n ngbc (GBS 0) db) (\<lambda>db1.
       bindE (asset_neg (ocrb_reward_gbd op)) (\<lambda>ngbd.
       bindE (adjust_reward_balance n ngbd (GBS 0) db1) (\<lambda>db2.
       bindE (adjust_balance n (ocrb_reward_gbc op) db2) (\<lambda>db3.
       bindE (adjust_balance n (ocrb_reward_gbd op) db3) (\<lambda>db4.
       bindE (modify_account n (\<lambda>a.
          bindE (asset_add (a_vesting_shares a) vests) (\<lambda>v.
          bindE (asset_sub (a_reward_vesting_balance a) vests) (\<lambda>r.
          bindE (asset_sub (a_reward_vesting_gbc a) to_move) (\<lambda>g.
            Inr (a\<lparr>a_vesting_shares := v, a_reward_vesting_balance := r, a_reward_vesting_gbc := g\<rparr>))))) db4) (\<lambda>db5.
       bindE (modify_dgpo (\<lambda>p.
          bindE (asset_add (total_vesting_shares p) vests) (\<lambda>vs.
          bindE (asset_add (total_vesting_fund_gbc p) to_move) (\<lambda>vf.
          bindE (asset_sub (pending_rewarded_vesting_shares p) vests) (\<lambda>ps.
          bindE (asset_sub (pending_rewarded_vesting_gbc p) to_move) (\<lambda>pg.
            Inr (p\<lparr>total_vesting_shares := vs, total_vesting_fund_gbc := vf,
                   pending_rewarded_vesting_shares := ps, pending_rewarded_vesting_gbc := pg\<rparr>)))))) db5) (\<lambda>db6.
         adjust_proxied_witness_votes n (amount vests) 0 db6))))))))))))))"

definition GAMEBANK_CONVERSION_DELAY :: int where "GAMEBANK_CONVERSION_DELAY = 84 * 3600"

definition convert_clash :: "convert_request_object \<Rightarrow> convert_request_object \<Rightarrow> bool" where
  "convert_clash c d \<longleftrightarrow> cr_owner c = cr_owner d \<and> cr_requestid c = cr_requestid d"

definition convert_evaluator :: "convert_operation \<Rightarrow> database \<Rightarrow> database result" where
  "convert_evaluator op db =
     bindE (get_account (ocv_owner op) db) (\<lambda>owner.
     bindE (get_balance owner (symbol (ocv_amount op))) (\<lambda>bal.
     fc_assertE (asset_ge bal (ocv_amount op))
     (bindE (asset_neg (ocv_amount op)) (\<lambda>neg.
      bindE (adjust_balance (ocv_owner op) neg db) (\<lambda>db1.
      fc_assert (\<not> is_null (median_price db1))
      (bindE (t_create convert_clash (\<lambda>_.
          \<lparr>cr_owner = ocv_owner op, cr_requestid = ocv_requestid op, cr_amount = ocv_amount op,
           cr_conversion_date = plus_secs (head_block_time db1) GAMEBANK_CONVERSION_DELAY\<rparr>) (convert_requests db1)) (\<lambda>t.
         Inr (db1\<lparr>convert_requests := t\<rparr>))))))))"

text \<open>The loop of \<^verbatim>\<open>process_conversions\<close> carries the two totals beside the database.\<close>

definition next_conversion :: "database \<times> asset \<times> asset \<Rightarrow> convert_request_object option" where
  "next_conversion s = t_due cr_conversion_date (\<lambda>c. cr_conversion_date c \<le> head_block_time (fst s)) (convert_requests (fst s))"

definition convert_request :: "convert_request_object \<Rightarrow> database \<times> asset \<times> asset \<Rightarrow> (database \<times> asset \<times> asset) result" where
  "convert_request c s = (case s of (db, net_gbd, net_gbc) \<Rightarrow>
     bindE (asset_times_price (cr_amount c) (median_price db)) (\<lambda>amount_to_issue.
     bindE (adjust_balance (cr_owner c) amount_to_issue db) (\<lambda>db1.
     bindE (asset_add net_gbd (cr_amount c)) (\<lambda>net_gbd'.
     bindE (asset_add net_gbc amount_to_issue) (\<lambda>net_gbc'.
       Inr (db1\<lparr>convert_requests := t_remove (\<lambda>x. x = c) (convert_requests db1)\<rparr>, net_gbd', net_gbc'))))))"

definition process_conversions :: "database \<Rightarrow> database result" where
  "process_conversions db =
     (if is_null (median_price db) then Inr db
      else bindE (drain (t_size (convert_requests db)) next_conversion convert_request (db, GBD 0, GBC 0))
       (\<lambda>(db1, net_gbd, net_gbc).
        modify_dgpo (\<lambda>p.
          bindE (asset_add (current_supply p) net_gbc) (\<lambda>cs.
          bindE (asset_sub (current_gbd_supply p) net_gbd) (\<lambda>gs.
          bindE (asset_add (virtual_supply p) net_gbc) (\<lambda>v1.
          bindE (asset_times_price net_gbd (median_price db1)) (\<lambda>w.
          bindE (asset_sub v1 w) (\<lambda>v2.
            Inr (p\<lparr>current_supply := cs, current_gbd_supply := gs, virtual_supply := v2\<rparr>))))))) db1))"

section \<open>Conservation\<close>

lemma withdraw_vesting_moves [moves]:
  assumes "withdraw_vesting_evaluator op db = Inr db'"
  shows "(\<forall>l. gap l db' = gap l db) \<and> balances_only db db'"
  using assms
  by (auto simp: withdraw_vesting_evaluator_def no_funds_def Let_def split: if_splits dest!: modify_account_moves)

lemma set_withdraw_vesting_route_gap [gap_move]:
  assumes "set_withdraw_vesting_route_evaluator op db = Inr db'"
  shows "\<forall>l. gap l db' = gap l db"
  using assms
  by (auto simp: set_withdraw_vesting_route_evaluator_def no_funds_def Let_def
      split: if_splits option.splits dest!: modify_account_moves)

lemma delegation_no_funds:
  "no_funds (add_delegated d)" "no_funds (sub_delegated d)" "no_funds (add_received d)" "no_funds (sub_received d)"
  by (auto simp: no_funds_def add_delegated_def sub_delegated_def add_received_def sub_received_def)

lemma delegation_table_gap:
  "create_delegation r e s t db = Inr db' \<Longrightarrow> \<forall>l. gap l db' = gap l db"
  "set_delegation r e s db = Inr db' \<Longrightarrow> \<forall>l. gap l db' = gap l db"
  "create_delegation_expiration r s t db = Inr db' \<Longrightarrow> \<forall>l. gap l db' = gap l db"
  by (auto simp: create_delegation_def set_delegation_def create_delegation_expiration_def)

lemma delegate_vesting_shares_gap [gap_move]:
  assumes "delegate_vesting_shares_evaluator op db = Inr db'"
  shows "\<forall>l. gap l db' = gap l db"
  using assms
  by (auto simp: delegate_vesting_shares_evaluator_def Let_def delegation_no_funds
      split: if_splits option.splits dest!: modify_account_moves delegation_table_gap)

lemma return_delegation_gap:
  "return_delegation d db = Inr db' \<Longrightarrow> \<forall>l. gap l db' = gap l db"
  by (auto simp: return_delegation_def delegation_no_funds dest!: modify_account_moves)

lemma reclaim_delegation_gap:
  "reclaim_delegation d db = Inr db' \<Longrightarrow> \<forall>l. gap l db' = gap l db"
  by (auto simp: reclaim_delegation_def delegation_no_funds dest!: modify_account_moves delegation_table_gap)

lemma drain_gap:
  assumes "drain n nxt step db = Inr db'"
    and "\<And>r s s'. nxt s = Some r \<Longrightarrow> step r s = Inr s' \<Longrightarrow> \<forall>l. gap l s' = gap l s"
  shows "\<forall>l. gap l db' = gap l db"
  by (rule drain_invariant[where I = "\<lambda>s. \<forall>l. gap l s = gap l db", OF assms(1)]) (use assms(2) in auto)

lemma clear_expired_delegations_gap [gap_move]:
  "clear_expired_delegations db = Inr db' \<Longrightarrow> \<forall>l. gap l db' = gap l db"
  unfolding clear_expired_delegations_def by (erule drain_gap) (rule return_delegation_gap)

lemma reclaim_account_creation_delegations_gap [gap_move]:
  "reclaim_account_creation_delegations db = Inr db' \<Longrightarrow> \<forall>l. gap l db' = gap l db"
  unfolding reclaim_account_creation_delegations_def by (erule drain_gap) (rule reclaim_delegation_gap)

lemma modify_dgpo_Inr [simp]: "modify_dgpo f db = Inr db' \<longleftrightarrow> (\<exists>p. f (dgpo db) = Inr p \<and> db' = db\<lparr>dgpo := p\<rparr>)"
  by (auto simp: modify_dgpo_def)

text \<open>An update of one account's balances, as a change of the gaps.\<close>

lemma modify_account_delta:
  assumes "modify_account n f db = Inr db'"
  shows "\<exists>a a'. find_account n db = Some a \<and> f a = Inr a' \<and>
    (\<forall>l. gap l db' = gap l db - (account_part l a' - account_part l a)) \<and> dgpo db' = dgpo db"
proof -
  obtain a a' where a: "find_account n db = Some a" "f a = Inr a'" using accts.update_found[OF assms] by blast
  then have "\<forall>l. gap l db' = gap l db - (account_part l a' - account_part l a)"
    using replace_account_gap[OF assms a(1)] by auto
  then show ?thesis using a modify_account_frame[OF assms] by auto
qed

lemma claim_reward_balance_gap [gap_move]:
  assumes "claim_reward_balance_evaluator op db = Inr db'"
  shows "\<forall>l. gap l db' = gap l db"
  using assms
  by (auto simp: claim_reward_balance_evaluator_def Let_def reward_part_def
      dest!: moves asset_dest modify_account_delta adjust_proxied_witness_votes_gap)

lemma convert_gap [gap_move]:
  assumes "convert_evaluator op db = Inr db'"
  shows "\<forall>l. gap l db' = gap l db"
  using assms by (auto simp: convert_evaluator_def dest!: movers)

lemma next_conversion_Some: "next_conversion s = Some c \<Longrightarrow> c \<in> set (rows (convert_requests (fst s)))"
  by (auto simp: next_conversion_def dest: t_due_Some)

lemma convert_request_moves:
  assumes "convert_request c (db, d, g) = Inr (db', d', g')" "c \<in> set (rows (convert_requests db))"
  shows "(\<forall>l. gap l db' + part l g' - part l d' = gap l db + part l g - part l d) \<and>
    convert_requests db' = t_remove (\<lambda>x. x = c) (convert_requests db) \<and> head_block_time db' = head_block_time db"
  using assms by (auto simp: convert_request_def t_sum_remove_self balances_onlyD dest!: movers)

interpretation conversion_loop: draining next_conversion convert_request "\<lambda>s. t_size (convert_requests (fst s))"
proof
  fix c s s'
  assume *: "next_conversion s = Some c" "convert_request c s = Inr s'"
  obtain db d g db' d' g' where s: "s = (db, d, g)" "s' = (db', d', g')" by (metis prod_cases3)
  then show "t_size (convert_requests (fst s')) < t_size (convert_requests (fst s))"
    using convert_request_moves[of c db d g db' d' g'] * next_conversion_Some[OF *(1)]
      t_size_remove[OF t_find_self, of c "convert_requests db"] by auto
next
  fix c s
  assume "next_conversion s = Some c"
  then show "0 < t_size (convert_requests (fst s))" by (auto simp: t_size_def dest: next_conversion_Some)
qed

lemma conversions_sum:
  assumes "drain n next_conversion convert_request (db, GBD 0, GBC 0) = Inr (db', d, g)"
  shows "(\<forall>l. gap l db' = gap l db - part l g + part l d) \<and> head_block_time db' = head_block_time db"
proof -
  have "(\<lambda>(db', d, g). (\<forall>l. gap l db' + part l g - part l d = gap l db) \<and> head_block_time db' = head_block_time db) (db', d, g)"
  proof (rule drain_invariant[OF assms])
    fix c s s'
    assume *: "next_conversion s = Some c" "convert_request c s = Inr s'"
      "case s of (db', d, g) \<Rightarrow> (\<forall>l. gap l db' + part l g - part l d = gap l db) \<and> head_block_time db' = head_block_time db"
    obtain db1 d1 g1 db2 d2 g2 where s: "s = (db1, d1, g1)" "s' = (db2, d2, g2)" by (metis prod_cases3)
    then show "case s' of (db', d, g) \<Rightarrow> (\<forall>l. gap l db' + part l g - part l d = gap l db) \<and> head_block_time db' = head_block_time db"
      using convert_request_moves[of c db1 d1 g1 db2 d2 g2] * next_conversion_Some[OF *(1)] by auto
  qed simp
  then show ?thesis by (simp add: algebra_simps)
qed

lemma process_conversions_gap [gap_move]:
  assumes "process_conversions db = Inr db'"
  shows "\<forall>l. gap l db' = gap l db"
  using assms
  by (auto simp: process_conversions_def split: if_splits dest!: conversions_sum asset_dest)

text \<open>
  Conversion of dollars is complete and conserves tokens: with a price feed, after
  \<^verbatim>\<open>process_conversions\<close> every request left is dated after the head block; the dollars that were held by
  the executed requests leave the dollar supply and the liquid tokens issued for them enter the liquid
  supply, so that supply minus holdings is unchanged in every ledger.
\<close>

theorem process_conversions_complete:
  assumes "process_conversions db = Inr db'" "\<not> is_null (median_price db)"
  shows "(\<forall>l. gap l db' = gap l db) \<and>
    list_all (\<lambda>c. head_block_time db' < cr_conversion_date c) (rows (convert_requests db'))"
proof -
  obtain db1 d g p where h: "drain (t_size (convert_requests db)) next_conversion convert_request (db, GBD 0, GBC 0) = Inr (db1, d, g)"
    "db' = db1\<lparr>dgpo := p\<rparr>" "dgp_time p = head_block_time db1"
    using assms by (auto simp: process_conversions_def)
  have "next_conversion (db1, d, g) = None" using conversion_loop.drained[OF _ h(1)] by simp
  then have due: "t_due cr_conversion_date (\<lambda>c. cr_conversion_date c \<le> head_block_time db1) (convert_requests db1) = None"
    by (simp add: next_conversion_def)
  have "\<not> cr_conversion_date c \<le> head_block_time db1" if "c \<in> set (rows (convert_requests db1))" for c
    by (rule t_due_None[OF due _ that]) auto
  then have "list_all (\<lambda>c. head_block_time db' < cr_conversion_date c) (rows (convert_requests db'))"
    using h by (auto simp: list_all_iff not_le)
  then show ?thesis using process_conversions_gap[OF assms(1)] by blast
qed

definition feed_db :: database where
  "feed_db = (genesis_state 1000)\<lparr>
     feed_history := \<lparr>fh_current_median_history = \<lparr>base = GBD 1, quote = GBC 4\<rparr>, fh_price_history = []\<rparr>,
     dgpo := (dgpo (genesis_state 1000))\<lparr>current_gbd_supply := GBD 10, virtual_supply := GBC 1040\<rparr>,
     convert_requests := \<lparr>next_id = 1, rows = [\<lparr>cr_owner = ''temp'', cr_requestid = 1, cr_amount = GBD 10, cr_conversion_date = 7\<rparr>]\<rparr>\<rparr>"

theorem process_conversions_complete_witness:
  "\<exists>db'. process_conversions feed_db = Inr db' \<and> gap Dollar db' = gap Dollar feed_db \<and>
     list_all (\<lambda>c. head_block_time db' < cr_conversion_date c) (rows (convert_requests db'))"
proof -
  have nn: "\<not> is_null (median_price feed_db)"
    by (simp add: feed_db_def is_null_def price_eq_def same_market_def null_price_def)
  have p: "asset_times_price (GBD 10) \<lparr>base = GBD 1, quote = GBC 4\<rparr> = Inr (GBC 40)"
    using asset_times_price_base[of "GBD 10" "\<lparr>base = GBD 1, quote = GBC 4\<rparr>"]
    by (simp add: price_validate_def int64_max_def int64_of_quotient_def)
  have "returns (process_conversions feed_db)"
    by (simp add: concrete process_conversions_def feed_db_def next_conversion_def convert_request_def p modify_dgpo_def
        is_null_def price_eq_def same_market_def null_price_def)
  then obtain db' where db': "process_conversions feed_db = Inr db'" by (auto simp: returns_iff)
  then show ?thesis using process_conversions_complete[OF db' nn] by blast
qed

section \<open>Delegated shares are accounted for\<close>

text \<open>
  The shares an account has delegated are those of its delegations and of its delegations that
  are on their way back; the shares it has received are those of the delegations to it. For a name
  without an account both are zero, so no delegation mentions it.
\<close>

definition acct_delegated :: "account_name_type \<Rightarrow> database \<Rightarrow> int" where
  "acct_delegated n db = (case find_account n db of None \<Rightarrow> 0 | Some a \<Rightarrow> amount (a_delegated_vesting_shares a))"

definition acct_received :: "account_name_type \<Rightarrow> database \<Rightarrow> int" where
  "acct_received n db = (case find_account n db of None \<Rightarrow> 0 | Some a \<Rightarrow> amount (a_received_vesting_shares a))"

definition delegated_by :: "account_name_type \<Rightarrow> vesting_delegation_object \<Rightarrow> int" where
  "delegated_by n d = (if del_delegator d = n then amount (del_vesting_shares d) else 0)"

definition delegated_to :: "account_name_type \<Rightarrow> vesting_delegation_object \<Rightarrow> int" where
  "delegated_to n d = (if del_delegatee d = n then amount (del_vesting_shares d) else 0)"

definition returning_to :: "account_name_type \<Rightarrow> vesting_delegation_expiration_object \<Rightarrow> int" where
  "returning_to n x = (if dex_delegator x = n then amount (dex_vesting_shares x) else 0)"

definition delegation_inv :: "database \<Rightarrow> bool" where
  "delegation_inv db \<longleftrightarrow> (\<forall>n.
     acct_delegated n db = t_sum (delegated_by n) (vesting_delegations db) + t_sum (returning_to n) (delegation_expirations db) \<and>
     acct_received n db = t_sum (delegated_to n) (vesting_delegations db))"

lemma delegation_account:
  assumes "modify_account k f db = Inr db'"
    and "\<And>a a'. f a = Inr a' \<Longrightarrow> a_name a' = a_name a \<and>
      amount (a_delegated_vesting_shares a') = amount (a_delegated_vesting_shares a) + d \<and>
      amount (a_received_vesting_shares a') = amount (a_received_vesting_shares a) + r"
  shows "\<forall>n. (find_account n db' = None \<longleftrightarrow> find_account n db = None) \<and>
      acct_delegated n db' = acct_delegated n db + (if n = k then d else 0) \<and>
      acct_received n db' = acct_received n db + (if n = k then r else 0) \<and>
      vesting_delegations db' = vesting_delegations db \<and> delegation_expirations db' = delegation_expirations db"
proof -
  obtain a a' where a: "find_account k db = Some a" "f a = Inr a'" using accts.update_found[OF assms(1)] by blast
  have "find_account n db' = (if n = k then Some a' else find_account n db)" for n
    using accts.lookup_update[OF assms(1) a, of n] assms(2)[OF a(2)] find_account_name[OF a(1)] by simp
  then show ?thesis using a assms(2)[OF a(2)] modify_account_frame[OF assms(1)]
    by (auto simp: acct_delegated_def acct_received_def)
qed

lemma delegation_accounts:
  "modify_account k (add_delegated x) db = Inr db' \<Longrightarrow>
     \<forall>n. (find_account n db' = None \<longleftrightarrow> find_account n db = None) \<and>
      acct_delegated n db' = acct_delegated n db + (if n = k then amount x else 0) \<and>
      acct_received n db' = acct_received n db \<and>
      vesting_delegations db' = vesting_delegations db \<and> delegation_expirations db' = delegation_expirations db"
  "modify_account k (sub_delegated x) db = Inr db' \<Longrightarrow>
     \<forall>n. (find_account n db' = None \<longleftrightarrow> find_account n db = None) \<and>
      acct_delegated n db' = acct_delegated n db - (if n = k then amount x else 0) \<and>
      acct_received n db' = acct_received n db \<and>
      vesting_delegations db' = vesting_delegations db \<and> delegation_expirations db' = delegation_expirations db"
  "modify_account k (add_received x) db = Inr db' \<Longrightarrow>
     \<forall>n. (find_account n db' = None \<longleftrightarrow> find_account n db = None) \<and>
      acct_delegated n db' = acct_delegated n db \<and>
      acct_received n db' = acct_received n db + (if n = k then amount x else 0) \<and>
      vesting_delegations db' = vesting_delegations db \<and> delegation_expirations db' = delegation_expirations db"
  "modify_account k (sub_received x) db = Inr db' \<Longrightarrow>
     \<forall>n. (find_account n db' = None \<longleftrightarrow> find_account n db = None) \<and>
      acct_delegated n db' = acct_delegated n db \<and>
      acct_received n db' = acct_received n db - (if n = k then amount x else 0) \<and>
      vesting_delegations db' = vesting_delegations db \<and> delegation_expirations db' = delegation_expirations db"
     apply (drule delegation_account[where d = "amount x" and r = 0])
      apply (auto simp: add_delegated_def dest!: asset_dest)[2]
    apply (drule delegation_account[where d = "- amount x" and r = 0])
     apply (auto simp: sub_delegated_def dest!: asset_dest)[2]
   apply (drule delegation_account[where d = 0 and r = "amount x"])
    apply (auto simp: add_received_def dest!: asset_dest)[2]
  apply (drule delegation_account[where d = 0 and r = "- amount x"])
   apply (auto simp: sub_received_def dest!: asset_dest)[2]
  done

lemma accounts_cong:
  "accounts db' = accounts db \<Longrightarrow> acct_delegated n db' = acct_delegated n db \<and> acct_received n db' = acct_received n db \<and>
   (find_account n db' = None \<longleftrightarrow> find_account n db = None)"
  by (simp add: acct_delegated_def acct_received_def find_account_def)

lemma delegation_tables:
  "create_delegation r e s t db = Inr db' \<Longrightarrow> accounts db' = accounts db \<and>
     delegation_expirations db' = delegation_expirations db \<and>
     (\<forall>n. t_sum (delegated_by n) (vesting_delegations db') = t_sum (delegated_by n) (vesting_delegations db) + (if n = r then amount s else 0)) \<and>
     (\<forall>n. t_sum (delegated_to n) (vesting_delegations db') = t_sum (delegated_to n) (vesting_delegations db) + (if n = e then amount s else 0))"
  "create_delegation_expiration r s t db = Inr db' \<Longrightarrow> accounts db' = accounts db \<and>
     vesting_delegations db' = vesting_delegations db \<and>
     (\<forall>n. t_sum (returning_to n) (delegation_expirations db') = t_sum (returning_to n) (delegation_expirations db) + (if n = r then amount s else 0))"
  by (auto simp: create_delegation_def create_delegation_expiration_def delegated_by_def delegated_to_def returning_to_def
      dest!: t_create_dest)

lemma set_delegation_table:
  assumes "set_delegation r e s db = Inr db'" "t_find (is_delegation r e) (vesting_delegations db) = Some d"
  shows "accounts db' = accounts db \<and> delegation_expirations db' = delegation_expirations db \<and>
     (\<forall>n. t_sum (delegated_by n) (vesting_delegations db') = t_sum (delegated_by n) (vesting_delegations db)
        + (if n = r then amount s - amount (del_vesting_shares d) else 0)) \<and>
     (\<forall>n. t_sum (delegated_to n) (vesting_delegations db') = t_sum (delegated_to n) (vesting_delegations db)
        + (if n = e then amount s - amount (del_vesting_shares d) else 0))"
  using assms t_find_Some[OF assms(2)]
  by (auto simp: set_delegation_def is_delegation_def delegated_by_def delegated_to_def dest!: t_modify_dest)

lemma remove_delegation_table:
  assumes "t_find (is_delegation r e) t = Some d"
  shows "t_sum (delegated_by n) (t_remove (is_delegation r e) t) = t_sum (delegated_by n) t - (if n = r then amount (del_vesting_shares d) else 0) \<and>
    t_sum (delegated_to n) (t_remove (is_delegation r e) t) = t_sum (delegated_to n) t - (if n = e then amount (del_vesting_shares d) else 0)"
  using t_find_Some[OF assms] by (simp add: t_sum_remove[OF assms] is_delegation_def delegated_by_def delegated_to_def)

lemma delegate_vesting_shares_inv:
  assumes "delegate_vesting_shares_evaluator op db = Inr db'" "delegation_inv db" "0 \<le> amount (odvs_vesting_shares op)"
  shows "delegation_inv db'"
proof -
  let ?r = "odvs_delegator op" and ?e = "odvs_delegatee op" and ?s = "odvs_vesting_shares op"
  note inv = assms(2)[unfolded delegation_inv_def]
  show ?thesis
  proof (cases "t_find (is_delegation ?r ?e) (vesting_delegations db)")
    case None
    then obtain db1 db2 t where "create_delegation ?r ?e ?s t db = Inr db1"
      "modify_account ?r (add_delegated ?s) db1 = Inr db2" "modify_account ?e (add_received ?s) db2 = Inr db'"
      using assms(1) by (auto simp: delegate_vesting_shares_evaluator_def Let_def)
    from delegation_tables(1)[OF this(1)] delegation_accounts(1)[OF this(2)] delegation_accounts(3)[OF this(3)] inv
    show ?thesis using accounts_cong[of db1 db] by (auto simp: delegation_inv_def)
  next
    case (Some d)
    show ?thesis
    proof (cases "amount ?s \<ge> amount (del_vesting_shares d)")
      case True
      with Some obtain delta db1 db2 where h: "asset_sub ?s (del_vesting_shares d) = Inr delta"
        "modify_account ?r (add_delegated delta) db = Inr db1" "modify_account ?e (add_received delta) db1 = Inr db2"
        "set_delegation ?r ?e ?s db2 = Inr db'"
        using assms(1) by (auto simp: delegate_vesting_shares_evaluator_def Let_def)
      have del: "amount delta = amount ?s - amount (del_vesting_shares d)" using h(1) by (auto dest: asset_dest)
      note ac = delegation_accounts(1)[OF h(2)] delegation_accounts(3)[OF h(3)]
      have "t_find (is_delegation ?r ?e) (vesting_delegations db2) = Some d" using Some ac by simp
      from set_delegation_table[OF h(4) this] ac inv del
      show ?thesis using accounts_cong[of db' db2] by (auto simp: delegation_inv_def)
    next
      case False
      with Some obtain delta t db1 db2 where h: "asset_sub (del_vesting_shares d) ?s = Inr delta"
        "create_delegation_expiration ?r delta t db = Inr db1" "modify_account ?e (sub_received delta) db1 = Inr db2"
        and last: "if amount ?s > 0 then set_delegation ?r ?e ?s db2 = Inr db'
          else db' = db2\<lparr>vesting_delegations := t_remove (is_delegation ?r ?e) (vesting_delegations db2)\<rparr> \<and> amount ?s \<le> 0"
        using assms(1) by (auto simp: delegate_vesting_shares_evaluator_def Let_def split: if_splits)
      have del: "amount delta = amount (del_vesting_shares d) - amount ?s" using h(1) by (auto dest: asset_dest)
      note ac = delegation_tables(2)[OF h(2)] delegation_accounts(4)[OF h(3)]
      have f: "t_find (is_delegation ?r ?e) (vesting_delegations db2) = Some d" using Some ac by simp
      show ?thesis
      proof (cases "amount ?s > 0")
        case True
        then have "set_delegation ?r ?e ?s db2 = Inr db'" using last by simp
        from set_delegation_table[OF this f] ac inv del
        show ?thesis using accounts_cong[of db1 db] accounts_cong[of db' db2] by (auto simp: delegation_inv_def)
      next
        case zero: False
        then have "db' = db2\<lparr>vesting_delegations := t_remove (is_delegation ?r ?e) (vesting_delegations db2)\<rparr>" using last by simp
        with remove_delegation_table[OF f] ac inv del zero assms(3)
        show ?thesis using accounts_cong[of db1 db] accounts_cong[of db' db2] by (auto simp: delegation_inv_def)
      qed
    qed
  qed
qed

lemma next_expired_delegation_Some: "next_expired_delegation db = Some d \<Longrightarrow> d \<in> set (rows (delegation_expirations db))"
  by (auto simp: next_expired_delegation_def dest: t_due_Some)

lemma return_delegation_form:
  assumes "return_delegation d db = Inr db'"
  shows "delegation_expirations db' = t_remove (\<lambda>x. x = d) (delegation_expirations db) \<and>
    head_block_time db' = head_block_time db"
  using assms by (auto simp: return_delegation_def delegation_no_funds balances_onlyD dest!: modify_account_moves)

lemma return_delegation_inv:
  assumes "return_delegation d db = Inr db'" "d \<in> set (rows (delegation_expirations db))" "delegation_inv db"
  shows "delegation_inv db'"
proof -
  obtain db1 where h: "modify_account (dex_delegator d) (sub_delegated (dex_vesting_shares d)) db = Inr db1"
    "db' = db1\<lparr>delegation_expirations := t_remove (\<lambda>x. x = d) (delegation_expirations db1)\<rparr>"
    using assms(1) by (auto simp: return_delegation_def)
  from delegation_accounts(2)[OF h(1)] assms(2,3) show ?thesis
    using accounts_cong[of db' db1] unfolding h(2) delegation_inv_def
    by (auto simp: t_sum_remove_self returning_to_def)
qed

interpretation expired_delegations: draining next_expired_delegation return_delegation "\<lambda>db. t_size (delegation_expirations db)"
proof
  fix d db db'
  assume *: "next_expired_delegation db = Some d" "return_delegation d db = Inr db'"
  then show "t_size (delegation_expirations db') < t_size (delegation_expirations db)"
    using return_delegation_form[OF *(2)] next_expired_delegation_Some[OF *(1)]
      t_size_remove[OF t_find_self, of d "delegation_expirations db"] by auto
next
  fix d db
  assume "next_expired_delegation db = Some d"
  then show "0 < t_size (delegation_expirations db)" by (auto simp: t_size_def dest: next_expired_delegation_Some)
qed

lemma clear_expired_delegations_inv:
  assumes "clear_expired_delegations db = Inr db'" "delegation_inv db"
  shows "delegation_inv db'"
  by (rule drain_invariant[where I = delegation_inv, OF assms(1)[unfolded clear_expired_delegations_def] assms(2)])
    (rule return_delegation_inv, auto dest: next_expired_delegation_Some)

lemma next_creation_delegation_Some: "next_creation_delegation db = Some d \<Longrightarrow> d \<in> set (rows (vesting_delegations db))"
  by (auto simp: next_creation_delegation_def dest: t_due_Some)

lemma reclaim_delegation_inv:
  assumes "reclaim_delegation d db = Inr db'" "d \<in> set (rows (vesting_delegations db))" "delegation_inv db"
  shows "delegation_inv db' \<and> vesting_delegations db' = t_remove (\<lambda>x. x = d) (vesting_delegations db)"
proof -
  obtain db1 db2 t where h: "modify_account (del_delegatee d) (sub_received (del_vesting_shares d)) db = Inr db1"
    "create_delegation_expiration (del_delegator d) (del_vesting_shares d) t db1 = Inr db2"
    "db' = db2\<lparr>vesting_delegations := t_remove (\<lambda>x. x = d) (vesting_delegations db2)\<rparr>"
    using assms(1) by (auto simp: reclaim_delegation_def)
  note ac = delegation_accounts(4)[OF h(1)] delegation_tables(2)[OF h(2)]
  then have vd: "vesting_delegations db2 = vesting_delegations db" by simp
  have rm: "t_sum (delegated_by n) (t_remove (\<lambda>x. x = d) (vesting_delegations db)) =
      t_sum (delegated_by n) (vesting_delegations db) - delegated_by n d"
    "t_sum (delegated_to n) (t_remove (\<lambda>x. x = d) (vesting_delegations db)) =
      t_sum (delegated_to n) (vesting_delegations db) - delegated_to n d" for n
    using assms(2) by (simp_all add: t_sum_remove_self)
  have "delegation_inv db'"
    using ac assms(3) accounts_cong[of db' db1] h(3) unfolding delegation_inv_def
    by (auto simp: vd rm delegated_by_def delegated_to_def)
  then show ?thesis using h(3) vd by simp
qed

lemma reclaim_account_creation_delegations_inv:
  assumes "reclaim_account_creation_delegations db = Inr db'" "delegation_inv db"
  shows "delegation_inv db'"
  by (rule drain_invariant[where I = delegation_inv, OF assms(1)[unfolded reclaim_account_creation_delegations_def] assms(2)])
    (meson reclaim_delegation_inv next_creation_delegation_Some)

lemma valid_names: "is_valid_account_name ''initminer''" "is_valid_account_name ''temp''" "is_valid_account_name ''miners''"
  by code_simp+

definition example_delegation :: delegate_vesting_shares_operation where
  "example_delegation = \<lparr>odvs_delegator = ''initminer'', odvs_delegatee = ''temp'', odvs_vesting_shares = GBS 20000\<rparr>"

definition vested_db :: database where
  "vested_db = (genesis_state 0)\<lparr>accounts := \<lparr>next_id = 2, rows =
     [(new_account 0)\<lparr>a_name := ''initminer'', a_vesting_shares := GBS 50000\<rparr>, (new_account 1)\<lparr>a_name := ''temp''\<rparr>]\<rparr>\<rparr>"

end
