(* ===== verification/Withdrawal.thy ===== *)
theory Withdrawal
  imports Vesting
begin

text \<open>
  The withdrawal of vesting shares along routes (definitions in theory \<open>Vesting\<close>): the routes of an
  account never promise more than everything, although their percentages are added in 16 bits; so the
  deposits of a withdrawal never exceed what is withdrawn, and a withdrawal moves shares and tokens
  between the ledgers without creating or destroying any.
\<close>

section \<open>Routes promise at most 100 percent\<close>

definition route_share :: "account_name_type \<Rightarrow> withdraw_vesting_route_object \<Rightarrow> int" where
  "route_share n r = (if wr_from_account r = n then uint (wr_percent r) else 0)"

definition routes_inv :: "database \<Rightarrow> bool" where
  "routes_inv db \<longleftrightarrow> (\<forall>n. t_sum (route_share n) (withdraw_routes db) \<le> 10000) \<and>
     list_all (\<lambda>r. wr_to_account r \<noteq> '''') (rows (withdraw_routes db))"

lemma sum_list_insort: "sum_list (map g (insort_key k x xs)) = g x + sum_list (map g xs)" for g :: "'a \<Rightarrow> 'b::comm_monoid_add"
  by (induction xs) (auto simp: ac_simps)

lemma sum_list_sort_key: "sum_list (map g (sort_key k xs)) = sum_list (map g xs)" for g :: "'a \<Rightarrow> 'b::comm_monoid_add"
  by (induction xs) (auto simp: sum_list_insort)

lemma uint_sum_list:
  fixes ws :: "'a \<Rightarrow> 16 word"
  assumes "sum_list (map (\<lambda>x. uint (ws x)) xs) < 65536"
  shows "uint (sum_list (map ws xs)) = sum_list (map (\<lambda>x. uint (ws x)) xs)"
  using assms
proof (induction xs)
  case (Cons x xs)
  have "sum_list (map (\<lambda>x. uint (ws x)) xs) < 65536"
    using Cons.prems order.strict_trans1[of "sum_list (map (\<lambda>x. uint (ws x)) xs)" "uint (ws x) + sum_list (map (\<lambda>x. uint (ws x)) xs)"]
    by simp
  then have eq: "uint (sum_list (map ws xs)) = sum_list (map (\<lambda>x. uint (ws x)) xs)" by (rule Cons.IH)
  then have "uint (ws x) + uint (sum_list (map ws xs)) < 2 ^ LENGTH(16)" using Cons.prems by simp
  then have "uint (ws x + sum_list (map ws xs)) = uint (ws x) + uint (sum_list (map ws xs))"
    by (subst uint_add_lem[symmetric]) simp
  then show ?case using eq by simp
qed simp

lemma routes_total:
  assumes "list_all (\<lambda>r. wr_to_account r \<noteq> '''') (rows (withdraw_routes db))"
  shows "sum_list (map (\<lambda>r. uint (wr_percent r)) (routes_of n db)) = t_sum (route_share n) (withdraw_routes db)"
proof -
  have "s > '''' \<longleftrightarrow> s \<noteq> ''''" for s :: string by (cases s) auto
  then have "filter (\<lambda>r. wr_from_account r = n \<and> wr_to_account r > '''') (rows (withdraw_routes db)) =
      filter (\<lambda>r. wr_from_account r = n) (rows (withdraw_routes db))"
    using assms by (intro filter_cong) (auto simp: list_all_iff)
  then show ?thesis
    by (simp add: routes_of_def sum_list_sort_key t_sum_def sum_list_map_filter' route_share_def[abs_def])
qed

lemma sum_list_member: "x \<in> set xs \<Longrightarrow> (\<And>y. 0 \<le> g y) \<Longrightarrow> g x \<le> sum_list (map g xs)" for g :: "'a \<Rightarrow> int"
proof (induction xs)
  case (Cons y ys)
  have "0 \<le> sum_list (map g ys)" using Cons.prems(2) by (intro sum_list_nonneg) auto
  then show ?case using Cons Cons.prems(2)[of y] by fastforce
qed simp

lemma route_percent_le:
  assumes "routes_inv db" "r \<in> set (rows (withdraw_routes db))"
  shows "uint (wr_percent r) \<le> 10000"
proof -
  have "route_share (wr_from_account r) r \<le> t_sum (route_share (wr_from_account r)) (withdraw_routes db)"
    unfolding t_sum_def by (rule sum_list_member[OF assms(2)]) (simp add: route_share_def)
  also have "\<dots> \<le> 10000" using assms(1) by (simp add: routes_inv_def)
  finally show ?thesis by (simp add: route_share_def)
qed

text \<open>The three ways the table changes: a route is added, dropped or replaced.\<close>

lemma route_sums:
  "t_create clash (\<lambda>_. r) t = Inr t' \<Longrightarrow> t_sum (route_share n) t' = t_sum (route_share n) t + route_share n r"
  "t_modify P (\<lambda>_. Inr r) t = Inr t' \<Longrightarrow> t_find P t = Some s \<Longrightarrow>
     t_sum (route_share n) t' = t_sum (route_share n) t - route_share n s + route_share n r"
  by (auto dest: t_create_dest t_modify_dest)

lemma route_rows:
  "t_create clash (\<lambda>_. r) t = Inr t' \<Longrightarrow> set (rows t') = insert r (set (rows t))"
  "t_modify P (\<lambda>_. Inr r) t = Inr t' \<Longrightarrow> set (rows t') \<subseteq> insert r (set (rows t))"
  "set (rows (t_remove P t)) \<subseteq> set (rows t)"
  using set_upd_first set_del_first by (fastforce simp: t_create_Inr t_modify_Inr t_remove_def)+

lemma set_route_form:
  assumes "set_withdraw_vesting_route_evaluator op db = Inr db'" "osr_to_account op \<noteq> ([] :: string)"
    and "routes_inv db" "uint (osr_percent op) \<le> 10000"
  shows "list_all (\<lambda>r. wr_to_account r \<noteq> []) (rows (withdraw_routes db')) \<and>
     (\<forall>n. t_sum (route_share n) (withdraw_routes db') \<le> (if n = osr_from_account op then 20000 else 10000)) \<and>
     sum_list (map wr_percent (routes_of (osr_from_account op) db')) \<le> 10000"
proof -
  let ?f = "osr_from_account op" and ?t = "osr_to_account op"
  let ?r = "\<lparr>wr_from_account = ?f, wr_to_account = ?t, wr_percent = osr_percent op, wr_auto_vest = osr_auto_vest op\<rparr>"
  let ?T = "withdraw_routes db" and ?T' = "withdraw_routes db'"
  have last: "sum_list (map wr_percent (routes_of ?f db')) \<le> 10000"
    using assms(1) by (auto simp: set_withdraw_vesting_route_evaluator_def Let_def split: option.splits if_splits)
  have old: "t_sum (route_share n) ?T \<le> 10000" "\<forall>r \<in> set (rows ?T). wr_to_account r \<noteq> []" for n
    using assms(3) by (auto simp: routes_inv_def list_all_iff)
  have new: "0 \<le> route_share n s" "route_share n ?r \<le> (if n = ?f then 10000 else 0)" for n s
    using assms(4) by (auto simp: route_share_def)
  consider (add) clash where "t_create clash (\<lambda>_. ?r) ?T = Inr ?T'"
    | (drop) s where "t_find (is_route ?f ?t) ?T = Some s" "?T' = t_remove (is_route ?f ?t) ?T"
    | (replace) s where "t_find (is_route ?f ?t) ?T = Some s" "t_modify (is_route ?f ?t) (\<lambda>_. Inr ?r) ?T = Inr ?T'"
    using assms(1)
    by (auto simp: set_withdraw_vesting_route_evaluator_def Let_def split: option.splits if_splits dest!: modify_account_frame)
  then have "(\<forall>r \<in> set (rows ?T'). wr_to_account r \<noteq> []) \<and>
     (\<forall>n. t_sum (route_share n) ?T' \<le> (if n = ?f then 20000 else 10000))"
  proof cases
    case add
    have "t_sum (route_share n) ?T' \<le> (if n = ?f then 20000 else 10000)" for n
      using route_sums(1)[OF add, of n] old(1)[of n] new(2)[of n] by (auto split: if_splits)
    then show ?thesis using route_rows(1)[OF add] old(2) assms(2) by auto
  next
    case drop
    have "t_sum (route_share n) ?T' \<le> (if n = ?f then 20000 else 10000)" for n
      using t_sum_remove[OF drop(1), of "route_share n"] drop(2) old(1)[of n] new(1)[of n s] by (auto split: if_splits)
    then show ?thesis using route_rows(3)[of "is_route ?f ?t" ?T] drop(2) old(2) by auto
  next
    case replace
    have "t_sum (route_share n) ?T' \<le> (if n = ?f then 20000 else 10000)" for n
      using route_sums(2)[OF replace(2,1), of n] old(1)[of n] new(1)[of n s] new(2)[of n] by (auto split: if_splits)
    then show ?thesis using route_rows(2)[OF replace(2)] old(2) assms(2) by auto
  qed
  then show ?thesis using last by (simp add: list_all_iff)
qed

text \<open>The counter of routes that an account carries, against the routes themselves.\<close>

definition route_count :: "account_name_type \<Rightarrow> database \<Rightarrow> int" where
  "route_count n db = t_sum (\<lambda>r. if wr_from_account r = n then 1 else 0) (withdraw_routes db)"

definition routes_counted :: "database \<Rightarrow> bool" where
  "routes_counted db \<longleftrightarrow> (\<forall>n a. find_account n db = Some a \<longrightarrow>
     uint (a_withdraw_routes a) = route_count n db \<and> route_count n db \<le> uint GAMEBANK_MAX_WITHDRAW_ROUTES)"

lemma route_count_nonneg: "0 \<le> route_count n db"
  unfolding route_count_def t_sum_def by (rule sum_list_nonneg) auto

lemma routes_recount:
  assumes "routes_counted db" "modify_account f (\<lambda>a. Inr (a\<lparr>a_withdraw_routes := c (a_withdraw_routes a)\<rparr>)) (db\<lparr>withdraw_routes := tb\<rparr>) = Inr db'"
    and "\<And>n. route_count n (db\<lparr>withdraw_routes := tb\<rparr>) = route_count n db + (if n = f then d else 0)"
    and "\<And>a. find_account f db = Some a \<Longrightarrow> uint (c (a_withdraw_routes a)) = uint (a_withdraw_routes a) + d \<and>
        uint (c (a_withdraw_routes a)) \<le> uint GAMEBANK_MAX_WITHDRAW_ROUTES"
  shows "routes_counted db'"
proof -
  let ?db = "db\<lparr>withdraw_routes := tb\<rparr>"
  obtain a a' where a: "find_account f ?db = Some a" and a': "Inr (a\<lparr>a_withdraw_routes := c (a_withdraw_routes a)\<rparr>) = Inr a'"
    using accts.update_found[OF assms(2)] by blast
  have fa: "find_account f db = Some a" using a by (simp add: find_account_def)
  have w: "withdraw_routes db' = tb" using modify_account_frame[OF assms(2)] by auto
  have cnt: "route_count n db' = route_count n db + (if n = f then d else 0)" for n
    using assms(3)[of n] w by (simp add: route_count_def)
  have k: "a_name a' = f" using accts.lookup_key[OF a] a' by auto
  have look: "find_account n db' = (if n = f then Some a' else find_account n db)" for n
    using accts.lookup_update[OF assms(2) a, of a' n] a' k by (simp add: find_account_def)
  show ?thesis using assms(1) assms(4)[OF fa] fa a'
    by (auto simp: routes_counted_def look cnt)
qed

lemma set_route_counted:
  assumes "set_withdraw_vesting_route_evaluator op db = Inr db'" "routes_counted db"
  shows "routes_counted db'"
proof -
  let ?f = "osr_from_account op" and ?t = "osr_to_account op" and ?T = "withdraw_routes db"
  let ?r = "\<lparr>wr_from_account = ?f, wr_to_account = ?t, wr_percent = osr_percent op, wr_auto_vest = osr_auto_vest op\<rparr>"
  let ?m = "\<lambda>c tb. modify_account ?f (\<lambda>a. Inr (a\<lparr>a_withdraw_routes := c (a_withdraw_routes a)\<rparr>)) (db\<lparr>withdraw_routes := tb\<rparr>) = Inr db'"
  obtain a where a: "find_account ?f db = Some a"
    using assms(1) by (auto simp: set_withdraw_vesting_route_evaluator_def Let_def)
  have cnt: "uint (a_withdraw_routes a) = route_count ?f db" "route_count ?f db \<le> uint GAMEBANK_MAX_WITHDRAW_ROUTES"
    using assms(2) a by (auto simp: routes_counted_def)
  consider (add) clash tb where "t_create clash (\<lambda>_. ?r) ?T = Inr tb" "a_withdraw_routes a < GAMEBANK_MAX_WITHDRAW_ROUTES" "?m (\<lambda>c. c + 1) tb"
    | (drop) s where "t_find (is_route ?f ?t) ?T = Some s" "?m (\<lambda>c. c - 1) (t_remove (is_route ?f ?t) ?T)"
    | (replace) s tb where "t_find (is_route ?f ?t) ?T = Some s" "t_modify (is_route ?f ?t) (\<lambda>_. Inr ?r) ?T = Inr tb" "db' = db\<lparr>withdraw_routes := tb\<rparr>"
    using assms(1) a
    by (auto simp: set_withdraw_vesting_route_evaluator_def Let_def split: option.splits if_splits)
  then show ?thesis
  proof cases
    case add
    have "uint (a_withdraw_routes a) < 10" using add(2) by (simp add: word_less_def GAMEBANK_MAX_WITHDRAW_ROUTES_def)
    then have "uint (a_withdraw_routes a + 1) = uint (a_withdraw_routes a) + 1" using uint_add_lem[of "a_withdraw_routes a" 1] by simp
    then show ?thesis
      by (intro routes_recount[OF assms(2) add(3), where d = 1])
        (use a add(1,2) in \<open>auto simp: route_count_def GAMEBANK_MAX_WITHDRAW_ROUTES_def word_less_def dest!: t_create_dest\<close>)
  next
    case drop
    have s: "wr_from_account s = ?f" "s \<in> set (rows ?T)" using t_find_Some[OF drop(1)] by (auto simp: is_route_def)
    have r: "route_count n (db\<lparr>withdraw_routes := t_remove (is_route ?f ?t) ?T\<rparr>) = route_count n db + (if n = ?f then - 1 else 0)" for n
      using t_sum_remove[OF drop(1), of "\<lambda>r. if wr_from_account r = n then 1 else 0"] s by (auto simp: route_count_def)
    have "0 < route_count ?f db"
      using r[of ?f] route_count_nonneg[of ?f "db\<lparr>withdraw_routes := t_remove (is_route ?f ?t) ?T\<rparr>"] by simp
    then have "uint (a_withdraw_routes a - 1) = uint (a_withdraw_routes a) - 1"
      using cnt uint_sub_lem[of 1 "a_withdraw_routes a"] by simp
    then show ?thesis using cnt a by (intro routes_recount[OF assms(2) drop(2) r]) auto
  next
    case replace
    have "route_count n db' = route_count n db" for n
      using t_sum_modify[OF replace(2,1), of ?r "\<lambda>r. if wr_from_account r = n then 1 else 0"] t_find_Some[OF replace(1)] replace(3)
      by (auto simp: route_count_def is_route_def)
    then show ?thesis using assms(2) replace(3) by (simp add: routes_counted_def find_account_def)
  qed
qed

text \<open>
  C24. The withdrawal routes of an account never add up to more than 100 percent, in exact arithmetic,
  although the code adds the percentages in 16 bits, and the account's route counter is the number of
  its routes, at most ten: a valid \<^verbatim>\<open>set_withdraw_vesting_route\<close> operation, whether it adds, replaces
  or removes a route, leads from such states to such states.
\<close>

theorem withdraw_routes_bounded:
  assumes "routes_inv db" "routes_counted db" "set_withdraw_vesting_route_validate op = Inr ()"
    and "set_withdraw_vesting_route_evaluator op db = Inr db'"
  shows "routes_inv db' \<and> routes_counted db'"
proof -
  have v: "osr_to_account op \<noteq> ([] :: string)" "uint (osr_percent op) \<le> 10000"
    using assms(3) by (auto simp: set_withdraw_vesting_route_validate_def validate_account_name_def
        is_valid_account_name_def word_le_def split: if_splits)
  let ?f = "osr_from_account op"
  note form = set_route_form[OF assms(4) v(1) assms(1) v(2)]
  have tot: "sum_list (map (\<lambda>r. uint (wr_percent r)) (routes_of ?f db')) = t_sum (route_share ?f) (withdraw_routes db')"
    using form routes_total by blast
  moreover have "uint (sum_list (map wr_percent (routes_of ?f db'))) = sum_list (map (\<lambda>r. uint (wr_percent r)) (routes_of ?f db'))"
    using form tot by (intro uint_sum_list) (auto split: if_splits dest: spec[of _ ?f])
  ultimately have "t_sum (route_share ?f) (withdraw_routes db') \<le> 10000"
    using form by (simp add: word_le_def)
  then have "routes_inv db'" using form by (metis routes_inv_def)
  then show ?thesis using set_route_counted[OF assms(4,2)] by simp
qed

definition example_route :: set_withdraw_vesting_route_operation where
  "example_route = \<lparr>osr_from_account = ''initminer'', osr_to_account = ''temp'', osr_percent = 6000, osr_auto_vest = True\<rparr>"

theorem withdraw_routes_bounded_witness:
  "routes_inv vested_db \<and> routes_counted vested_db \<and>
   (\<exists>db'. set_withdraw_vesting_route_evaluator example_route vested_db = Inr db' \<and> routes_inv db' \<and> routes_counted db')"
proof -
  have inv: "routes_inv vested_db"
    by (simp add: routes_inv_def vested_db_def concrete t_sum_def)
  have cnt: "routes_counted vested_db"
    by (auto simp: routes_counted_def route_count_def vested_db_def concrete t_sum_def split: if_splits)
  have v: "set_withdraw_vesting_route_validate example_route = Inr ()"
    by (simp add: set_withdraw_vesting_route_validate_def example_route_def validate_account_name_def valid_names fc_assert_def must_def)
  have "returns (set_withdraw_vesting_route_evaluator example_route vested_db)"
    by (simp add: set_withdraw_vesting_route_evaluator_def example_route_def vested_db_def concrete is_route_def
        routes_of_def GAMEBANK_MAX_WITHDRAW_ROUTES_def)
  then obtain db' where db': "set_withdraw_vesting_route_evaluator example_route vested_db = Inr db'" by (auto simp: returns_iff)
  then show ?thesis using inv cnt withdraw_routes_bounded[OF inv cnt v db'] by blast
qed

section \<open>A withdrawal conserves shares and tokens\<close>

text \<open>
  What the accounts look like during a withdrawal: the shares are shares, not negative, and at least a
  floor \<open>g\<close> that may depend on the account (the amount being withdrawn); account names are unique.
\<close>

definition power_ok :: "(account_name_type \<Rightarrow> int) \<Rightarrow> account_object \<Rightarrow> bool" where
  "power_ok g a \<longleftrightarrow> symbol (a_vesting_shares a) = GBS_SYMBOL \<and> 0 \<le> amount (a_vesting_shares a) \<and>
     g (a_name a) \<le> amount (a_vesting_shares a) \<and>
     amount (a_vesting_shares a) \<le> int64_max \<and> 0 \<le> a_to_withdraw a \<and> 0 \<le> amount (a_vesting_withdraw_rate a)"

definition power_inv :: "(account_name_type \<Rightarrow> int) \<Rightarrow> database \<Rightarrow> bool" where
  "power_inv g db \<longleftrightarrow> symbol (total_vesting_shares (dgpo db)) = GBS_SYMBOL \<and>
     list_all (power_ok g) (rows (accounts db)) \<and> distinct (map a_name (rows (accounts db)))"

lemma route_deposit_exact:
  assumes "0 \<le> w" "w \<le> int64_max" "uint (wr_percent r) \<le> 10000"
  shows "route_deposit w r = w * uint (wr_percent r) div 10000" "0 \<le> route_deposit w r"
proof -
  have q: "uint (uint128 w * uint128 (uint (wr_percent r)) div uint128 10000) = w * uint (wr_percent r) div 10000"
    using assms by (intro quotient_result) (auto simp: int64_max_def)
  have "(ucast (wr_percent r) :: 128 word) = uint128 (uint (wr_percent r))" by simp
  moreover have "w * uint (wr_percent r) div 10000 \<le> int64_max"
  proof -
    have "w * uint (wr_percent r) \<le> int64_max * 10000" using assms by (intro mult_mono) auto
    then have "w * uint (wr_percent r) div 10000 \<le> int64_max * 10000 div 10000" by (rule zdiv_mono1) simp
    then show ?thesis by simp
  qed
  ultimately show eq: "route_deposit w r = w * uint (wr_percent r) div 10000"
    using q by (simp add: route_deposit_def narrow_int64_eq int64_max_def)
  show "0 \<le> route_deposit w r" unfolding eq using assms by (simp add: pos_imp_zdiv_nonneg_iff)
qed

lemma modify_account_row:
  assumes "modify_account n f db = Inr db'"
  obtains a a' where "find_account n db = Some a" "f a = Inr a'" "a \<in> set (rows (accounts db))" "a_name a = n"
    "set (rows (accounts db')) \<subseteq> insert a' (set (rows (accounts db)))"
    "a_name a' = n \<Longrightarrow> map a_name (rows (accounts db')) = map a_name (rows (accounts db))"
    "dgpo db' = dgpo db" "withdraw_routes db' = withdraw_routes db"
proof -
  obtain a a' where a: "find_account n db = Some a" "f a = Inr a'"
    and db': "db' = db\<lparr>accounts := (accounts db)\<lparr>rows := upd_first (\<lambda>a. a_name a = n) a' (rows (accounts db))\<rparr>\<rparr>"
    using assms by (fastforce simp: modify_account_def t_modify_Inr find_account_def)
  have "a_name a' = n \<Longrightarrow> map a_name (upd_first (\<lambda>a. a_name a = n) a' vs) = map a_name vs" for vs
    by (induction vs) auto
  then show ?thesis using that[OF a] t_find_Some[OF a(1)[unfolded find_account_def]] set_upd_first[of "\<lambda>a. a_name a = n" a'] by (simp add: db')
qed

lemma modify_account_all:
  assumes "modify_account n f db = Inr db'" "list_all Q (rows (accounts db))"
    and "\<And>a a'. Q a \<Longrightarrow> f a = Inr a' \<Longrightarrow> Q a' \<and> a_name a' = a_name a"
  shows "list_all Q (rows (accounts db')) \<and> map a_name (rows (accounts db')) = map a_name (rows (accounts db)) \<and>
    dgpo db' = dgpo db \<and> withdraw_routes db' = withdraw_routes db"
  by (rule modify_account_row[OF assms(1)]) (use assms(2,3) in \<open>auto simp: list_all_iff\<close>)

lemma adjust_witness_votes_frame:
  assumes "adjust_witness_votes n d db = Inr db'"
  shows "accounts db' = accounts db \<and> dgpo db' = dgpo db \<and> withdraw_routes db' = withdraw_routes db"
  by (rule foldE_invariant[OF _ _ assms[unfolded adjust_witness_votes_def],
        where I = "\<lambda>s. accounts s = accounts db \<and> dgpo s = dgpo db \<and> withdraw_routes s = withdraw_routes db"])
    (auto simp: adjust_witness_vote_def modify_witness_def)

lemma adjust_proxied_invariant:
  assumes "adjust_proxied_witness_votes n d k db = Inr db'" "I db"
    and votes: "\<And>m e s s'. I s \<Longrightarrow> adjust_witness_votes m e s = Inr s' \<Longrightarrow> I s'"
    and proxied: "\<And>m f s s'. I s \<Longrightarrow> modify_account m f s = Inr s' \<Longrightarrow>
      (\<And>a a'. f a = Inr a' \<Longrightarrow> \<exists>v. a' = a\<lparr>a_proxied_vsf_votes := v\<rparr>) \<Longrightarrow> I s'"
  shows "I db'"
  using assms(1,2)
proof (induction n d k db rule: adjust_proxied_witness_votes.induct)
  case (1 n d k db)
  from "1.prems" obtain a where a: "find_account n db = Some a"
    by (subst (asm) adjust_proxied_witness_votes.simps) auto
  show ?case
  proof (cases "a_proxy a = '''' \<or> k \<ge> GAMEBANK_MAX_PROXY_RECURSION_DEPTH")
    case True
    then show ?thesis using "1.prems" a
      by (subst (asm) adjust_proxied_witness_votes.simps) (auto dest: votes split: if_splits)
  next
    case False
    then obtain db1 where m: "modify_account (a_proxy a) (\<lambda>p. bindE (safe_add (a_proxied_vsf_votes p ! k) d) (\<lambda>v.
         Inr (p\<lparr>a_proxied_vsf_votes := (a_proxied_vsf_votes p)[k := v]\<rparr>))) db = Inr db1"
      and rest: "adjust_proxied_witness_votes (a_proxy a) d (k + 1) db1 = Inr db'"
      using "1.prems"(1) a by (subst (asm) adjust_proxied_witness_votes.simps) auto
    have "I db1" by (rule proxied[OF "1.prems"(2) m]) auto
    then show ?thesis using "1.IH"[of a db1] a False rest by auto
  qed
qed

lemma adjust_proxied_all:
  assumes "adjust_proxied_witness_votes n d k db = Inr db'" "list_all Q (rows (accounts db))"
    and Q: "\<And>a v. Q a \<Longrightarrow> Q (a\<lparr>a_proxied_vsf_votes := v\<rparr>)"
  shows "list_all Q (rows (accounts db')) \<and> map a_name (rows (accounts db')) = map a_name (rows (accounts db)) \<and>
    dgpo db' = dgpo db \<and> withdraw_routes db' = withdraw_routes db"
proof (rule adjust_proxied_invariant[OF assms(1), where I = "\<lambda>s. list_all Q (rows (accounts s)) \<and>
      map a_name (rows (accounts s)) = map a_name (rows (accounts db)) \<and> dgpo s = dgpo db \<and> withdraw_routes s = withdraw_routes db"],
    goal_cases)
  case (3 m f s s')
  have "Q a' \<and> a_name a' = a_name a" if "Q a" "f a = Inr a'" for a a' using 3(3)[OF that(2)] Q[OF that(1)] by auto
  from modify_account_all[OF 3(2) conjunct1[OF 3(1)] this] show ?case using 3(1) by simp
next
  case (2 m e s s')
  then show ?case using adjust_witness_votes_frame[OF 2(2)] by simp
qed (use assms(2) in simp)

definition vests :: "ledger \<Rightarrow> int \<Rightarrow> int" where
  "vests l x = (if l = Vesting then x else 0)"

lemma vests_simps [simp]: "vests l 0 = 0" "vests l (x + y) = vests l x + vests l y" "vests l (x - y) = vests l x - vests l y"
  by (simp_all add: vests_def)

lemma part_amount: "symbol x = GBS_SYMBOL \<Longrightarrow> part l (x\<lparr>amount := v\<rparr>) = vests l v" "symbol x = GBS_SYMBOL \<Longrightarrow> part l x = vests l (amount x)"
  by (auto simp: vests_def part_def of_symbol_def)

lemma power_inv_find: "power_inv g db \<Longrightarrow> find_account n db = Some a \<Longrightarrow> power_ok g a"
  using t_find_Some[of "\<lambda>a. a_name a = n" "accounts db" a] by (auto simp: power_inv_def list_all_iff find_account_def)

lemma power_ok_proxied [simp]: "power_ok g (a\<lparr>a_proxied_vsf_votes := v\<rparr>) = power_ok g a"
  by (simp add: power_ok_def)

lemma adjust_proxied_power:
  assumes "adjust_proxied_witness_votes n d k db = Inr db'" "power_inv g db"
  shows "power_inv g db' \<and> withdraw_routes db' = withdraw_routes db \<and> dgpo db' = dgpo db"
  using adjust_proxied_all[OF assms(1), of "power_ok g"] assms(2) by (auto simp: power_inv_def)

lemma modify_account_power:
  assumes "modify_account n f db = Inr db'" "power_inv g db" "\<And>a a'. power_ok g a \<Longrightarrow> f a = Inr a' \<Longrightarrow> power_ok g a' \<and> a_name a' = a_name a"
  shows "power_inv g db' \<and> withdraw_routes db' = withdraw_routes db \<and> dgpo db' = dgpo db"
  using modify_account_all[OF assms(1), of "power_ok g", OF _ assms(3)] assms(2) by (simp add: power_inv_def)

text \<open>One deposit to a route, in shares or in tokens, and the loops over the routes.\<close>

lemma deposit_vests_step:
  assumes "deposit_vests w r (db, x) = Inr (db', x')" "power_inv g db" "0 \<le> route_deposit w r"
  shows "power_inv g db' \<and> withdraw_routes db' = withdraw_routes db \<and> (\<forall>l. gap l db' + vests l x' = gap l db + vests l x)"
proof (cases "wr_auto_vest r \<and> route_deposit w r > 0")
  case True
  then obtain db1 where m: "modify_account (wr_to_account r) (\<lambda>a.
        bindE (safe_add (amount (a_vesting_shares a)) (route_deposit w r)) (\<lambda>v.
          Inr (a\<lparr>a_vesting_shares := (a_vesting_shares a)\<lparr>amount := v\<rparr>\<rparr>))) db = Inr db1"
    and p: "adjust_proxied_witness_votes (wr_to_account r) (route_deposit w r) 0 db1 = Inr db'"
    and x: "x' = x + route_deposit w r"
    using assms(1) by (auto simp: deposit_vests_def Let_def dest: safe_add_value)
  have pw: "power_inv g db1 \<and> withdraw_routes db1 = withdraw_routes db \<and> dgpo db1 = dgpo db"
    by (rule modify_account_power[OF m assms(2)])
      (use assms(3) in \<open>auto simp: power_ok_def safe_add_def in_int64_def split: if_splits\<close>)
  obtain a where "find_account (wr_to_account r) db = Some a" using accts.update_found[OF m] by blast
  with power_inv_find[OF assms(2) this] modify_account_delta[OF m]
  have "\<forall>l. gap l db1 = gap l db - vests l (route_deposit w r)"
    by (auto simp: power_ok_def part_amount dest!: safe_add_value)
  then show ?thesis using adjust_proxied_power[OF p] adjust_proxied_witness_votes_gap[OF p] pw x by auto
qed (use assms in \<open>auto simp: deposit_vests_def Let_def dest!: safe_add_value split: if_splits\<close>)

lemma leave_vesting_gap:
  assumes "leave_vesting c x db = Inr db'" "symbol (total_vesting_shares (dgpo db)) = GBS_SYMBOL"
  shows "(\<forall>l. gap l db' = gap l db + part l c - vests l x) \<and> accounts db' = accounts db \<and>
    withdraw_routes db' = withdraw_routes db \<and> symbol (total_vesting_shares (dgpo db')) = GBS_SYMBOL"
  using assms by (auto simp: leave_vesting_def part_amount dest!: asset_dest)

lemma deposit_gbc_step:
  assumes "deposit_gbc w r (db, x, t) = Inr (db', x', t')" "power_inv g db" "0 \<le> route_deposit w r"
  shows "power_inv g db' \<and> withdraw_routes db' = withdraw_routes db \<and> (\<forall>l. gap l db' + vests l x' = gap l db + vests l x)"
proof (cases "\<not> wr_auto_vest r \<and> route_deposit w r > 0")
  case True
  then obtain c db1 where m: "modify_account (wr_to_account r) (\<lambda>a.
        bindE (asset_add (a_balance a) c) (\<lambda>b. Inr (a\<lparr>a_balance := b\<rparr>))) db = Inr db1"
    and v: "leave_vesting c (route_deposit w r) db1 = Inr db'" and x: "x' = x + route_deposit w r"
    using assms(1) by (auto simp: deposit_gbc_def Let_def dest: safe_add_value)
  have pw: "power_inv g db1 \<and> withdraw_routes db1 = withdraw_routes db \<and> dgpo db1 = dgpo db"
    by (rule modify_account_power[OF m assms(2)]) (auto simp: power_ok_def)
  then have sy: "symbol (total_vesting_shares (dgpo db1)) = GBS_SYMBOL" using assms(2) by (simp add: power_inv_def)
  have "\<forall>l. gap l db1 = gap l db - part l c" using modify_account_delta[OF m] by (auto dest!: asset_dest)
  then show ?thesis using leave_vesting_gap[OF v sy] pw x by (auto simp: power_inv_def)
qed (use assms in \<open>auto simp: deposit_gbc_def Let_def dest!: safe_add_value split: if_splits\<close>)

lemma deposit_loops:
  assumes "power_inv g db" "\<And>r. r \<in> set rs \<Longrightarrow> 0 \<le> route_deposit w r"
  shows "foldE (deposit_vests w) rs (db, x) = Inr (db1, x1) \<Longrightarrow>
      power_inv g db1 \<and> withdraw_routes db1 = withdraw_routes db \<and> (\<forall>l. gap l db1 + vests l x1 = gap l db + vests l x)"
    and "foldE (deposit_gbc w) rs (db, y, t) = Inr (db2, y2, t2) \<Longrightarrow>
      power_inv g db2 \<and> withdraw_routes db2 = withdraw_routes db \<and> (\<forall>l. gap l db2 + vests l y2 = gap l db + vests l y)"
proof -
  let ?I = "\<lambda>s x'. power_inv g s \<and> withdraw_routes s = withdraw_routes db \<and> (\<forall>l. gap l s + vests l x' = gap l db + vests l x)"
  assume h: "foldE (deposit_vests w) rs (db, x) = Inr (db1, x1)"
  have "case (db1, x1) of (s, x') \<Rightarrow> ?I s x'"
  proof (rule foldE_invariant[OF _ _ h])
    fix r and s s' :: "database \<times> share_type"
    assume "r \<in> set rs" "case s of (s, x') \<Rightarrow> ?I s x'" "deposit_vests w r s = Inr s'"
    then show "case s' of (s, x') \<Rightarrow> ?I s x'"
      using deposit_vests_step[of w r "fst s" "snd s" "fst s'" "snd s'"] assms(2)[of r] by (cases s; cases s') auto
  qed (use assms(1) in simp)
  then show "?I db1 x1" by simp
next
  let ?I = "\<lambda>s y'. power_inv g s \<and> withdraw_routes s = withdraw_routes db \<and> (\<forall>l. gap l s + vests l y' = gap l db + vests l y)"
  assume h: "foldE (deposit_gbc w) rs (db, y, t) = Inr (db2, y2, t2)"
  have "case (db2, y2, t2) of (s, y', t') \<Rightarrow> ?I s y'"
  proof (rule foldE_invariant[OF _ _ h])
    fix r and s s' :: "database \<times> share_type \<times> asset"
    assume "r \<in> set rs" "case s of (s, y', t') \<Rightarrow> ?I s y'" "deposit_gbc w r s = Inr s'"
    then show "case s' of (s, y', t') \<Rightarrow> ?I s y'"
      using deposit_gbc_step[of w r "fst s" "fst (snd s)" "snd (snd s)" "fst s'" "fst (snd s')" "snd (snd s')"] assms(2)[of r]
      by (cases s; cases s') auto
  qed (use assms(1) in simp)
  then show "?I db2 y2" by simp
qed

lemma withdrawal_amount_bounds:
  assumes "withdrawal_amount a = Inr w" "power_ok g a"
  shows "0 \<le> w" "w \<le> amount (a_vesting_shares a)" "w \<le> int64_max"
proof -
  have m: "0 \<le> x smod y" if "0 \<le> x" "0 < y" for x y :: int
    using that by (cases "x = 0") (simp_all add: signed_modulo_int_def)
  show "0 \<le> w" using assms m[of "a_to_withdraw a" "amount (a_vesting_withdraw_rate a)"]
    by (auto simp: withdrawal_amount_def power_ok_def safe_mod_def split: if_splits)
  show "w \<le> amount (a_vesting_shares a)"
    using assms(1) by (auto simp: withdrawal_amount_def split: if_splits)
  then show "w \<le> int64_max" using assms(2) by (simp add: power_ok_def)
qed

lemma withdraw_from_form:
  assumes "withdraw_from n db = Inr db'"
  obtains a w db1 x db2 y t c db3 db4 where "find_account n db = Some a" "withdrawal_amount a = Inr w"
    "foldE (deposit_vests w) (routes_of n db) (db, 0) = Inr (db1, x)"
    "foldE (deposit_gbc w) (routes_of n db) (db1, 0, GBC 0) = Inr (db2, y, t)"
    "modify_account n (settle_withdrawal w c) db2 = Inr db3" "leave_vesting c (w - y - x) db3 = Inr db4"
    "if w > 0 then adjust_proxied_witness_votes n (- w) 0 db4 = Inr db' else db' = db4"
proof -
  obtain a w where a: "find_account n db = Some a" "withdrawal_amount a = Inr w"
    using assms by (auto simp: withdraw_from_def)
  obtain db1 x where l1: "foldE (deposit_vests w) (routes_of n db) (db, 0) = Inr (db1, x)"
    using assms a by (auto simp: withdraw_from_def)
  obtain db2 y t where l2: "foldE (deposit_gbc w) (routes_of n db) (db1, 0, GBC 0) = Inr (db2, y, t)"
    using assms a l1 by (auto simp: withdraw_from_def)
  have "\<exists>c db3 db4. modify_account n (settle_withdrawal w c) db2 = Inr db3 \<and> leave_vesting c (w - y - x) db3 = Inr db4 \<and>
    (if w > 0 then adjust_proxied_witness_votes n (- w) 0 db4 = Inr db' else db' = db4)"
    using assms a l1 l2 by (auto simp: withdraw_from_def split: if_splits dest!: safe_sub_value safe_neg_value)
  then show ?thesis using that a l1 l2 by blast
qed

lemma settle_withdrawal_form:
  assumes "settle_withdrawal w c b = Inr b'"
  shows "\<exists>v bal wd rt nx. safe_sub (amount (a_vesting_shares b)) w = Inr v \<and>
    b' = b\<lparr>a_vesting_shares := (a_vesting_shares b)\<lparr>amount := v\<rparr>, a_balance := bal, a_withdrawn := wd,
           a_vesting_withdraw_rate := rt, a_next_vesting_withdrawal := nx\<rparr> \<and>
    (rt = (a_vesting_withdraw_rate b)\<lparr>amount := 0\<rparr> \<and> nx = time_maximum \<or>
     rt = a_vesting_withdraw_rate b \<and> nx = plus_secs (a_next_vesting_withdrawal b) GAMEBANK_VESTING_WITHDRAW_INTERVAL_SECONDS)"
proof -
  obtain v where v: "safe_sub (amount (a_vesting_shares b)) w = Inr v" using assms by (auto simp: settle_withdrawal_def)
  obtain bal wd where f: "(if wd \<ge> a_to_withdraw b \<or> v = 0
      then Inr (b\<lparr>a_vesting_shares := (a_vesting_shares b)\<lparr>amount := v\<rparr>, a_balance := bal, a_withdrawn := wd,
             a_vesting_withdraw_rate := (a_vesting_withdraw_rate b)\<lparr>amount := 0\<rparr>, a_next_vesting_withdrawal := time_maximum\<rparr>)
      else Inr (b\<lparr>a_vesting_shares := (a_vesting_shares b)\<lparr>amount := v\<rparr>, a_balance := bal, a_withdrawn := wd,
             a_next_vesting_withdrawal := plus_secs (a_next_vesting_withdrawal b) GAMEBANK_VESTING_WITHDRAW_INTERVAL_SECONDS\<rparr>))
      = (Inr b' :: account_object result)"
    using assms unfolding settle_withdrawal_def Let_def v by auto
  show ?thesis
    by (rule exI[of _ v], rule exI[of _ bal], rule exI[of _ wd], rule exI[of _ "a_vesting_withdraw_rate b'"],
        rule exI[of _ "a_next_vesting_withdrawal b'"]) (use f v in \<open>auto split: if_splits\<close>)
qed

lemma settle_withdrawal_power:
  assumes "settle_withdrawal w c b = Inr b'" "power_ok g b" "w \<le> g (a_name b)" "0 \<le> w"
  shows "power_ok (\<lambda>_. 0) b' \<and> a_name b' = a_name b"
proof -
  have "0 \<le> v \<and> v \<le> int64_max" if "safe_sub (amount (a_vesting_shares b)) w = Inr v" for v
    using safe_sub_value[OF that] assms(2-4) by (simp add: power_ok_def)
  then show ?thesis using settle_withdrawal_form[OF assms(1)] assms(2) by (auto simp: power_ok_def)
qed

lemma withdraw_from_keeps:
  assumes "withdraw_from n db = Inr db'" "power_inv (\<lambda>_. 0) db" "routes_inv db"
  shows "power_inv (\<lambda>_. 0) db' \<and> withdraw_routes db' = withdraw_routes db \<and> (\<forall>l. gap l db' = gap l db)"
proof -
  obtain a w db1 x db2 y t c db3 db4 where a: "find_account n db = Some a" "withdrawal_amount a = Inr w"
    and l1: "foldE (deposit_vests w) (routes_of n db) (db, 0) = Inr (db1, x)"
    and l2: "foldE (deposit_gbc w) (routes_of n db) (db1, 0, GBC 0) = Inr (db2, y, t)"
    and m: "modify_account n (settle_withdrawal w c) db2 = Inr db3" and lv: "leave_vesting c (w - y - x) db3 = Inr db4"
    and p: "if w > 0 then adjust_proxied_witness_votes n (- w) 0 db4 = Inr db' else db' = db4"
    by (rule withdraw_from_form[OF assms(1)])
  let ?g = "\<lambda>m. if m = n then w else 0"
  note wb = withdrawal_amount_bounds[OF a(2) power_inv_find[OF assms(2) a(1)]]
  have d: "0 \<le> route_deposit w r" if "r \<in> set (routes_of n db)" for r
    using route_deposit_exact(2)[OF wb(1,3)] route_percent_le[OF assms(3), of r] that by (auto simp: routes_of_def)
  have s0: "power_inv ?g db"
  proof -
    have "b = a" if "b \<in> set (rows (accounts db))" "a_name b = n" for b
      using that a(1) assms(2) t_find_Some[of "\<lambda>a. a_name a = n" "accounts db" a]
      by (auto simp: power_inv_def find_account_def distinct_map inj_on_def)
    then show ?thesis using assms(2) wb(2) by (auto simp: power_inv_def power_ok_def list_all_iff)
  qed
  have s1: "power_inv ?g db1 \<and> withdraw_routes db1 = withdraw_routes db \<and> (\<forall>l. gap l db1 + vests l x = gap l db)"
    using deposit_loops(1)[OF s0 d l1] by simp
  have s2: "power_inv ?g db2 \<and> withdraw_routes db2 = withdraw_routes db \<and> (\<forall>l. gap l db2 + vests l y = gap l db1)"
    using deposit_loops(2)[OF _ d l2] s1 by auto
  obtain b b' where b: "find_account n db2 = Some b" and b': "settle_withdrawal w c b = Inr b'"
    and m': "set (rows (accounts db3)) \<subseteq> insert b' (set (rows (accounts db2)))"
      "a_name b' = n \<Longrightarrow> map a_name (rows (accounts db3)) = map a_name (rows (accounts db2))" "a_name b = n"
      "dgpo db3 = dgpo db2" "withdraw_routes db3 = withdraw_routes db2"
    using modify_account_row[OF m] by metis
  note pb = power_inv_find[OF s2[THEN conjunct1] b]
  have "power_ok (\<lambda>_. 0) b' \<and> a_name b' = n"
    using settle_withdrawal_power[OF b' pb _ wb(1)] m'(3) by simp
  moreover have "power_ok (\<lambda>_. 0) e" if "e \<in> set (rows (accounts db2))" for e
    using s2 that by (auto simp: power_inv_def power_ok_def list_all_iff)
  ultimately have s3: "power_inv (\<lambda>_. 0) db3 \<and> withdraw_routes db3 = withdraw_routes db2 \<and> dgpo db3 = dgpo db2"
    using s2 m' by (auto simp: power_inv_def list_all_iff)
  have g3: "\<forall>l. gap l db3 = gap l db2 + vests l w - part l c"
    using modify_account_delta[OF m] power_inv_find[OF _ b, of ?g] s2 b
    by (auto simp: settle_withdrawal_def power_ok_def part_amount Let_def split: if_splits dest!: asset_dest)
  have sy: "symbol (total_vesting_shares (dgpo db3)) = GBS_SYMBOL" using s3[THEN conjunct1] by (simp add: power_inv_def)
  have s4: "power_inv (\<lambda>_. 0) db4 \<and> withdraw_routes db4 = withdraw_routes db3 \<and>
      (\<forall>l. gap l db4 = gap l db3 + part l c - vests l (w - y - x))"
    using leave_vesting_gap[OF lv sy] s3 by (auto simp: power_inv_def)
  have s5: "power_inv (\<lambda>_. 0) db' \<and> withdraw_routes db' = withdraw_routes db4 \<and> (\<forall>l. gap l db' = gap l db4)"
    using p s4 adjust_proxied_power[of n "- w" 0 db4 db'] adjust_proxied_witness_votes_gap[of n "- w" 0 db4 db']
    by (auto split: if_splits)
  have "gap l db' = gap l db" for l
    using s1[THEN conjunct2, THEN conjunct2, rule_format, of l] s2[THEN conjunct2, THEN conjunct2, rule_format, of l]
      s4[THEN conjunct2, THEN conjunct2, rule_format, of l] s5[THEN conjunct2, THEN conjunct2, rule_format, of l]
      g3[rule_format, of l] by simp
  then show ?thesis using s1 s2 s3 s4 s5 by simp
qed

text \<open>What every withdrawal keeps, the loop keeps.\<close>

lemma withdraw_rounds_invariant:
  assumes "withdraw_rounds n current db = Inr db'" "I db" "\<And>m d d'. I d \<Longrightarrow> withdraw_from m d = Inr d' \<Longrightarrow> I d'"
  shows "I db'"
  using assms(1,2)
proof (induction n arbitrary: current db)
  case (Suc n)
  then show ?case by (auto split: option.splits if_splits dest: assms(3))
qed simp

text \<open>
  C6. \<^verbatim>\<open>process_vesting_withdrawals\<close> neither creates nor destroys anything: in a state where shares are
  shares, none is negative and no route table exceeds 100 percent, the weekly payouts of all due
  accounts, over any mixture of routes that pay out tokens and routes that keep shares, leave every
  recorded supply as far from the sum of its holdings as it was, and keep the invariant.
\<close>

theorem vesting_withdrawals_conserve:
  assumes "power_inv (\<lambda>_. 0) db" "routes_inv db" "process_vesting_withdrawals db = Inr db'"
  shows "gap l db' = gap l db \<and> power_inv (\<lambda>_. 0) db' \<and> routes_inv db'"
proof -
  have "power_inv (\<lambda>_. 0) db' \<and> routes_inv db' \<and> (\<forall>l. gap l db' = gap l db)"
  proof (rule withdraw_rounds_invariant[OF assms(3)[unfolded process_vesting_withdrawals_def]])
    fix m d d'
    assume i: "power_inv (\<lambda>_. 0) d \<and> routes_inv d \<and> (\<forall>l. gap l d = gap l db)" and w: "withdraw_from m d = Inr d'"
    have k: "power_inv (\<lambda>_. 0) d' \<and> withdraw_routes d' = withdraw_routes d \<and> (\<forall>l. gap l d' = gap l d)"
      by (rule withdraw_from_keeps[OF w]) (use i in auto)
    then show "power_inv (\<lambda>_. 0) d' \<and> routes_inv d' \<and> (\<forall>l. gap l d' = gap l db)" using i by (simp add: routes_inv_def)
  qed (use assms(1,2) in simp)
  then show ?thesis by simp
qed

definition power_down_db :: database where
  "power_down_db = (genesis_state 0)\<lparr>accounts := \<lparr>next_id = 2, rows =
     [(new_account 0)\<lparr>a_name := ''initminer'', a_vesting_shares := GBS 50000, a_vesting_withdraw_rate := GBS 1000,
        a_to_withdraw := 13000, a_next_vesting_withdrawal := 0\<rparr>,
      (new_account 1)\<lparr>a_name := ''temp''\<rparr>]\<rparr>\<rparr>\<lparr>dgpo := new_dgpo\<lparr>total_vesting_shares := GBS 1000000, total_vesting_fund_gbc := GBC 1000, dgp_time := 5\<rparr>\<rparr>"

lemma adjust_proxied_direct:
  "find_account n db = Some a \<Longrightarrow> a_proxy a = '''' \<Longrightarrow>
   adjust_proxied_witness_votes n d k db = adjust_witness_votes n d db"
  by (subst adjust_proxied_witness_votes.simps) (simp add: get_account_def t_get_def find_account_def)

lemma power_down_run:
  "\<exists>db'. process_vesting_withdrawals power_down_db = Inr db' \<and>
     map (\<lambda>a. amount (a_vesting_shares a)) (rows (accounts db')) = [49000, 0]"
proof -
  have p: "asset_times_price (GBS 1000) \<lparr>base = GBS 1000000, quote = GBC 1000\<rparr> = Inr (GBC 1)"
    using asset_times_price_base[of "GBS 1000" "\<lparr>base = GBS 1000000, quote = GBC 1000\<rparr>"]
    by (simp add: price_validate_def int64_max_def int64_of_quotient_def)
  show ?thesis
    by (rule returningD, simp add: returning_def process_vesting_withdrawals_def power_down_db_def concrete visits_def first_name_def
        withdrawal_index_def successor_def withdrawal_key_def withdraw_from_def withdrawal_amount_def routes_of_def shares_to_gbc_def get_vesting_share_price_def mk_price_def
        price_validate_def p settle_withdrawal_def leave_vesting_def modify_dgpo_def adjust_proxied_direct
        adjust_witness_votes_def votes_of_def GAMEBANK_VESTING_WITHDRAW_INTERVAL_SECONDS_def cong: eager)
qed

theorem vesting_withdrawals_conserve_witness:
  "\<exists>db'. process_vesting_withdrawals power_down_db = Inr db' \<and> gap Vesting db' = gap Vesting power_down_db \<and>
     map (\<lambda>a. amount (a_vesting_shares a)) (rows (accounts db')) = [49000, 0]"
proof -
  have inv: "power_inv (\<lambda>_. 0) power_down_db" "routes_inv power_down_db"
    by (simp_all add: power_inv_def power_ok_def routes_inv_def power_down_db_def concrete t_sum_def)
  obtain db' where db': "process_vesting_withdrawals power_down_db = Inr db'"
    and e: "map (\<lambda>a. amount (a_vesting_shares a)) (rows (accounts db')) = [49000, 0]"
    using power_down_run by (elim exE conjE)
  show ?thesis
    by (intro exI conjI, rule db', rule vesting_withdrawals_conserve[OF inv db', THEN conjunct1], rule e)
qed

section \<open>Every withdrawal that is due is paid\<close>

text \<open>
  The dates of the accounts, as the keys of the index \<^verbatim>\<open>by_next_vesting_withdrawal\<close>. A withdrawal changes
  the date of its own account only, to one week later or, when it is complete, to the end of time.
\<close>

definition dates :: "database \<Rightarrow> (time_point_sec \<times> account_name_type) list" where
  "dates db = map withdrawal_key (rows (accounts db))"

definition same_dates :: "database \<Rightarrow> database \<Rightarrow> bool" where
  "same_dates db db' \<longleftrightarrow> dates db' = dates db \<and> head_block_time db' = head_block_time db"

lemma map_upd_first: "List.find P vs = Some v \<Longrightarrow> h v' = h v \<Longrightarrow> map h (upd_first P v' vs) = map h vs"
  by (induction vs) (auto split: if_splits)

lemma modify_account_dates:
  assumes "modify_account n f db = Inr db'" "\<And>a a'. f a = Inr a' \<Longrightarrow> withdrawal_key a' = withdrawal_key a"
  shows "same_dates db db'"
  using assms by (auto simp: modify_account_def t_modify_Inr t_find_def same_dates_def dates_def map_upd_first)

lemma adjust_proxied_dates: "adjust_proxied_witness_votes n d k db = Inr db' \<Longrightarrow> same_dates db db'"
proof (rule adjust_proxied_invariant[where I = "same_dates db"], assumption, goal_cases)
  case (3 m f s s')
  have "same_dates s s'" by (rule modify_account_dates[OF 3(3)]) (use 3(4) in \<open>force simp: withdrawal_key_def\<close>)
  then show ?case using 3(2) by (simp add: same_dates_def)
qed (auto simp: same_dates_def dates_def dest: adjust_witness_votes_frame)

lemma leave_vesting_dates: "leave_vesting c x db = Inr db' \<Longrightarrow> same_dates db db'"
  by (auto simp: leave_vesting_def same_dates_def dates_def)

lemma same_dates_refl [simp]: "same_dates db db"
  by (simp add: same_dates_def)

lemma deposit_dates:
  "deposit_vests w r s = Inr s' \<Longrightarrow> same_dates (fst s) (fst s')"
  "deposit_gbc w r t = Inr t' \<Longrightarrow> same_dates (fst t) (fst t')"
proof -
  assume h: "deposit_vests w r s = Inr s'"
  have both: "same_dates db db'" if m: "modify_account n f db = Inr db1" and p: "adjust_proxied_witness_votes n d 0 db1 = Inr db'"
    and f: "\<And>a a'. f a = Inr a' \<Longrightarrow> withdrawal_key a' = withdrawal_key a" for n f d db db1 db'
    using modify_account_dates[OF m f] adjust_proxied_dates[OF p] by (simp add: same_dates_def)
  show "same_dates (fst s) (fst s')" using h
    by (auto simp: deposit_vests_def Let_def withdrawal_key_def split: if_splits prod.splits elim!: both)
next
  assume h: "deposit_gbc w r t = Inr t'"
  have both: "same_dates db db'" if m: "modify_account n f db = Inr db1" and p: "leave_vesting c x db1 = Inr db'"
    and f: "\<And>a a'. f a = Inr a' \<Longrightarrow> withdrawal_key a' = withdrawal_key a" for n f c x db db1 db'
    using modify_account_dates[OF m f] leave_vesting_dates[OF p] by (simp add: same_dates_def)
  show "same_dates (fst t) (fst t')" using h
    by (auto simp: deposit_gbc_def Let_def withdrawal_key_def split: if_splits prod.splits elim!: both)
qed

lemma map_upd_first_key:
  assumes "List.find (\<lambda>a. name a = n) vs = Some v" "name v' = n" "distinct (map name vs)" "h v' = h' v'"
  shows "map h (upd_first (\<lambda>a. name a = n) v' vs) = map (\<lambda>a. if name a = n then h' v' else h a) vs"
  using assms(1,3)
proof (induction vs)
  case (Cons u vs)
  then show ?case using assms(2,4) by (cases "name u = n") (auto simp: image_iff intro!: map_cong)
qed simp

lemma settle_withdrawal_date:
  "settle_withdrawal w c b = Inr b' \<Longrightarrow> a_name b' = a_name b \<and>
   a_next_vesting_withdrawal b' \<in> {time_maximum, plus_secs (a_next_vesting_withdrawal b) GAMEBANK_VESTING_WITHDRAW_INTERVAL_SECONDS}"
  by (auto dest!: settle_withdrawal_form)

text \<open>The dates after one withdrawal.\<close>

definition redate :: "account_name_type \<Rightarrow> time_point_sec \<Rightarrow> (time_point_sec \<times> account_name_type) list \<Rightarrow> (time_point_sec \<times> account_name_type) list" where
  "redate n t ks = map (\<lambda>k. if snd k = n then (t, n) else k) ks"

lemma withdraw_from_dates:
  assumes "withdraw_from n db = Inr db'" "distinct (map snd (dates db))" "(x, n) \<in> set (dates db)"
  shows "head_block_time db' = head_block_time db \<and>
    (\<exists>t \<in> {time_maximum, plus_secs x GAMEBANK_VESTING_WITHDRAW_INTERVAL_SECONDS}. dates db' = redate n t (dates db))"
proof -
  obtain a w db1 y db2 z t c db3 db4 where
    l1: "foldE (deposit_vests w) (routes_of n db) (db, 0) = Inr (db1, y)"
    and l2: "foldE (deposit_gbc w) (routes_of n db) (db1, 0, GBC 0) = Inr (db2, z, t)"
    and m: "modify_account n (settle_withdrawal w c) db2 = Inr db3" and lv: "leave_vesting c (w - z - y) db3 = Inr db4"
    and p: "if w > 0 then adjust_proxied_witness_votes n (- w) 0 db4 = Inr db' else db' = db4"
    by (rule withdraw_from_form[OF assms(1)])
  have "same_dates db (fst (db1, y))"
    by (rule foldE_invariant[OF _ _ l1, where I = "\<lambda>s. same_dates db (fst s)"]) (auto simp: same_dates_def dest: deposit_dates(1))
  moreover have "same_dates db1 (fst (db2, z, t))"
    by (rule foldE_invariant[OF _ _ l2, where I = "\<lambda>s. same_dates db1 (fst s)"]) (auto simp: same_dates_def dest: deposit_dates(2))
  ultimately have s2: "dates db2 = dates db" "head_block_time db2 = head_block_time db" by (simp_all add: same_dates_def)
  obtain b b' where b: "t_find (\<lambda>a. a_name a = n) (accounts db2) = Some b" "settle_withdrawal w c b = Inr b'"
    and db3: "db3 = db2\<lparr>accounts := (accounts db2)\<lparr>rows := upd_first (\<lambda>a. a_name a = n) b' (rows (accounts db2))\<rparr>\<rparr>"
    using m by (auto simp: modify_account_def t_modify_Inr)
  have bn: "a_name b = n" "b \<in> set (rows (accounts db2))" using t_find_Some[OF b(1)] by auto
  have nm: "map a_name (rows (accounts db2)) = map snd (dates db2)" by (simp add: dates_def withdrawal_key_def)
  have "(a_next_vesting_withdrawal b, n) \<in> set (dates db2)"
    using bn by (auto simp: dates_def withdrawal_key_def)
  then have x: "a_next_vesting_withdrawal b = x"
    using assms(2,3) s2(1) by (fastforce simp: distinct_map inj_on_def)
  let ?t = "a_next_vesting_withdrawal b'"
  have "dates db3 = map (\<lambda>a. if a_name a = n then (?t, n) else withdrawal_key a) (rows (accounts db2))"
    unfolding dates_def db3 using map_upd_first_key[of a_name n "rows (accounts db2)" b b' withdrawal_key "\<lambda>_. (?t, n)"]
      b(1)[unfolded t_find_def] settle_withdrawal_date[OF b(2)] bn assms(2) nm s2(1)
    by (simp add: withdrawal_key_def)
  also have "\<dots> = redate n ?t (dates db2)"
    by (auto simp: redate_def dates_def withdrawal_key_def)
  finally have d3: "dates db3 = redate n ?t (dates db)" using s2 by simp
  have "same_dates db3 db4" by (rule leave_vesting_dates[OF lv])
  moreover have "same_dates db4 db'" using p adjust_proxied_dates by (auto split: if_splits)
  ultimately show ?thesis using d3 s2 settle_withdrawal_date[OF b(2)] x by (auto simp: same_dates_def db3)
qed

text \<open>The iterator's successor holds the next key of the index.\<close>

definition next_key :: "account_name_type option \<Rightarrow> (time_point_sec \<times> account_name_type) list \<Rightarrow> time_point_sec \<times> account_name_type \<Rightarrow> bool" where
  "next_key current ks k \<longleftrightarrow> (\<exists>m y. current = Some m \<and> (y, m) \<in> set ks \<and> (y, m) \<le> k)"

lemma first_key:
  assumes "current = first_name (filter P (withdrawal_index db))"
    and "b \<in> set (rows (accounts db))" "P b"
  shows "\<exists>a. current = Some (a_name a) \<and> a \<in> set (rows (accounts db)) \<and> P a \<and> withdrawal_key a \<le> withdrawal_key b"
proof -
  let ?F = "filter P (withdrawal_index db)"
  have s: "sorted (map withdrawal_key ?F)" unfolding withdrawal_index_def by (rule sorted_filter) simp
  have e: "set ?F = {b \<in> set (rows (accounts db)). P b}" by (auto simp: withdrawal_index_def)
  show ?thesis
  proof (cases ?F)
    case Nil
    then show ?thesis using e assms(2,3) by auto
  next
    case (Cons a as)
    then have "b \<in> set (a # as)" "a \<in> {b \<in> set (rows (accounts db)). P b}" using e assms(2,3) by auto
    then show ?thesis using s assms(1) unfolding Cons by (auto simp: first_name_def)
  qed
qed

text \<open>The rounds that are left: one per due account and week.\<close>

definition weeks_due :: "time_point_sec \<Rightarrow> time_point_sec \<Rightarrow> nat" where
  "weeks_due now t = (if t \<le> now then Suc ((unat now - unat t) div 604800) else 0)"

lemma visits_weeks: "visits now a = weeks_due now (fst (withdrawal_key a))"
  by (simp add: visits_def weeks_due_def withdrawal_key_def unat_sub)

lemma week_later: "unat now + 604800 < 2 ^ 32 \<Longrightarrow> t \<le> now \<Longrightarrow> unat (plus_secs t 604800) = unat t + 604800"
  for now t :: time_point_sec
  using unat_add_lem[of t 604800] by (simp add: word_le_nat_alt)

lemma weeks_due_less:
  assumes "unat now + 604800 < 2 ^ 32" "x \<le> now" "t \<in> {time_maximum, plus_secs x GAMEBANK_VESTING_WITHDRAW_INTERVAL_SECONDS}"
  shows "weeks_due now t < weeks_due now x" "x < t"
proof -
  have w: "unat (plus_secs x 604800) = unat x + 604800" by (rule week_later[OF assms(1,2)])
  have m: "unat (time_maximum :: time_point_sec) = 4294967295" by simp
  have e: "(unat now - (unat x + 604800)) div 604800 < (unat now - unat x) div 604800" if "unat x + 604800 \<le> unat now"
  proof -
    have "unat now - unat x = (unat now - (unat x + 604800)) + 604800" using that by simp
    moreover have "(y + 604800) div 604800 = Suc (y div 604800)" for y :: nat by simp
    ultimately show ?thesis by (metis lessI)
  qed
  have c: "unat t = 4294967295 \<or> unat t = unat x + 604800"
    using assms(3) w m by (auto simp: GAMEBANK_VESTING_WITHDRAW_INTERVAL_SECONDS_def)
  have x: "unat x \<le> unat now" using assms(2) by (simp add: word_le_nat_alt)
  show "weeks_due now t < weeks_due now x" using c
  proof
    assume "unat t = 4294967295"
    then show ?thesis using assms(1) x by (simp add: weeks_due_def word_le_nat_alt)
  next
    assume t: "unat t = unat x + 604800"
    then show ?thesis using e x by (simp add: weeks_due_def word_le_nat_alt)
  qed
  show "x < t" using c assms(1) x by (auto simp: word_less_nat_alt)
qed

definition rounds_left :: "time_point_sec \<Rightarrow> (time_point_sec \<times> account_name_type) list \<Rightarrow> nat" where
  "rounds_left now ks = sum_list (map (\<lambda>k. weeks_due now (fst k)) ks)"

lemma rounds_left_redate:
  assumes "distinct (map snd ks)" "(x, n) \<in> set ks" "weeks_due now t < weeks_due now x"
  shows "rounds_left now (redate n t ks) < rounds_left now ks"
  using assms(1,2)
proof (induction ks)
  case (Cons k ks)
  show ?case
  proof (cases "snd k = n")
    case True
    then have "k = (x, n)" using Cons.prems by (cases k) (force simp: image_iff)
    moreover have "redate n t ks = ks" using Cons.prems(1) True 
      unfolding redate_def by (intro map_idI) (auto simp: image_iff)
    ultimately show ?thesis using assms(3) by (simp add: rounds_left_def redate_def)
  next
    case False
    then show ?thesis using Cons by (auto simp: rounds_left_def redate_def)
  qed
qed simp

lemma date_of: "(x, m) \<in> set (dates db) \<longleftrightarrow> (\<exists>a \<in> set (rows (accounts db)). a_name a = m \<and> a_next_vesting_withdrawal a = x)"
  by (auto simp: dates_def withdrawal_key_def)

lemma dates_found:
  assumes "distinct (map snd (dates db))" "(x, m) \<in> set (dates db)"
  shows "\<exists>a. find_account m db = Some a \<and> a_next_vesting_withdrawal a = x \<and> withdrawal_key a = (x, m)"
proof -
  obtain a where a: "a \<in> set (rows (accounts db))" "a_name a = m" "a_next_vesting_withdrawal a = x" using assms(2) by (auto simp: date_of)
  have "find_account m db \<noteq> None" using a by (auto simp: find_account_def t_find_def find_None_iff)
  then obtain b where b: "find_account m db = Some b" by blast
  then have "b \<in> set (rows (accounts db))" "a_name b = m" using t_find_Some[of _ "accounts db" b] by (auto simp: find_account_def)
  moreover have "distinct (map a_name (rows (accounts db)))" using assms(1) by (simp add: dates_def withdrawal_key_def comp_def)
  ultimately have "b = a" using a by (auto simp: distinct_map inj_on_def)
  then show ?thesis using b a by (auto simp: withdrawal_key_def)
qed

lemma redate_names [simp]: "map snd (redate n t ks) = map snd ks"
  by (auto simp: redate_def)

text \<open>
  The state of the loop relative to the dates \<open>ks0\<close> at its start: every account has kept its date or
  was due and has a later one, and the iterator has not passed an account that is due and not yet paid.
\<close>

definition swept :: "time_point_sec \<Rightarrow> (time_point_sec \<times> account_name_type) list \<Rightarrow> account_name_type option \<Rightarrow>
    (time_point_sec \<times> account_name_type) list \<Rightarrow> bool" where
  "swept now ks0 current ks \<longleftrightarrow> distinct (map snd ks) \<and> (\<forall>m. current = Some m \<longrightarrow> m \<in> snd ` set ks) \<and>
     (\<forall>k \<in> set ks0. (\<exists>t. (t, snd k) \<in> set ks \<and> (t = fst k \<or> fst k < t \<and> fst k \<le> now)) \<and>
        (k \<in> set ks \<longrightarrow> fst k \<le> now \<longrightarrow> next_key current ks k))"

lemma swept_unique: "distinct (map snd ks) \<Longrightarrow> (x, m) \<in> set ks \<Longrightarrow> (y, m) \<in> set ks \<Longrightarrow> x = y"
  by (fastforce simp: distinct_map inj_on_def)

lemma swept_step:
  assumes "swept now ks0 (Some m) ks" "(y, m) \<in> set ks" "y \<le> now" "y < t"
    and "\<And>k. k \<in> set ks \<Longrightarrow> (y, m) < k \<Longrightarrow> \<exists>k' \<in> set ks. nxt = Some (snd k') \<and> (y, m) < k' \<and> k' \<le> k"
    and "nxt = None \<or> (\<exists>k \<in> set ks. nxt = Some (snd k))"
  shows "swept now ks0 nxt (redate m t ks)"
proof -
  have d: "distinct (map snd ks)" using assms(1) by (simp add: swept_def)
  have set': "set (redate m t ks) = insert (t, m) {k \<in> set ks. snd k \<noteq> m}" using assms(2) by (force simp: redate_def)
  have names: "snd ` set (redate m t ks) = snd ` set ks" using redate_names[of m t ks] by (metis set_map)
  have "(\<exists>u. (u, n) \<in> set (redate m t ks) \<and> (u = x \<or> x < u \<and> x \<le> now)) \<and>
      ((x, n) \<in> set (redate m t ks) \<longrightarrow> x \<le> now \<longrightarrow> next_key nxt (redate m t ks) (x, n))" if k: "(x, n) \<in> set ks0" for x n
  proof -
    obtain u where u: "(u, n) \<in> set ks" "u = x \<or> x < u \<and> x \<le> now"
      and nk: "(x, n) \<in> set ks \<Longrightarrow> x \<le> now \<Longrightarrow> next_key (Some m) ks (x, n)"
      using assms(1) k unfolding swept_def by force
    show ?thesis
    proof (cases "n = m")
      case True
      then have "u = y" using swept_unique[OF d] u(1) assms(2) by blast
      then have "x < t \<and> x \<le> now" using u(2) assms(3,4) by auto
      then show ?thesis using True by (auto simp: set')
    next
      case False
      have "next_key nxt (redate m t ks) (x, n)" if x: "(x, n) \<in> set ks" "x \<le> now"
      proof -
        have "(y, m) \<le> (x, n)" using nk[OF x] swept_unique[OF d assms(2)] unfolding next_key_def by blast
        then have "(y, m) < (x, n)" using False by (auto simp: order.strict_iff_order)
        from assms(5)[OF x(1) this] obtain k' where k': "k' \<in> set ks" "nxt = Some (snd k')" "(y, m) < k'" "k' \<le> (x, n)" by blast
        then have "snd k' \<noteq> m" using swept_unique[OF d assms(2), of "fst k'"] by (cases k') auto
        then show ?thesis using k' unfolding next_key_def set' by (intro exI[of _ "snd k'"] exI[of _ "fst k'"]) auto
      qed
      then show ?thesis using False u by (auto simp: set')
    qed
  qed
  then show ?thesis using d assms(6) names unfolding swept_def by auto
qed

lemma visit_step:
  assumes "withdraw_from m db = Inr db1" "find_account m db = Some a" "a_next_vesting_withdrawal a \<le> head_block_time db"
    and "swept (head_block_time db) ks0 (Some m) (dates db)" "unat (head_block_time db) + 604800 < 2 ^ 32"
  shows "head_block_time db1 = head_block_time db \<and> swept (head_block_time db) ks0 (successor a db) (dates db1) \<and>
    rounds_left (head_block_time db) (dates db1) < rounds_left (head_block_time db) (dates db)"
proof -
  let ?x = "a_next_vesting_withdrawal a" and ?now = "head_block_time db"
  have d: "distinct (map snd (dates db))" using assms(4) by (simp add: swept_def)
  have am: "a_name a = m" "a \<in> set (rows (accounts db))" using assms(2) t_find_Some[of _ "accounts db" a] by (auto simp: find_account_def)
  then have xm: "(?x, m) \<in> set (dates db)" by (auto simp: date_of)
  obtain t where h: "head_block_time db1 = ?now" and d1: "dates db1 = redate m t (dates db)"
    and t: "t \<in> {time_maximum, plus_secs ?x GAMEBANK_VESTING_WITHDRAW_INTERVAL_SECONDS}"
    using withdraw_from_dates[OF assms(1) d xm] by blast
  note w = weeks_due_less[OF assms(5,3) t]
  have key: "withdrawal_key a = (?x, m)" by (simp add: withdrawal_key_def am)
  have "swept ?now ks0 (successor a db) (redate m t (dates db))"
  proof (rule swept_step[OF assms(4) xm assms(3) w(2)])
    fix k assume k: "k \<in> set (dates db)" "(?x, m) < k"
    then obtain b where b: "b \<in> set (rows (accounts db))" "k = withdrawal_key b" by (auto simp: dates_def)
    have "withdrawal_key a < withdrawal_key b" using b k(2) key by simp
    then obtain c where c: "successor a db = Some (a_name c)" "c \<in> set (rows (accounts db))" "withdrawal_key a < withdrawal_key c"
        "withdrawal_key c \<le> withdrawal_key b"
      using first_key[OF successor_def b(1)] by blast
    have "successor a db = Some (snd (withdrawal_key c))" "withdrawal_key c \<in> set (dates db)"
      using c(1,2) by (simp_all add: dates_def) (simp add: withdrawal_key_def)
    then show "\<exists>k' \<in> set (dates db). successor a db = Some (snd k') \<and> (?x, m) < k' \<and> k' \<le> k"
      using c(3,4) b(2) key by auto
  next
    show "successor a db = None \<or> (\<exists>k \<in> set (dates db). successor a db = Some (snd k))"
    proof (cases "filter (\<lambda>b. withdrawal_key a < withdrawal_key b) (withdrawal_index db)")
      case (Cons b bs)
      then have "b \<in> set (filter (\<lambda>b. withdrawal_key a < withdrawal_key b) (withdrawal_index db))" by simp
      then have "b \<in> set (rows (accounts db))" by (simp add: withdrawal_index_def)
      then have "withdrawal_key b \<in> set (dates db)" by (simp add: dates_def)
      then show ?thesis using Cons by (auto simp: successor_def first_name_def withdrawal_key_def intro!: bexI[of _ "withdrawal_key b"])
    qed (simp add: successor_def first_name_def)
  qed
  then show ?thesis using rounds_left_redate[OF d xm w(1)] h d1 by simp
qed

lemma not_due_left: "rounds_left now ks = 0 \<Longrightarrow> (x, m) \<in> set ks \<Longrightarrow> \<not> x \<le> now"
  by (induction ks) (auto simp: rounds_left_def weeks_due_def split: if_splits)

lemma swept_found:
  assumes "swept now ks0 (Some m) (dates db)"
  shows "\<exists>a. find_account m db = Some a \<and> (a_next_vesting_withdrawal a, m) \<in> set (dates db)"
proof -
  obtain x where "(x, m) \<in> set (dates db)" using assms by (auto simp: swept_def)
  then show ?thesis using dates_found[of db x m] assms by (auto simp: swept_def)
qed

text \<open>The rounds suffice: more of them change nothing.\<close>

lemma withdraw_rounds_enough:
  assumes "swept (head_block_time db) ks0 current (dates db)" "rounds_left (head_block_time db) (dates db) \<le> n"
    and "unat (head_block_time db) + 604800 < 2 ^ 32"
  shows "withdraw_rounds (n + k) current db = withdraw_rounds n current db"
  using assms
proof (induction n arbitrary: current db)
  case 0
  show ?case
  proof (cases "\<exists>m j. current = Some m \<and> k = Suc j")
    case True
    then obtain m j where m: "current = Some m" "k = Suc j" by blast
    then obtain a where a: "find_account m db = Some a" "(a_next_vesting_withdrawal a, m) \<in> set (dates db)"
      using swept_found[of _ ks0 m db] 0 by auto
    then have "\<not> a_next_vesting_withdrawal a \<le> head_block_time db" using not_due_left 0 by simp
    then show ?thesis using m a(1) by (simp add: get_account_def find_account_def t_get_def)
  next
    case False
    then show ?thesis by (cases k; cases current) auto
  qed
next
  case (Suc n)
  show ?case
  proof (cases current)
    case (Some m)
    then obtain a where a: "find_account m db = Some a" using swept_found[of _ ks0 m db] Suc.prems by auto
    then have g: "get_account m db = Inr a" by simp
    have "withdraw_rounds (n + k) (successor a db) db1 = withdraw_rounds n (successor a db) db1"
      if "withdraw_from m db = Inr db1" "a_next_vesting_withdrawal a \<le> head_block_time db" for db1
    proof -
      note v = visit_step[OF that(1) a that(2) Suc.prems(1)[unfolded Some] Suc.prems(3)]
      show ?thesis using v Suc.prems(2,3) by (intro Suc.IH) auto
    qed
    then show ?thesis using Some g by (cases "withdraw_from m db") (simp_all del: get_account_Inr)
  qed simp
qed

lemma withdraw_rounds_swept:
  assumes "withdraw_rounds n current db = Inr db'" "swept (head_block_time db) ks0 current (dates db)"
    and "rounds_left (head_block_time db) (dates db) \<le> n" "unat (head_block_time db) + 604800 < 2 ^ 32"
  shows "\<exists>c. swept (head_block_time db) ks0 c (dates db') \<and> head_block_time db' = head_block_time db \<and>
    (\<forall>m x. c = Some m \<longrightarrow> (x, m) \<in> set (dates db') \<longrightarrow> \<not> x \<le> head_block_time db)"
  using assms
proof (induction n arbitrary: current db)
  case 0
  then show ?case using not_due_left by (intro exI[of _ current]) auto
next
  case (Suc n)
  show ?case
  proof (cases current)
    case None
    then show ?thesis using Suc.prems by (intro exI[of _ None]) auto
  next
    case (Some m)
    then obtain a where a: "find_account m db = Some a" "(a_next_vesting_withdrawal a, m) \<in> set (dates db)"
      using swept_found[of _ ks0 m db] Suc.prems by auto
    then have g: "get_account m db = Inr a" by simp
    show ?thesis
    proof (cases "a_next_vesting_withdrawal a \<le> head_block_time db")
      case True
      then obtain db1 where s: "withdraw_from m db = Inr db1" "withdraw_rounds n (successor a db) db1 = Inr db'"
        using Suc.prems(1) Some g by auto
      note v = visit_step[OF s(1) a(1) True Suc.prems(2)[unfolded Some] Suc.prems(4)]
      have "rounds_left (head_block_time db1) (dates db1) \<le> n" using v Suc.prems(3) by simp
      then show ?thesis using Suc.IH[OF s(2)] v Suc.prems(4) by auto
    next
      case False
      then have "db' = db" using Suc.prems(1) Some g by simp
      moreover have "x = a_next_vesting_withdrawal a" if "(x, m) \<in> set (dates db)" for x
        using swept_unique[OF _ that a(2)] Suc.prems(2) by (simp add: swept_def)
      ultimately show ?thesis using Suc.prems(2) Some False by (intro exI[of _ current]) auto
    qed
  qed
qed

text \<open>
  C23. \<^verbatim>\<open>process_vesting_withdrawals\<close> terminates: the number of weeks that accounts are overdue bounds its
  rounds, so that more rounds would change nothing. When it returns, every account that was due at the
  start has been paid, for its date has moved on, and an account that was not due has kept its date. (An
  account that is more than a week overdue may still be due afterwards; the iterator has then passed
  it, and the next block pays it again.) The clock must be a week short of its wrap-around.
\<close>

theorem vesting_withdrawals_complete:
  assumes "distinct (map a_name (rows (accounts db)))" "unat (head_block_time db) + 604800 < 2 ^ 32"
  shows "(\<forall>k. withdraw_rounds (sum_list (map (visits (head_block_time db)) (rows (accounts db))) + k) (first_name (withdrawal_index db)) db =
            process_vesting_withdrawals db) \<and>
    (\<forall>db'. process_vesting_withdrawals db = Inr db' \<longrightarrow> (\<forall>a \<in> set (rows (accounts db)). \<exists>a' \<in> set (rows (accounts db')). a_name a' = a_name a \<and>
        (if a_next_vesting_withdrawal a \<le> head_block_time db then a_next_vesting_withdrawal a < a_next_vesting_withdrawal a'
         else a_next_vesting_withdrawal a' = a_next_vesting_withdrawal a)))"
proof -
  let ?now = "head_block_time db" and ?c = "first_name (withdrawal_index db)"
  let ?n = "sum_list (map (visits ?now) (rows (accounts db)))"
  have n: "map snd (dates db) = map a_name (rows (accounts db))" by (simp add: dates_def withdrawal_key_def)
  have v: "?n = rounds_left ?now (dates db)" by (simp add: rounds_left_def dates_def visits_weeks[abs_def] comp_def)
  have c: "next_key ?c (dates db) (withdrawal_key b)" if b: "b \<in> set (rows (accounts db))" for b
  proof -
    have "?c = first_name (filter (\<lambda>_. True) (withdrawal_index db))" by simp
    from first_key[OF this b] obtain a where "?c = Some (a_name a)" "a \<in> set (rows (accounts db))" "withdrawal_key a \<le> withdrawal_key b" by blast
    then show ?thesis unfolding next_key_def date_of by (intro exI[of _ "a_name a"] exI[of _ "a_next_vesting_withdrawal a"]) (auto simp: withdrawal_key_def)
  qed
  have "m \<in> snd ` set (dates db)" if m: "?c = Some m" for m
  proof -
    obtain a as where as: "withdrawal_index db = a # as" "m = a_name a" using m by (cases "withdrawal_index db") (auto simp: first_name_def)
    then have "a \<in> set (withdrawal_index db)" by simp
    then show ?thesis using as(2) by (force simp: withdrawal_index_def dates_def withdrawal_key_def)
  qed
  moreover have "next_key ?c (dates db) k" if "k \<in> set (dates db)" for k
    using c that unfolding dates_def by auto
  moreover have "\<exists>t. (t, snd k) \<in> set (dates db) \<and> (t = fst k \<or> fst k < t \<and> fst k \<le> ?now)" if "k \<in> set (dates db)" for k
    using that by (intro exI[of _ "fst k"]) simp
  ultimately have s: "swept ?now (dates db) ?c (dates db)"
    using assms(1) unfolding swept_def n by blast
  have "withdraw_rounds (?n + k) ?c db = process_vesting_withdrawals db" for k
    unfolding process_vesting_withdrawals_def by (rule withdraw_rounds_enough[OF s _ assms(2)]) (simp add: v)
  moreover have "\<exists>a' \<in> set (rows (accounts db')). a_name a' = a_name a \<and>
      (if a_next_vesting_withdrawal a \<le> ?now then a_next_vesting_withdrawal a < a_next_vesting_withdrawal a'
       else a_next_vesting_withdrawal a' = a_next_vesting_withdrawal a)"
    if r: "process_vesting_withdrawals db = Inr db'" and a: "a \<in> set (rows (accounts db))" for db' a
  proof -
    let ?x = "a_next_vesting_withdrawal a" and ?m = "a_name a"
    obtain e where e: "swept ?now (dates db) e (dates db')" "\<forall>m x. e = Some m \<longrightarrow> (x, m) \<in> set (dates db') \<longrightarrow> \<not> x \<le> ?now"
      using withdraw_rounds_swept[OF r[unfolded process_vesting_withdrawals_def] s _ assms(2)] v by auto
    have "(?x, ?m) \<in> set (dates db)" using a by (auto simp: date_of)
    then obtain t where t: "(t, ?m) \<in> set (dates db')" "t = ?x \<or> ?x < t \<and> ?x \<le> ?now"
      and nk: "(?x, ?m) \<in> set (dates db') \<Longrightarrow> ?x \<le> ?now \<Longrightarrow> next_key e (dates db') (?x, ?m)"
      using e(1) unfolding swept_def by force
    have "t \<noteq> ?x" if due: "?x \<le> ?now"
    proof
      assume "t = ?x"
      then obtain m y where "e = Some m" "(y, m) \<in> set (dates db')" "(y, m) \<le> (?x, ?m)" using nk t(1) due by (auto simp: next_key_def)
      then show False using e(2) due by (auto simp: less_eq_prod_def)
    qed
    then show ?thesis using t by (auto simp: date_of)
  qed
  ultimately show ?thesis by blast
qed

theorem vesting_withdrawals_complete_witness:
  "\<exists>db'. process_vesting_withdrawals power_down_db = Inr db' \<and>
     (\<exists>a' \<in> set (rows (accounts db')). a_name a' = ''initminer'' \<and> 0 < a_next_vesting_withdrawal a')"
proof -
  obtain db' where db': "process_vesting_withdrawals power_down_db = Inr db'" using power_down_run by (elim exE conjE)
  have h: "distinct (map a_name (rows (accounts power_down_db)))" "unat (head_block_time power_down_db) + 604800 < 2 ^ 32"
    by (simp_all add: power_down_db_def)
  from vesting_withdrawals_complete[OF h, THEN conjunct2, rule_format, OF db', of "rows (accounts power_down_db) ! 0"] db'
  show ?thesis by (intro exI[of _ db'] conjI) (simp_all add: power_down_db_def)
qed

end
