(* ===== verification/Market.thy ===== *)
theory Market
  imports Withdrawal
begin

text \<open>
  The internal market between the token and the dollar: the order book (the index \<^verbatim>\<open>by_price\<close> of
  \<^verbatim>\<open>limit_order_index\<close>), matching (\<^verbatim>\<open>apply_order\<close>, \<^verbatim>\<open>match\<close>, \<^verbatim>\<open>fill_order\<close>, \<^verbatim>\<open>cancel_order\<close>,
  \<^verbatim>\<open>clear_expired_orders\<close> of database.cpp) and the three evaluators of gamebank_evaluator.cpp. The
  theorems: trading conserves every ledger, a trade never gives an order less than its limit price
  beyond the rounding of one unit, and the book is never crossed.
\<close>

section \<open>The book\<close>

fun insort_by :: "('a \<Rightarrow> 'a \<Rightarrow> bool) \<Rightarrow> 'a \<Rightarrow> 'a list \<Rightarrow> 'a list" where
  "insort_by lt x [] = [x]"
| "insort_by lt x (y # ys) = (if lt y x then y # insort_by lt x ys else x # y # ys)"

definition sort_by :: "('a \<Rightarrow> 'a \<Rightarrow> bool) \<Rightarrow> 'a list \<Rightarrow> 'a list" where
  "sort_by lt xs = foldr (insort_by lt) xs []"

text \<open>\<^verbatim>\<open>composite_key_compare< std::greater< price >, std::less< limit_order_id_type > >\<close>.\<close>

definition by_price :: "limit_order_object \<Rightarrow> limit_order_object \<Rightarrow> bool" where
  "by_price a b \<longleftrightarrow> price_less (lo_sell_price b) (lo_sell_price a) \<or>
     \<not> price_less (lo_sell_price a) (lo_sell_price b) \<and> lo_id a < lo_id b"

definition order_book :: "database \<Rightarrow> limit_order_object list" where
  "order_book db = sort_by by_price (rows (limit_orders db))"

definition is_order :: "nat \<Rightarrow> limit_order_object \<Rightarrow> bool" where
  "is_order i ord \<longleftrightarrow> lo_id ord = i"

definition find_order :: "nat \<Rightarrow> database \<Rightarrow> limit_order_object option" where
  "find_order i db = t_find (is_order i) (limit_orders db)"

definition order_of :: "nat \<Rightarrow> database \<Rightarrow> limit_order_object result" where
  "order_of i db = t_get (is_order i) (limit_orders db)"

definition get_limit_order :: "account_name_type \<Rightarrow> 32 word \<Rightarrow> database \<Rightarrow> limit_order_object result" where
  "get_limit_order n orderid db = t_get (\<lambda>ord. lo_seller ord = n \<and> lo_orderid ord = orderid) (limit_orders db)"

definition order_clash :: "limit_order_object \<Rightarrow> limit_order_object \<Rightarrow> bool" where
  "order_clash a b \<longleftrightarrow> lo_seller a = lo_seller b \<and> lo_orderid a = lo_orderid b"

section \<open>Filling and cancelling\<close>

text \<open>
  An order is passed around by reference in the source; here by its id, and each function reads the
  object it works on. A reference to a removed object would be \<open>out_of_range\<close>.
\<close>

definition cancel_order :: "nat \<Rightarrow> database \<Rightarrow> database result" where
  "cancel_order i db =
     bindE (order_of i db) (\<lambda>order.
     bindE (adjust_balance (lo_seller order) (amount_for_sale order) db) (\<lambda>db1.
       Inr (db1\<lparr>limit_orders := t_remove (is_order i) (limit_orders db1)\<rparr>)))"

definition fill_order :: "nat \<Rightarrow> asset \<Rightarrow> asset \<Rightarrow> database \<Rightarrow> (bool \<times> database) result" where
  "fill_order i pays receives db =
     bindE (order_of i db) (\<lambda>order.
     throw_unless (symbol (amount_for_sale order) = symbol pays) order_fill_exception
     (throw_unless (symbol pays \<noteq> symbol receives) order_fill_exception
     (bindE (adjust_balance (lo_seller order) receives db) (\<lambda>db1.
      if pays = amount_for_sale order
      then Inr (True, db1\<lparr>limit_orders := t_remove (is_order i) (limit_orders db1)\<rparr>)
      else
        bindE (if has_hardfork GAMEBANK_HARDFORK_0_1 db
               then bindE (asset_less pays (amount_for_sale order)) (\<lambda>b. throw_unless b order_fill_exception (Inr ()))
               else Inr ()) (\<lambda>_.
        bindE (t_modify (is_order i) (\<lambda>b.
                 bindE (safe_sub (lo_for_sale b) (amount pays)) (\<lambda>v. Inr (b\<lparr>lo_for_sale := v\<rparr>))) (limit_orders db1)) (\<lambda>t.
        let db2 = db1\<lparr>limit_orders := t\<rparr> in
        bindE (order_of i db2) (\<lambda>order'.
        bindE (amount_to_receive order') (\<lambda>r.
         if amount r = 0
         then bindE (cancel_order i db2) (\<lambda>db3. Inr (True, db3))
         else Inr (False, db2)))))))))"

section \<open>Matching\<close>

text \<open>The two bits of the result: the new order was filled, the old order was filled.\<close>

definition match :: "nat \<Rightarrow> nat \<Rightarrow> price \<Rightarrow> database \<Rightarrow> ((bool \<times> bool) \<times> database) result" where
  "match new_id old_id match_price db =
     (let hf = has_hardfork GAMEBANK_HARDFORK_0_1 db in
      bindE (order_of new_id db) (\<lambda>new_order.
      bindE (order_of old_id db) (\<lambda>old_order.
      throw_unless (hf \<longrightarrow>
          symbol (quote (lo_sell_price new_order)) = symbol (base (lo_sell_price old_order)) \<and>
          symbol (base (lo_sell_price new_order)) = symbol (quote (lo_sell_price old_order)) \<and>
          lo_for_sale new_order > 0 \<and> lo_for_sale old_order > 0 \<and>
          symbol (quote match_price) = symbol (base (lo_sell_price new_order)) \<and>
          symbol (base match_price) = symbol (base (lo_sell_price old_order))) order_match_exception
      (let new_order_for_sale = amount_for_sale new_order; old_order_for_sale = amount_for_sale old_order in
      bindE (asset_times_price old_order_for_sale match_price) (\<lambda>worth.
      bindE (asset_le new_order_for_sale worth) (\<lambda>takes_all.
      bindE (if takes_all
             then bindE (asset_times_price new_order_for_sale match_price) (\<lambda>r. Inr (new_order_for_sale, r))
             else bindE (asset_times_price old_order_for_sale match_price) (\<lambda>r. Inr (r, old_order_for_sale)))
        (\<lambda>(old_order_receives, new_order_receives).
        let old_order_pays = new_order_receives; new_order_pays = old_order_receives in
        throw_unless (hf \<longrightarrow> new_order_pays = amount_for_sale new_order \<or> old_order_pays = amount_for_sale old_order)
          order_match_exception
        (bindE (fill_order new_id new_order_pays new_order_receives db) (\<lambda>(new_filled, db1).
         bindE (fill_order old_id old_order_pays old_order_receives db1) (\<lambda>(old_filled, db2).
          throw_unless (hf \<longrightarrow> new_filled \<or> old_filled) order_match_exception
            (Inr ((new_filled, old_filled), db2))))))))))))"

text \<open>
  The range of the book that \<^verbatim>\<open>apply_order\<close> walks through: from \<^verbatim>\<open>lower_bound\<close> of the largest price of
  the opposite market to \<^verbatim>\<open>upper_bound\<close> of the inverse of the new order's price. When the inverse price
  exceeds that largest price the start can lie behind the end; then the walk does not meet the end and
  leaves the index, which the flag records. The ids are taken when the walk starts: the iterator is
  advanced before an order is matched and matching touches no other order.
\<close>

definition walk_range :: "price \<Rightarrow> price \<Rightarrow> limit_order_object list \<Rightarrow> nat list \<times> bool" where
  "walk_range highest max_price book =
     (let start = length (takeWhile (\<lambda>ord. price_less highest (lo_sell_price ord)) book);
          stop = length (takeWhile (\<lambda>ord. \<not> price_less (lo_sell_price ord) max_price) book) in
      if start \<le> stop then (map lo_id (take (stop - start) (drop start book)), False)
      else (map lo_id (drop start book), True))"

fun match_walk :: "nat \<Rightarrow> bool \<Rightarrow> nat list \<Rightarrow> database \<Rightarrow> database result" where
  "match_walk new_id off [] db = (if off then Inl out_of_range else Inr db)"
| "match_walk new_id off (i # is) db =
     bindE (order_of i db) (\<lambda>old_order.
     bindE (match new_id i (lo_sell_price old_order) db) (\<lambda>((new_filled, _), db1).
      if new_filled then Inr db1 else match_walk new_id off is db1))"

definition apply_order :: "nat \<Rightarrow> database \<Rightarrow> (bool \<times> database) result" where
  "apply_order order_id db =
     bindE (order_of order_id db) (\<lambda>new_order.
     bindE (price_inv (lo_sell_price new_order)) (\<lambda>max_price.
     bindE (price_max (symbol (base max_price)) (symbol (quote max_price))) (\<lambda>highest.
     let (is, off) = walk_range highest max_price (order_book db) in
     bindE (match_walk order_id off is db) (\<lambda>db1.
       Inr (find_order order_id db1 = None, db1)))))"

section \<open>Evaluators and expiry\<close>

definition GAMEBANK_MAX_LIMIT_ORDER_EXPIRATION :: int where "GAMEBANK_MAX_LIMIT_ORDER_EXPIRATION = 60 * 60 * 24 * 28"
definition GAMEBANK_HARDFORK_0_1_TIME :: int where "GAMEBANK_HARDFORK_0_1_TIME = 1597970800"

text \<open>\<^verbatim>\<open>_hash[ i ]\<close> of a block id: the five 32-bit words of the digest, the first one lowest.\<close>

definition hash_word :: "nat \<Rightarrow> block_id_type \<Rightarrow> 32 word" where
  "hash_word i h = ucast (drop_bit (32 * i) h)"

definition create_order ::
    "account_name_type \<Rightarrow> 32 word \<Rightarrow> asset \<Rightarrow> price \<Rightarrow> time_point_sec \<Rightarrow> database \<Rightarrow> database result" where
  "create_order owner orderid amount_to_sell sell_price expiration db =
     bindE (t_create order_clash (\<lambda>i. \<lparr>lo_id = i, lo_created = head_block_time db, lo_expiration = expiration,
              lo_seller = owner, lo_orderid = orderid, lo_for_sale = amount amount_to_sell, lo_sell_price = sell_price\<rparr>)
            (limit_orders db)) (\<lambda>t. Inr (db\<lparr>limit_orders := t\<rparr>))"

definition limit_order_create_evaluator :: "limit_order_create_operation \<Rightarrow> database \<Rightarrow> database result" where
  "limit_order_create_evaluator op db =
     fc_assert (oloc_expiration op > head_block_time db)
     (fc_assert (has_hardfork GAMEBANK_HARDFORK_0_1 db \<longrightarrow>
        oloc_expiration op \<le> plus_secs (head_block_time db) GAMEBANK_MAX_LIMIT_ORDER_EXPIRATION)
     (bindE (get_account (oloc_owner op) db) (\<lambda>owner. bindE (get_balance owner (symbol (oloc_amount_to_sell op))) (\<lambda>bal.
      fc_assertE (asset_ge bal (oloc_amount_to_sell op))
     (bindE (asset_neg (oloc_amount_to_sell op)) (\<lambda>d.
      bindE (adjust_balance (oloc_owner op) d db) (\<lambda>db1.
      bindE (price_div (oloc_amount_to_sell op) (oloc_min_to_receive op)) (\<lambda>p.
      let expiration =
        (if has_hardfork GAMEBANK_HARDFORK_0_1 db1 then oloc_expiration op
         else let rand_offset = uint (hash_word 4 (head_block_id (dgpo db1))) mod 86400 in
           min (oloc_expiration op)
             (word_of_int (GAMEBANK_HARDFORK_0_1_TIME + GAMEBANK_MAX_LIMIT_ORDER_EXPIRATION + rand_offset))) in
      bindE (create_order (oloc_owner op) (oloc_orderid op) (oloc_amount_to_sell op) p expiration db1) (\<lambda>db2.
      bindE (apply_order (next_id (limit_orders db1)) db2) (\<lambda>(filled, db3).
       fc_assert (oloc_fill_or_kill op \<longrightarrow> filled) (Inr db3)))))))))))"

definition limit_order_create2_evaluator :: "limit_order_create2_operation \<Rightarrow> database \<Rightarrow> database result" where
  "limit_order_create2_evaluator op db =
     fc_assert (oloc2_expiration op > head_block_time db)
     (fc_assert (has_hardfork GAMEBANK_HARDFORK_0_1 db \<longrightarrow>
        oloc2_expiration op \<le> plus_secs (head_block_time db) GAMEBANK_MAX_LIMIT_ORDER_EXPIRATION)
     (bindE (get_account (oloc2_owner op) db) (\<lambda>owner. bindE (get_balance owner (symbol (oloc2_amount_to_sell op))) (\<lambda>bal.
      fc_assertE (asset_ge bal (oloc2_amount_to_sell op))
     (bindE (asset_neg (oloc2_amount_to_sell op)) (\<lambda>d.
      bindE (adjust_balance (oloc2_owner op) d db) (\<lambda>db1.
      let expiration =
        (if has_hardfork GAMEBANK_HARDFORK_0_1 db1 then oloc2_expiration op
         else min (oloc2_expiration op)
                (word_of_int (GAMEBANK_HARDFORK_0_1_TIME + GAMEBANK_MAX_LIMIT_ORDER_EXPIRATION))) in
      bindE (create_order (oloc2_owner op) (oloc2_orderid op) (oloc2_amount_to_sell op) (oloc2_exchange_rate op) expiration db1) (\<lambda>db2.
      bindE (apply_order (next_id (limit_orders db1)) db2) (\<lambda>(filled, db3).
       fc_assert (oloc2_fill_or_kill op \<longrightarrow> filled) (Inr db3))))))))))"

definition limit_order_cancel_evaluator :: "limit_order_cancel_operation \<Rightarrow> database \<Rightarrow> database result" where
  "limit_order_cancel_evaluator op db =
     bindE (get_limit_order (olox_owner op) (olox_orderid op) db) (\<lambda>order. cancel_order (lo_id order) db)"

definition next_expired_order :: "database \<Rightarrow> limit_order_object option" where
  "next_expired_order db = t_due lo_expiration (\<lambda>ord. lo_expiration ord < head_block_time db) (limit_orders db)"

definition clear_expired_orders :: "database \<Rightarrow> database result" where
  "clear_expired_orders db =
     drain (t_size (limit_orders db)) next_expired_order (\<lambda>ord. cancel_order (lo_id ord)) db"

section \<open>What filling an order does\<close>

lemma order_of_Inr [simp]: "order_of i db = Inr ord \<longleftrightarrow> find_order i db = Some ord"
  by (simp add: order_of_def find_order_def)

lemma find_order_id: "find_order i db = Some ord \<Longrightarrow> lo_id ord = i \<and> ord \<in> set (rows (limit_orders db))"
  using t_find_Some[of "is_order i" "limit_orders db" ord] by (simp add: find_order_def is_order_def)

lemma is_order_sold [simp]: "is_order i (ord\<lparr>lo_for_sale := v\<rparr>) = is_order i ord"
  by (simp add: is_order_def)

lemma del_upd_first: "P v' \<Longrightarrow> del_first P (upd_first P v' vs) = del_first P vs"
  by (induction vs) auto

text \<open>Everything but balances and the book stays as it was.\<close>

definition trade_only :: "database \<Rightarrow> database \<Rightarrow> bool" where
  "trade_only db db' \<longleftrightarrow> balances_only (db\<lparr>limit_orders := limit_orders db'\<rparr>) db'"

lemma trade_only_refl: "trade_only db (db\<lparr>limit_orders := t\<rparr>)"
  by (simp add: trade_only_def balances_only_def)

lemma trade_only_trans [trans]: "trade_only a b \<Longrightarrow> trade_only b c \<Longrightarrow> trade_only a c"
  unfolding trade_only_def balances_only_def by (cases a; cases b; cases c) simp

lemma adjust_balance_trade:
  "adjust_balance n d db = Inr db1 \<Longrightarrow> trade_only db (db1\<lparr>limit_orders := t\<rparr>) \<and>
     (\<forall>l. gap l db1 = gap l db - part l d) \<and> limit_orders db1 = limit_orders db \<and> hardfork_property db1 = hardfork_property db"
proof -
  assume "adjust_balance n d db = Inr db1"
  then have g: "\<forall>l. gap l db1 = gap l db - part l d" and o: "balances_only db db1" using adjust_balance_moves by blast+
  obtain t' p where b: "db1 = db\<lparr>accounts := t', dgpo := p\<rparr>" using o by (auto simp: balances_only_def)
  show ?thesis using g o by (auto simp: trade_only_def balances_only_def b)
qed

definition sold :: "share_type \<Rightarrow> limit_order_object \<Rightarrow> limit_order_object" where
  "sold v ord = ord\<lparr>lo_for_sale := lo_for_sale ord - v\<rparr>"

lemma sold_simps [simp]: "lo_id (sold v ord) = lo_id ord" "lo_sell_price (sold v ord) = lo_sell_price ord" "is_order i (sold v ord) = is_order i ord"
  by (simp_all add: sold_def)

lemma cancel_order_effect:
  assumes "cancel_order i db = Inr db'"
  shows "\<exists>ord. find_order i db = Some ord \<and> limit_orders db' = t_remove (is_order i) (limit_orders db) \<and>
    trade_only db db' \<and> (\<forall>l. gap l db' = gap l db)"
proof -
  obtain ord db1 where ord: "find_order i db = Some ord"
    and a: "adjust_balance (lo_seller ord) (amount_for_sale ord) db = Inr db1"
    and db': "db' = db1\<lparr>limit_orders := t_remove (is_order i) (limit_orders db1)\<rparr>"
    using assms by (auto simp: cancel_order_def)
  show ?thesis using adjust_balance_trade[OF a] ord t_sum_remove[of "is_order i" "limit_orders db" ord]
    by (auto simp: db' find_order_def order_part_def)
qed

lemma fill_order_effect:
  assumes "fill_order i pays receives db = Inr (b, db')"
  shows "\<exists>ord. find_order i db = Some ord \<and> symbol pays = symbol (base (lo_sell_price ord)) \<and> symbol receives \<noteq> symbol pays \<and>
    limit_orders db' = (if b then t_remove (is_order i) (limit_orders db)
      else (limit_orders db)\<lparr>rows := upd_first (is_order i) (sold (amount pays) ord) (rows (limit_orders db))\<rparr>) \<and>
    (pays = amount_for_sale ord \<longrightarrow> b) \<and> trade_only db db' \<and>
    (\<forall>l. gap l db' = gap l db + part l pays - part l receives)"
proof -
  obtain ord db1 where ord: "find_order i db = Some ord" and sy: "symbol pays = symbol (base (lo_sell_price ord))"
    and ne: "symbol receives \<noteq> symbol pays" and a: "adjust_balance (lo_seller ord) receives db = Inr db1"
    using assms by (auto simp: fill_order_def amount_for_sale_def)
  note A = adjust_balance_trade[OF a]
  show ?thesis
  proof (cases "pays = amount_for_sale ord")
    case True
    then have r: "b" "db' = db1\<lparr>limit_orders := t_remove (is_order i) (limit_orders db1)\<rparr>"
      using assms ord a by (auto simp: fill_order_def amount_for_sale_def)
    show ?thesis using A ord ne True t_sum_remove[of "is_order i" "limit_orders db" ord]
      by (auto simp: r find_order_def order_part_def amount_for_sale_def)
  next
    case False
    let ?t = "(limit_orders db)\<lparr>rows := upd_first (is_order i) (sold (amount pays) ord) (rows (limit_orders db))\<rparr>"
    let ?db2 = "db1\<lparr>limit_orders := ?t\<rparr>"
    have m: "t_modify (is_order i) (\<lambda>b. bindE (safe_sub (lo_for_sale b) (amount pays)) (\<lambda>v. Inr (b\<lparr>lo_for_sale := v\<rparr>)))
        (limit_orders db) = Inr t \<Longrightarrow> t = ?t" for t
      using ord by (auto simp: t_modify_Inr find_order_def sold_def dest!: safe_sub_value)
    have rest: "(b \<and> cancel_order i ?db2 = Inr db') \<or> (\<not> b \<and> db' = ?db2)"
      using assms ord a False sy ne A
      by (auto simp: fill_order_def amount_for_sale_def Let_def split: if_splits dest!: m)
    have g2: "gap l ?db2 = gap l db + part l pays - part l receives" for l
      using A ord sy unfolding find_order_def
      by (simp add: order_part_def t_sum_def sum_list_upd_first t_find_def amount_for_sale_def sold_def part_def of_symbol_def)
    have t2: "trade_only db ?db2" using A by blast
    from rest show ?thesis
    proof
      assume r: "b \<and> cancel_order i ?db2 = Inr db'"
      then have c: "limit_orders db' = t_remove (is_order i) ?t" "trade_only ?db2 db'" "\<forall>l. gap l db' = gap l ?db2"
        using cancel_order_effect[of i ?db2 db'] by auto
      have "t_remove (is_order i) ?t = t_remove (is_order i) (limit_orders db)"
        using find_order_id[OF ord] by (simp add: t_remove_def del_upd_first is_order_def)
      then show ?thesis using r c g2 trade_only_trans[OF t2 c(2)] ord sy ne by auto
    next
      assume "\<not> b \<and> db' = ?db2"
      then show ?thesis using g2 t2 ord sy ne False by auto
    qed
  qed
qed

section \<open>The order of the book\<close>

text \<open>Prices that an order may have: what \<^verbatim>\<open>validate\<close> checks, with amounts up to the largest one.\<close>

definition price_ok :: "price \<Rightarrow> bool" where
  "price_ok p \<longleftrightarrow> 0 < amount (base p) \<and> amount (base p) \<le> GAMEBANK_MAX_SATOSHIS \<and>
     0 < amount (quote p) \<and> amount (quote p) \<le> GAMEBANK_MAX_SATOSHIS \<and> symbol (base p) \<noteq> symbol (quote p)"

text \<open>Two orders cross when they sell to each other and each pays at least what the other asks.\<close>

definition crosses :: "price \<Rightarrow> price \<Rightarrow> bool" where
  "crosses p q \<longleftrightarrow> symbol (base p) = symbol (quote q) \<and> symbol (quote p) = symbol (base q) \<and>
     amount (quote p) * amount (quote q) \<le> amount (base p) * amount (base q)"

lemma crosses_sym: "crosses p q \<Longrightarrow> crosses q p"
  by (auto simp: crosses_def mult.commute)

lemma price_less_exact:
  assumes "price_ok p" "price_ok q"
  shows "price_less p q \<longleftrightarrow> (if same_market p q then amount (quote q) * amount (base p) < amount (quote p) * amount (base q)
    else symbol_pair_less p q)"
proof (cases "same_market p q")
  case True
  have "price_validate p = Inr ()" "price_validate q = Inr ()" using assms by (simp_all add: price_ok_def price_validate_def)
  then show ?thesis using price_values[of p q] True assms
    by (simp add: price_ok_def GAMEBANK_MAX_SATOSHIS_def int64_max_def)
qed (simp add: price_less_def)

lemma price_less_asym: "price_ok p \<Longrightarrow> price_ok q \<Longrightarrow> price_less p q \<Longrightarrow> \<not> price_less q p"
  by (auto simp: price_less_exact same_market_def symbol_pair_less_def split: if_splits)

lemma price_less_negtrans:
  assumes ok: "price_ok p" "price_ok q" "price_ok r" and "\<not> price_less p q" "\<not> price_less q r"
  shows "\<not> price_less p r"
proof (cases "same_market p q \<and> same_market q r")
  case True
  then have "same_market p r" by (simp add: same_market_def)
  have pos: "0 < amount (quote p)" "0 < amount (quote q)" "0 < amount (quote r)" using ok by (simp_all add: price_ok_def)
  have 1: "amount (quote p) * amount (base q) \<le> amount (quote q) * amount (base p)"
    and 2: "amount (quote q) * amount (base r) \<le> amount (quote r) * amount (base q)"
    using assms(4,5) True by (simp_all add: price_less_exact[OF ok(1,2)] price_less_exact[OF ok(2,3)])
  have "(amount (quote p) * amount (base r)) * amount (quote q) \<le> amount (quote p) * (amount (quote r) * amount (base q))"
    using mult_left_mono[OF 2, of "amount (quote p)"] pos by (simp add: mult_ac)
  also have "\<dots> = amount (quote r) * (amount (quote p) * amount (base q))" by (simp add: mult_ac)
  also have "\<dots> \<le> amount (quote r) * (amount (quote q) * amount (base p))"
    using mult_left_mono[OF 1, of "amount (quote r)"] pos by simp
  finally have "(amount (quote p) * amount (base r)) * amount (quote q) \<le> (amount (quote r) * amount (base p)) * amount (quote q)"
    by (simp add: mult_ac)
  then have "amount (quote p) * amount (base r) \<le> amount (quote r) * amount (base p)"
    using pos(2) by (rule mult_right_le_imp_le)
  then show ?thesis using \<open>same_market p r\<close> by (simp add: price_less_exact[OF ok(1,3)])
next
  case False
  then show ?thesis using assms(4,5)
    by (auto simp: price_less_exact[OF ok(1,2)] price_less_exact[OF ok(2,3)] price_less_exact[OF ok(1,3)]
        same_market_def symbol_pair_less_def split: if_splits)
qed

definition no_lower :: "limit_order_object \<Rightarrow> limit_order_object \<Rightarrow> bool" where
  "no_lower a b \<longleftrightarrow> \<not> price_less (lo_sell_price a) (lo_sell_price b)"

lemma set_insort_by [simp]: "set (insort_by lt x ys) = insert x (set ys)"
  by (induction ys) auto

lemma set_sort_by [simp]: "set (sort_by lt xs) = set xs"
  by (induction xs) (auto simp: sort_by_def)

lemma insort_by_price:
  assumes "sorted_wrt no_lower ys" "\<forall>y \<in> insert x (set ys). price_ok (lo_sell_price y)"
  shows "sorted_wrt no_lower (insort_by by_price x ys)"
  using assms
proof (induction ys)
  case (Cons y ys)
  show ?case
  proof (cases "by_price y x")
    case True
    then have "no_lower y x" using price_less_asym[of "lo_sell_price x" "lo_sell_price y"] Cons.prems(2)
      by (auto simp: by_price_def no_lower_def)
    then show ?thesis using Cons True by auto
  next
    case False
    then have "no_lower x y" by (auto simp: by_price_def no_lower_def)
    moreover have "no_lower x z" if "z \<in> set ys" for z
      using price_less_negtrans[of "lo_sell_price x" "lo_sell_price y" "lo_sell_price z"] calculation Cons.prems that
      by (auto simp: no_lower_def)
    ultimately show ?thesis using Cons.prems False by auto
  qed
qed simp

lemma order_book_sorted:
  assumes "\<forall>ord \<in> set (rows (limit_orders db)). price_ok (lo_sell_price ord)"
  shows "sorted_wrt no_lower (order_book db)" "set (order_book db) = set (rows (limit_orders db))"
proof -
  have "(\<forall>x \<in> set xs. price_ok (lo_sell_price x)) \<Longrightarrow> sorted_wrt no_lower (sort_by by_price xs)" for xs
  proof (induction xs)
    case (Cons x xs)
    then show ?case using insort_by_price[of "sort_by by_price xs" x] by (simp add: sort_by_def[of _ "x # xs"] sort_by_def[symmetric])
  qed (simp add: sort_by_def)
  then show "sorted_wrt no_lower (order_book db)" using assms by (simp add: order_book_def)
qed (simp add: order_book_def)

text \<open>The walk visits every order that crosses the new one, and stays inside the index.\<close>

lemma takeWhile_reaches:
  assumes "sorted_wrt R xs" "x \<in> set xs" "P x" "\<And>y. y \<in> set xs \<Longrightarrow> R y x \<Longrightarrow> P x \<Longrightarrow> P y"
  shows "x \<in> set (takeWhile P xs)"
  using assms by (induction xs) auto

lemma takeWhile_longer: "(\<And>y. y \<in> set xs \<Longrightarrow> P y \<Longrightarrow> Q y) \<Longrightarrow> length (takeWhile P xs) \<le> length (takeWhile Q xs)"
  by (induction xs) auto

lemma dropWhile_none:
  assumes "sorted_wrt R xs" "\<And>x y. x \<in> set xs \<Longrightarrow> y \<in> set xs \<Longrightarrow> R x y \<Longrightarrow> \<not> P x \<Longrightarrow> \<not> P y" "y \<in> set (dropWhile P xs)"
  shows "\<not> P y"
  using assms
proof (induction xs)
  case (Cons x xs)
  show ?case
  proof (cases "P x")
    case True
    then show ?thesis using Cons by auto
  next
    case False
    then show ?thesis using Cons.prems by auto
  qed
qed simp

lemma window_split:
  assumes "length (takeWhile P xs) \<le> length (takeWhile Q xs)"
  shows "takeWhile Q xs = takeWhile P xs @ take (length (takeWhile Q xs) - length (takeWhile P xs)) (dropWhile P xs)"
proof -
  let ?m = "length (takeWhile P xs)" and ?n = "length (takeWhile Q xs)"
  have q: "take ?n xs = takeWhile Q xs" and p: "take ?m xs = takeWhile P xs" by (simp_all add: takeWhile_eq_take[symmetric])
  have "take ?n xs = take ?m xs @ take (?n - ?m) (drop ?m xs)" using assms by (metis take_add le_add_diff_inverse)
  then show ?thesis using q p by (simp add: dropWhile_eq_drop)
qed

lemma window_set:
  assumes "sorted_wrt R xs" "\<And>x y. x \<in> set xs \<Longrightarrow> y \<in> set xs \<Longrightarrow> R x y \<Longrightarrow> \<not> P x \<Longrightarrow> \<not> P y"
    and "\<And>x y. x \<in> set xs \<Longrightarrow> y \<in> set xs \<Longrightarrow> R x y \<Longrightarrow> Q y \<Longrightarrow> Q x" "\<And>x. x \<in> set xs \<Longrightarrow> P x \<Longrightarrow> Q x"
  shows "length (takeWhile P xs) \<le> length (takeWhile Q xs) \<and>
    set (take (length (takeWhile Q xs) - length (takeWhile P xs)) (drop (length (takeWhile P xs)) xs)) = {x \<in> set xs. \<not> P x \<and> Q x}"
proof -
  let ?w = "take (length (takeWhile Q xs) - length (takeWhile P xs)) (dropWhile P xs)"
  have le: "length (takeWhile P xs) \<le> length (takeWhile Q xs)" using assms(4) by (rule takeWhile_longer)
  note sp = window_split[OF le]
  have "x \<in> {x \<in> set xs. \<not> P x \<and> Q x}" if "x \<in> set ?w" for x
  proof -
    have d: "x \<in> set (dropWhile P xs)" using that by (meson in_set_takeD)
    have "x \<in> set (takeWhile Q xs)" using that sp by (metis Un_iff set_append)
    then show ?thesis using set_takeWhileD dropWhile_none[OF assms(1,2) d] by fastforce
  qed
  moreover have "x \<in> set ?w" if "x \<in> set xs" "\<not> P x" "Q x" for x
  proof -
    have "x \<in> set (takeWhile Q xs)" by (rule takeWhile_reaches[where P = Q, OF assms(1) that(1,3)]) (use assms(3) that in blast)
    moreover have "x \<notin> set (takeWhile P xs)" using that(2) by (auto dest: set_takeWhileD)
    ultimately show ?thesis using sp by (metis Un_iff set_append)
  qed
  ultimately show ?thesis using le by (auto simp: dropWhile_eq_drop)
qed

lemma walk_range_exact:
  assumes ok: "\<forall>ord \<in> set book. price_ok (lo_sell_price ord)" "price_ok p" and s: "sorted_wrt no_lower book"
    and w: "walk_range \<lparr>base = mk_asset GAMEBANK_MAX_SATOSHIS (symbol (quote p)), quote = mk_asset 1 (symbol (base p))\<rparr>
      \<lparr>base = quote p, quote = base p\<rparr> book = (is, off)"
  shows "\<not> off \<and> set is = lo_id ` {ord \<in> set book. crosses (lo_sell_price ord) p}"
proof -
  define h where "h = \<lparr>base = mk_asset GAMEBANK_MAX_SATOSHIS (symbol (quote p)), quote = mk_asset 1 (symbol (base p))\<rparr>"
  define m where "m = \<lparr>base = quote p, quote = base p\<rparr>"
  let ?P = "\<lambda>ord. price_less h (lo_sell_price ord)" and ?Q = "\<lambda>ord. \<not> price_less (lo_sell_price ord) m"
  have oh: "price_ok h" and om: "price_ok m" using ok(2) by (auto simp: price_ok_def h_def m_def GAMEBANK_MAX_SATOSHIS_def)
  have "1 * amount (quote p) \<le> amount (base p) * GAMEBANK_MAX_SATOSHIS"
    using ok(2) by (intro mult_mono) (auto simp: price_ok_def)
  then have hm: "\<not> price_less h m"
    by (simp add: price_less_exact[OF oh om]) (simp add: h_def m_def same_market_def)
  have win: "length (takeWhile ?P book) \<le> length (takeWhile ?Q book) \<and>
    set (take (length (takeWhile ?Q book) - length (takeWhile ?P book)) (drop (length (takeWhile ?P book)) book)) =
      {ord \<in> set book. \<not> ?P ord \<and> ?Q ord}"
  proof (rule window_set[OF s])
    fix x assume "x \<in> set book" "?P x"
    then show "?Q x" using price_less_asym[OF oh] price_less_negtrans[OF _ oh om, of "lo_sell_price x"] hm ok(1) by blast
  qed (use price_less_negtrans[OF oh] price_less_negtrans[OF _ _ om] ok(1) in \<open>unfold no_lower_def, blast+\<close>)
  have "\<not> ?P ord \<and> ?Q ord \<longleftrightarrow> crosses (lo_sell_price ord) p" if "ord \<in> set book" for ord
  proof -
    have q: "price_ok (lo_sell_price ord)" using ok(1) that by blast
    have "amount (quote (lo_sell_price ord)) * GAMEBANK_MAX_SATOSHIS \<ge> 1 * amount (base (lo_sell_price ord))"
      using q by (intro mult_mono) (auto simp: price_ok_def)
    then show ?thesis using ok(2) unfolding price_less_exact[OF oh q] price_less_exact[OF q om]
      by (auto simp: crosses_def h_def m_def same_market_def symbol_pair_less_def mult.commute split: if_splits)
  qed
  then have "{ord \<in> set book. \<not> ?P ord \<and> ?Q ord} = {ord \<in> set book. crosses (lo_sell_price ord) p}" by blast
  then show ?thesis using w win by (auto simp: walk_range_def Let_def h_def[symmetric] m_def[symmetric] split: if_splits)
qed

section \<open>Matching\<close>

definition book_keys :: "database \<Rightarrow> (nat \<times> price) list" where
  "book_keys db = map (\<lambda>ord. (lo_id ord, lo_sell_price ord)) (rows (limit_orders db))"

lemma map_del_first_key:
  assumes "\<And>v. P v \<longleftrightarrow> fst (h v) = i" "distinct (map (fst \<circ> h) vs)"
  shows "map h (del_first P vs) = filter (\<lambda>k. fst k \<noteq> i) (map h vs)"
  using assms(2)
proof (induction vs)
  case (Cons v vs)
  show ?case
  proof (cases "P v")
    case True
    then have "filter (\<lambda>k. fst k \<noteq> i) (map h vs) = map h vs" using assms(1)[of v] Cons.prems by (intro filter_True) (auto simp: image_iff)
    then show ?thesis using True assms(1)[of v] by simp
  next
    case False
    then show ?thesis using Cons assms(1)[of v] by simp
  qed
qed simp

lemma fill_order_keys:
  assumes "fill_order i pays receives db = Inr (b, db')" "distinct (map fst (book_keys db))"
  shows "book_keys db' = (if b then filter (\<lambda>k. fst k \<noteq> i) (book_keys db) else book_keys db)"
proof -
  obtain ord where o: "find_order i db = Some ord" "limit_orders db' = (if b then t_remove (is_order i) (limit_orders db)
      else (limit_orders db)\<lparr>rows := upd_first (is_order i) (sold (amount pays) ord) (rows (limit_orders db))\<rparr>)"
    using fill_order_effect[OF assms(1)] by blast
  let ?h = "\<lambda>ord. (lo_id ord, lo_sell_price ord)"
  have "map ?h (del_first (is_order i) (rows (limit_orders db))) = filter (\<lambda>k. fst k \<noteq> i) (book_keys db)"
    using map_del_first_key[of "is_order i" ?h i "rows (limit_orders db)"] assms(2)
    by (simp add: is_order_def book_keys_def comp_def)
  moreover have "map ?h (upd_first (is_order i) (sold (amount pays) ord) (rows (limit_orders db))) = book_keys db"
    using o(1) by (simp add: book_keys_def find_order_def t_find_def map_upd_first)
  ultimately show ?thesis using o(2) by (simp add: book_keys_def t_remove_def)
qed

lemma fill_order_other:
  assumes "fill_order i pays receives db = Inr (b, db')" "j \<noteq> i"
  shows "find_order j db' = find_order j db"
proof -
  obtain ord where o: "find_order i db = Some ord" "limit_orders db' = (if b then t_remove (is_order i) (limit_orders db)
      else (limit_orders db)\<lparr>rows := upd_first (is_order i) (sold (amount pays) ord) (rows (limit_orders db))\<rparr>)"
    using fill_order_effect[OF assms(1)] by blast
  have "\<not> is_order j ord" "\<not> is_order j (sold (amount pays) ord)" using find_order_id[OF o(1)] assms(2) by (auto simp: is_order_def)
  then show ?thesis using o assms(2) t_find_remove_other[of "is_order i" "is_order j" "limit_orders db"]
    by (auto simp: find_order_def t_find_def is_order_def find_upd_first_other)
qed

lemma match_form:
  assumes "match n i p db = Inr ((f1, f2), db')"
  obtains new old pays receives db1 where "find_order n db = Some new" "find_order i db = Some old"
    "fill_order n pays receives db = Inr (f1, db1)" "fill_order i receives pays db1 = Inr (f2, db')"
    "(\<exists>worth. pays = amount_for_sale new \<and> asset_times_price pays p = Inr receives \<and>
       asset_times_price (amount_for_sale old) p = Inr worth \<and> amount pays \<le> amount worth) \<or>
     receives = amount_for_sale old \<and> asset_times_price receives p = Inr pays \<and> amount pays < lo_for_sale new"
proof -
  obtain new old where f: "find_order n db = Some new" "find_order i db = Some old"
    using assms by (auto simp: match_def Let_def)
  obtain worth all where w: "asset_times_price (amount_for_sale old) p = Inr worth" "asset_le (amount_for_sale new) worth = Inr all"
    using assms f by (auto simp: match_def Let_def)
  obtain pays receives where pr: "(if all then bindE (asset_times_price (amount_for_sale new) p) (\<lambda>r. Inr (amount_for_sale new, r))
        else bindE (asset_times_price (amount_for_sale old) p) (\<lambda>r. Inr (r, amount_for_sale old))) = Inr (pays, receives)"
    using assms f w by (auto simp: match_def Let_def)
  then obtain db1 where "fill_order n pays receives db = Inr (f1, db1)" "fill_order i receives pays db1 = Inr (f2, db')"
    using assms f w by (auto simp: match_def Let_def)
  then show ?thesis using that f pr w by (auto simp: asset_le_def amount_for_sale_def split: if_splits)
qed

text \<open>One match: the orders that are filled leave the book, at least one of them is, and nothing is lost.\<close>

lemma match_effect:
  assumes "match n i p db = Inr ((f1, f2), db')" "distinct (map fst (book_keys db))" "n \<noteq> i"
  shows "book_keys db' = filter (\<lambda>k. \<not> (f1 \<and> fst k = n) \<and> \<not> (f2 \<and> fst k = i)) (book_keys db) \<and> (f1 \<or> f2)"
proof -
  obtain new old pays receives db1 where f: "find_order n db = Some new" "find_order i db = Some old"
    and 1: "fill_order n pays receives db = Inr (f1, db1)" and 2: "fill_order i receives pays db1 = Inr (f2, db')"
    and c: "pays = amount_for_sale new \<or> receives = amount_for_sale old"
    by (rule match_form[OF assms(1)]) blast
  have k1: "book_keys db1 = (if f1 then filter (\<lambda>k. fst k \<noteq> n) (book_keys db) else book_keys db)"
    by (rule fill_order_keys[OF 1 assms(2)])
  then have "distinct (map fst (book_keys db1))" using assms(2) by (auto simp: distinct_map_filter)
  then have "book_keys db' = (if f2 then filter (\<lambda>k. fst k \<noteq> i) (book_keys db1) else book_keys db1)"
    by (rule fill_order_keys[OF 2])
  then have "book_keys db' = filter (\<lambda>k. \<not> (f1 \<and> fst k = n) \<and> \<not> (f2 \<and> fst k = i)) (book_keys db)"
    using k1 by (cases f1; cases f2) (simp_all add: conj_commute)
  moreover have "find_order i db1 = Some old" using fill_order_other[OF 1, of i] f assms(3) by simp
  then have "f1 \<or> f2" using fill_order_effect[OF 1] fill_order_effect[OF 2] f c by auto
  ultimately show ?thesis by simp
qed

lemma match_conserves: 
  assumes "match n i p db = Inr (fs, db')"
  shows "trade_only db db' \<and> (\<forall>l. gap l db' = gap l db)"
proof -
  obtain pays receives db1 where "fill_order n pays receives db = Inr (fst fs, db1)" "fill_order i receives pays db1 = Inr (snd fs, db')"
    using assms match_form[of n i p db "fst fs" "snd fs" db'] by (metis prod.collapse)
  from this[THEN fill_order_effect] show ?thesis using trade_only_trans[of db db1 db'] by auto
qed

lemma match_walk_effect:
  assumes "match_walk n off is db = Inr db'" "distinct (map fst (book_keys db))" "n \<notin> set is"
  shows "set (book_keys db') \<subseteq> set (book_keys db) \<and> distinct (map fst (book_keys db')) \<and>
    (n \<in> fst ` set (book_keys db') \<longrightarrow> (\<forall>i \<in> set is. i \<notin> fst ` set (book_keys db')))"
  using assms
proof (induction "is" arbitrary: db)
  case (Cons i "is")
  obtain p f1 f2 db1 where m: "match n i p db = Inr ((f1, f2), db1)"
    and r: "(if f1 then Inr db1 else match_walk n off is db1) = Inr db'"
    using Cons.prems(1) by auto
  have e: "book_keys db1 = filter (\<lambda>k. \<not> (f1 \<and> fst k = n) \<and> \<not> (f2 \<and> fst k = i)) (book_keys db)" "f1 \<or> f2"
    using match_effect[OF m Cons.prems(2)] Cons.prems(3) by auto
  then have d: "distinct (map fst (book_keys db1))" using Cons.prems(2) by (simp add: distinct_map_filter)
  show ?case
  proof (cases f1)
    case True
    then show ?thesis using r e d by auto
  next
    case False
    then have k: "set (book_keys db') \<subseteq> set (book_keys db1) \<and> distinct (map fst (book_keys db')) \<and>
        (n \<in> fst ` set (book_keys db') \<longrightarrow> (\<forall>i \<in> set is. i \<notin> fst ` set (book_keys db')))"
      using Cons.IH[of db1] r d Cons.prems(3) by simp
    have "i \<notin> fst ` set (book_keys db1)" using e False by auto
    then have "i \<notin> fst ` set (book_keys db')" using k image_mono[of "set (book_keys db')" "set (book_keys db1)" fst] by blast
    moreover have "set (book_keys db1) \<subseteq> set (book_keys db)" using e(1) by (simp only: set_filter) blast
    ultimately show ?thesis using k subset_trans[of "set (book_keys db')" "set (book_keys db1)" "set (book_keys db)"] by simp
  qed
qed (simp split: if_splits)

lemma match_walk_conserves: "match_walk n off is db = Inr db' \<Longrightarrow> trade_only db db' \<and> (\<forall>l. gap l db' = gap l db)"
proof (induction "is" arbitrary: db)
  case Nil
  then show ?case using trade_only_refl[of db "limit_orders db"] by (simp split: if_splits)
next
  case (Cons i "is")
  then obtain p fs db1 where m: "match n i p db = Inr (fs, db1)" and r: "db' = db1 \<or> match_walk n off is db1 = Inr db'"
    by (auto split: if_splits)
  show ?case using match_conserves[OF m] r Cons.IH[of db1] trade_only_trans[of db db1 db'] by auto
qed

lemma apply_order_form:
  assumes "apply_order i db = Inr (b, db')"
  obtains new highest max_price "is" off where "find_order i db = Some new" "price_inv (lo_sell_price new) = Inr max_price"
    "price_max (symbol (base max_price)) (symbol (quote max_price)) = Inr highest"
    "walk_range highest max_price (order_book db) = (is, off)" "match_walk i off is db = Inr db'" "b \<longleftrightarrow> find_order i db' = None"
proof -
  obtain new highest max_price where f: "find_order i db = Some new" "price_inv (lo_sell_price new) = Inr max_price"
    "price_max (symbol (base max_price)) (symbol (quote max_price)) = Inr highest"
    using assms by (auto simp: apply_order_def)
  obtain "is" off where w: "walk_range highest max_price (order_book db) = (is, off)" by fastforce
  then show ?thesis using that[OF f w] assms f by (auto simp: apply_order_def)
qed

lemma apply_order_conserves: "apply_order i db = Inr (b, db') \<Longrightarrow> trade_only db db' \<and> (\<forall>l. gap l db' = gap l db)"
  by (erule apply_order_form) (rule match_walk_conserves)

lemma fill_order_next_id: "fill_order i pays receives db = Inr (b, db') \<Longrightarrow> next_id (limit_orders db') = next_id (limit_orders db)"
  by (auto simp: t_remove_def dest!: fill_order_effect)

lemma match_walk_next_id: "match_walk n off is db = Inr db' \<Longrightarrow> next_id (limit_orders db') = next_id (limit_orders db)"
proof (induction "is" arbitrary: db)
  case (Cons i "is")
  then obtain p f1 f2 db1 where m: "match n i p db = Inr ((f1, f2), db1)"
    and r: "(if f1 then Inr db1 else match_walk n off is db1) = Inr db'"
    by auto
  have "next_id (limit_orders db1) = next_id (limit_orders db)" by (rule match_form[OF m]) (simp add: fill_order_next_id)
  then show ?case using r Cons.IH[of db1] by (auto split: if_splits)
qed (simp split: if_splits)

section \<open>The book is never crossed\<close>

definition uncrossed :: "(nat \<times> price) set \<Rightarrow> bool" where
  "uncrossed ks \<longleftrightarrow> (\<forall>k \<in> ks. \<forall>k' \<in> ks. \<not> crosses (snd k) (snd k'))"

definition book_inv :: "database \<Rightarrow> bool" where
  "book_inv db \<longleftrightarrow> distinct (map fst (book_keys db)) \<and>
     (\<forall>k \<in> set (book_keys db). fst k < next_id (limit_orders db) \<and> price_ok (snd k)) \<and>
     uncrossed (set (book_keys db))"

lemma uncrossed_subset: "uncrossed ks \<Longrightarrow> js \<subseteq> ks \<Longrightarrow> uncrossed js"
  unfolding uncrossed_def by blast

lemma no_self_cross: "price_ok p \<Longrightarrow> \<not> crosses p p"
  by (auto simp: price_ok_def crosses_def)

lemma distinct_keys: "distinct (map fst ks) \<Longrightarrow> k \<in> set ks \<Longrightarrow> k' \<in> set ks \<Longrightarrow> fst k = fst k' \<Longrightarrow> k = k'"
  by (auto simp: distinct_map inj_on_def)

lemma apply_order_uncrosses:
  assumes "apply_order n db = Inr (b, db')" "distinct (map fst (book_keys db))" "\<forall>k \<in> set (book_keys db). price_ok (snd k)"
    and "uncrossed {k \<in> set (book_keys db). fst k \<noteq> n}"
  shows "set (book_keys db') \<subseteq> set (book_keys db) \<and> distinct (map fst (book_keys db')) \<and> uncrossed (set (book_keys db')) \<and>
    next_id (limit_orders db') = next_id (limit_orders db)"
proof -
  obtain new highest max_price "is" off where new: "find_order n db = Some new" and mp: "price_inv (lo_sell_price new) = Inr max_price"
    and hi: "price_max (symbol (base max_price)) (symbol (quote max_price)) = Inr highest"
    and w: "walk_range highest max_price (order_book db) = (is, off)" and mw: "match_walk n off is db = Inr db'"
    by (rule apply_order_form[OF assms(1)])
  let ?p = "lo_sell_price new"
  have nk: "(n, ?p) \<in> set (book_keys db)" using find_order_id[OF new] by (auto simp: book_keys_def)
  have ok: "\<forall>ord \<in> set (rows (limit_orders db)). price_ok (lo_sell_price ord)" using assms(3) by (auto simp: book_keys_def)
  have okp: "price_ok ?p" using assms(3) nk by force
  have m: "max_price = \<lparr>base = quote ?p, quote = base ?p\<rparr>" using mp by (auto simp: price_inv_def mk_price_def)
  have h: "highest = \<lparr>base = mk_asset GAMEBANK_MAX_SATOSHIS (symbol (quote ?p)), quote = mk_asset 1 (symbol (base ?p))\<rparr>"
    using hi by (auto simp: m price_max_def price_div_def mk_price_def)
  have "set is = lo_id ` {ord \<in> set (order_book db). crosses (lo_sell_price ord) ?p}"
    using walk_range_exact[of "order_book db" ?p "is" off] order_book_sorted[OF ok] ok okp w by (simp add: m h)
  then have is_ids: "set is = fst ` {k \<in> set (book_keys db). crosses (snd k) ?p}"
    using order_book_sorted(2)[OF ok] by (force simp: book_keys_def)
  have "n \<notin> set is" using distinct_keys[OF assms(2) nk] no_self_cross[OF okp] by (auto simp: is_ids)
  from match_walk_effect[OF mw assms(2) this]
  have e: "set (book_keys db') \<subseteq> set (book_keys db)" "distinct (map fst (book_keys db'))"
    and gone: "n \<in> fst ` set (book_keys db') \<Longrightarrow> i \<in> set is \<Longrightarrow> i \<notin> fst ` set (book_keys db')" for i by blast+
  have one: "\<not> crosses (snd k) ?p" if "n \<in> fst ` set (book_keys db')" "k \<in> set (book_keys db')" for k
    using gone[OF that(1), of "fst k"] that e(1) by (auto simp: is_ids)
  have "\<not> crosses (snd k) (snd k')" if k: "k \<in> set (book_keys db')" "k' \<in> set (book_keys db')" for k k'
  proof -
    have same: "snd j = ?p" if "j \<in> set (book_keys db')" "fst j = n" for j
      using distinct_keys[OF assms(2) nk, of j] subsetD[OF e(1) that(1)] that(2) by (metis fst_conv snd_conv)
    consider "fst k \<noteq> n" "fst k' \<noteq> n" | "fst k' = n" | "fst k = n" by blast
    then show ?thesis
    proof cases
      case 1
      then show ?thesis using assms(4)[unfolded uncrossed_def, THEN bspec, THEN bspec, of k k'] k e(1) by blast
    next
      case 2
      then show ?thesis using one[OF _ k(1)] same[OF k(2)] k(2) by (metis image_eqI)
    next
      case 3
      then show ?thesis using one[OF _ k(2)] same[OF k(1)] k(1) crosses_sym by (metis image_eqI)
    qed
  qed
  then show ?thesis using e match_walk_next_id[OF mw] by (auto simp: uncrossed_def)
qed

section \<open>The market as a step relation\<close>

text \<open>
  The operations on the book: the evaluators on validated operations, with prices no larger than the
  largest amount, and the expiry at the end of a block.
\<close>

inductive market_step :: "database \<Rightarrow> database \<Rightarrow> bool" where
  place: "\<lbrakk>limit_order_create_validate op = Inr (); amount (oloc_amount_to_sell op) \<le> GAMEBANK_MAX_SATOSHIS;
           amount (oloc_min_to_receive op) \<le> GAMEBANK_MAX_SATOSHIS;
           limit_order_create_evaluator op db = Inr db'\<rbrakk> \<Longrightarrow> market_step db db'"
| place2: "\<lbrakk>limit_order_create2_validate op2 = Inr (); amount (base (oloc2_exchange_rate op2)) \<le> GAMEBANK_MAX_SATOSHIS;
           amount (quote (oloc2_exchange_rate op2)) \<le> GAMEBANK_MAX_SATOSHIS;
           limit_order_create2_evaluator op2 db = Inr db'\<rbrakk> \<Longrightarrow> market_step db db'"
| cancel: "limit_order_cancel_evaluator opx db = Inr db' \<Longrightarrow> market_step db db'"
| expire: "clear_expired_orders db = Inr db' \<Longrightarrow> market_step db db'"

lemma cancel_order_inv: "cancel_order i db = Inr db' \<Longrightarrow> book_inv db \<Longrightarrow> book_inv db'"
proof -
  assume c: "cancel_order i db = Inr db'" and inv: "book_inv db"
  have l: "limit_orders db' = t_remove (is_order i) (limit_orders db)" using cancel_order_effect[OF c] by blast
  have "book_keys db' = filter (\<lambda>k. fst k \<noteq> i) (book_keys db)"
    using inv map_del_first_key[of "is_order i" "\<lambda>ord. (lo_id ord, lo_sell_price ord)" i "rows (limit_orders db)"]
    by (simp add: book_inv_def book_keys_def l t_remove_def is_order_def comp_def)
  then show ?thesis using inv l by (auto simp: book_inv_def t_remove_def uncrossed_def distinct_map_filter)
qed

lemma place_order:
  assumes "adjust_balance n d db = Inr db1" "create_order n i a p e db1 = Inr db2"
    and "apply_order (next_id (limit_orders db1)) db2 = Inr (f, db3)"
  shows "price_ok p \<Longrightarrow> book_inv db \<Longrightarrow> book_inv db3"
    and "(\<forall>l. part l d = - part l a) \<Longrightarrow> symbol a = symbol (base p) \<Longrightarrow> \<forall>l. gap l db3 = gap l db"
    and "trade_only db db3"
proof -
  note A = adjust_balance_trade[OF assms(1), of "limit_orders db2"]
  obtain t where db2: "db2 = db1\<lparr>limit_orders := t\<rparr>" and t: "next_id t = Suc (next_id (limit_orders db))"
    and keys: "book_keys db2 = book_keys db @ [(next_id (limit_orders db), p)]"
    using assms(2) A by (auto simp: create_order_def t_create_Inr book_keys_def)
  show "book_inv db3" if "price_ok p" "book_inv db"
  proof -
    have "set (book_keys db3) \<subseteq> set (book_keys db2) \<and> distinct (map fst (book_keys db3)) \<and> uncrossed (set (book_keys db3)) \<and>
        next_id (limit_orders db3) = next_id (limit_orders db2)"
    proof (intro apply_order_uncrosses[OF assms(3)])
      have "{k \<in> set (book_keys db2). fst k \<noteq> next_id (limit_orders db1)} \<subseteq> set (book_keys db)" using A by (auto simp: keys)
      then show "uncrossed {k \<in> set (book_keys db2). fst k \<noteq> next_id (limit_orders db1)}"
        using that(2) uncrossed_subset by (auto simp: book_inv_def)
    qed (use that A in \<open>auto simp: keys book_inv_def\<close>)
    moreover have "fst k < Suc (next_id (limit_orders db)) \<and> price_ok (snd k)" if "k \<in> set (book_keys db2)" for k
      using that \<open>price_ok p\<close> \<open>book_inv db\<close> by (auto simp: keys book_inv_def less_Suc_eq)
    ultimately show ?thesis using t db2 unfolding book_inv_def by auto
  qed
  show "\<forall>l. gap l db3 = gap l db" if "\<forall>l. part l d = - part l a" "symbol a = symbol (base p)"
  proof -
    have "gap l db2 = gap l db1 - part l a" for l
      using assms(2) that(2) by (auto simp: create_order_def order_part_def amount_for_sale_def part_def of_symbol_def dest!: t_create_dest)
    then show ?thesis using apply_order_conserves[OF assms(3)] A that(1) by simp
  qed
  show "trade_only db db3"
    using A apply_order_conserves[OF assms(3)] trade_only_trans[of db db2 db3] by (simp add: db2)
qed

lemma limit_order_create_form:
  assumes "limit_order_create_evaluator op db = Inr db'"
  obtains d db1 p e db2 f where "adjust_balance (oloc_owner op) d db = Inr db1" "\<forall>l. part l d = - part l (oloc_amount_to_sell op)"
    "create_order (oloc_owner op) (oloc_orderid op) (oloc_amount_to_sell op) p e db1 = Inr db2"
    "apply_order (next_id (limit_orders db1)) db2 = Inr (f, db')" "oloc_fill_or_kill op \<longrightarrow> f"
    "price_div (oloc_amount_to_sell op) (oloc_min_to_receive op) = Inr p"
    "p = \<lparr>base = oloc_amount_to_sell op, quote = oloc_min_to_receive op\<rparr>"
  using assms unfolding limit_order_create_evaluator_def Let_def
  by (auto simp: price_div_def mk_price_def dest!: asset_dest)

lemma limit_order_create2_form:
  assumes "limit_order_create2_evaluator op db = Inr db'"
  obtains d db1 e db2 f where "adjust_balance (oloc2_owner op) d db = Inr db1" "\<forall>l. part l d = - part l (oloc2_amount_to_sell op)"
    "create_order (oloc2_owner op) (oloc2_orderid op) (oloc2_amount_to_sell op) (oloc2_exchange_rate op) e db1 = Inr db2"
    "apply_order (next_id (limit_orders db1)) db2 = Inr (f, db')" "oloc2_fill_or_kill op \<longrightarrow> f"
  using assms unfolding limit_order_create2_evaluator_def Let_def
  by (auto dest!: asset_dest)

interpretation order_loop: draining next_expired_order "\<lambda>ord. cancel_order (lo_id ord)" "\<lambda>db. t_size (limit_orders db)"
proof
  fix ord db db'
  assume *: "next_expired_order db = Some ord" "cancel_order (lo_id ord) db = Inr db'"
  then show "t_size (limit_orders db') < t_size (limit_orders db)"
    using cancel_order_effect[OF *(2)] t_size_remove[of "is_order (lo_id ord)" "limit_orders db"] by (auto simp: find_order_def)
next
  fix ord db
  assume "next_expired_order db = Some ord"
  then show "0 < t_size (limit_orders db)" by (auto simp: next_expired_order_def t_size_def dest: t_due_Some)
qed

lemma clear_expired_orders_inv:
  "clear_expired_orders db = Inr db' \<Longrightarrow> book_inv db \<Longrightarrow> book_inv db'"
  "clear_expired_orders db = Inr db' \<Longrightarrow> gap l db' = gap l db"
  unfolding clear_expired_orders_def
   apply (erule drain_invariant, assumption, erule (1) cancel_order_inv)
  by (erule drain_invariant[where I = "\<lambda>s. gap l s = gap l db"]) (auto dest!: cancel_order_effect)

lemma market_step_keeps:
  assumes "market_step db db'"
  shows "(book_inv db \<longrightarrow> book_inv db') \<and> gap l db' = gap l db"
  using assms
proof cases
  case (place op)
  from place(4) show ?thesis
  proof (rule limit_order_create_form)
    fix d db1 p e db2 f
    assume a: "adjust_balance (oloc_owner op) d db = Inr db1" "\<forall>l. part l d = - part l (oloc_amount_to_sell op)"
      "create_order (oloc_owner op) (oloc_orderid op) (oloc_amount_to_sell op) p e db1 = Inr db2"
      "apply_order (next_id (limit_orders db1)) db2 = Inr (f, db')"
      and pd: "price_div (oloc_amount_to_sell op) (oloc_min_to_receive op) = Inr p"
      and p: "p = \<lparr>base = oloc_amount_to_sell op, quote = oloc_min_to_receive op\<rparr>"
    have "price_ok p" using pd place(2,3) by (auto simp: p price_div_def mk_price_def price_validate_def price_ok_def)
    then show ?thesis using place_order[OF a(1,3,4)] a(2) by (simp add: p)
  qed
next
  case (place2 op)
  have ok: "price_ok (oloc2_exchange_rate op)" "symbol (oloc2_amount_to_sell op) = symbol (base (oloc2_exchange_rate op))"
    using place2(1-3) by (auto simp: limit_order_create2_validate_def price_ok_def price_validate_def)
  from place2(4) show ?thesis
    by (rule limit_order_create2_form) (use place_order ok in metis)
next
  case (cancel op)
  then show ?thesis using cancel_order_inv cancel_order_effect by (fastforce simp: limit_order_cancel_evaluator_def)
next
  case expire
  then show ?thesis using clear_expired_orders_inv by blast
qed

section \<open>Properties of the market\<close>

text \<open>
  C1. The book is never crossed, and trading conserves every ledger: from a book in which no two orders
  could trade with each other, any sequence of placing, cancelling and expiring orders leads to such a
  book, with every recorded supply as far from the sum of its holdings as before.
\<close>

theorem market_never_crossed:
  assumes "rtranclp market_step db db'" "book_inv db"
  shows "book_inv db' \<and> gap l db' = gap l db"
  using assms(1)
proof (induction rule: rtranclp_induct)
  case (step db1 db2)
  then show ?case using market_step_keeps[OF step(2), of l] by simp
qed (simp add: assms(2))

text \<open>A concrete market: one resting order that gives 5 dollars for a token, and a new one that asks 4.\<close>

definition resting_order :: limit_order_object where
  "resting_order = \<lparr>lo_id = 0, lo_created = 0, lo_expiration = 100, lo_seller = ''temp'', lo_orderid = 1,
     lo_for_sale = 500, lo_sell_price = \<lparr>base = GBD 500, quote = GBC 100\<rparr>\<rparr>"

definition market_db :: "limit_order_object list \<Rightarrow> database" where
  "market_db os = empty_database\<lparr>accounts := \<lparr>next_id = 2, rows =
     [(new_account 0)\<lparr>a_name := ''initminer'', a_balance := GBC 1000\<rparr>, (new_account 1)\<lparr>a_name := ''temp''\<rparr>]\<rparr>,
     limit_orders := \<lparr>next_id = length os, rows = os\<rparr>, dgpo := new_dgpo\<rparr>"

definition example_order :: limit_order_create_operation where
  "example_order = \<lparr>oloc_owner = ''initminer'', oloc_orderid = 7, oloc_amount_to_sell = GBC 50, oloc_min_to_receive = GBD 200,
     oloc_fill_or_kill = True, oloc_expiration = 90\<rparr>"

lemma example_values:
  "asset_times_price (GBD 500) \<lparr>base = GBD 500, quote = GBC 100\<rparr> = Inr (GBC 100)"
  "asset_times_price (GBC 50) \<lparr>base = GBD 500, quote = GBC 100\<rparr> = Inr (GBD 250)"
  "asset_times_price (GBD 250) \<lparr>base = GBD 500, quote = GBC 100\<rparr> = Inr (GBC 50)"
  using asset_times_price_base[of "GBD 500" "\<lparr>base = GBD 500, quote = GBC 100\<rparr>"]
    asset_times_price_quote[of "GBC 50" "\<lparr>base = GBD 500, quote = GBC 100\<rparr>"]
    asset_times_price_base[of "GBD 250" "\<lparr>base = GBD 500, quote = GBC 100\<rparr>"]
  by (simp_all add: price_validate_def int64_max_def int64_of_quotient_def)

lemmas market_run = concrete order_of_def is_order_def find_order_def create_order_def order_clash_def t_create_def
  price_div_def mk_price_def price_validate_def apply_order_def price_inv_def price_max_def GAMEBANK_MAX_SATOSHIS_def
  order_book_def sort_by_def by_price_def walk_range_def price_less_def price_mults_def same_market_def symbol_pair_less_def
  match_def fill_order_def cancel_order_def amount_for_sale_def amount_to_receive_def asset_le_def asset_less_def throw_unless_def

lemma place_run:
  "\<exists>db'. limit_order_create_evaluator example_order (market_db [resting_order]) = Inr db' \<and>
     map lo_for_sale (rows (limit_orders db')) = [250]"
  by (rule returningD, simp add: returning_def limit_order_create_evaluator_def example_order_def market_db_def resting_order_def
      market_run example_values GAMEBANK_HARDFORK_0_1_TIME_def GAMEBANK_MAX_LIMIT_ORDER_EXPIRATION_def cong: eager)

theorem market_never_crossed_witness:
  "\<exists>db'. rtranclp market_step (market_db [resting_order]) db' \<and> book_inv db' \<and> gap Dollar db' = gap Dollar (market_db [resting_order]) \<and>
     map lo_for_sale (rows (limit_orders db')) = [250]"
proof -
  obtain db' where r: "limit_order_create_evaluator example_order (market_db [resting_order]) = Inr db'"
    and e: "map lo_for_sale (rows (limit_orders db')) = [250]" using place_run by (elim exE conjE)
  have "market_step (market_db [resting_order]) db'"
    by (rule place[OF _ _ _ r]) (simp_all add: limit_order_create_validate_def example_order_def validate_account_name_def valid_names
        market_run must_def)
  then have s: "rtranclp market_step (market_db [resting_order]) db'" by (rule r_into_rtranclp)
  have "book_inv (market_db [resting_order])"
    by (simp add: book_inv_def book_keys_def market_db_def resting_order_def price_ok_def uncrossed_def crosses_def GAMEBANK_MAX_SATOSHIS_def)
  from market_never_crossed[OF s this, of Dollar] show ?thesis by (intro exI[of _ db'] conjI s e) simp_all
qed

text \<open>The arithmetic of a match, when the new order or the old one is used up.\<close>

lemma div_bounds: "0 < y \<Longrightarrow> (x div y) * y \<le> x \<and> x < (x div y + 1) * y" for x y :: int
proof -
  assume y: "0 < y"
  have e: "(x div y) * y + x mod y = x" by (rule div_mult_mod_eq)
  have "(x div y + 1) * y = (x div y) * y + y" by (simp add: distrib_right)
  then show ?thesis using e pos_mod_bound[OF y, of x] pos_mod_sign[OF y, of x] by linarith
qed

lemma new_used_up:
  fixes N M bo qo bn qn :: int
  assumes pos: "0 < N" "0 < bo" "0 < qo" "0 < bn" and cr: "qo * qn \<le> bo * bn" and le: "N \<le> M * qo div bo"
  shows "0 \<le> N * bo div qo" "N * bo div qo \<le> M" "N * qn < (N * bo div qo + 1) * bn" "(N * bo div qo) * qo < (N + 1) * bo"
proof -
  have d: "(N * bo div qo) * qo \<le> N * bo" "N * bo < (N * bo div qo + 1) * qo" using div_bounds[OF pos(3)] by auto
  show "0 \<le> N * bo div qo" using pos by (simp add: pos_imp_zdiv_nonneg_iff)
  have "N * bo \<le> (M * qo div bo) * bo" using le pos(2) by (simp add: mult_right_mono)
  also have "\<dots> \<le> M * qo" using div_bounds[OF pos(2)] by blast
  finally have "N * bo div qo \<le> M * qo div qo" using pos(3) by (rule zdiv_mono1)
  then show "N * bo div qo \<le> M" using pos(3) by simp
  have "(N * qn) * qo \<le> N * (bo * bn)" using mult_left_mono[OF cr, of N] pos by (simp add: mult_ac)
  also have "\<dots> = (N * bo) * bn" by simp
  also have "\<dots> < ((N * bo div qo + 1) * qo) * bn" using d(2) pos(4) by (rule mult_strict_right_mono)
  finally have "(N * qn) * qo < ((N * bo div qo + 1) * bn) * qo" by (simp add: mult_ac)
  then show "N * qn < (N * bo div qo + 1) * bn" using pos(3) by (simp add: mult_less_cancel_right)
  show "(N * bo div qo) * qo < (N + 1) * bo" using d(1) pos(2) by (simp add: distrib_right)
qed

lemma old_used_up:
  fixes M bo qo bn qn :: int
  assumes pos: "0 < M" "0 < bo" "0 < qo" "0 < bn" "0 < qn" and cr: "qo * qn \<le> bo * bn"
  shows "0 \<le> M * qo div bo" "(M * qo div bo) * qn < (M + 1) * bn" "M * qo < (M * qo div bo + 1) * bo"
proof -
  have d: "(M * qo div bo) * bo \<le> M * qo" "M * qo < (M * qo div bo + 1) * bo" using div_bounds[OF pos(2)] by auto
  show "0 \<le> M * qo div bo" using pos by (simp add: pos_imp_zdiv_nonneg_iff)
  have "((M * qo div bo) * qn) * bo = ((M * qo div bo) * bo) * qn" by simp
  also have "\<dots> \<le> (M * qo) * qn" using d(1) pos(5) by (simp add: mult_right_mono)
  also have "\<dots> \<le> M * (bo * bn)" using mult_left_mono[OF cr, of M] pos by (simp add: mult_ac)
  finally have "((M * qo div bo) * qn) * bo \<le> (M * bn) * bo" by (simp add: mult_ac)
  then have "(M * qo div bo) * qn \<le> M * bn" using pos(2) by (simp add: mult_le_cancel_right)
  then show "(M * qo div bo) * qn < (M + 1) * bn" using pos(4) by (simp add: distrib_right)
  show "M * qo < (M * qo div bo + 1) * bo" by (rule d(2))
qed

text \<open>
  C21. A trade respects both limits up to rounding: in a match of two crossing orders, at the price of the
  order that was there first, neither order gives more than it offers, and each receives at least what
  its own price asks for what it pays, less a fraction of one unit.
\<close>

theorem match_respects_limits:
  assumes m: "match n i (lo_sell_price old) db = Inr ((f1, f2), db')"
    and f: "find_order n db = Some new" "find_order i db = Some old"
    and ok: "price_ok (lo_sell_price new)" "price_ok (lo_sell_price old)" "crosses (lo_sell_price old) (lo_sell_price new)"
    and pos: "0 < lo_for_sale new" "lo_for_sale new \<le> int64_max" "0 < lo_for_sale old" "lo_for_sale old \<le> int64_max"
    and fits: "lo_for_sale old * amount (quote (lo_sell_price old)) div amount (base (lo_sell_price old)) \<le> int64_max"
  shows "\<exists>pays receives db1. fill_order n pays receives db = Inr (f1, db1) \<and> fill_order i receives pays db1 = Inr (f2, db') \<and>
    0 \<le> amount pays \<and> amount pays \<le> lo_for_sale new \<and> 0 \<le> amount receives \<and> amount receives \<le> lo_for_sale old \<and>
    amount pays * amount (quote (lo_sell_price new)) < (amount receives + 1) * amount (base (lo_sell_price new)) \<and>
    amount receives * amount (quote (lo_sell_price old)) < (amount pays + 1) * amount (base (lo_sell_price old))"
proof -
  let ?bo = "amount (base (lo_sell_price old))" and ?qo = "amount (quote (lo_sell_price old))"
  let ?bn = "amount (base (lo_sell_price new))" and ?qn = "amount (quote (lo_sell_price new))"
  note P = ok[unfolded price_ok_def]
  have v: "price_validate (lo_sell_price old) = Inr ()" using P(2) by (simp add: price_validate_def)
  have b: "?bo \<le> int64_max" "?qo \<le> int64_max" using P(2) by (simp_all add: GAMEBANK_MAX_SATOSHIS_def int64_max_def)
  have sy: "symbol (base (lo_sell_price old)) = symbol (quote (lo_sell_price new))"
    "symbol (quote (lo_sell_price old)) = symbol (base (lo_sell_price new))" and cr: "?qo * ?qn \<le> ?bo * ?bn"
    using ok(3) by (simp_all add: crosses_def)
  have big: "int64_max = 2 ^ 63 - 1" by (simp add: int64_max_def)
  have worth: "asset_times_price (amount_for_sale old) (lo_sell_price old) =
      Inr (mk_asset (lo_for_sale old * ?qo div ?bo) (symbol (quote (lo_sell_price old))))"
    using asset_times_price_base[of "amount_for_sale old" "lo_sell_price old"] v b pos fits
    by (simp add: amount_for_sale_def int64_of_quotient_def big)
  obtain pays receives db1 where fo: "fill_order n pays receives db = Inr (f1, db1)" "fill_order i receives pays db1 = Inr (f2, db')"
    and c: "(\<exists>worth. pays = amount_for_sale new \<and> asset_times_price pays (lo_sell_price old) = Inr receives \<and>
       asset_times_price (amount_for_sale old) (lo_sell_price old) = Inr worth \<and> amount pays \<le> amount worth) \<or>
     receives = amount_for_sale old \<and> asset_times_price receives (lo_sell_price old) = Inr pays \<and> amount pays < lo_for_sale new"
    using match_form[OF m] f by (metis option.inject)
  have goal: "0 \<le> amount pays \<and> amount pays \<le> lo_for_sale new \<and> 0 \<le> amount receives \<and> amount receives \<le> lo_for_sale old \<and>
    amount pays * ?qn < (amount receives + 1) * ?bn \<and> amount receives * ?qo < (amount pays + 1) * ?bo"
    using c
  proof (elim disjE exE conjE)
    fix w
    assume p: "pays = amount_for_sale new" and r: "asset_times_price pays (lo_sell_price old) = Inr receives"
      and w: "asset_times_price (amount_for_sale old) (lo_sell_price old) = Inr w" "amount pays \<le> amount w"
    have "lo_for_sale new \<le> lo_for_sale old * ?qo div ?bo" using w worth p by (simp add: amount_for_sale_def)
    then have A: "0 \<le> lo_for_sale new * ?bo div ?qo" "lo_for_sale new * ?bo div ?qo \<le> lo_for_sale old"
      "lo_for_sale new * ?qn < (lo_for_sale new * ?bo div ?qo + 1) * ?bn"
      "(lo_for_sale new * ?bo div ?qo) * ?qo < (lo_for_sale new + 1) * ?bo"
      using P pos cr by (intro new_used_up; simp)+
    then have "receives = mk_asset (lo_for_sale new * ?bo div ?qo) (symbol (base (lo_sell_price old)))"
      using asset_times_price_quote[of pays "lo_sell_price old"] v b pos r sy
      by (simp add: p amount_for_sale_def int64_of_quotient_def big)
    then show ?thesis using A pos by (simp add: p amount_for_sale_def)
  next
    assume r: "receives = amount_for_sale old" and p: "asset_times_price receives (lo_sell_price old) = Inr pays"
      and l: "amount pays < lo_for_sale new"
    have "amount pays = lo_for_sale old * ?qo div ?bo" using p worth r by auto
    then show ?thesis using old_used_up[of "lo_for_sale old" ?bo ?qo ?bn ?qn] P pos cr l by (simp add: r amount_for_sale_def)
  qed
  show ?thesis using fo goal by blast
qed

text \<open>
  The expiry sweep is complete: after \<^verbatim>\<open>clear_expired_orders\<close> no order whose time is up is left, and
  every ledger is as before.
\<close>

theorem clear_expired_orders_complete:
  assumes "clear_expired_orders db = Inr db'"
  shows "(\<forall>ord \<in> set (rows (limit_orders db')). head_block_time db' \<le> lo_expiration ord) \<and> gap l db' = gap l db"
proof -
  have n: "next_expired_order db' = None"
    using order_loop.drained[OF _ assms[unfolded clear_expired_orders_def]] by simp
  have "\<not> lo_expiration ord < head_block_time db'" if "ord \<in> set (rows (limit_orders db'))" for ord
    using n unfolding next_expired_order_def by (rule t_due_None[OF _ _ that]) auto
  then show ?thesis using clear_expired_orders_inv(2)[OF assms] by (auto simp: not_less)
qed

definition incoming_order :: limit_order_object where
  "incoming_order = \<lparr>lo_id = 1, lo_created = 0, lo_expiration = 90, lo_seller = ''initminer'', lo_orderid = 7,
     lo_for_sale = 50, lo_sell_price = \<lparr>base = GBC 50, quote = GBD 200\<rparr>\<rparr>"

theorem match_respects_limits_witness:
  "\<exists>db' pays receives db1. match 1 0 (lo_sell_price resting_order) (market_db [resting_order, incoming_order]) = Inr ((True, False), db') \<and>
     fill_order 1 pays receives (market_db [resting_order, incoming_order]) = Inr (True, db1) \<and>
     amount receives * 100 < (amount pays + 1) * 500"
proof -
  let ?db = "market_db [resting_order, incoming_order]"
  have "\<exists>x. match 1 0 (lo_sell_price resting_order) ?db = Inr x \<and> fst x = (True, False)"
    by (rule returningD, simp add: returning_def resting_order_def incoming_order_def market_db_def market_run example_values cong: eager)
  then obtain db' where m: "match 1 0 (lo_sell_price resting_order) ?db = Inr ((True, False), db')" by auto
  have f: "find_order 1 ?db = Some incoming_order" "find_order 0 ?db = Some resting_order"
    by (simp_all add: find_order_def t_find_def is_order_def market_db_def resting_order_def incoming_order_def)
  from match_respects_limits[OF m f] obtain pays receives db1 where
    "fill_order 1 pays receives ?db = Inr (True, db1)" "amount receives * 100 < (amount pays + 1) * 500"
    by (auto simp: price_ok_def crosses_def resting_order_def incoming_order_def GAMEBANK_MAX_SATOSHIS_def int64_max_def)
  then show ?thesis using m by blast
qed

theorem clear_expired_orders_complete_witness:
  "\<exists>db'. clear_expired_orders (market_db [resting_order\<lparr>lo_expiration := 0\<rparr>]\<lparr>dgpo := new_dgpo\<lparr>dgp_time := 5\<rparr>\<rparr>) = Inr db' \<and>
     resting_order\<lparr>lo_expiration := 0\<rparr> \<notin> set (rows (limit_orders db'))"
proof -
  let ?db = "market_db [resting_order\<lparr>lo_expiration := 0\<rparr>]\<lparr>dgpo := new_dgpo\<lparr>dgp_time := 5\<rparr>\<rparr>"
  have "\<exists>db'. clear_expired_orders ?db = Inr db' \<and> head_block_time db' = 5"
    by (rule returningD, simp add: returning_def clear_expired_orders_def next_expired_order_def market_db_def resting_order_def market_run cong: eager)
  then obtain db' where "clear_expired_orders ?db = Inr db'" "head_block_time db' = 5" by (elim exE conjE)
  then show ?thesis using clear_expired_orders_complete[of ?db db' Liquid] by auto
qed

text \<open>
  Outside the bounds of \<open>price_ok\<close> the range can be empty with its start behind its end: an order that
  asks for more than the largest amount per unit, against a resting order priced above that amount but
  below what the new order asks. Both prices pass \<^verbatim>\<open>price::validate\<close>.
\<close>

lemma extreme_price_leaves_book:
  "walk_range \<lparr>base = GBD GAMEBANK_MAX_SATOSHIS, quote = GBC 1\<rparr> \<lparr>base = GBD int64_max, quote = GBC 1\<rparr>
     [resting_order\<lparr>lo_sell_price := \<lparr>base = GBD 4611686018427387905, quote = GBC 1\<rparr>\<rparr>] = ([], True)"
  by (simp add: walk_range_def price_less_def same_market_def price_mults_def resting_order_def GAMEBANK_MAX_SATOSHIS_def int64_max_def)

end
