(* ===== verification/Ledger.thy ===== *)
theory Ledger
  imports Market
begin

text \<open>
  \<^verbatim>\<open>database::validate_invariants\<close>: the node's own audit. It adds up every holding with checked
  arithmetic and compares the totals with the global properties. The theorem says that an audit that
  returns shows exactly what the other theories preserve: every ledger balances.
\<close>

record totals =
  total_supply :: asset
  total_gbd :: asset
  total_vesting :: asset
  pending_vesting_gbc :: asset
  total_vsf_votes :: share_type

definition add_supply :: "asset \<Rightarrow> totals \<Rightarrow> totals result" where
  "add_supply a t = bindE (asset_add (total_supply t) a) (\<lambda>x. Inr (t\<lparr>total_supply := x\<rparr>))"

definition add_gbd :: "asset \<Rightarrow> totals \<Rightarrow> totals result" where
  "add_gbd a t = bindE (asset_add (total_gbd t) a) (\<lambda>x. Inr (t\<lparr>total_gbd := x\<rparr>))"

definition add_vesting :: "asset \<Rightarrow> totals \<Rightarrow> totals result" where
  "add_vesting a t = bindE (asset_add (total_vesting t) a) (\<lambda>x. Inr (t\<lparr>total_vesting := x\<rparr>))"

definition add_pending :: "asset \<Rightarrow> totals \<Rightarrow> totals result" where
  "add_pending a t = bindE (asset_add (pending_vesting_gbc t) a) (\<lambda>x. Inr (t\<lparr>pending_vesting_gbc := x\<rparr>))"

text \<open>Either currency, any other symbol being illegal.\<close>

definition add_either :: "asset \<Rightarrow> totals \<Rightarrow> totals result" where
  "add_either a t =
     (if symbol a = GBC_SYMBOL then add_supply a t
      else if symbol a = GBD_SYMBOL then add_gbd a t
      else Inl assert_exception)"

definition count_votes :: "account_object \<Rightarrow> totals \<Rightarrow> totals result" where
  "count_votes a t =
     bindE (if a_proxy a = '''' then witness_vote_weight a
            else Inr (a_proxied_vsf_votes a ! (GAMEBANK_MAX_PROXY_RECURSION_DEPTH - 1))) (\<lambda>w.
     bindE (safe_add (total_vsf_votes t) w) (\<lambda>v. Inr (t\<lparr>total_vsf_votes := v\<rparr>)))"

definition count_account :: "account_object \<Rightarrow> totals \<Rightarrow> totals result" where
  "count_account a t =
     bindE (add_supply (a_balance a) t) (\<lambda>t.
     bindE (add_supply (a_savings_balance a) t) (\<lambda>t.
     bindE (add_supply (a_reward_gbc_balance a) t) (\<lambda>t.
     bindE (add_gbd (a_gbd_balance a) t) (\<lambda>t.
     bindE (add_gbd (a_savings_gbd_balance a) t) (\<lambda>t.
     bindE (add_gbd (a_reward_gbd_balance a) t) (\<lambda>t.
     bindE (add_vesting (a_vesting_shares a) t) (\<lambda>t.
     bindE (add_vesting (a_reward_vesting_balance a) t) (\<lambda>t.
     bindE (add_pending (a_reward_vesting_gbc a) t) (\<lambda>t. count_votes a t)))))))))"

definition count_order :: "limit_order_object \<Rightarrow> totals \<Rightarrow> totals result" where
  "count_order ord t =
     (if symbol (base (lo_sell_price ord)) = GBC_SYMBOL then add_supply (GBC (lo_for_sale ord)) t
      else if symbol (base (lo_sell_price ord)) = GBD_SYMBOL then add_gbd (GBD (lo_for_sale ord)) t
      else Inr t)"

definition count_escrow :: "escrow_object \<Rightarrow> totals \<Rightarrow> totals result" where
  "count_escrow e t =
     bindE (add_supply (esc_gbc_balance e) t) (\<lambda>t.
     bindE (add_gbd (esc_gbd_balance e) t) (\<lambda>t. add_either (esc_pending_fee e) t))"

definition count_all :: "database \<Rightarrow> totals result" where
  "count_all db =
     bindE (foldE count_account (sort_key a_name (rows (accounts db)))
              \<lparr>total_supply = GBC 0, total_gbd = GBD 0, total_vesting = GBS 0, pending_vesting_gbc = GBC 0, total_vsf_votes = 0\<rparr>) (\<lambda>t.
     bindE (foldE (\<lambda>c. add_either (cr_amount c)) (rows (convert_requests db)) t) (\<lambda>t.
     bindE (foldE count_order (rows (limit_orders db)) t) (\<lambda>t.
     bindE (foldE count_escrow (rows (escrows db)) t) (\<lambda>t.
     bindE (foldE (\<lambda>s. add_either (sw_amount s)) (rows (savings_withdraws db)) t) (\<lambda>t.
     bindE (foldE (\<lambda>f. add_supply (rf_reward_balance f)) (rows (reward_funds db)) t) (\<lambda>t.
     bindE (asset_add (total_vesting_fund_gbc (dgpo db)) (total_reward_fund_gbc (dgpo db))) (\<lambda>x.
     bindE (asset_add x (pending_rewarded_vesting_gbc (dgpo db))) (\<lambda>x.
       add_supply x t))))))))"

definition validate_invariants :: "database \<Rightarrow> unit result" where
  "validate_invariants db =
     (let gpo = dgpo db in
      fc_assert (list_all (\<lambda>w. w_votes w \<le> amount (total_vesting_shares gpo)) (rows (witnesses db)))
      (bindE (count_all db) (\<lambda>t.
       fc_assert (current_supply gpo = total_supply t)
       (fc_assert (current_gbd_supply gpo = total_gbd t)
       (bindE (asset_add (total_vesting_shares gpo) (pending_rewarded_vesting_shares gpo)) (\<lambda>vs.
        fc_assert (vs = total_vesting t)
       (fc_assert (amount (total_vesting_shares gpo) = total_vsf_votes t)
       (fc_assert (pending_rewarded_vesting_gbc gpo = pending_vesting_gbc t)
       (fc_assertE (asset_ge (virtual_supply gpo) (current_supply gpo))
       (if \<not> is_null (fh_current_median_history (feed_history db)) then
          bindE (asset_times_price (current_gbd_supply gpo) (fh_current_median_history (feed_history db))) (\<lambda>x.
          bindE (asset_add x (current_supply gpo)) (\<lambda>y. fc_assert (y = virtual_supply gpo) (Inr ())))
        else Inr ()))))))))))"

section \<open>The totals are the holdings\<close>

definition total_of :: "ledger \<Rightarrow> totals \<Rightarrow> int" where
  "total_of l t = part l (total_supply t) + part l (total_gbd t) + part l (total_vesting t) +
     (if l = Pending then amount (pending_vesting_gbc t) else 0)"

lemma foldE_sum:
  fixes m :: "'s \<Rightarrow> int"
  assumes "foldE f xs s = Inr s'" "\<And>x s s'. x \<in> set xs \<Longrightarrow> f x s = Inr s' \<Longrightarrow> m s' = m s + g x"
  shows "m s' = m s + sum_list (map g xs)"
  using assms
proof (induction xs arbitrary: s)
  case (Cons x xs)
  then obtain t where "f x s = Inr t" "foldE f xs t = Inr s'" by auto
  then show ?case using Cons.IH[of t] Cons.prems(2) by simp
qed simp

lemma add_total:
  "add_supply a t = Inr t' \<Longrightarrow> total_of l t' = total_of l t + part l a"
  "add_gbd a t = Inr t' \<Longrightarrow> total_of l t' = total_of l t + part l a"
  "add_vesting a t = Inr t' \<Longrightarrow> total_of l t' = total_of l t + part l a"
  "add_pending a t = Inr t' \<Longrightarrow> total_of l t' = total_of l t + (if l = Pending then amount a else 0)"
  "count_votes c t = Inr t' \<Longrightarrow> total_of l t' = total_of l t"
  by (auto simp: total_of_def add_supply_def add_gbd_def add_vesting_def add_pending_def count_votes_def dest!: asset_dest)

lemma add_either_total: "add_either a t = Inr t' \<Longrightarrow> total_of l t' = total_of l t + part l a"
  by (auto simp: add_either_def add_total split: if_splits)

lemma count_account_total: "count_account a t = Inr t' \<Longrightarrow> total_of l t' = total_of l t + account_part l a"
  by (auto simp: count_account_def account_part_def add_total)

lemma count_order_total:
  "count_order ord t = Inr t' \<Longrightarrow> symbol (base (lo_sell_price ord)) \<noteq> GBS_SYMBOL \<Longrightarrow> total_of l t' = total_of l t + order_part l ord"
  by (cases l) (auto simp: count_order_def order_part_def amount_for_sale_def add_total part_def of_symbol_def split: if_splits)

lemma count_escrow_total: "count_escrow e t = Inr t' \<Longrightarrow> total_of l t' = total_of l t + escrow_part l e"
  by (auto simp: count_escrow_def escrow_part_def add_total add_either_total)

lemma sum_sort_key: "sum_list (map g (sort_key k xs)) = sum_list (map (g :: 'a \<Rightarrow> int) xs)"
proof -
  have "sum_list (map g (insort_key k x ys)) = g x + sum_list (map g ys)" for x ys by (induction ys) auto
  then show ?thesis by (induction xs) auto
qed

lemma count_all_total:
  assumes "count_all db = Inr t" "\<forall>ord \<in> set (rows (limit_orders db)). symbol (base (lo_sell_price ord)) \<noteq> GBS_SYMBOL"
  shows "total_of l t = t_sum (account_part l) (accounts db) + t_sum (\<lambda>c. part l (cr_amount c)) (convert_requests db) +
    t_sum (order_part l) (limit_orders db) + t_sum (escrow_part l) (escrows db) + t_sum (\<lambda>s. part l (sw_amount s)) (savings_withdraws db) +
    t_sum (\<lambda>f. part l (rf_reward_balance f)) (reward_funds db) +
    part l (total_vesting_fund_gbc (dgpo db)) + part l (total_reward_fund_gbc (dgpo db)) + part l (pending_rewarded_vesting_gbc (dgpo db))"
proof -
  let ?t0 = "\<lparr>total_supply = GBC 0, total_gbd = GBD 0, total_vesting = GBS 0, pending_vesting_gbc = GBC 0, total_vsf_votes = 0\<rparr>"
  obtain t1 t2 t3 t4 t5 t6 x y where
    1: "foldE count_account (sort_key a_name (rows (accounts db))) ?t0 = Inr t1"
    and 2: "foldE (\<lambda>c. add_either (cr_amount c)) (rows (convert_requests db)) t1 = Inr t2"
    and 3: "foldE count_order (rows (limit_orders db)) t2 = Inr t3"
    and 4: "foldE count_escrow (rows (escrows db)) t3 = Inr t4"
    and 5: "foldE (\<lambda>s. add_either (sw_amount s)) (rows (savings_withdraws db)) t4 = Inr t5"
    and 6: "foldE (\<lambda>f. add_supply (rf_reward_balance f)) (rows (reward_funds db)) t5 = Inr t6"
    and 7: "asset_add (total_vesting_fund_gbc (dgpo db)) (total_reward_fund_gbc (dgpo db)) = Inr x"
      "asset_add x (pending_rewarded_vesting_gbc (dgpo db)) = Inr y" "add_supply y t6 = Inr t"
    using assms(1) by (auto simp: count_all_def)
  have "total_of l ?t0 = 0" by (simp add: total_of_def part_def)
  moreover have "total_of l t1 = total_of l ?t0 + t_sum (account_part l) (accounts db)"
    using foldE_sum[where m = "total_of l", OF 1 count_account_total] by (simp add: t_sum_def sum_sort_key)
  moreover have "total_of l t2 = total_of l t1 + t_sum (\<lambda>c. part l (cr_amount c)) (convert_requests db)"
    using foldE_sum[where m = "total_of l", OF 2 add_either_total] by (simp add: t_sum_def)
  moreover have "total_of l t3 = total_of l t2 + t_sum (order_part l) (limit_orders db)"
    using foldE_sum[where m = "total_of l", OF 3 count_order_total] assms(2) by (simp add: t_sum_def)
  moreover have "total_of l t4 = total_of l t3 + t_sum (escrow_part l) (escrows db)"
    using foldE_sum[where m = "total_of l", OF 4 count_escrow_total] by (simp add: t_sum_def)
  moreover have "total_of l t5 = total_of l t4 + t_sum (\<lambda>s. part l (sw_amount s)) (savings_withdraws db)"
    using foldE_sum[where m = "total_of l", OF 5 add_either_total] by (simp add: t_sum_def)
  moreover have "total_of l t6 = total_of l t5 + t_sum (\<lambda>f. part l (rf_reward_balance f)) (reward_funds db)"
    using foldE_sum[where m = "total_of l", OF 6 add_total(1)] by (simp add: t_sum_def)
  ultimately show ?thesis using add_total(1)[OF 7(3), of l] 7(1,2) by (auto dest!: asset_dest)
qed

text \<open>
  The votes an account puts behind witnesses in the end: its own shares and all that is proxied to it
  when it votes itself, and only what arrives at the last level, from where it goes no further, when it
  has a proxy.
\<close>

definition votes_behind :: "account_object \<Rightarrow> int" where
  "votes_behind a = (if a_proxy a = '''' then amount (a_vesting_shares a) + sum_list (a_proxied_vsf_votes a)
     else a_proxied_vsf_votes a ! (GAMEBANK_MAX_PROXY_RECURSION_DEPTH - 1))"

lemma vote_weight_sum: "witness_vote_weight a = Inr w \<Longrightarrow> w = amount (a_vesting_shares a) + sum_list (a_proxied_vsf_votes a)"
proof -
  assume h: "witness_vote_weight a = Inr w"
  show ?thesis
    using foldE_sum[where m = id and g = id, OF h[unfolded witness_vote_weight_def]] by (auto dest: safe_add_value)
qed

lemma add_votes:
  "add_supply x t = Inr t' \<Longrightarrow> total_vsf_votes t' = total_vsf_votes t"
  "add_gbd x t = Inr t' \<Longrightarrow> total_vsf_votes t' = total_vsf_votes t"
  "add_vesting x t = Inr t' \<Longrightarrow> total_vsf_votes t' = total_vsf_votes t"
  "add_pending x t = Inr t' \<Longrightarrow> total_vsf_votes t' = total_vsf_votes t"
  "add_either x t = Inr t' \<Longrightarrow> total_vsf_votes t' = total_vsf_votes t"
  "count_order ord t = Inr t' \<Longrightarrow> total_vsf_votes t' = total_vsf_votes t"
  "count_escrow e t = Inr t' \<Longrightarrow> total_vsf_votes t' = total_vsf_votes t"
  by (auto simp: add_supply_def add_gbd_def add_vesting_def add_pending_def add_either_def count_order_def count_escrow_def
      split: if_splits)

lemma count_account_votes: "count_account a t = Inr t' \<Longrightarrow> total_vsf_votes t' = total_vsf_votes t + votes_behind a"
  by (auto simp: count_account_def add_votes count_votes_def votes_behind_def split: if_splits dest!: safe_add_value vote_weight_sum)

lemma fold_votes:
  assumes "foldE f xs t = Inr t'" "\<And>x t t'. f x t = Inr t' \<Longrightarrow> total_vsf_votes t' = total_vsf_votes t"
  shows "total_vsf_votes t' = total_vsf_votes t"
  using foldE_sum[where m = total_vsf_votes and g = "\<lambda>_. 0", OF assms(1)] assms(2) by simp

lemma count_all_votes:
  assumes "count_all db = Inr t"
  shows "total_vsf_votes t = t_sum votes_behind (accounts db)"
proof -
  let ?t0 = "\<lparr>total_supply = GBC 0, total_gbd = GBD 0, total_vesting = GBS 0, pending_vesting_gbc = GBC 0, total_vsf_votes = 0\<rparr>"
  obtain t1 t2 t3 t4 t5 t6 y where 1: "foldE count_account (sort_key a_name (rows (accounts db))) ?t0 = Inr t1"
    and 2: "foldE (\<lambda>c. add_either (cr_amount c)) (rows (convert_requests db)) t1 = Inr t2"
    and 3: "foldE count_order (rows (limit_orders db)) t2 = Inr t3"
    and 4: "foldE count_escrow (rows (escrows db)) t3 = Inr t4"
    and 5: "foldE (\<lambda>s. add_either (sw_amount s)) (rows (savings_withdraws db)) t4 = Inr t5"
    and 6: "foldE (\<lambda>f. add_supply (rf_reward_balance f)) (rows (reward_funds db)) t5 = Inr t6" and 7: "add_supply y t6 = Inr t"
    using assms by (auto simp: count_all_def)
  have "total_vsf_votes t = total_vsf_votes t1"
    using fold_votes[OF 2 add_votes(5)] fold_votes[OF 3 add_votes(6)] fold_votes[OF 4 add_votes(7)] fold_votes[OF 5 add_votes(5)]
      fold_votes[OF 6 add_votes(1)] add_votes(1)[OF 7] by simp
  then show ?thesis using foldE_sum[where m = total_vsf_votes, OF 1 count_account_votes] by (simp add: t_sum_def sum_sort_key)
qed

lemma audited_gap:
  assumes "validate_invariants db = Inr ()" "\<forall>ord \<in> set (rows (limit_orders db)). symbol (base (lo_sell_price ord)) \<noteq> GBS_SYMBOL"
  shows "gap l db = 0"
proof -
  obtain t vs where c: "count_all db = Inr t" and e: "current_supply (dgpo db) = total_supply t" "current_gbd_supply (dgpo db) = total_gbd t"
    "asset_add (total_vesting_shares (dgpo db)) (pending_rewarded_vesting_shares (dgpo db)) = Inr vs" "vs = total_vesting t"
    "pending_rewarded_vesting_gbc (dgpo db) = pending_vesting_gbc t"
    using assms(1) by (auto simp: validate_invariants_def Let_def)
  have "part l (total_vesting t) = part l (total_vesting_shares (dgpo db)) + part l (pending_rewarded_vesting_shares (dgpo db))"
    using e(3,4) by (auto dest!: asset_dest)
  then show ?thesis using count_all_total[OF c assms(2), of l]
    unfolding gap_def supply_part_def total_of_def e(1) e(2) e(5) by linarith
qed

text \<open>
  C4. The audit is sound for what it counts. When \<^verbatim>\<open>validate_invariants\<close> returns, the tokens, dollars,
  vesting shares and pending reward tokens recorded in the global properties equal the exact sums over
  the objects the audit visits: accounts, conversions, orders, escrows, savings withdrawals, reward
  funds and the two funds of the global properties; the vesting shares equal all the votes behind
  witnesses; and no witness is credited with more votes than there are shares. The audit visits neither
  the investments of crowdfundings nor the tokens that a contract holds, so nothing follows about those
  (for the investments, see the theory of funds), and no orders that sell shares: there are none behind
  validated operations.
\<close>

theorem validate_invariants_sound:
  assumes "validate_invariants db = Inr ()" "\<forall>ord \<in> set (rows (limit_orders db)). symbol (base (lo_sell_price ord)) \<noteq> GBS_SYMBOL"
  shows "(\<forall>l. gap l db = 0) \<and> amount (total_vesting_shares (dgpo db)) = t_sum votes_behind (accounts db) \<and>
    (\<forall>w \<in> set (rows (witnesses db)). w_votes w \<le> t_sum votes_behind (accounts db))"
proof -
  obtain t where c: "count_all db = Inr t" and v: "amount (total_vesting_shares (dgpo db)) = total_vsf_votes t"
    and w: "\<forall>w \<in> set (rows (witnesses db)). w_votes w \<le> amount (total_vesting_shares (dgpo db))"
    using assms(1) by (auto simp: validate_invariants_def Let_def list_all_iff)
  then show ?thesis using audited_gap[OF assms] count_all_votes[OF c] by simp
qed

theorem validate_invariants_sound_witness:
  "validate_invariants (market_db []\<lparr>accounts := \<lparr>next_id = 1, rows = [(new_account 0)\<lparr>a_balance := GBC 7\<rparr>]\<rparr>,
      dgpo := new_dgpo\<lparr>current_supply := GBC 7, virtual_supply := GBC 7\<rparr>\<rparr>) = Inr () \<and>
   gap Liquid (market_db []\<lparr>accounts := \<lparr>next_id = 1, rows = [(new_account 0)\<lparr>a_balance := GBC 7\<rparr>]\<rparr>,
      dgpo := new_dgpo\<lparr>current_supply := GBC 7, virtual_supply := GBC 7\<rparr>\<rparr>) = 0"
proof -
  let ?db = "market_db []\<lparr>accounts := \<lparr>next_id = 1, rows = [(new_account 0)\<lparr>a_balance := GBC 7\<rparr>]\<rparr>,
      dgpo := new_dgpo\<lparr>current_supply := GBC 7, virtual_supply := GBC 7\<rparr>\<rparr>"
  have v: "validate_invariants ?db = Inr ()"
    by (simp add: validate_invariants_def count_all_def count_account_def count_votes_def add_supply_def add_gbd_def add_vesting_def
        add_pending_def market_db_def concrete witness_vote_weight_def proxied_vsf_votes_total_def is_null_def price_eq_def
        same_market_def price_mults_def null_price_def GAMEBANK_MAX_PROXY_RECURSION_DEPTH_def cong: eager)
  have "\<forall>ord \<in> set (rows (limit_orders ?db)). symbol (base (lo_sell_price ord)) \<noteq> GBS_SYMBOL" by (simp add: market_db_def)
  from validate_invariants_sound[OF v this] v show ?thesis by blast
qed

end
