(* ===== verification/Votes.thy ===== *)
theory Votes
  imports Ledger
begin

text \<open>
  Voting for witnesses: \<^verbatim>\<open>account_witness_vote_evaluator\<close>, \<^verbatim>\<open>account_witness_proxy_evaluator\<close> and
  \<^verbatim>\<open>decline_voting_rights_evaluator\<close> of src/libraries/chain/gamebank_evaluator.cpp, and
  \<^verbatim>\<open>process_decline_voting_rights\<close> of database.cpp.

  The witnesses hold a running count of votes that the code never recomputes: every change of a
  balance of shares, of a proxy or of a vote adjusts it. The lemmas show that the running count is
  exact: it is the sum of the weights of the accounts that approve the witness. The measure
  \<open>excess\<close> is the difference of the two; each primitive moves it by a known amount.
\<close>

section \<open>Evaluators\<close>

definition GAMEBANK_MAX_ACCOUNT_WITNESS_VOTES :: "16 word" where "GAMEBANK_MAX_ACCOUNT_WITNESS_VOTES = 30"
definition GAMEBANK_OWNER_AUTH_RECOVERY_PERIOD :: int where "GAMEBANK_OWNER_AUTH_RECOVERY_PERIOD = 30 * 86400"

definition vote_clash :: "witness_vote_object \<Rightarrow> witness_vote_object \<Rightarrow> bool" where
  "vote_clash v w \<longleftrightarrow> wv_account v = wv_account w \<and> wv_witness v = wv_witness w"

definition is_vote :: "account_name_type \<Rightarrow> account_name_type \<Rightarrow> witness_vote_object \<Rightarrow> bool" where
  "is_vote n w v \<longleftrightarrow> wv_account v = n \<and> wv_witness v = w"

definition account_witness_vote_evaluator :: "account_witness_vote_operation \<Rightarrow> database \<Rightarrow> database result" where
  "account_witness_vote_evaluator op db =
     bindE (get_account (oawv_account op) db) (\<lambda>voter.
      fc_assert (length (a_proxy voter) = 0)
      (fc_assert (oawv_approve op \<longrightarrow> a_can_vote voter)
      (bindE (get_witness (oawv_witness op) db) (\<lambda>wit.
       case t_find (is_vote (a_name voter) (w_owner wit)) (witness_votes db) of
         None \<Rightarrow>
           fc_assert (oawv_approve op)
           (fc_assert (a_witnesses_voted_for voter < GAMEBANK_MAX_ACCOUNT_WITNESS_VOTES)
           (bindE (t_create vote_clash (\<lambda>_. \<lparr>wv_witness = w_owner wit, wv_account = a_name voter\<rparr>)
                     (witness_votes db)) (\<lambda>t.
            bindE (witness_vote_weight voter) (\<lambda>weight.
            bindE (adjust_witness_vote (w_owner wit) weight (db\<lparr>witness_votes := t\<rparr>)) (\<lambda>db1.
              modify_account (a_name voter)
                (\<lambda>a. Inr (a\<lparr>a_witnesses_voted_for := a_witnesses_voted_for a + 1\<rparr>)) db1)))))
       | Some v \<Rightarrow>
           fc_assert (\<not> oawv_approve op)
           (bindE (witness_vote_weight voter) (\<lambda>weight.
            bindE (safe_neg weight) (\<lambda>delta.
            bindE (adjust_witness_vote (w_owner wit) delta db) (\<lambda>db1.
            bindE (modify_account (a_name voter)
                (\<lambda>a. Inr (a\<lparr>a_witnesses_voted_for := a_witnesses_voted_for a - 1\<rparr>)) db1) (\<lambda>db2.
              Inr (db2\<lparr>witness_votes := t_remove (is_vote (a_name voter) (w_owner wit)) (witness_votes db2)\<rparr>))))))))))"

text \<open>
  The negated array of what an account carries: its own shares, then what is proxied to it at each
  depth.
\<close>

fun negate_all :: "share_type list \<Rightarrow> share_type list result" where
  "negate_all [] = Inr []"
| "negate_all (x # xs) = bindE (safe_neg x) (\<lambda>y. bindE (negate_all xs) (\<lambda>ys. Inr (y # ys)))"

definition vote_delta :: "account_object \<Rightarrow> share_type list result" where
  "vote_delta a = negate_all (amount (a_vesting_shares a) # a_proxied_vsf_votes a)"

text \<open>
  The walk along the proxies of the new proxy. \<open>chain\<close> is the set of account ids met so far, without
  duplicates; the walk fails when it meets one of them again or when the set grows past the depth
  limit, which also bounds its length.
\<close>

function check_proxy_chain :: "nat list \<Rightarrow> account_object \<Rightarrow> database \<Rightarrow> unit result" where
  "check_proxy_chain chain cprox db =
     (if length (a_proxy cprox) = 0 then Inr ()
      else bindE (get_account (a_proxy cprox) db) (\<lambda>next_proxy.
        if a_id next_proxy \<in> set chain then Inl assert_exception
        else if length (a_id next_proxy # chain) > GAMEBANK_MAX_PROXY_RECURSION_DEPTH then Inl assert_exception
        else check_proxy_chain (a_id next_proxy # chain) next_proxy db))"
  by pat_completeness auto

termination
  by (relation "measure (\<lambda>(chain, cprox, db). 4 - length chain)") (auto simp: GAMEBANK_MAX_PROXY_RECURSION_DEPTH_def)

declare check_proxy_chain.simps [simp del]

definition account_witness_proxy_evaluator :: "account_witness_proxy_operation \<Rightarrow> database \<Rightarrow> database result" where
  "account_witness_proxy_evaluator op db =
     bindE (get_account (oawp_account op) db) (\<lambda>account.
      fc_assert (a_proxy account \<noteq> oawp_proxy op)
      (fc_assert (a_can_vote account)
      (bindE (vote_delta account) (\<lambda>delta.
       bindE (adjust_proxied_witness_votes_array (a_name account) delta 0 db) (\<lambda>db1.
        if length (oawp_proxy op) \<noteq> 0 then
          bindE (get_account (oawp_proxy op) db1) (\<lambda>new_proxy.
          bindE (check_proxy_chain (List.insert (a_id new_proxy) [a_id account]) new_proxy db1) (\<lambda>_.
          bindE (clear_witness_votes (a_name account) db1) (\<lambda>db2.
          bindE (modify_account (a_name account) (\<lambda>a. Inr (a\<lparr>a_proxy := oawp_proxy op\<rparr>)) db2) (\<lambda>db3.
          bindE (negate_all delta) (\<lambda>delta'.
            adjust_proxied_witness_votes_array (a_name account) delta' 0 db3)))))
        else modify_account (a_name account) (\<lambda>a. Inr (a\<lparr>a_proxy := oawp_proxy op\<rparr>)) db1)))))"

definition decline_clash :: "decline_voting_rights_request_object \<Rightarrow> decline_voting_rights_request_object \<Rightarrow> bool" where
  "decline_clash r s \<longleftrightarrow> dv_account r = dv_account s"

definition decline_voting_rights_evaluator :: "decline_voting_rights_operation \<Rightarrow> database \<Rightarrow> database result" where
  "decline_voting_rights_evaluator op db =
     bindE (get_account (odvr_account op) db) (\<lambda>account.
      let found = t_find (\<lambda>r. dv_account r = a_name account) (decline_requests db) in
      if odvr_decline op then
        fc_assert (found = None)
        (bindE (t_create decline_clash (\<lambda>_.
            \<lparr>dv_account = a_name account,
             dv_effective_date = plus_secs (head_block_time db) GAMEBANK_OWNER_AUTH_RECOVERY_PERIOD\<rparr>)
           (decline_requests db)) (\<lambda>t. Inr (db\<lparr>decline_requests := t\<rparr>)))
      else
        fc_assert (found \<noteq> None)
          (Inr (db\<lparr>decline_requests := t_remove (\<lambda>r. dv_account r = a_name account) (decline_requests db)\<rparr>)))"

definition next_decline :: "database \<Rightarrow> decline_voting_rights_request_object option" where
  "next_decline db =
     t_due (\<lambda>r. (dv_effective_date r, dv_account r)) (\<lambda>r. dv_effective_date r \<le> head_block_time db) (decline_requests db)"

definition decline_voting :: "decline_voting_rights_request_object \<Rightarrow> database \<Rightarrow> database result" where
  "decline_voting r db =
     bindE (get_account (dv_account r) db) (\<lambda>account.
     bindE (vote_delta account) (\<lambda>delta.
     bindE (adjust_proxied_witness_votes_array (a_name account) delta 0 db) (\<lambda>db1.
     bindE (clear_witness_votes (a_name account) db1) (\<lambda>db2.
     bindE (modify_account (a_name account) (\<lambda>a. Inr (a\<lparr>a_can_vote := False, a_proxy := ''''\<rparr>)) db2) (\<lambda>db3.
       Inr (db3\<lparr>decline_requests := t_remove (\<lambda>s. s = r) (decline_requests db3)\<rparr>))))))"

definition process_decline_voting_rights :: "database \<Rightarrow> database result" where
  "process_decline_voting_rights db = drain (t_size (decline_requests db)) next_decline decline_voting db"

section \<open>Weights and tallies\<close>

definition weight :: "account_object \<Rightarrow> int" where
  "weight a = amount (a_vesting_shares a) + sum_list (a_proxied_vsf_votes a)"

definition power_of :: "account_name_type \<Rightarrow> database \<Rightarrow> int" where
  "power_of n db = (case find_account n db of None \<Rightarrow> 0 | Some a \<Rightarrow> weight a)"

definition recorded :: "account_name_type \<Rightarrow> database \<Rightarrow> int" where
  "recorded w db = (case find_witness w db of None \<Rightarrow> 0 | Some x \<Rightarrow> w_votes x)"

text \<open>What the votes for a witness should add up to.\<close>

definition tally :: "account_name_type \<Rightarrow> database \<Rightarrow> int" where
  "tally w db = t_sum (\<lambda>v. if wv_witness v = w then power_of (wv_account v) db else 0) (witness_votes db)"

definition excess :: "account_name_type \<Rightarrow> database \<Rightarrow> int" where
  "excess w db = recorded w db - tally w db"

definition votes_for :: "account_name_type \<Rightarrow> account_name_type \<Rightarrow> database \<Rightarrow> int" where
  "votes_for n w db = t_sum (\<lambda>v. if is_vote n w v then 1 else 0) (witness_votes db)"

definition votes_cast :: "account_name_type \<Rightarrow> database \<Rightarrow> int" where
  "votes_cast n db = t_sum (\<lambda>v. if wv_account v = n then 1 else 0) (witness_votes db)"

text \<open>
  An account's own count of its votes is exact and within the limit, and an account that has a proxy
  or has given up its right to vote holds none.
\<close>

definition ballot_ok :: "database \<Rightarrow> account_object \<Rightarrow> bool" where
  "ballot_ok db a \<longleftrightarrow> length (a_proxied_vsf_votes a) = GAMEBANK_MAX_PROXY_RECURSION_DEPTH \<and>
     uint (a_witnesses_voted_for a) = votes_cast (a_name a) db \<and> votes_cast (a_name a) db \<le> 30 \<and>
     (a_proxy a \<noteq> '''' \<or> \<not> a_can_vote a \<longrightarrow> votes_cast (a_name a) db = 0)"

definition ballots_ok :: "database \<Rightarrow> bool" where
  "ballots_ok db \<longleftrightarrow> (\<forall>n a. find_account n db = Some a \<longrightarrow> ballot_ok db a) \<and>
     list_all (\<lambda>v. find_account (wv_account v) db \<noteq> None) (rows (witness_votes db))"

definition vote_inv :: "database \<Rightarrow> bool" where
  "vote_inv db \<longleftrightarrow> ballots_ok db \<and> (\<forall>w. excess w db = 0)"

lemma weight_exact: "witness_vote_weight a = Inr w \<Longrightarrow> w = weight a"
proof -
  have "foldE (\<lambda>v acc. safe_add acc v) xs s = Inr t \<Longrightarrow> t = s + sum_list xs" for xs s t
  proof (induction xs arbitrary: s)
    case (Cons x xs)
    then show ?case by (fastforce dest: safe_add_value)
  qed simp
  then show "witness_vote_weight a = Inr w \<Longrightarrow> w = weight a"
    by (simp add: witness_vote_weight_def weight_def)
qed

lemma votes_for_le_cast: "0 \<le> votes_for n w db \<and> votes_for n w db \<le> votes_cast n db"
proof -
  have "0 \<le> sum_list (map (\<lambda>v. if is_vote n w v then 1 else 0::int) vs) \<and>
    sum_list (map (\<lambda>v. if is_vote n w v then 1 else 0::int) vs) \<le> sum_list (map (\<lambda>v. if wv_account v = n then 1 else 0) vs)" for vs
    by (induction vs) (auto simp: is_vote_def)
  then show ?thesis by (simp add: votes_for_def votes_cast_def t_sum_def)
qed

lemma votes_for_none:
  assumes "ballots_ok db" "find_account n db = Some a" "a_proxy a \<noteq> '''' \<or> \<not> a_can_vote a"
  shows "votes_for n w db = 0"
proof -
  have "ballot_ok db a" "a_name a = n" using assms(1,2) accts.lookup_key by (auto simp: ballots_ok_def)
  then show ?thesis using assms(3) votes_for_le_cast[of n w db] by (auto simp: ballot_ok_def)
qed

lemma recorded_cong: "witnesses db' = witnesses db \<Longrightarrow> recorded w db' = recorded w db"
  by (simp add: recorded_def find_witness_def)

lemma votes_cong:
  assumes "witness_votes db' = witness_votes db"
  shows "votes_for n w db' = votes_for n w db" "votes_cast n db' = votes_cast n db"
  using assms by (simp_all add: votes_for_def votes_cast_def)

lemma tally_shift:
  assumes "witness_votes db' = witness_votes db"
    and "\<And>m. power_of m db' = power_of m db + (if m = n then d else 0)"
  shows "tally w db' = tally w db + d * votes_for n w db"
proof -
  have "sum_list (map (\<lambda>v. if wv_witness v = w then power_of (wv_account v) db' else 0) vs) =
    sum_list (map (\<lambda>v. if wv_witness v = w then power_of (wv_account v) db else 0) vs) +
    d * sum_list (map (\<lambda>v. if is_vote n w v then 1 else 0) vs)" for vs
    by (induction vs) (auto simp: assms(2) is_vote_def algebra_simps)
  then show ?thesis using assms(1) by (simp add: tally_def votes_for_def t_sum_def)
qed

text \<open>
  A change of one account that keeps its ballot: the excess moves by the change of its weight, once
  for each vote it has cast.
\<close>

definition same_ballot :: "account_object \<Rightarrow> account_object \<Rightarrow> bool" where
  "same_ballot a a' \<longleftrightarrow> a_name a' = a_name a \<and> a_proxy a' = a_proxy a \<and> a_can_vote a' = a_can_vote a \<and>
     a_witnesses_voted_for a' = a_witnesses_voted_for a \<and>
     length (a_proxied_vsf_votes a') = length (a_proxied_vsf_votes a)"

definition reweighted :: "account_name_type \<Rightarrow> int \<Rightarrow> database \<Rightarrow> database \<Rightarrow> bool" where
  "reweighted n d db db' \<longleftrightarrow> witness_votes db' = witness_votes db \<and> (\<forall>w. recorded w db' = recorded w db) \<and>
     (\<forall>m. rel_option (\<lambda>a a'. same_ballot a a' \<and> weight a' = weight a + (if m = n then d else 0))
        (find_account m db) (find_account m db'))"

lemma same_ballot_ok: "same_ballot a a' \<Longrightarrow> witness_votes db' = witness_votes db \<Longrightarrow> ballot_ok db a \<Longrightarrow> ballot_ok db' a'"
  by (auto simp: same_ballot_def ballot_ok_def votes_cast_def)

lemma reweighted_ballot:
  assumes "reweighted n d db db'"
  shows "rel_option same_ballot (find_account m db) (find_account m db')"
  using assms unfolding reweighted_def by (auto elim!: allE[of _ m] elim: option.rel_mono_strong)

lemma reweighted_ballots:
  assumes "reweighted n d db db'" "ballots_ok db"
  shows "ballots_ok db'"
proof -
  note rel = reweighted_ballot[OF assms(1)]
  have "find_account m db' \<noteq> None" if "find_account m db \<noteq> None" for m
    using rel[of m] that by (auto simp: option_rel_Some1)
  moreover have "ballot_ok db' a'" if "find_account m db' = Some a'" for m a'
    using rel[of m] that assms same_ballot_ok[of _ a' db' db] by (auto simp: option_rel_Some2 ballots_ok_def reweighted_def)
  ultimately show ?thesis
    using assms by (auto simp: ballots_ok_def reweighted_def list_all_iff)
qed

lemma reweighted_excess:
  assumes "reweighted n d db db'" "d \<noteq> 0 \<Longrightarrow> find_account n db \<noteq> None"
  shows "excess w db' = excess w db - d * votes_for n w db"
proof -
  have "power_of m db' = power_of m db + (if m = n then d else 0)" for m
  proof -
    have "rel_option (\<lambda>a a'. same_ballot a a' \<and> weight a' = weight a + (if m = n then d else 0))
        (find_account m db) (find_account m db')" using assms(1) unfolding reweighted_def by (elim conjE) (erule allE)
    moreover have "find_account n db = None \<Longrightarrow> d = 0" using assms(2) by auto
    ultimately show ?thesis by (cases "find_account m db"; cases "find_account m db'") (auto simp: power_of_def)
  qed
  from tally_shift[OF _ this] show ?thesis using assms(1) by (simp add: reweighted_def excess_def)
qed

lemma same_ballot_trans1: "same_ballot a b \<Longrightarrow> same_ballot b c \<Longrightarrow> same_ballot a c"
  by (simp add: same_ballot_def)

lemma rel_option_trans:
  "rel_option R x y \<Longrightarrow> rel_option S y z \<Longrightarrow> (\<And>a b c. R a b \<Longrightarrow> S b c \<Longrightarrow> T a c) \<Longrightarrow> rel_option T x z"
  by (cases x; cases y; cases z) auto

lemma reweighted_trans:
  assumes "reweighted n d db db1" "reweighted n e db1 db2"
  shows "reweighted n (d + e) db db2"
proof -
  have "rel_option (\<lambda>a a'. same_ballot a a' \<and> weight a' = weight a + (if m = n then d + e else 0))
        (find_account m db) (find_account m db2)" for m
  proof (rule rel_option_trans)
    show "rel_option (\<lambda>a a'. same_ballot a a' \<and> weight a' = weight a + (if m = n then d else 0))
        (find_account m db) (find_account m db1)" using assms(1) unfolding reweighted_def by (elim conjE) (erule allE)
    show "rel_option (\<lambda>a a'. same_ballot a a' \<and> weight a' = weight a + (if m = n then e else 0))
        (find_account m db1) (find_account m db2)" using assms(2) unfolding reweighted_def by (elim conjE) (erule allE)
  qed (auto dest: same_ballot_trans1)
  then show ?thesis using assms by (simp add: reweighted_def)
qed

lemma reweighted_accounts:
  assumes "accounts db' = accounts db" "witness_votes db' = witness_votes db" "witnesses db' = witnesses db"
  shows "reweighted n 0 db db'"
proof -
  have "rel_option (\<lambda>a a'. same_ballot a a' \<and> weight a' = weight a + (if m = n then 0 else 0)) x x" for x m
    by (cases x) (auto simp: same_ballot_def)
  then show ?thesis using assms by (simp add: reweighted_def recorded_cong[OF assms(3)] find_account_cong[OF assms(1)])
qed

lemma reweighted_modify:
  assumes "modify_account n f db = Inr db'"
    and "\<And>a a'. find_account n db = Some a \<Longrightarrow> f a = Inr a' \<Longrightarrow> same_ballot a a' \<and> weight a' = weight a + d"
  shows "reweighted n d db db'"
proof -
  obtain a a' where a: "find_account n db = Some a" "f a = Inr a'" using accts.update_found[OF assms(1)] by blast
  have s: "same_ballot a a'" "weight a' = weight a + d" using assms(2)[OF a] by auto
  then have "find_account m db' = (if m = n then Some a' else find_account m db)" for m
    using accts.lookup_update[OF assms(1) a] accts.lookup_key[OF a(1)] by (simp add: same_ballot_def)
  moreover have "rel_option (\<lambda>a a'. same_ballot a a' \<and> weight a' = weight a) x x" for x
    by (cases x) (auto simp: same_ballot_def)
  ultimately show ?thesis
    using modify_account_frame[OF assms(1)] a s by (auto simp: reweighted_def recorded_def find_witness_def)
qed

section \<open>How the primitives move the excess\<close>

lemma adjust_witness_vote_recorded:
  assumes "adjust_witness_vote m d db = Inr db'"
  shows "accounts db' = accounts db \<and> witness_votes db' = witness_votes db \<and> decline_requests db' = decline_requests db \<and>
    dgpo db' = dgpo db \<and> (\<forall>w. recorded w db' = recorded w db + (if w = m then d else 0))"
proof -
  note mod = assms[unfolded adjust_witness_vote_def]
  obtain x x' where x: "find_witness m db = Some x" and
    fx: "(\<lambda>w. let vt = ws_current_virtual_time (witness_schedule db);
           pos = w_virtual_position w + uint128 (w_votes w) * (vt - w_virtual_last_update w)
       in bindE (safe_add (w_votes w) d) (\<lambda>votes.
          fc_assert (votes \<le> amount (total_vesting_shares (dgpo db)))
          (bindE (udiv128 (- 1 - pos) (uint128 (votes + 1))) (\<lambda>lap.
            let st = vt + lap in
            Inr (w\<lparr>w_virtual_position := pos, w_virtual_last_update := vt, w_votes := votes,
                   w_virtual_scheduled_time := (if st < vt then - 1 else st)\<rparr>))))) x = Inr x'"
    using wits.update_found[OF mod] by blast
  have v: "w_votes x' = w_votes x + d" "w_owner x' = w_owner x" using fx by (auto simp: Let_def dest!: safe_add_value)
  have "find_witness w db' = (if w = m then Some x' else find_witness w db)" for w
    using wits.lookup_update[OF mod x fx] wits.lookup_key[OF x] v(2) by simp
  then have "recorded w db' = recorded w db + (if w = m then d else 0)" for w
    using x v by (simp add: recorded_def)
  then show ?thesis using mod by (auto simp: modify_witness_def)
qed

lemma adjust_witness_votes_recorded:
  assumes "adjust_witness_votes n d db = Inr db'"
  shows "accounts db' = accounts db \<and> witness_votes db' = witness_votes db \<and> decline_requests db' = decline_requests db \<and>
    dgpo db' = dgpo db \<and> (\<forall>w. recorded w db' = recorded w db + d * votes_for n w db)"
proof -
  have step: "accounts s' = accounts s \<and> witness_votes s' = witness_votes s \<and> decline_requests s' = decline_requests s \<and>
      dgpo s' = dgpo s \<and> (\<forall>w. recorded w s' = recorded w s + d * sum_list (map (\<lambda>x. if x = w then 1 else 0) ws))"
    if "foldE (\<lambda>w. adjust_witness_vote w d) ws s = Inr s'" for ws s s'
    using that
  proof (induction ws arbitrary: s)
    case (Cons w ws)
    then obtain t where t: "adjust_witness_vote w d s = Inr t" "foldE (\<lambda>w. adjust_witness_vote w d) ws t = Inr s'" by auto
    show ?case using Cons.IH[OF t(2)] adjust_witness_vote_recorded[OF t(1)] by (auto simp: algebra_simps)
  qed simp
  have "sum_list (map (\<lambda>x. if x = w then 1 else 0::int) (votes_of n db)) = votes_for n w db" for w
  proof -
    have "sum_list (map (\<lambda>x. if x = w then 1 else 0::int) (map wv_witness (filter (\<lambda>v. wv_account v = n) vs))) =
      sum_list (map (\<lambda>v. if is_vote n w v then 1 else 0) vs)" for vs
      by (induction vs) (auto simp: is_vote_def)
    then show ?thesis by (simp add: votes_of_def sum_list_sort_key votes_for_def t_sum_def)
  qed
  then show ?thesis using step[OF assms[unfolded adjust_witness_votes_def]] by simp
qed

lemma sum_list_upd: "k < length xs \<Longrightarrow> sum_list (xs[k := v]) = sum_list xs + v - xs ! k" for v :: int
  by (induction xs arbitrary: k) (auto split: nat.splits)

lemma reweighted_self: "reweighted n 0 db db"
  by (rule reweighted_accounts) simp_all

text \<open>
  What a walk along the proxies does: votes are recorded for the account at its end, and nothing else
  of a ballot changes.
\<close>

definition votes_moved :: "account_name_type \<Rightarrow> int \<Rightarrow> database \<Rightarrow> database \<Rightarrow> bool" where
  "votes_moved n d db db' \<longleftrightarrow> ballots_ok db' \<and> witness_votes db' = witness_votes db \<and>
     decline_requests db' = decline_requests db \<and> dgpo db' = dgpo db \<and>
     (\<forall>m. rel_option same_ballot (find_account m db) (find_account m db')) \<and>
     (\<forall>w. excess w db' = excess w db + d * votes_for n w db)"

lemma same_ballot_refl [simp]: "rel_option same_ballot x x"
  by (cases x) (simp_all add: same_ballot_def)

lemma same_ballot_trans: "rel_option same_ballot x y \<Longrightarrow> rel_option same_ballot y z \<Longrightarrow> rel_option same_ballot x z"
  by (rule rel_option_trans[of same_ballot x y same_ballot z]) (auto dest: same_ballot_trans1)

lemma ballots_ok_cong:
  assumes "accounts db' = accounts db" "witness_votes db' = witness_votes db"
  shows "ballots_ok db' = ballots_ok db"
  using assms find_account_cong[OF assms(1)] by (simp add: ballots_ok_def ballot_ok_def votes_cast_def)

lemma votes_moved_end:
  assumes "adjust_witness_votes n d db = Inr db'" "ballots_ok db"
  shows "votes_moved n d db db'"
proof -
  note r = adjust_witness_votes_recorded[OF assms(1)]
  have "tally w db' = tally w db" for w
    using r find_account_cong[of db' db] by (simp add: tally_def power_of_def cong: if_cong)
  then show ?thesis using r assms(2) ballots_ok_cong[of db' db] find_account_cong[of db' db]
    by (simp add: votes_moved_def excess_def)
qed

lemma votes_moved_stop:
  assumes "ballots_ok db" "find_account n db = Some a" "a_proxy a \<noteq> ''''"
  shows "votes_moved n d db db"
  using assms votes_for_none[OF assms(1,2)] by (simp add: votes_moved_def)

lemma votes_moved_step:
  assumes ok: "ballots_ok db" and n: "find_account n db = Some a" "a_proxy a \<noteq> ''''"
    and mod: "modify_account p f db = Inr db1"
    and f: "\<And>b b'. find_account p db = Some b \<Longrightarrow> f b = Inr b' \<Longrightarrow> same_ballot b b' \<and> weight b' = weight b + e"
    and rest: "ballots_ok db1 \<Longrightarrow> votes_moved p e db1 db'"
  shows "votes_moved n d db db'"
proof -
  have rw: "reweighted p e db db1" using mod by (rule reweighted_modify) (rule f)
  have m: "votes_moved p e db1 db'" using rest reweighted_ballots[OF rw ok] by simp
  have p: "find_account p db \<noteq> None" using accts.update_found[OF mod] by auto
  have "rel_option same_ballot (find_account m db) (find_account m db')" for m
  proof (rule same_ballot_trans)
    show "rel_option same_ballot (find_account m db) (find_account m db1)" by (rule reweighted_ballot[OF rw])
    show "rel_option same_ballot (find_account m db1) (find_account m db')" using m by (simp add: votes_moved_def)
  qed
  moreover have "excess w db' = excess w db" for w
    using m reweighted_excess[OF rw] p rw by (simp add: votes_moved_def reweighted_def votes_for_def)
  moreover have "decline_requests db1 = decline_requests db" "dgpo db1 = dgpo db" "witness_votes db1 = witness_votes db"
    using modify_account_frame[OF mod] by auto
  ultimately show ?thesis using m votes_for_none[OF ok n(1)] n(2) by (simp add: votes_moved_def)
qed

lemma adjust_proxied_votes:
  "adjust_proxied_witness_votes n d k db = Inr db' \<Longrightarrow> ballots_ok db \<Longrightarrow> votes_moved n d db db'"
proof (induction n d k db rule: adjust_proxied_witness_votes.induct)
  case (1 n d k db)
  from "1.prems"(1) obtain a where a: "find_account n db = Some a"
    by (subst (asm) adjust_proxied_witness_votes.simps) auto
  consider "a_proxy a = ''''" | "a_proxy a \<noteq> ''''" "k \<ge> GAMEBANK_MAX_PROXY_RECURSION_DEPTH"
    | "a_proxy a \<noteq> ''''" "k < GAMEBANK_MAX_PROXY_RECURSION_DEPTH" by linarith
  then show ?case
  proof cases
    case 1
    then show ?thesis using "1.prems" a votes_moved_end
      by (subst (asm) adjust_proxied_witness_votes.simps) auto
  next
    case 2
    then show ?thesis using "1.prems" a votes_moved_stop
      by (subst (asm) adjust_proxied_witness_votes.simps) auto
  next
    case 3
    let ?f = "\<lambda>p. bindE (safe_add (a_proxied_vsf_votes p ! k) d) (\<lambda>v.
         Inr (p\<lparr>a_proxied_vsf_votes := (a_proxied_vsf_votes p)[k := v]\<rparr>))"
    obtain db1 where mod: "modify_account (a_proxy a) ?f db = Inr db1"
      and rest: "adjust_proxied_witness_votes (a_proxy a) d (k + 1) db1 = Inr db'"
      using "1.prems"(1) a 3 by (subst (asm) adjust_proxied_witness_votes.simps) auto
    have "same_ballot b b' \<and> weight b' = weight b + d" if "find_account (a_proxy a) db = Some b" "?f b = Inr b'" for b b'
    proof -
      have "ballot_ok db b" using "1.prems"(2) that(1) by (simp add: ballots_ok_def)
      then show ?thesis using that(2) 3(2) by (auto simp: same_ballot_def weight_def sum_list_upd ballot_ok_def dest!: safe_add_value)
    qed
    moreover have "votes_moved (a_proxy a) d db1 db'" if "ballots_ok db1"
      using "1.IH"[of a db1] a 3 rest that by auto
    ultimately show ?thesis using votes_moved_step[OF "1.prems"(2) a 3(1) mod] by blast
  qed
qed

text \<open>What an array of changes amounts to for the account at depth \<open>k\<close> of the proxy chain.\<close>

definition depth_sum :: "share_type list \<Rightarrow> nat \<Rightarrow> int" where
  "depth_sum delta k = (\<Sum>i<GAMEBANK_MAX_PROXY_RECURSION_DEPTH + 1 - k. delta ! i)"

lemma add_proxied_fold:
  assumes "foldE (\<lambda>i p. bindE (safe_add (a_proxied_vsf_votes p ! (i + k)) (delta ! i)) (\<lambda>v.
      Inr (p\<lparr>a_proxied_vsf_votes := (a_proxied_vsf_votes p)[i + k := v]\<rparr>))) is b = Inr b'"
    and "list_all (\<lambda>i. i + k < length (a_proxied_vsf_votes b)) is"
  shows "same_ballot b b' \<and> weight b' = weight b + sum_list (map ((!) delta) is)"
  using assms
proof (induction "is" arbitrary: b)
  case (Cons i "is")
  then obtain v where v: "safe_add (a_proxied_vsf_votes b ! (i + k)) (delta ! i) = Inr v" and
    rest: "foldE (\<lambda>i p. bindE (safe_add (a_proxied_vsf_votes p ! (i + k)) (delta ! i)) (\<lambda>v.
      Inr (p\<lparr>a_proxied_vsf_votes := (a_proxied_vsf_votes p)[i + k := v]\<rparr>))) is
      (b\<lparr>a_proxied_vsf_votes := (a_proxied_vsf_votes b)[i + k := v]\<rparr>) = Inr b'" by auto
  let ?b = "b\<lparr>a_proxied_vsf_votes := (a_proxied_vsf_votes b)[i + k := v]\<rparr>"
  have "same_ballot b ?b" by (simp add: same_ballot_def)
  moreover have "weight ?b = weight b + delta ! i"
    using safe_add_value[OF v] Cons.prems(2) by (simp add: weight_def sum_list_upd)
  ultimately show ?case using Cons.IH[OF rest] Cons.prems(2) by (auto dest: same_ballot_trans1)
qed (simp add: same_ballot_def)

lemma depth_sum_upt: "sum_list (map ((!) delta) (rev [0..<j])) = (\<Sum>i<j. delta ! i)" for delta :: "int list"
  by (induction j) auto

lemma total_delta: "foldE (\<lambda>i t. safe_add t (delta ! i)) is s = Inr t \<Longrightarrow> t = s + sum_list (map ((!) delta) is)"
proof (induction "is" arbitrary: s)
  case (Cons i "is")
  then show ?case by (fastforce dest: safe_add_value)
qed simp

lemma adjust_proxied_array_votes:
  "adjust_proxied_witness_votes_array n delta k db = Inr db' \<Longrightarrow> ballots_ok db \<Longrightarrow> k \<le> GAMEBANK_MAX_PROXY_RECURSION_DEPTH \<Longrightarrow>
     votes_moved n (depth_sum delta k) db db'"
proof (induction n delta k db rule: adjust_proxied_witness_votes_array.induct)
  case (1 n delta k db)
  from "1.prems"(1) obtain a where a: "find_account n db = Some a"
    by (subst (asm) adjust_proxied_witness_votes_array.simps) auto
  consider "a_proxy a = ''''" | "a_proxy a \<noteq> ''''" "k \<ge> GAMEBANK_MAX_PROXY_RECURSION_DEPTH"
    | "a_proxy a \<noteq> ''''" "k < GAMEBANK_MAX_PROXY_RECURSION_DEPTH" by linarith
  then show ?case
  proof cases
    case 1
    then obtain t where t: "foldE (\<lambda>i t. safe_add t (delta ! i)) (rev [0..<GAMEBANK_MAX_PROXY_RECURSION_DEPTH - k + 1]) 0 = Inr t"
      "adjust_witness_votes n t db = Inr db'"
      using "1.prems"(1) a by (subst (asm) adjust_proxied_witness_votes_array.simps) (auto simp del: upt_Suc)
    have "t = depth_sum delta k" using total_delta[OF t(1)] by (simp add: depth_sum_def depth_sum_upt Suc_diff_le[OF "1.prems"(3)] del: upt_Suc)
    then show ?thesis using votes_moved_end[OF t(2) "1.prems"(2)] by simp
  next
    case 2
    then show ?thesis using "1.prems" a votes_moved_stop
      by (subst (asm) adjust_proxied_witness_votes_array.simps) auto
  next
    case 3
    let ?is = "rev [0..<GAMEBANK_MAX_PROXY_RECURSION_DEPTH - k]"
    let ?f = "\<lambda>p. foldE (\<lambda>i p. bindE (safe_add (a_proxied_vsf_votes p ! (i + k)) (delta ! i)) (\<lambda>v.
                        Inr (p\<lparr>a_proxied_vsf_votes := (a_proxied_vsf_votes p)[i + k := v]\<rparr>))) ?is p"
    obtain db1 where mod: "modify_account (a_proxy a) ?f db = Inr db1"
      and rest: "adjust_proxied_witness_votes_array (a_proxy a) delta (k + 1) db1 = Inr db'"
      using "1.prems"(1) a 3 by (subst (asm) adjust_proxied_witness_votes_array.simps) auto
    have "same_ballot b b' \<and> weight b' = weight b + depth_sum delta (k + 1)"
      if "find_account (a_proxy a) db = Some b" "?f b = Inr b'" for b b'
    proof -
      have "length (a_proxied_vsf_votes b) = GAMEBANK_MAX_PROXY_RECURSION_DEPTH"
        using "1.prems"(2) that(1) by (simp add: ballots_ok_def ballot_ok_def)
      then have "list_all (\<lambda>i. i + k < length (a_proxied_vsf_votes b)) ?is" using 3(2) by (auto simp: list_all_iff)
      from add_proxied_fold[OF that(2) this] show ?thesis using depth_sum_upt by (simp add: depth_sum_def)
    qed
    moreover have "votes_moved (a_proxy a) (depth_sum delta (k + 1)) db1 db'" if "ballots_ok db1"
      using "1.IH"[of a db1] a 3 rest that by auto
    ultimately show ?thesis using votes_moved_step[OF "1.prems"(2) a 3(1) mod] by blast
  qed
qed

lemma negate_all_sum: "negate_all xs = Inr ys \<Longrightarrow> length ys = length xs \<and> sum_list ys = - sum_list xs"
  by (induction xs arbitrary: ys) (auto dest!: safe_neg_value)

text \<open>The whole of what an account carries leaves the witnesses it has voted for.\<close>

lemma vote_delta_sum:
  assumes "vote_delta a = Inr delta" "ballot_ok db a"
  shows "depth_sum delta 0 = - weight a"
proof -
  note n = negate_all_sum[OF assms(1)[unfolded vote_delta_def]]
  have "length delta = GAMEBANK_MAX_PROXY_RECURSION_DEPTH + 1" using n assms(2) by (simp add: ballot_ok_def)
  then have "depth_sum delta 0 = sum_list delta" by (simp add: depth_sum_def sum_list_sum_nth lessThan_atLeast0)
  then show ?thesis using n by (simp add: weight_def)
qed

section \<open>Votes and accounts\<close>

lemma ballot_modify:
  assumes mod: "modify_account n f db = Inr db'" and ok: "ballots_ok db"
    and f: "\<And>a a'. find_account n db = Some a \<Longrightarrow> f a = Inr a' \<Longrightarrow> a_name a' = n \<and> weight a' = weight a \<and> ballot_ok db a'"
  shows "ballots_ok db' \<and> (\<forall>w. excess w db' = excess w db) \<and> witness_votes db' = witness_votes db"
proof -
  obtain a a' where a: "find_account n db = Some a" "f a = Inr a'" using accts.update_found[OF mod] by blast
  note a' = f[OF a]
  have find: "find_account m db' = (if m = n then Some a' else find_account m db)" for m
    using accts.lookup_update[OF mod a] a' by simp
  have frame: "witness_votes db' = witness_votes db" "witnesses db' = witnesses db"
    using modify_account_frame[OF mod] by auto
  have "power_of m db' = power_of m db" for m using find a a' by (simp add: power_of_def)
  then have "excess w db' = excess w db" for w
    using tally_shift[OF frame(1), where d = 0] recorded_cong[OF frame(2)] by (simp add: excess_def)
  moreover have "ballots_ok db'"
    using ok a' find frame by (auto simp: ballots_ok_def ballot_ok_def votes_cast_def list_all_iff)
  ultimately show ?thesis using frame by simp
qed

text \<open>A change of one account together with votes of that account only.\<close>

lemma ballots_replaced:
  assumes ok: "ballots_ok db"
    and find: "\<And>m. find_account m db' = (if m = n then Some a' else find_account m db)"
    and a': "ballot_ok db' a'"
    and cast: "\<And>m. m \<noteq> n \<Longrightarrow> votes_cast m db' = votes_cast m db"
    and rows: "\<And>v. v \<in> set (rows (witness_votes db')) \<Longrightarrow> wv_account v = n \<or> v \<in> set (rows (witness_votes db))"
  shows "ballots_ok db'"
proof -
  have "ballot_ok db' b" if b: "find_account m db' = Some b" for m b
  proof (cases "m = n")
    case False
    then have "find_account m db = Some b" using find b by simp
    then have "ballot_ok db b" "a_name b = m" using ok accts.lookup_key by (auto simp: ballots_ok_def)
    then show ?thesis using cast[OF False] by (simp add: ballot_ok_def)
  qed (use find a' b in auto)
  then show ?thesis using ok rows find by (fastforce simp: ballots_ok_def list_all_iff)
qed

text \<open>Casting and withdrawing one vote.\<close>

lemma get_witness_Inr: "get_witness n db = Inr w \<longleftrightarrow> find_witness n db = Some w"
  by (simp add: get_witness_def find_witness_def)

lemma account_witness_vote_inv:
  assumes ev: "account_witness_vote_evaluator op db = Inr db'" and inv: "vote_inv db"
  shows "vote_inv db'"
proof -
  let ?n = "oawv_account op" and ?w = "oawv_witness op"
  obtain a x where a: "find_account ?n db = Some a" and px: "a_proxy a = ''''"
    and x: "find_witness ?w db = Some x" and can: "oawv_approve op \<longrightarrow> a_can_vote a"
    using ev unfolding account_witness_vote_evaluator_def bindE_Inr fc_assert_Inr get_account_Inr get_witness_Inr by auto
  note nm = accts.lookup_key[OF a] and ow = wits.lookup_key[OF x]
  have ok: "ballots_ok db" and exc: "\<And>w. excess w db = 0" using inv by (auto simp: vote_inv_def)
  have bal: "ballot_ok db a" using ok a by (simp add: ballots_ok_def)
  have pw: "power_of ?n db = weight a" using a by (simp add: power_of_def)
  show ?thesis
  proof (cases "t_find (is_vote ?n ?w) (witness_votes db)")
    case None
    obtain t db1 where voted: "a_witnesses_voted_for a < 30" and can: "a_can_vote a"
      and t: "t_create vote_clash (\<lambda>_. \<lparr>wv_witness = ?w, wv_account = ?n\<rparr>) (witness_votes db) = Inr t"
      and v: "adjust_witness_vote ?w (weight a) (db\<lparr>witness_votes := t\<rparr>) = Inr db1"
      and m: "modify_account ?n (\<lambda>a. Inr (a\<lparr>a_witnesses_voted_for := a_witnesses_voted_for a + 1\<rparr>)) db1 = Inr db'"
      using ev a nm px x ow None can
      by (auto simp: account_witness_vote_evaluator_def get_witness_Inr GAMEBANK_MAX_ACCOUNT_WITNESS_VOTES_def
          dest: weight_exact)
    note r = adjust_witness_vote_recorded[OF v]
    let ?v = "\<lparr>wv_witness = ?w, wv_account = ?n\<rparr>"
    have rows: "rows (witness_votes db1) = rows (witness_votes db) @ [?v]" using r t by (simp add: t_create_Inr)
    have a1: "find_account m db1 = find_account m db" for m using r by (simp add: find_account_def)
    have find: "find_account m db' = (if m = ?n then Some (a\<lparr>a_witnesses_voted_for := a_witnesses_voted_for a + 1\<rparr>) else find_account m db)" for m
      using accts.lookup_update[OF m] a a1 nm by simp
    have frame: "witness_votes db' = witness_votes db1" "witnesses db' = witnesses db1"
      using modify_account_frame[OF m] by auto
    have cast: "votes_cast m db' = votes_cast m db + (if m = ?n then 1 else 0)" for m
      using rows frame by (simp add: votes_cast_def t_sum_def)
    have "power_of m db' = power_of m db" for m using find a by (simp add: power_of_def weight_def)
    then have "tally w db' = tally w db + (if w = ?w then weight a else 0)" for w
      using rows frame pw by (simp add: tally_def t_sum_def cong: if_cong)
    moreover have "recorded w db' = recorded w db + (if w = ?w then weight a else 0)" for w
      using r recorded_cong[OF frame(2)] by (simp add: recorded_def find_witness_def)
    ultimately have "excess w db' = 0" for w using exc[of w] by (simp add: excess_def)
    moreover have "uint (a_witnesses_voted_for a + 1) = uint (a_witnesses_voted_for a) + 1" "uint (a_witnesses_voted_for a) < 30"
      using voted by (auto simp: word_less_def uint_word_ariths mod_pos_pos_trivial)
    then have "ballot_ok db' (a\<lparr>a_witnesses_voted_for := a_witnesses_voted_for a + 1\<rparr>)"
      using bal nm px can cast by (simp add: ballot_ok_def)
    then have "ballots_ok db'" by (rule ballots_replaced[OF ok find]) (use cast rows frame in auto)
    ultimately show ?thesis by (simp add: vote_inv_def)
  next
    case (Some v)
    obtain db1 db2 where v: "adjust_witness_vote ?w (- weight a) db = Inr db1"
      and m: "modify_account ?n (\<lambda>a. Inr (a\<lparr>a_witnesses_voted_for := a_witnesses_voted_for a - 1\<rparr>)) db1 = Inr db2"
      and db': "db' = db2\<lparr>witness_votes := t_remove (is_vote ?n ?w) (witness_votes db2)\<rparr>"
      using ev a nm px x ow Some
      by (auto simp: account_witness_vote_evaluator_def get_witness_Inr dest!: weight_exact safe_neg_value)
    note r = adjust_witness_vote_recorded[OF v]
    have isv: "wv_account v = ?n" "wv_witness v = ?w" using t_find_Some[OF Some] by (auto simp: is_vote_def)
    have a1: "find_account m db1 = find_account m db" for m using r by (simp add: find_account_def)
    have find: "find_account m db' = (if m = ?n then Some (a\<lparr>a_witnesses_voted_for := a_witnesses_voted_for a - 1\<rparr>) else find_account m db)" for m
      using accts.lookup_update[OF m, of a _ m] a a1 nm by (simp add: db' find_account_def)
    have frame: "witness_votes db' = t_remove (is_vote ?n ?w) (witness_votes db)" "witnesses db' = witnesses db1"
      using modify_account_frame[OF m] r by (auto simp: db')
    have cast: "votes_cast m db' = votes_cast m db - (if m = ?n then 1 else 0)" for m
      using t_sum_remove[OF Some] isv by (auto simp: votes_cast_def frame)
    have "power_of m db' = power_of m db" for m using find a by (simp add: power_of_def weight_def)
    then have "tally w db' = tally w db - (if w = ?w then weight a else 0)" for w
      using t_sum_remove[OF Some] isv pw by (simp add: tally_def frame cong: if_cong)
    moreover have "recorded w db' = recorded w db - (if w = ?w then weight a else 0)" for w
      using r recorded_cong[OF frame(2)] by simp
    ultimately have "excess w db' = 0" for w using exc[of w] by (simp add: excess_def)
    moreover have "0 \<le> t_sum (\<lambda>v. if is_vote ?n ?w v then 1 else 0) (t_remove (is_vote ?n ?w) (witness_votes db))"
      by (rule t_sum_nonneg) simp
    then have "1 \<le> votes_for ?n ?w db"
      using t_sum_remove[OF Some, of "\<lambda>v. if is_vote ?n ?w v then 1 else 0"] t_find_Some[OF Some] by (simp add: votes_for_def)
    then have "1 \<le> uint (a_witnesses_voted_for a)" using votes_for_le_cast[of ?n ?w db] bal nm by (simp add: ballot_ok_def)
    then have "uint (a_witnesses_voted_for a - 1) = uint (a_witnesses_voted_for a) - 1"
      by (simp add: uint_sub_if' word_le_def)
    then have "ballot_ok db' (a\<lparr>a_witnesses_voted_for := a_witnesses_voted_for a - 1\<rparr>)"
      using bal nm px cast \<open>1 \<le> uint (a_witnesses_voted_for a)\<close> by (auto simp: ballot_ok_def)
    then have "ballots_ok db'"
      by (rule ballots_replaced[OF ok find]) (use cast frame in \<open>auto simp: t_remove_def dest: set_del_first[THEN subsetD]\<close>)
    ultimately show ?thesis by (simp add: vote_inv_def)
  qed
qed

text \<open>Withdrawing all votes of an account at once.\<close>

lemma clear_witness_votes_effect:
  assumes c: "clear_witness_votes n db = Inr db'" and ok: "ballots_ok db"
  shows "ballots_ok db' \<and> votes_cast n db' = 0 \<and> (\<forall>w. excess w db' = excess w db + power_of n db * votes_for n w db) \<and>
    decline_requests db' = decline_requests db \<and> dgpo db' = dgpo db"
proof -
  let ?f = "\<lambda>a. Inr (a\<lparr>a_witnesses_voted_for := 0\<rparr>)"
  let ?db = "db\<lparr>witness_votes := (witness_votes db)\<lparr>rows := filter (\<lambda>v. wv_account v \<noteq> n) (rows (witness_votes db))\<rparr>\<rparr>"
  have m: "modify_account n ?f ?db = Inr db'" using c by (simp add: clear_witness_votes_def)
  have same: "find_account k ?db = find_account k db" for k by (simp add: find_account_def)
  obtain a where a: "find_account n db = Some a" using accts.update_found[OF m] same by auto
  note nm = accts.lookup_key[OF a]
  have find: "find_account k db' = (if k = n then Some (a\<lparr>a_witnesses_voted_for := 0\<rparr>) else find_account k db)" for k
    using accts.lookup_update[OF m] a nm same by simp
  have frame: "witness_votes db' = witness_votes ?db" "witnesses db' = witnesses db" "decline_requests db' = decline_requests db" "dgpo db' = dgpo db"
    using modify_account_frame[OF m] by auto
  have cast: "votes_cast k db' = (if k = n then 0 else votes_cast k db)" for k
  proof -
    have "sum_list (map (\<lambda>v. if wv_account v = k then 1 else 0) (filter (\<lambda>v. wv_account v \<noteq> n) vs)) =
      (if k = n then 0 else sum_list (map (\<lambda>v. if wv_account v = k then 1 else 0::int) vs))" for vs
      by (induction vs) auto
    then show ?thesis by (cases "k = n") (simp_all add: votes_cast_def t_sum_def frame)
  qed
  have "power_of k db' = power_of k db" for k using find a by (simp add: power_of_def weight_def)
  moreover have "sum_list (map (\<lambda>v. if wv_witness v = w then power_of (wv_account v) db else 0) (filter (\<lambda>v. wv_account v \<noteq> n) vs)) =
      sum_list (map (\<lambda>v. if wv_witness v = w then power_of (wv_account v) db else 0) vs) -
      power_of n db * sum_list (map (\<lambda>v. if is_vote n w v then 1 else 0) vs)" for w vs
    by (induction vs) (auto simp: is_vote_def algebra_simps)
  ultimately have "excess w db' = excess w db + power_of n db * votes_for n w db" for w
    using recorded_cong[OF frame(2)] by (simp add: excess_def tally_def votes_for_def t_sum_def frame cong: if_cong)
  moreover have "ballot_ok db' (a\<lparr>a_witnesses_voted_for := 0\<rparr>)"
    using ok a nm cast by (simp add: ballots_ok_def ballot_ok_def)
  then have "ballots_ok db'" by (rule ballots_replaced[OF ok find]) (use cast frame in auto)
  ultimately show ?thesis using cast frame by simp
qed

text \<open>The common part of setting a proxy and of giving up the right to vote.\<close>

lemma withdraw_votes_effect:
  assumes a: "find_account n db = Some a" and delta: "vote_delta a = Inr delta"
    and adj: "adjust_proxied_witness_votes_array n delta 0 db = Inr db1"
    and clr: "clear_witness_votes n db1 = Inr db2" and inv: "vote_inv db"
  shows "vote_inv db2 \<and> votes_cast n db2 = 0 \<and> decline_requests db2 = decline_requests db \<and> dgpo db2 = dgpo db"
proof -
  have ok: "ballots_ok db" and exc: "\<And>w. excess w db = 0" using inv by (auto simp: vote_inv_def)
  have bal: "ballot_ok db a" using ok a by (simp add: ballots_ok_def)
  have mv: "votes_moved n (- weight a) db db1"
    using adjust_proxied_array_votes[OF adj ok] vote_delta_sum[OF delta bal] by simp
  then have ok1: "ballots_ok db1" and same: "votes_for n w db1 = votes_for n w db" for w
    by (simp_all add: votes_moved_def votes_for_def)
  note c = clear_witness_votes_effect[OF clr ok1]
  have "power_of n db1 * votes_for n w db = weight a * votes_for n w db" for w
  proof (cases "a_proxy a = ''''")
    case True
    obtain t where "adjust_witness_votes n t db = Inr db1"
      using adj a True by (subst (asm) adjust_proxied_witness_votes_array.simps) auto
    then have "find_account n db1 = Some a" using adjust_witness_votes_frame a find_account_cong by metis
    then show ?thesis by (simp add: power_of_def)
  qed (use votes_for_none[OF ok a] in simp)
  then have "excess w db2 = 0" for w
    using c mv exc[of w] same by (simp add: votes_moved_def)
  then show ?thesis using c mv by (simp add: vote_inv_def votes_moved_def)
qed

lemma account_witness_proxy_inv:
  assumes ev: "account_witness_proxy_evaluator op db = Inr db'" and inv: "vote_inv db"
  shows "vote_inv db'"
proof -
  let ?n = "oawp_account op" and ?f = "\<lambda>a. Inr (a\<lparr>a_proxy := oawp_proxy op\<rparr>)"
  obtain a delta db1 where a: "find_account ?n db = Some a" and ne: "a_proxy a \<noteq> oawp_proxy op" and delta: "vote_delta a = Inr delta"
    and adj0: "adjust_proxied_witness_votes_array (a_name a) delta 0 db = Inr db1"
    and rest: "(if length (oawp_proxy op) \<noteq> 0 then
          bindE (get_account (oawp_proxy op) db1) (\<lambda>new_proxy.
          bindE (check_proxy_chain (List.insert (a_id new_proxy) [a_id a]) new_proxy db1) (\<lambda>_.
          bindE (clear_witness_votes (a_name a) db1) (\<lambda>db2.
          bindE (modify_account (a_name a) ?f db2) (\<lambda>db3.
          bindE (negate_all delta) (\<lambda>delta'.
            adjust_proxied_witness_votes_array (a_name a) delta' 0 db3)))))
        else modify_account (a_name a) ?f db1) = Inr db'"
    using ev unfolding account_witness_proxy_evaluator_def bindE_Inr fc_assert_Inr get_account_Inr by (elim exE conjE)
  note nm = accts.lookup_key[OF a]
  have adj: "adjust_proxied_witness_votes_array ?n delta 0 db = Inr db1" using adj0 nm by simp
  have ok: "ballots_ok db" and exc: "\<And>w. excess w db = 0" using inv by (auto simp: vote_inv_def)
  show ?thesis
  proof (cases "oawp_proxy op = ''''")
    case False
    then obtain db2 db3 delta' where clr: "clear_witness_votes ?n db1 = Inr db2"
      and m: "modify_account ?n ?f db2 = Inr db3"
      and adj': "adjust_proxied_witness_votes_array ?n delta' 0 db3 = Inr db'" using rest nm by auto
    note w = withdraw_votes_effect[OF a delta adj clr inv]
    have w1: "ballots_ok db2" "\<And>w. excess w db2 = 0" "votes_cast ?n db2 = 0" using w by (auto simp: vote_inv_def)
    have m': "ballots_ok db3 \<and> (\<forall>w. excess w db3 = excess w db2) \<and> witness_votes db3 = witness_votes db2"
    proof (rule ballot_modify[OF m w1(1)])
      fix b b' assume b: "find_account ?n db2 = Some b" "Inr (b\<lparr>a_proxy := oawp_proxy op\<rparr>) = Inr b'"
      then have "ballot_ok db2 b" "a_name b = ?n" using w1(1) accts.lookup_key by (auto simp: ballots_ok_def)
      then show "a_name b' = ?n \<and> weight b' = weight b \<and> ballot_ok db2 b'"
        using b w1(3) by (auto simp: ballot_ok_def weight_def)
    qed
    then have "votes_cast ?n db3 = 0" using w1(3) by (simp add: votes_cast_def)
    then have "votes_for ?n v db3 = 0" for v using votes_for_le_cast[of ?n v db3] by simp
    then show ?thesis using adjust_proxied_array_votes[OF adj'] m' w1(2) by (simp add: vote_inv_def votes_moved_def)
  next
    case True
    have mv: "votes_moved ?n (depth_sum delta 0) db db1" using adjust_proxied_array_votes[OF adj ok] by simp
    have no: "votes_for ?n w db = 0" for w using votes_for_none[OF ok a] ne True by simp
    have "ballot_ok db a" using ok a by (simp add: ballots_ok_def)
    then have vc: "votes_cast ?n db = 0" using ne True nm by (auto simp: ballot_ok_def)
    have m: "modify_account ?n ?f db1 = Inr db'" using rest True nm by simp
    have "ballots_ok db' \<and> (\<forall>w. excess w db' = excess w db1) \<and> witness_votes db' = witness_votes db1"
    proof (rule ballot_modify[OF m])
      fix b b' assume b: "find_account ?n db1 = Some b" "Inr (b\<lparr>a_proxy := oawp_proxy op\<rparr>) = Inr b'"
      then have "ballot_ok db1 b" "a_name b = ?n" using mv accts.lookup_key by (auto simp: ballots_ok_def votes_moved_def)
      moreover have "votes_cast ?n db1 = 0" using vc mv by (simp add: votes_cast_def votes_moved_def)
      ultimately show "a_name b' = ?n \<and> weight b' = weight b \<and> ballot_ok db1 b'"
        using b by (auto simp: ballot_ok_def weight_def)
    qed (use mv in \<open>simp add: votes_moved_def\<close>)
    then show ?thesis using mv no exc by (simp add: vote_inv_def votes_moved_def)
  qed
qed

text \<open>Giving up the right to vote, and the sweep over the due requests.\<close>

lemma decline_voting_effect:
  assumes ev: "decline_voting r db = Inr db'" and inv: "vote_inv db"
  shows "vote_inv db' \<and> decline_requests db' = t_remove (\<lambda>s. s = r) (decline_requests db) \<and> dgpo db' = dgpo db"
proof -
  let ?n = "dv_account r" and ?f = "\<lambda>a. Inr (a\<lparr>a_can_vote := False, a_proxy := ''''\<rparr>)"
  obtain a delta db1 db2 db3 where a: "find_account ?n db = Some a" and delta: "vote_delta a = Inr delta"
    and h: "adjust_proxied_witness_votes_array (a_name a) delta 0 db = Inr db1" "clear_witness_votes (a_name a) db1 = Inr db2"
      "modify_account (a_name a) ?f db2 = Inr db3"
    and db': "db' = db3\<lparr>decline_requests := t_remove (\<lambda>s. s = r) (decline_requests db3)\<rparr>"
    using ev unfolding decline_voting_def bindE_Inr get_account_Inr by (elim exE conjE) (use that in blast)
  note nm = accts.lookup_key[OF a]
  note w = withdraw_votes_effect[OF a delta h(1)[unfolded nm] h(2)[unfolded nm] inv]
  have w1: "ballots_ok db2" "\<And>w. excess w db2 = 0" "votes_cast ?n db2 = 0" using w by (auto simp: vote_inv_def)
  have "ballots_ok db3 \<and> (\<forall>w. excess w db3 = excess w db2) \<and> witness_votes db3 = witness_votes db2"
  proof (rule ballot_modify[OF h(3)[unfolded nm] w1(1)])
    fix b b' assume b: "find_account ?n db2 = Some b" "Inr (b\<lparr>a_can_vote := False, a_proxy := ''''\<rparr>) = Inr b'"
    then have "ballot_ok db2 b" "a_name b = ?n" using w1(1) accts.lookup_key by (auto simp: ballots_ok_def)
    then show "a_name b' = ?n \<and> weight b' = weight b \<and> ballot_ok db2 b'"
      using b w1(3) by (auto simp: ballot_ok_def weight_def)
  qed
  then have "vote_inv db3" using w1(2) by (simp add: vote_inv_def)
  moreover have "reweighted ?n 0 db3 db'" by (rule reweighted_accounts) (simp_all add: db')
  ultimately have "vote_inv db'" using reweighted_ballots reweighted_excess by (simp add: vote_inv_def)
  moreover have "decline_requests db3 = decline_requests db2" "dgpo db3 = dgpo db2" using modify_account_frame[OF h(3)] by auto
  ultimately show ?thesis using w by (simp add: db')
qed

lemma next_decline_Some: "next_decline db = Some r \<Longrightarrow> r \<in> set (rows (decline_requests db))"
  by (auto simp: next_decline_def dest: t_due_Some)

lemma process_decline_inv:
  assumes "process_decline_voting_rights db = Inr db'" "vote_inv db"
  shows "vote_inv db' \<and> dgpo db' = dgpo db"
  using assms unfolding process_decline_voting_rights_def
  by - (erule drain_invariant[where I = "\<lambda>s. vote_inv s \<and> dgpo s = dgpo db"], auto dest: decline_voting_effect)

section \<open>Operations that change shares\<close>

lemma reweighted_keeps:
  assumes "reweighted n 0 db db'" "vote_inv db"
  shows "vote_inv db'"
  using assms reweighted_ballots reweighted_excess by (simp add: vote_inv_def)

text \<open>A change of an account's shares followed by the same change of the votes it carries.\<close>

lemma power_change:
  assumes rw: "reweighted n d db db1" and adj: "adjust_proxied_witness_votes n d k db1 = Inr db'" and inv: "vote_inv db"
  shows "vote_inv db' \<and> dgpo db' = dgpo db1"
proof -
  have ok: "ballots_ok db1" using reweighted_ballots[OF rw] inv by (simp add: vote_inv_def)
  have "find_account n db1 \<noteq> None" using adj by (subst (asm) adjust_proxied_witness_votes.simps) auto
  then have "find_account n db \<noteq> None" using reweighted_ballot[OF rw, of n] by (auto simp: option_rel_Some2)
  then have "excess w db1 = excess w db - d * votes_for n w db1" for w
    using reweighted_excess[OF rw] rw by (simp add: reweighted_def votes_for_def)
  then show ?thesis using adjust_proxied_votes[OF adj ok] inv by (simp add: votes_moved_def vote_inv_def)
qed

lemma accrue_gbd_votes:
  assumes "accrue_gbd a db = Inr (a', db')"
  shows "same_ballot a a' \<and> weight a' = weight a \<and> witness_votes db' = witness_votes db \<and> witnesses db' = witnesses db \<and>
    accounts db' = accounts db"
  using assms by (auto simp: accrue_gbd_def pay_interest_supply_def Let_def same_ballot_def weight_def split: if_splits)

lemma same_ballot_upd [simp]:
  "same_ballot a (a\<lparr>a_balance := x1\<rparr>)" "same_ballot a (a\<lparr>a_gbd_balance := x2\<rparr>)" "same_ballot a (a\<lparr>a_vesting_shares := x3\<rparr>)"
  by (simp_all add: same_ballot_def)

lemma weight_upd [simp]:
  "weight (a\<lparr>a_balance := x1\<rparr>) = weight a" "weight (a\<lparr>a_gbd_balance := x2\<rparr>) = weight a"
  "weight (a\<lparr>a_vesting_shares := x3\<rparr>) = weight a - amount (a_vesting_shares a) + amount x3"
  by (simp_all add: weight_def)

lemma adjust_balance_votes:
  assumes "adjust_balance n d db = Inr db'"
  shows "reweighted n (part Vesting d) db db'"
proof -
  note h = assms[unfolded adjust_balance_def modify_balance_def]
  obtain a where a: "find_account n db = Some a" using h by auto
  consider "symbol d = GBC_SYMBOL" | "symbol d = GBD_SYMBOL" | "symbol d = GBS_SYMBOL" using h by (auto split: if_splits)
  then show ?thesis
  proof cases
    case 1
    then show ?thesis using h a by (auto simp: part_def of_symbol_def intro!: reweighted_modify)
  next
    case 2
    then obtain a' db1 b where acc: "accrue_gbd a db = Inr (a', db1)"
      and m: "modify_account n (\<lambda>_. Inr (a'\<lparr>a_gbd_balance := b\<rparr>)) db1 = Inr db'" using h a by auto
    note e = accrue_gbd_votes[OF acc]
    have "reweighted n 0 db db1" using e by (intro reweighted_accounts) simp_all
    moreover have "reweighted n 0 db1 db'"
    proof (rule reweighted_modify[OF m])
      fix c c' assume "find_account n db1 = Some c" "(Inr (a'\<lparr>a_gbd_balance := b\<rparr>) :: account_object result) = Inr c'"
      then have "c = a" "c' = a'\<lparr>a_gbd_balance := b\<rparr>" using a e find_account_cong[of db1 db] by auto
      then show "same_ballot c c' \<and> weight c' = weight c + 0" using e by (auto simp: same_ballot_def)
    qed
    ultimately show ?thesis using reweighted_trans[of n 0 db db1 0 db'] 2 by (simp add: part_def of_symbol_def)
  next
    case 3
    then have "\<exists>b. asset_add (a_vesting_shares a) d = Inr b \<and> modify_account n (\<lambda>acnt. Inr (acnt\<lparr>a_vesting_shares := b\<rparr>)) db = Inr db'"
      using h a by auto
    then obtain b where b: "asset_add (a_vesting_shares a) d = Inr b" and m: "modify_account n (\<lambda>acnt. Inr (acnt\<lparr>a_vesting_shares := b\<rparr>)) db = Inr db'"
      by blast
    have "amount b = amount (a_vesting_shares a) + amount d" using b by (auto simp: asset_add_def dest!: safe_add_value)
    then show ?thesis using a 3 by (intro reweighted_modify[OF m]) (auto simp: part_def of_symbol_def)
  qed
qed

definition shares_typed :: "database \<Rightarrow> bool" where
  "shares_typed db \<longleftrightarrow> symbol (total_vesting_shares (dgpo db)) = GBS_SYMBOL \<and> symbol (total_vesting_fund_gbc (dgpo db)) = GBC_SYMBOL"

lemma asset_add_amount: "asset_add x y = Inr z \<Longrightarrow> amount z = amount x + amount y \<and> symbol z = symbol x"
  by (auto simp: asset_add_def dest!: safe_add_value)

lemma asset_sub_amount: "asset_sub x y = Inr z \<Longrightarrow> amount z = amount x - amount y \<and> symbol z = symbol x"
  by (auto simp: asset_sub_def dest!: safe_sub_value)

lemma new_shares_symbol:
  assumes "get_vesting_share_price (dgpo db) = Inr p" "asset_times_price x p = Inr y" "symbol x = GBC_SYMBOL" "shares_typed db"
  shows "symbol y = GBS_SYMBOL"
proof -
  have "{symbol (base p), symbol (quote p)} = {GBC_SYMBOL, GBS_SYMBOL}"
    using assms(1,4) by (auto simp: get_vesting_share_price_def mk_price_def shares_typed_def split: if_splits)
  then show ?thesis using assms(2,3) symbols_distinct
    by (auto simp: asset_times_price_def Let_def doubleton_eq_iff split: if_splits)
qed

lemma modify_dgpo_votes:
  assumes "modify_dgpo f db = Inr db'" "shares_typed db"
    and "\<And>p p'. f p = Inr p' \<Longrightarrow> symbol (total_vesting_shares p') = symbol (total_vesting_shares p) \<and>
           symbol (total_vesting_fund_gbc p') = symbol (total_vesting_fund_gbc p)"
  shows "reweighted n 0 db db' \<and> shares_typed db'"
proof -
  obtain p where p: "f (dgpo db) = Inr p" "db' = db\<lparr>dgpo := p\<rparr>" using assms(1) by auto
  then show ?thesis using assms(2) assms(3)[OF p(1)] by (simp add: reweighted_accounts shares_typed_def)
qed

lemma create_vesting_votes:
  assumes "create_vesting n liquid False db = Inr (nv, db')" "vote_inv db" "shares_typed db"
  shows "vote_inv db' \<and> shares_typed db'"
proof -
  let ?f = "\<lambda>g. bindE (asset_add (total_vesting_fund_gbc g) liquid) (\<lambda>vf.
          bindE (asset_add (total_vesting_shares g) nv) (\<lambda>vs.
            Inr (g\<lparr>total_vesting_fund_gbc := vf, total_vesting_shares := vs\<rparr>)))"
  have "\<exists>p db1 db2. symbol liquid = GBC_SYMBOL \<and> get_vesting_share_price (dgpo db) = Inr p \<and> asset_times_price liquid p = Inr nv \<and>
    adjust_balance n nv db = Inr db1 \<and> modify_dgpo ?f db1 = Inr db2 \<and> adjust_proxied_witness_votes n (amount nv) 0 db2 = Inr db'"
    using assms(1) unfolding create_vesting_def bindE_Inr fc_assert_Inr if_False simp_thms sum.inject prod.inject by auto
  then obtain p db1 db2 where p: "symbol liquid = GBC_SYMBOL" "get_vesting_share_price (dgpo db) = Inr p" "asset_times_price liquid p = Inr nv"
    and b: "adjust_balance n nv db = Inr db1" and d: "modify_dgpo ?f db1 = Inr db2"
    and v: "adjust_proxied_witness_votes n (amount nv) 0 db2 = Inr db'" by blast
  have s: "symbol nv = GBS_SYMBOL" using new_shares_symbol[OF p(2,3,1) assms(3)] .
  have typed: "shares_typed db1"
    using b assms(3) s symbols_distinct by (auto simp: adjust_balance_def modify_balance_def modify_account_def shares_typed_def)
  have d': "reweighted n 0 db1 db2 \<and> shares_typed db2"
    by (rule modify_dgpo_votes[OF d typed]) (auto dest!: asset_add_amount)
  have "reweighted n (amount nv) db db1" using adjust_balance_votes[OF b] s by (simp add: part_def of_symbol_def)
  from reweighted_trans[OF this conjunct1[OF d']] have "reweighted n (amount nv) db db2" by simp
  from power_change[OF this v assms(2)] show ?thesis using d' by (simp add: shares_typed_def)
qed

lemma adjust_balance_typed:
  assumes "adjust_balance n d db = Inr db'" "shares_typed db"
  shows "shares_typed db'"
  using assms by (auto simp: adjust_balance_def modify_balance_def modify_account_def accrue_gbd_def pay_interest_supply_def
      shares_typed_def Let_def split: if_splits)

lemma transfer_to_vesting_votes:
  assumes "transfer_to_vesting_evaluator op db = Inr db'" "vote_inv db" "shares_typed db"
  shows "vote_inv db' \<and> shares_typed db'"
proof -
  obtain n t neg db1 nv where neg: "asset_neg (otv_amount op) = Inr neg" and b: "adjust_balance n neg db = Inr db1"
    and v: "create_vesting t (otv_amount op) False db1 = Inr (nv, db')"
    using assms(1) by (auto simp: transfer_to_vesting_evaluator_def)
  have "symbol neg = GBC_SYMBOL" using v neg by (auto simp: create_vesting_def asset_neg_def)
  then have "vote_inv db1" using adjust_balance_votes[OF b] assms(2) by (simp add: part_def of_symbol_def reweighted_keeps)
  then show ?thesis using create_vesting_votes[OF v] adjust_balance_typed[OF b assms(3)] by simp
qed

lemma adjust_reward_balance_votes:
  assumes "adjust_reward_balance n v s db = Inr db'"
  shows "reweighted n 0 db db' \<and> dgpo db' = dgpo db \<and> symbol v \<noteq> GBS_SYMBOL"
proof -
  obtain c where m: "modify_reward_balance n v s c db = Inr db'" and nv: "is_vesting (symbol v) = Inr False"
    using assms by (auto simp: adjust_reward_balance_def split: if_splits)
  have "reweighted n 0 db db'"
    using m unfolding modify_reward_balance_def
    by (rule reweighted_modify) (auto simp: same_ballot_def weight_def split: if_splits)
  moreover have "dgpo db' = dgpo db" using m by (auto simp: modify_reward_balance_def modify_account_def)
  ultimately show ?thesis using is_vesting_Inr[OF nv] by simp
qed

lemma claim_reward_balance_votes:
  assumes "claim_reward_balance_evaluator op db = Inr db'" "vote_inv db" "shares_typed db"
  shows "vote_inv db' \<and> shares_typed db'"
proof -
  let ?n = "ocrb_account op" and ?v = "ocrb_reward_vests op"
  let ?c = "\<lambda>m a. bindE (asset_add (a_vesting_shares a) ?v) (\<lambda>v.
          bindE (asset_sub (a_reward_vesting_balance a) ?v) (\<lambda>r.
          bindE (asset_sub (a_reward_vesting_gbc a) m) (\<lambda>g.
            Inr (a\<lparr>a_vesting_shares := v, a_reward_vesting_balance := r, a_reward_vesting_gbc := g\<rparr>))))"
  let ?d = "\<lambda>m p. bindE (asset_add (total_vesting_shares p) ?v) (\<lambda>vs.
          bindE (asset_add (total_vesting_fund_gbc p) m) (\<lambda>vf.
          bindE (asset_sub (pending_rewarded_vesting_shares p) ?v) (\<lambda>ps.
          bindE (asset_sub (pending_rewarded_vesting_gbc p) m) (\<lambda>pg.
            Inr (p\<lparr>total_vesting_shares := vs, total_vesting_fund_gbc := vf,
                   pending_rewarded_vesting_shares := ps, pending_rewarded_vesting_gbc := pg\<rparr>)))))"
  obtain m n1 db1 n2 db2 db3 db4 db5 db6 where
    r1: "asset_neg (ocrb_reward_gbc op) = Inr n1" "adjust_reward_balance ?n n1 (GBS 0) db = Inr db1"
    and r2: "asset_neg (ocrb_reward_gbd op) = Inr n2" "adjust_reward_balance ?n n2 (GBS 0) db1 = Inr db2"
    and b1: "adjust_balance ?n (ocrb_reward_gbc op) db2 = Inr db3" and b2: "adjust_balance ?n (ocrb_reward_gbd op) db3 = Inr db4"
    and c: "modify_account ?n (?c m) db4 = Inr db5" and d: "modify_dgpo (?d m) db5 = Inr db6"
    and v: "adjust_proxied_witness_votes ?n (amount ?v) 0 db6 = Inr db'"
    using assms(1) unfolding claim_reward_balance_evaluator_def Let_def bindE_Inr fc_assertE_Inr
    by (elim exE conjE) (rule that)
  note q1 = adjust_reward_balance_votes[OF r1(2)] and q2 = adjust_reward_balance_votes[OF r2(2)]
  have s: "part Vesting (ocrb_reward_gbc op) = 0" "part Vesting (ocrb_reward_gbd op) = 0"
    using q1 q2 r1(1) r2(1) by (auto simp: part_def of_symbol_def asset_neg_def)
  have "vote_inv db2" using q1 q2 assms(2) reweighted_keeps by blast
  then have "vote_inv db3" using adjust_balance_votes[OF b1] s(1) reweighted_keeps by simp
  then have inv4: "vote_inv db4" using adjust_balance_votes[OF b2] s(2) reweighted_keeps by simp
  have "shares_typed db2" using q1 q2 assms(3) by (simp add: shares_typed_def)
  then have "shares_typed db4" using adjust_balance_typed[OF b2] adjust_balance_typed[OF b1] by simp
  then have typed: "shares_typed db5" using modify_account_frame[OF c] by (auto simp: shares_typed_def)
  have d': "reweighted ?n 0 db5 db6 \<and> shares_typed db6"
    by (rule modify_dgpo_votes[OF d typed]) (auto dest!: asset_add_amount)
  have "reweighted ?n (amount ?v) db4 db5"
    by (rule reweighted_modify[OF c]) (auto simp: same_ballot_def weight_def dest!: asset_add_amount)
  from reweighted_trans[OF this conjunct1[OF d']] have "reweighted ?n (amount ?v) db4 db6" by simp
  from power_change[OF this v inv4] show ?thesis using d' by (simp add: shares_typed_def)
qed

text \<open>Vesting withdrawals: each deposit of shares and each payout moves the votes along.\<close>

lemma deposit_vests_votes:
  assumes "deposit_vests w r (db, x) = Inr (db', x')" "vote_inv db"
  shows "vote_inv db' \<and> dgpo db' = dgpo db"
proof (cases "wr_auto_vest r \<and> route_deposit w r > 0")
  case True
  then obtain db1 where m: "modify_account (wr_to_account r) (\<lambda>a.
        bindE (safe_add (amount (a_vesting_shares a)) (route_deposit w r)) (\<lambda>v.
          Inr (a\<lparr>a_vesting_shares := (a_vesting_shares a)\<lparr>amount := v\<rparr>\<rparr>))) db = Inr db1"
    and p: "adjust_proxied_witness_votes (wr_to_account r) (route_deposit w r) 0 db1 = Inr db'"
    using assms(1) by (auto simp: deposit_vests_def Let_def)
  have "reweighted (wr_to_account r) (route_deposit w r) db db1"
    by (rule reweighted_modify[OF m]) (auto dest!: safe_add_value)
  from power_change[OF this p assms(2)] show ?thesis using modify_account_frame[OF m] by auto
qed (use assms in \<open>auto simp: deposit_vests_def Let_def split: if_splits\<close>)

lemma leave_vesting_votes:
  assumes "leave_vesting c x db = Inr db'" "shares_typed db"
  shows "reweighted n 0 db db' \<and> shares_typed db'"
proof -
  have "accounts db' = accounts db" "witness_votes db' = witness_votes db" "witnesses db' = witnesses db"
    using assms(1) by (auto simp: leave_vesting_def)
  then show ?thesis using assms by (auto simp: leave_vesting_def shares_typed_def intro: reweighted_accounts dest!: asset_sub_amount)
qed

lemma deposit_gbc_votes:
  assumes "deposit_gbc w r (db, x, t) = Inr (db', x', t')" "vote_inv db \<and> shares_typed db"
  shows "vote_inv db' \<and> shares_typed db'"
proof (cases "\<not> wr_auto_vest r \<and> route_deposit w r > 0")
  case True
  then obtain c db1 where m: "modify_account (wr_to_account r) (\<lambda>a.
        bindE (asset_add (a_balance a) c) (\<lambda>b. Inr (a\<lparr>a_balance := b\<rparr>))) db = Inr db1"
    and v: "leave_vesting c (route_deposit w r) db1 = Inr db'"
    using assms(1) by (auto simp: deposit_gbc_def Let_def)
  have "reweighted (wr_to_account r) 0 db db1" by (rule reweighted_modify[OF m]) auto
  moreover have "shares_typed db1" using modify_account_frame[OF m] assms(2) by (auto simp: shares_typed_def)
  ultimately show ?thesis using leave_vesting_votes[OF v] assms(2) reweighted_keeps by blast
qed (use assms in \<open>auto simp: deposit_gbc_def Let_def split: if_splits\<close>)

lemma deposit_loops_votes:
  assumes "vote_inv db" "shares_typed db"
  shows "foldE (deposit_vests w) rs (db, x) = Inr (db1, x1) \<Longrightarrow> vote_inv db1 \<and> shares_typed db1"
    and "foldE (deposit_gbc w) rs (db, y, t) = Inr (db2, y2, t2) \<Longrightarrow> vote_inv db2 \<and> shares_typed db2"
proof -
  assume h: "foldE (deposit_vests w) rs (db, x) = Inr (db1, x1)"
  have "vote_inv (fst (db1, x1)) \<and> shares_typed (fst (db1, x1))"
  proof (rule foldE_invariant[OF _ _ h, where I = "\<lambda>s. vote_inv (fst s) \<and> shares_typed (fst s)"])
    fix r and s s' :: "database \<times> share_type"
    assume "vote_inv (fst s) \<and> shares_typed (fst s)" "deposit_vests w r s = Inr s'"
    then show "vote_inv (fst s') \<and> shares_typed (fst s')"
      using deposit_vests_votes[of w r "fst s" "snd s" "fst s'" "snd s'"] by (simp add: shares_typed_def)
  qed (use assms in simp)
  then show "vote_inv db1 \<and> shares_typed db1" by simp
next
  assume h: "foldE (deposit_gbc w) rs (db, y, t) = Inr (db2, y2, t2)"
  have "vote_inv (fst (db2, y2, t2)) \<and> shares_typed (fst (db2, y2, t2))"
  proof (rule foldE_invariant[OF _ _ h, where I = "\<lambda>s. vote_inv (fst s) \<and> shares_typed (fst s)"])
    fix r and s s' :: "database \<times> share_type \<times> asset"
    assume "vote_inv (fst s) \<and> shares_typed (fst s)" "deposit_gbc w r s = Inr s'"
    then show "vote_inv (fst s') \<and> shares_typed (fst s')"
      using deposit_gbc_votes[of w r "fst s" "fst (snd s)" "snd (snd s)" "fst s'" "fst (snd s')" "snd (snd s')"] by simp
  qed (use assms in simp)
  then show "vote_inv db2 \<and> shares_typed db2" by simp
qed

lemma withdraw_from_votes:
  assumes "withdraw_from n db = Inr db'" "vote_inv db" "shares_typed db" "power_inv (\<lambda>_. 0) db"
  shows "vote_inv db' \<and> shares_typed db'"
proof -
  obtain a w db1 x db2 y t c db3 db4 where a: "find_account n db = Some a" "withdrawal_amount a = Inr w"
    and l1: "foldE (deposit_vests w) (routes_of n db) (db, 0) = Inr (db1, x)"
    and l2: "foldE (deposit_gbc w) (routes_of n db) (db1, 0, GBC 0) = Inr (db2, y, t)"
    and m: "modify_account n (settle_withdrawal w c) db2 = Inr db3" and lv: "leave_vesting c (w - y - x) db3 = Inr db4"
    and p: "if w > 0 then adjust_proxied_witness_votes n (- w) 0 db4 = Inr db' else db' = db4"
    by (rule withdraw_from_form[OF assms(1)])
  have s2: "vote_inv db2 \<and> shares_typed db2"
    using deposit_loops_votes(1)[OF assms(2,3) l1] deposit_loops_votes(2)[OF _ _ l2] by simp
  have "reweighted n (- w) db2 db3"
    by (rule reweighted_modify[OF m]) (auto simp: same_ballot_def weight_def dest!: settle_withdrawal_form safe_sub_value)
  moreover have "shares_typed db3" using modify_account_frame[OF m] s2 by (auto simp: shares_typed_def)
  note lv' = leave_vesting_votes[OF lv this, of n]
  ultimately have rw: "reweighted n (- w) db2 db4" using reweighted_trans[of n "- w" db2 db3 0 db4] by simp
  show ?thesis
  proof (cases "w > 0")
    case True
    then show ?thesis using power_change[OF rw, of 0 db'] p s2 lv' by (auto simp: shares_typed_def)
  next
    case False
    then have "w = 0" using withdrawal_amount_bounds(1)[OF a(2) power_inv_find[OF assms(4) a(1)]] by simp
    then show ?thesis using p rw s2 lv' reweighted_keeps[of n db2 db'] by simp
  qed
qed

lemma withdraw_rounds_votes:
  assumes "withdraw_rounds k current db = Inr db'" "vote_inv db" "shares_typed db" "power_inv (\<lambda>_. 0) db" "routes_inv db"
  shows "vote_inv db' \<and> shares_typed db'"
proof -
  have "vote_inv db' \<and> shares_typed db' \<and> power_inv (\<lambda>_. 0) db' \<and> routes_inv db'"
  proof (rule withdraw_rounds_invariant[OF assms(1)])
    fix m d d'
    assume i: "vote_inv d \<and> shares_typed d \<and> power_inv (\<lambda>_. 0) d \<and> routes_inv d" and w: "withdraw_from m d = Inr d'"
    have "vote_inv d' \<and> shares_typed d'" by (rule withdraw_from_votes[OF w]) (use i in auto)
    moreover have "power_inv (\<lambda>_. 0) d' \<and> withdraw_routes d' = withdraw_routes d \<and> (\<forall>l. gap l d' = gap l d)"
      by (rule withdraw_from_keeps[OF w]) (use i in auto)
    ultimately show "vote_inv d' \<and> shares_typed d' \<and> power_inv (\<lambda>_. 0) d' \<and> routes_inv d'"
      using i by (simp add: routes_inv_def)
  qed (use assms(2-5) in simp)
  then show ?thesis by simp
qed

section \<open>The running count is exact\<close>

inductive vote_step :: "database \<Rightarrow> database \<Rightarrow> bool" where
  cast_vote: "account_witness_vote_evaluator op db = Inr db' \<Longrightarrow> vote_step db db'"
| set_proxy: "account_witness_proxy_evaluator op db = Inr db' \<Longrightarrow> vote_step db db'"
| declined: "process_decline_voting_rights db = Inr db' \<Longrightarrow> vote_step db db'"
| powered_up: "transfer_to_vesting_evaluator op db = Inr db' \<Longrightarrow> vote_step db db'"
| claimed: "claim_reward_balance_evaluator op db = Inr db' \<Longrightarrow> vote_step db db'"
| powered_down: "process_vesting_withdrawals db = Inr db' \<Longrightarrow> power_inv (\<lambda>_. 0) db \<Longrightarrow> routes_inv db \<Longrightarrow> vote_step db db'"

lemma array_dgpo: "adjust_proxied_witness_votes_array n delta k db = Inr db' \<Longrightarrow> dgpo db' = dgpo db"
proof (induction n delta k db rule: adjust_proxied_witness_votes_array.induct)
  case (1 n delta k db)
  from "1.prems" obtain a where a: "find_account n db = Some a"
    by (subst (asm) adjust_proxied_witness_votes_array.simps) auto
  show ?case using "1.prems" "1.IH"[of a] a
    by (subst (asm) adjust_proxied_witness_votes_array.simps)
      (auto split: if_splits dest!: adjust_witness_votes_frame modify_account_frame)
qed

lemma account_witness_proxy_dgpo: "account_witness_proxy_evaluator op db = Inr db' \<Longrightarrow> dgpo db' = dgpo db"
  by (auto simp: account_witness_proxy_evaluator_def clear_witness_votes_def split: if_splits
      dest!: array_dgpo modify_account_frame)

lemma account_witness_vote_dgpo: "account_witness_vote_evaluator op db = Inr db' \<Longrightarrow> dgpo db' = dgpo db"
  by (auto simp: account_witness_vote_evaluator_def split: option.splits
      dest!: adjust_witness_vote_recorded modify_account_frame)

lemma vote_step_keeps:
  assumes "vote_step db db'" "vote_inv db \<and> shares_typed db"
  shows "vote_inv db' \<and> shares_typed db'"
  using assms
proof (cases rule: vote_step.cases)
  case (cast_vote op)
  then show ?thesis using assms(2) account_witness_vote_inv account_witness_vote_dgpo by (metis shares_typed_def)
next
  case (set_proxy op)
  then show ?thesis using assms(2) account_witness_proxy_inv account_witness_proxy_dgpo by (metis shares_typed_def)
next
  case declined
  then show ?thesis using assms(2) process_decline_inv by (metis shares_typed_def)
next
  case (powered_up op)
  then show ?thesis using assms(2) transfer_to_vesting_votes by blast
next
  case (claimed op)
  then show ?thesis using assms(2) claim_reward_balance_votes by blast
next
  case powered_down
  then show ?thesis using assms(2) withdraw_rounds_votes unfolding process_vesting_withdrawals_def by blast
qed

text \<open>
  C5. The votes a witness is credited with are exact. Whatever sequence of votes for witnesses, changes
  of proxies, executed renunciations of voting rights, power ups, claims of rewards and weekly power
  downs happens, the running count of every witness stays equal to the sum of the voting weights (own
  shares plus proxied shares) of the accounts that approve it, every account's count of its approvals is
  the number of its vote objects and at most 30, and an account with a proxy or without the right to
  vote approves no one.
\<close>

theorem witness_votes_exact:
  assumes "vote_step\<^sup>*\<^sup>* db db'" "vote_inv db" "shares_typed db"
  shows "(\<forall>w x. find_witness w db' = Some x \<longrightarrow>
            w_votes x = (\<Sum>v\<leftarrow>rows (witness_votes db'). if wv_witness v = w then power_of (wv_account v) db' else 0)) \<and>
         (\<forall>n a. find_account n db' = Some a \<longrightarrow>
            uint (a_witnesses_voted_for a) = (\<Sum>v\<leftarrow>rows (witness_votes db'). if wv_account v = n then 1 else 0) \<and>
            uint (a_witnesses_voted_for a) \<le> 30 \<and>
            (a_proxy a \<noteq> '''' \<or> \<not> a_can_vote a \<longrightarrow> a_witnesses_voted_for a = 0))"
proof -
  have inv: "vote_inv db' \<and> shares_typed db'"
    using assms(1) by (induction rule: rtranclp_induct) (use assms(2,3) vote_step_keeps in blast)+
  have "w_votes x = (\<Sum>v\<leftarrow>rows (witness_votes db'). if wv_witness v = w then power_of (wv_account v) db' else 0)"
    if "find_witness w db' = Some x" for w x
  proof -
    have "recorded w db' = tally w db'" using inv by (simp add: vote_inv_def excess_def)
    then show ?thesis using that by (simp add: recorded_def tally_def t_sum_def)
  qed
  moreover have "uint (a_witnesses_voted_for a) = (\<Sum>v\<leftarrow>rows (witness_votes db'). if wv_account v = n then 1 else 0) \<and>
      uint (a_witnesses_voted_for a) \<le> 30 \<and> (a_proxy a \<noteq> '''' \<or> \<not> a_can_vote a \<longrightarrow> a_witnesses_voted_for a = 0)"
    if a: "find_account n db' = Some a" for n a
  proof -
    have "ballot_ok db' a" using inv a by (auto simp: vote_inv_def ballots_ok_def)
    then show ?thesis using accts.lookup_key[OF a] by (auto simp: ballot_ok_def votes_cast_def t_sum_def uint_0_iff)
  qed
  ultimately show ?thesis by blast
qed

section \<open>Proxy chains end\<close>

definition proxy_of :: "database \<Rightarrow> account_name_type \<Rightarrow> account_name_type option" where
  "proxy_of db n = map_option a_proxy (find_account n db)"

text \<open>Following the proxies from an account leads to an account that votes itself; \<open>off n\<close>: without meeting \<open>n\<close>.\<close>

inductive proxy_ends :: "(account_name_type \<Rightarrow> account_name_type option) \<Rightarrow> account_name_type \<Rightarrow> bool" for P where
  votes_itself: "P m = Some '''' \<Longrightarrow> proxy_ends P m"
| follows: "P m = Some p \<Longrightarrow> p \<noteq> '''' \<Longrightarrow> proxy_ends P p \<Longrightarrow> proxy_ends P m"

inductive ends_off :: "(account_name_type \<Rightarrow> account_name_type option) \<Rightarrow> account_name_type \<Rightarrow> account_name_type \<Rightarrow> bool" for P n where
  off_itself: "P m = Some '''' \<Longrightarrow> m \<noteq> n \<Longrightarrow> ends_off P n m"
| off_follows: "P m = Some p \<Longrightarrow> m \<noteq> n \<Longrightarrow> p \<noteq> '''' \<Longrightarrow> ends_off P n p \<Longrightarrow> ends_off P n m"

lemma ends_off_update: "ends_off P n m \<Longrightarrow> proxy_ends (P(n := q)) m"
  by (induction rule: ends_off.induct) (auto intro: proxy_ends.intros)

lemma proxy_ends_update:
  assumes "proxy_ends P m" "q = '''' \<or> ends_off P n q"
  shows "proxy_ends (P(n \<mapsto> q)) m"
proof -
  have n: "proxy_ends (P(n \<mapsto> q)) n"
    using assms(2) ends_off_update[of P n q "Some q"] by (cases "q = ''''") (auto intro: proxy_ends.intros)
  from assms(1) show ?thesis
  proof (induction rule: proxy_ends.induct)
    case (votes_itself m)
    show ?case
    proof (cases "m = n")
      case False
      then show ?thesis using votes_itself by (intro proxy_ends.votes_itself) simp
    qed (use n in \<open>simp only:\<close>)
  next
    case (follows m p)
    show ?case
    proof (cases "m = n")
      case False
      then show ?thesis using follows by (intro proxy_ends.follows[of _ m p]) simp_all
    qed (use n in \<open>simp only:\<close>)
  qed
qed

lemma check_proxy_chain_ends:
  assumes "check_proxy_chain chain c db = Inr u" "a_proxy c \<noteq> ''''" "find_account n db = Some a" "a_id a \<in> set chain"
  shows "ends_off (proxy_of db) n (a_proxy c)"
  using assms
proof (induction chain c db rule: check_proxy_chain.induct)
  case (1 chain c db)
  obtain x where x: "find_account (a_proxy c) db = Some x" "a_id x \<notin> set chain"
    and rest: "check_proxy_chain (a_id x # chain) x db = Inr u"
    using "1.prems"(1,2) by (subst (asm) check_proxy_chain.simps) (auto split: if_splits)
  have ne: "a_proxy c \<noteq> n" using x "1.prems"(3,4) by auto
  show ?case
  proof (cases "a_proxy x = ''''")
    case True
    then show ?thesis using x ne by (intro off_itself) (simp_all add: proxy_of_def)
  next
    case False
    have "length (a_id x # chain) \<le> GAMEBANK_MAX_PROXY_RECURSION_DEPTH"
      using "1.prems"(1,2) x by (subst (asm) check_proxy_chain.simps) (auto split: if_splits)
    then have "ends_off (proxy_of db) n (a_proxy x)"
      by (intro "1.IH"[OF _ _ _ rest False "1.prems"(3)]) (use x "1.prems"(2,4) in \<open>simp_all\<close>)
    moreover have "proxy_of db (a_proxy c) = Some (a_proxy x)" using x by (simp add: proxy_of_def)
    ultimately show ?thesis using ne False by (blast intro: off_follows)
  qed
qed

lemma projection_modify:
  assumes "modify_account n f db = Inr db'" "\<And>a a'. f a = Inr a' \<Longrightarrow> a_name a' = a_name a \<and> h a' = h a"
  shows "map_option h (find_account m db') = map_option h (find_account m db)"
proof -
  obtain a a' where a: "find_account n db = Some a" "f a = Inr a'" using accts.update_found[OF assms(1)] by blast
  then show ?thesis
    using accts.lookup_update[OF assms(1) a, of m] assms(2)[OF a(2)] accts.lookup_key[OF a(1)] by simp
qed

lemma array_keeps:
  assumes h: "\<And>a v. h (a\<lparr>a_proxied_vsf_votes := v\<rparr>) = h a"
  shows "adjust_proxied_witness_votes_array n delta k db = Inr db' \<Longrightarrow>
    map_option h (find_account m db') = map_option h (find_account m db)"
proof (induction n delta k db rule: adjust_proxied_witness_votes_array.induct)
  case (1 n delta k db)
  from "1.prems" obtain a where a: "find_account n db = Some a"
    by (subst (asm) adjust_proxied_witness_votes_array.simps) auto
  let ?f = "\<lambda>p. foldE (\<lambda>i p. bindE (safe_add (a_proxied_vsf_votes p ! (i + k)) (delta ! i)) (\<lambda>v.
                        Inr (p\<lparr>a_proxied_vsf_votes := (a_proxied_vsf_votes p)[i + k := v]\<rparr>)))
                 (rev [0..<GAMEBANK_MAX_PROXY_RECURSION_DEPTH - k]) p"
  have f: "a_name p' = a_name p \<and> h p' = h p" if "?f p = Inr p'" for p p'
    by (rule foldE_invariant[where I = "\<lambda>q. a_name q = a_name p \<and> h q = h p", OF _ _ that]) (auto simp: h)
  show ?case
  proof (cases "a_proxy a = '''' \<or> k \<ge> GAMEBANK_MAX_PROXY_RECURSION_DEPTH")
    case True
    then have "accounts db' = accounts db" using "1.prems" a
      by (subst (asm) adjust_proxied_witness_votes_array.simps) (auto split: if_splits dest!: adjust_witness_votes_frame)
    then show ?thesis by (simp add: find_account_def)
  next
    case False
    then obtain db1 where mod: "modify_account (a_proxy a) ?f db = Inr db1"
      and rest: "adjust_proxied_witness_votes_array (a_proxy a) delta (k + 1) db1 = Inr db'"
      using "1.prems" a by (subst (asm) adjust_proxied_witness_votes_array.simps) auto
    show ?thesis using "1.IH"[of a db1] a False rest projection_modify[OF mod f] by auto
  qed
qed

lemma array_proxies: "adjust_proxied_witness_votes_array n delta k db = Inr db' \<Longrightarrow> proxy_of db' = proxy_of db"
  unfolding proxy_of_def by (rule ext) (rule array_keeps, simp_all)

lemma array_ids:
  "adjust_proxied_witness_votes_array n delta k db = Inr db' \<Longrightarrow> map_option a_id (find_account m db') = map_option a_id (find_account m db)"
  by (rule array_keeps) simp_all

lemma proxy_of_accounts: "accounts db' = accounts db \<Longrightarrow> proxy_of db' = proxy_of db"
  by (rule ext) (simp add: proxy_of_def find_account_def)

lemma clear_votes_proxies: "clear_witness_votes n db = Inr db' \<Longrightarrow> proxy_of db' = proxy_of db"
proof -
  assume "clear_witness_votes n db = Inr db'"
  then have "proxy_of db' = proxy_of (db\<lparr>witness_votes := (witness_votes db)\<lparr>rows := filter (\<lambda>v. wv_account v \<noteq> n) (rows (witness_votes db))\<rparr>\<rparr>)"
    unfolding clear_witness_votes_def proxy_of_def by (intro ext) (rule projection_modify, auto)
  then show ?thesis using proxy_of_accounts[of "db\<lparr>witness_votes := x\<rparr>" db for x] by simp
qed

lemma proxy_of_set:
  assumes "modify_account n f db = Inr db'" "\<And>a a'. f a = Inr a' \<Longrightarrow> a_name a' = a_name a \<and> a_proxy a' = q"
  shows "proxy_of db' = (proxy_of db)(n \<mapsto> q)"
proof
  fix m
  obtain a a' where a: "find_account n db = Some a" "f a = Inr a'" using accts.update_found[OF assms(1)] by blast
  then show "proxy_of db' m = ((proxy_of db)(n \<mapsto> q)) m"
    using accts.lookup_update[OF assms(1) a, of m] assms(2)[OF a(2)] accts.lookup_key[OF a(1)] by (simp add: proxy_of_def)
qed

lemma account_witness_proxy_proxies:
  assumes ev: "account_witness_proxy_evaluator op db = Inr db'" and ne: "oawp_proxy op \<noteq> oawp_account op"
  shows "proxy_of db' = (proxy_of db)(oawp_account op \<mapsto> oawp_proxy op) \<and>
    (oawp_proxy op = '''' \<or> ends_off (proxy_of db) (oawp_account op) (oawp_proxy op))"
proof -
  let ?n = "oawp_account op" and ?q = "oawp_proxy op" and ?f = "\<lambda>a. Inr (a\<lparr>a_proxy := oawp_proxy op\<rparr>)"
  obtain a delta db1 where a: "find_account ?n db = Some a"
    and adj: "adjust_proxied_witness_votes_array (a_name a) delta 0 db = Inr db1"
    and rest: "(if length ?q \<noteq> 0 then
          bindE (get_account ?q db1) (\<lambda>new_proxy.
          bindE (check_proxy_chain (List.insert (a_id new_proxy) [a_id a]) new_proxy db1) (\<lambda>_.
          bindE (clear_witness_votes (a_name a) db1) (\<lambda>db2.
          bindE (modify_account (a_name a) ?f db2) (\<lambda>db3.
          bindE (negate_all delta) (\<lambda>delta'.
            adjust_proxied_witness_votes_array (a_name a) delta' 0 db3)))))
        else modify_account (a_name a) ?f db1) = Inr db'"
    using ev unfolding account_witness_proxy_evaluator_def bindE_Inr fc_assert_Inr get_account_Inr by (elim exE conjE)
  note nm = accts.lookup_key[OF a] and P1 = array_proxies[OF adj] and id1 = array_ids[OF adj]
  show ?thesis
  proof (cases "?q = ''''")
    case True
    then have m: "modify_account ?n ?f db1 = Inr db'" using rest nm by simp
    show ?thesis using proxy_of_set[OF m, of ?q] P1 True by simp
  next
    case False
    then obtain p db2 db3 delta' where p: "find_account ?q db1 = Some p"
      and chk: "check_proxy_chain (List.insert (a_id p) [a_id a]) p db1 = Inr ()"
      and clr: "clear_witness_votes ?n db1 = Inr db2" and m: "modify_account ?n ?f db2 = Inr db3"
      and adj': "adjust_proxied_witness_votes_array ?n delta' 0 db3 = Inr db'" using rest nm by auto
    have eq: "proxy_of db' = (proxy_of db)(?n \<mapsto> ?q)"
      using proxy_of_set[OF m, of ?q] array_proxies[OF adj'] clear_votes_proxies[OF clr] P1 by simp
    have "map_option a_id (find_account ?n db1) = Some (a_id a)" using id1 a by simp
    then obtain b where b: "find_account ?n db1 = Some b" "a_id b = a_id a" by auto
    have "proxy_of db1 ?q = Some (a_proxy p)" using p by (simp add: proxy_of_def)
    then have pq: "proxy_of db ?q = Some (a_proxy p)" using P1 by simp
    have "ends_off (proxy_of db) ?n ?q"
    proof (cases "a_proxy p = ''''")
      case True
      then show ?thesis using pq ne by (auto intro: off_itself)
    next
      case False
      have "ends_off (proxy_of db1) ?n (a_proxy p)"
        using check_proxy_chain_ends[OF chk False b(1)] b(2) by (simp add: List.insert_def)
      then show ?thesis using pq ne False P1 by (auto intro: off_follows)
    qed
    then show ?thesis using eq by simp
  qed
qed

lemma decline_voting_proxies:
  assumes "decline_voting r db = Inr db'"
  shows "proxy_of db' = (proxy_of db)(dv_account r \<mapsto> '''')"
proof -
  obtain a delta db1 db2 db3 where a: "find_account (dv_account r) db = Some a"
    and h: "adjust_proxied_witness_votes_array (a_name a) delta 0 db = Inr db1" "clear_witness_votes (a_name a) db1 = Inr db2"
      "modify_account (a_name a) (\<lambda>a. Inr (a\<lparr>a_can_vote := False, a_proxy := ''''\<rparr>)) db2 = Inr db3"
    and db': "db' = db3\<lparr>decline_requests := t_remove (\<lambda>s. s = r) (decline_requests db3)\<rparr>"
    using assms unfolding decline_voting_def bindE_Inr get_account_Inr by (elim exE conjE) (use that in blast)
  have "proxy_of db' = proxy_of db3" by (rule proxy_of_accounts) (simp add: db')
  also have "\<dots> = (proxy_of db2)(dv_account r \<mapsto> '''')"
    using proxy_of_set[OF h(3), of "''''"] accts.lookup_key[OF a] by simp
  finally show ?thesis using clear_votes_proxies[OF h(2)] array_proxies[OF h(1)] by simp
qed

text \<open>
  C9. Proxy chains never loop. If every account's chain of proxies ends at an account that votes itself,
  the same holds after any valid change of a proxy that the evaluator accepts (whose walk over at most
  four accounts is the only check) and after any sweep of executed renunciations of voting rights; so
  the propagation of votes along proxies always has an end.
\<close>

theorem proxy_chains_end:
  assumes "account_witness_proxy_validate op = Inr () \<and> account_witness_proxy_evaluator op db = Inr db' \<or>
           process_decline_voting_rights db = Inr db'"
    and "\<forall>n. find_account n db \<noteq> None \<longrightarrow> proxy_ends (proxy_of db) n"
  shows "\<forall>n. find_account n db' \<noteq> None \<longrightarrow> proxy_ends (proxy_of db') n"
proof -
  have dom: "find_account n s \<noteq> None \<longleftrightarrow> proxy_of s n \<noteq> None" for n s by (simp add: proxy_of_def)
  let ?I = "\<lambda>s. \<forall>n. proxy_of s n \<noteq> None \<longrightarrow> proxy_ends (proxy_of s) n"
  have set: "?I s'" if "?I s" "proxy_of s' = (proxy_of s)(m \<mapsto> q)" "q = '''' \<or> ends_off (proxy_of s) m q" "proxy_of s m \<noteq> None" for s s' m q
    using that proxy_ends_update[OF _ that(3)] by (auto simp: fun_upd_def split: if_splits)
  show ?thesis using assms(1)
  proof
    assume h: "account_witness_proxy_validate op = Inr () \<and> account_witness_proxy_evaluator op db = Inr db'"
    then have "oawp_proxy op \<noteq> oawp_account op" by (auto simp: account_witness_proxy_validate_def)
    moreover have "proxy_of db (oawp_account op) \<noteq> None"
      using h unfolding account_witness_proxy_evaluator_def by (auto simp: proxy_of_def)
    ultimately have "?I db'" using set[of db] account_witness_proxy_proxies[of op db db'] h assms(2) dom by auto
    then show ?thesis using dom by simp
  next
    assume h: "process_decline_voting_rights db = Inr db'"
    have "?I db'"
      using h unfolding process_decline_voting_rights_def
    proof (rule drain_invariant[where I = ?I])
      fix r s s' assume r: "decline_voting r s = Inr s'" "?I s"
      have "proxy_of s (dv_account r) \<noteq> None" using r(1) by (auto simp: decline_voting_def proxy_of_def)
      then show "?I s'" using set[OF r(2) decline_voting_proxies[OF r(1)]] by simp
    qed (use assms(2) dom in simp)
    then show ?thesis using dom by simp
  qed
qed

section \<open>Concrete runs\<close>

text \<open>
  Two accounts that hold shares, Alice and Bob, and one witness. Bob approves the witness and Alice
  makes Bob her proxy.
\<close>

definition voter :: "nat \<Rightarrow> account_name_type \<Rightarrow> int \<Rightarrow> account_object" where
  "voter i n shares = (new_account i)\<lparr>a_name := n, a_vesting_shares := GBS shares\<rparr>"

definition voting_db :: database where
  "voting_db = empty_database\<lparr>
     accounts := \<lparr>next_id = 2, rows = [voter 0 ''alice'' 1000, voter 1 ''bob'' 50]\<rparr>,
     witnesses := \<lparr>next_id = 1, rows = [new_witness\<lparr>w_owner := ''initminer''\<rparr>]\<rparr>,
     dgpo := new_dgpo\<lparr>total_vesting_shares := GBS 1050, total_vesting_fund_gbc := GBC 10\<rparr>\<rparr>"

definition bob_votes :: account_witness_vote_operation where
  "bob_votes = \<lparr>oawv_account = ''bob'', oawv_witness = ''initminer'', oawv_approve = True\<rparr>"

definition alice_proxies :: account_witness_proxy_operation where
  "alice_proxies = \<lparr>oawp_account = ''alice'', oawp_proxy = ''bob''\<rparr>"

lemma voting_db_inv: "vote_inv voting_db \<and> shares_typed voting_db"
  by (auto simp: vote_inv_def ballots_ok_def ballot_ok_def shares_typed_def voting_db_def voter_def excess_def recorded_def
      tally_def votes_cast_def find_account_def find_witness_def t_find_def t_sum_def empty_database_def empty_table_def
      new_account_def new_witness_def GAMEBANK_MAX_PROXY_RECURSION_DEPTH_def split: if_splits)

lemmas voting_run = voting_db_def voter_def bob_votes_def alice_proxies_def account_witness_vote_evaluator_def
  account_witness_proxy_evaluator_def concrete new_witness_def get_witness_def find_witness_def modify_witness_def
  witness_vote_weight_def adjust_witness_vote_def udiv128_def vote_delta_def clear_witness_votes_def is_vote_def vote_clash_def
  adjust_witness_votes_def votes_of_def GAMEBANK_MAX_ACCOUNT_WITNESS_VOTES_def GAMEBANK_MAX_PROXY_RECURSION_DEPTH_def

lemma depths: "[0..<5] = [0, 1, 2, 3, 4]" "[0..<4] = [0, 1, 2, 3]" "[0..<Suc (Suc (Suc 0))] = [0, 1, 2]"
  by (simp_all add: upt_rec)

lemma voting_run1:
  "\<exists>db2. bindE (account_witness_vote_evaluator bob_votes voting_db) (account_witness_proxy_evaluator alice_proxies) = Inr db2 \<and>
     map w_votes (rows (witnesses db2)) = [1050]"
  by (rule returningD, simp add: returning_def voting_run adjust_proxied_witness_votes_array.simps check_proxy_chain.simps
      new_witness_schedule_def depths cong: eager)

theorem witness_votes_exact_witness:
  "vote_inv voting_db \<and>
   (\<exists>db1 db2. account_witness_vote_evaluator bob_votes voting_db = Inr db1 \<and>
      account_witness_proxy_evaluator alice_proxies db1 = Inr db2 \<and> map w_votes (rows (witnesses db2)) = [1050] \<and>
      (\<forall>w x. find_witness w db2 = Some x \<longrightarrow>
         w_votes x = (\<Sum>v\<leftarrow>rows (witness_votes db2). if wv_witness v = w then power_of (wv_account v) db2 else 0)))"
proof -
  obtain db1 db2 where r: "account_witness_vote_evaluator bob_votes voting_db = Inr db1"
    "account_witness_proxy_evaluator alice_proxies db1 = Inr db2" "map w_votes (rows (witnesses db2)) = [1050]"
    using voting_run1 unfolding bindE_Inr by (elim exE conjE)
  have "vote_step\<^sup>*\<^sup>* voting_db db2"
    by (rule rtranclp.rtrancl_into_rtrancl[OF r_into_rtranclp[of vote_step, OF cast_vote[OF r(1)]] set_proxy[OF r(2)]])
  note e = witness_votes_exact[OF this voting_db_inv[THEN conjunct1] voting_db_inv[THEN conjunct2], THEN conjunct1]
  show ?thesis by (intro conjI exI, rule voting_db_inv[THEN conjunct1], rule r(1), rule r(2), rule r(3), rule e)
qed

theorem proxy_chains_end_witness:
  "\<exists>db'. account_witness_proxy_evaluator alice_proxies voting_db = Inr db' \<and>
     (\<forall>n. find_account n db' \<noteq> None \<longrightarrow> proxy_ends (proxy_of db') n)"
proof -
  have v: "account_witness_proxy_validate alice_proxies = Inr ()"
    by (simp add: account_witness_proxy_validate_def alice_proxies_def validate_account_name_def must_def fc_assert_def
        is_valid_account_name_def Let_def find_dot_def valid_labels.simps is_letter_def is_let_dig_def is_let_dig_hyp_def)
  have ends: "\<forall>n. find_account n voting_db \<noteq> None \<longrightarrow> proxy_ends (proxy_of voting_db) n"
    by (auto simp: voting_db_def voter_def find_account_def t_find_def proxy_of_def new_account_def intro!: votes_itself split: if_splits)
  have "returns (account_witness_proxy_evaluator alice_proxies voting_db)"
    by (simp add: voting_run adjust_proxied_witness_votes_array.simps check_proxy_chain.simps
      new_witness_schedule_def depths cong: eager)
  then obtain db' where db': "account_witness_proxy_evaluator alice_proxies voting_db = Inr db'" by (auto simp: returns_iff)
  show ?thesis by (intro exI conjI, rule db', rule proxy_chains_end[OF disjI1[OF conjI[OF v db']] ends])
qed

end
