(* ===== verification/Accounts.thy ===== *)
theory Accounts
  imports Votes
begin

text \<open>
  Accounts: creation (with a fee, with a delegation, from a claimed ticket), update of keys and
  authorities, recovery of stolen accounts, and the witness operations that are not votes; from
  src/libraries/chain/gamebank_evaluator.cpp, with \<^verbatim>\<open>update_owner_authority\<close> and
  \<^verbatim>\<open>account_recovery_processing\<close> of database.cpp.
\<close>

definition GAMEBANK_OWNER_UPDATE_LIMIT :: int where "GAMEBANK_OWNER_UPDATE_LIMIT = 60 * 60"
definition GAMEBANK_ACCOUNT_RECOVERY_REQUEST_EXPIRATION_PERIOD :: int where
  "GAMEBANK_ACCOUNT_RECOVERY_REQUEST_EXPIRATION_PERIOD = 86400"
definition GAMEBANK_OWNER_AUTH_HISTORY_TRACKING_START_BLOCK_NUM :: "32 word" where
  "GAMEBANK_OWNER_AUTH_HISTORY_TRACKING_START_BLOCK_NUM = 3186477"
definition GAMEBANK_CREATE_ACCOUNT_DELEGATION_TIME :: int where "GAMEBANK_CREATE_ACCOUNT_DELEGATION_TIME = 30 * 86400"
definition GAMEBANK_SOFT_MAX_BLOCK_SIZE :: "32 word" where "GAMEBANK_SOFT_MAX_BLOCK_SIZE = 2097152"

section \<open>Witness data\<close>

text \<open>
  The fee of the legacy chain properties is canonical when its symbol is GBC; the amount is stored as
  GBC either way. \<open>producing\<close> is whether the node applies the operation to produce a block.
\<close>

definition copy_legacy_chain_properties :: "witness_update_operation \<Rightarrow> chain_properties \<Rightarrow> chain_properties" where
  "copy_legacy_chain_properties op dest =
     dest\<lparr>cp_account_creation_fee := GBC (amount (owu_account_creation_fee op)),
          cp_maximum_block_size := owu_maximum_block_size op, cp_gbd_interest_rate := owu_gbd_interest_rate op\<rparr>"

definition witness_update_evaluator :: "bool \<Rightarrow> witness_update_operation \<Rightarrow> database \<Rightarrow> database result" where
  "witness_update_evaluator producing op db =
     bindE (get_account (owu_owner op) db) (\<lambda>_.
     fc_assert (symbol (owu_account_creation_fee op) = GBC_SYMBOL)
     (fc_assert (producing \<longrightarrow> owu_maximum_block_size op \<le> GAMEBANK_SOFT_MAX_BLOCK_SIZE)
     (let upd = (\<lambda>w. w\<lparr>w_url := owu_url op, w_signing_key := owu_block_signing_key op,
                        w_props := copy_legacy_chain_properties op (w_props w)\<rparr>) in
      if find_witness (owu_owner op) db \<noteq> None then modify_witness (owu_owner op) (\<lambda>w. Inr (upd w)) db
      else create_witness (\<lambda>w. upd (w\<lparr>w_owner := owu_owner op, w_created := head_block_time db\<rparr>)) db)))"

definition feed_publish_evaluator :: "feed_publish_operation \<Rightarrow> database \<Rightarrow> database result" where
  "feed_publish_evaluator op db =
     fc_assert (has_hardfork GAMEBANK_HARDFORK_0_1 db \<longrightarrow>
        symbol (base (ofp_exchange_rate op)) = GBD_SYMBOL \<and> symbol (quote (ofp_exchange_rate op)) = GBC_SYMBOL)
     (bindE (get_witness (ofp_publisher op) db) (\<lambda>_.
        modify_witness (ofp_publisher op) (\<lambda>w. Inr (w\<lparr>w_gbd_exchange_rate := ofp_exchange_rate op,
          w_last_gbd_exchange_update := head_block_time db\<rparr>)) db))"

section \<open>Creating accounts\<close>

definition verify_authority_accounts_exist :: "authority \<Rightarrow> database \<Rightarrow> unit result" where
  "verify_authority_accounts_exist auth db =
     foldE (\<lambda>aw _. fc_assert (find_account (fst aw) db \<noteq> None) (Inr ())) (account_auths auth) ()"

text \<open>\<^verbatim>\<open>get_account\<close> of every account an authority names.\<close>

definition get_authority_accounts :: "authority \<Rightarrow> database \<Rightarrow> unit result" where
  "get_authority_accounts auth db = foldE (\<lambda>aw _. bindE (get_account (fst aw) db) (\<lambda>_. Inr ())) (account_auths auth) ()"

definition get_hardfork :: "database \<Rightarrow> 32 word" where
  "get_hardfork db = of_nat (length (hf_processed_hardforks (hardfork_property db))) - 1"

definition initialize_account_object ::
    "account_name_type \<Rightarrow> public_key_type \<Rightarrow> dynamic_global_property_object \<Rightarrow> bool \<Rightarrow> account_name_type \<Rightarrow> 32 word \<Rightarrow>
     account_object \<Rightarrow> account_object" where
  "initialize_account_object name key props mined recovery_account hardfork acc =
     (let acc1 = acc\<lparr>a_name := name, a_memo_key := key, a_created := dgp_time props, a_last_vote_time := dgp_time props,
                     a_mined := mined\<rparr> in
      if hardfork < of_nat GAMEBANK_HARDFORK_0_1 \<or> recovery_account \<noteq> GAMEBANK_TEMP_ACCOUNT
      then acc1\<lparr>a_recovery_account := recovery_account\<rparr> else acc1)"

definition account_create_evaluator :: "account_create_operation \<Rightarrow> database \<Rightarrow> database result" where
  "account_create_evaluator op db =
     (let n = oac_new_account_name op; props = dgpo db;
          init = (\<lambda>acc. (initialize_account_object n (oac_memo_key op) props False (oac_creator op) (get_hardfork db) acc)
                          \<lparr>a_json_metadata := oac_json_metadata op\<rparr>) in
      bindE (get_account (oac_creator op) db) (\<lambda>creator.
      bindE (verify_authority_accounts_exist (oac_owner op) db) (\<lambda>_.
      bindE (verify_authority_accounts_exist (oac_active op) db) (\<lambda>_.
      bindE (verify_authority_accounts_exist (oac_posting op) db) (\<lambda>_.
      if a_name creator = GAMEBANK_INIT_MINER_NAME then
        bindE (get_vesting_share_price props) (\<lambda>p.
        bindE (asset_times_price (oac_fee op) p) (\<lambda>init_shares.
        bindE (asset_sub (a_vesting_shares creator) (a_delegated_vesting_shares creator)) (\<lambda>free.
        fc_assertE (asset_ge free init_shares)
        (bindE (modify_account (oac_creator op) (add_delegated init_shares) db) (\<lambda>db1.
         bindE (create_account (\<lambda>acc. (init acc)\<lparr>a_received_vesting_shares := init_shares\<rparr>) db1) (\<lambda>db2.
         bindE (create_account_authority n (oac_owner op) (oac_active op) (oac_posting op) 0 db2) (\<lambda>db3.
         if amount init_shares > 0 then
           create_delegation (oac_creator op) n init_shares
             (plus_secs (head_block_time db3) GAMEBANK_CREATE_ACCOUNT_DELEGATION_TIME) db3
         else Inr db3)))))))
      else
        fc_assertE (asset_ge (a_balance creator) (oac_fee op))
        (fc_assertE (asset_ge (oac_fee op) (GBC 1))
        (bindE (modify_account (oac_creator op) (\<lambda>c. bindE (asset_sub (a_balance c) (oac_fee op)) (\<lambda>b. Inr (c\<lparr>a_balance := b\<rparr>))) db) (\<lambda>db1.
         bindE (create_account init db1) (\<lambda>db2.
         bindE (create_account_authority n (oac_owner op) (oac_active op) (oac_posting op) 0 db2) (\<lambda>db3.
         if amount (oac_fee op) > 0 then bindE (create_vesting n (oac_fee op) False db3) (\<lambda>(_, db4). Inr db4)
         else Inr db3))))))))))"

definition account_create_with_delegation_evaluator ::
    "account_create_with_delegation_operation \<Rightarrow> database \<Rightarrow> database result" where
  "account_create_with_delegation_evaluator op db =
     (let n = oacd_new_account_name op; props = dgpo db; min_fee = cp_account_creation_fee (ws_median_props (witness_schedule db)) in
      fc_assert (\<not> has_hardfork GAMEBANK_HARDFORK_0_1 db)
      (bindE (get_account (oacd_creator op) db) (\<lambda>creator.
       fc_assertE (asset_ge (a_balance creator) (oacd_fee op))
       (bindE (asset_sub (a_vesting_shares creator) (a_delegated_vesting_shares creator)) (\<lambda>x.
        bindE (safe_sub (a_to_withdraw creator) (a_withdrawn creator)) (\<lambda>w.
        bindE (asset_sub x (GBS w)) (\<lambda>free.
        fc_assertE (asset_ge free (oacd_delegation op))
        (bindE (get_vesting_share_price props) (\<lambda>p.
         bindE (safe_mul (amount min_fee) 30) (\<lambda>f1.
         bindE (safe_mul f1 5) (\<lambda>f2.
         bindE (asset_times_price (GBC f2) p) (\<lambda>target_delegation.
         bindE (safe_mul (amount (oacd_fee op)) 5) (\<lambda>g1.
         bindE (asset_times_price (GBC g1) p) (\<lambda>g2.
         bindE (asset_add g2 (oacd_delegation op)) (\<lambda>current_delegation.
         fc_assertE (asset_ge current_delegation target_delegation)
         (fc_assertE (asset_ge (oacd_fee op) min_fee)
         (bindE (get_authority_accounts (oacd_owner op) db) (\<lambda>_.
          bindE (get_authority_accounts (oacd_active op) db) (\<lambda>_.
          bindE (get_authority_accounts (oacd_posting op) db) (\<lambda>_.
          bindE (modify_account (oacd_creator op) (\<lambda>c.
             bindE (asset_sub (a_balance c) (oacd_fee op)) (\<lambda>b.
             bindE (asset_add (a_delegated_vesting_shares c) (oacd_delegation op)) (\<lambda>d.
               Inr (c\<lparr>a_balance := b, a_delegated_vesting_shares := d\<rparr>)))) db) (\<lambda>db1.
          bindE (create_account (\<lambda>acc.
             (initialize_account_object n (oacd_memo_key op) props False (oacd_creator op) (get_hardfork db) acc)
               \<lparr>a_received_vesting_shares := oacd_delegation op, a_json_metadata := oacd_json_metadata op\<rparr>) db1) (\<lambda>db2.
          bindE (create_account_authority n (oacd_owner op) (oacd_active op) (oacd_posting op) 0 db2) (\<lambda>db3.
          bindE (if amount (oacd_delegation op) > 0 then
                   create_delegation (oacd_creator op) n (oacd_delegation op)
                     (plus_secs (head_block_time db3) GAMEBANK_CREATE_ACCOUNT_DELEGATION_TIME) db3
                 else Inr db3) (\<lambda>db4.
          if amount (oacd_fee op) > 0 then bindE (create_vesting n (oacd_fee op) False db4) (\<lambda>(_, db5). Inr db5)
          else Inr db4))))))))))))))))))))))))"

definition claim_account_evaluator :: "claim_account_operation \<Rightarrow> database \<Rightarrow> database result" where
  "claim_account_evaluator op db =
     fc_assert (has_hardfork GAMEBANK_HARDFORK_0_1 db)
     (bindE (get_account (oca_creator op) db) (\<lambda>creator.
      fc_assertE (asset_ge (a_balance creator) (oca_fee op))
      (fc_assertE (asset_ge (oca_fee op) (cp_account_creation_fee (ws_median_props (witness_schedule db))))
      (bindE (get_account GAMEBANK_NULL_ACCOUNT db) (\<lambda>_.
       bindE (adjust_balance GAMEBANK_NULL_ACCOUNT (oca_fee op) db) (\<lambda>db1.
         modify_account (oca_creator op) (\<lambda>a.
           bindE (asset_sub (a_balance a) (oca_fee op)) (\<lambda>b.
           bindE (safe_add (a_pending_claimed_accounts a) 1) (\<lambda>c.
             Inr (a\<lparr>a_balance := b, a_pending_claimed_accounts := c\<rparr>)))) db1))))))"

definition create_claimed_account_evaluator :: "create_claimed_account_operation \<Rightarrow> database \<Rightarrow> database result" where
  "create_claimed_account_evaluator op db =
     (let n = occa_new_account_name op in
      fc_assert (has_hardfork GAMEBANK_HARDFORK_0_1 db)
      (bindE (get_account (occa_creator op) db) (\<lambda>creator.
       fc_assert (a_pending_claimed_accounts creator > 0)
       (bindE (verify_authority_accounts_exist (occa_owner op) db) (\<lambda>_.
        bindE (verify_authority_accounts_exist (occa_active op) db) (\<lambda>_.
        bindE (verify_authority_accounts_exist (occa_posting op) db) (\<lambda>_.
        bindE (modify_account (occa_creator op) (\<lambda>a. bindE (safe_sub (a_pending_claimed_accounts a) 1) (\<lambda>c.
                 Inr (a\<lparr>a_pending_claimed_accounts := c\<rparr>))) db) (\<lambda>db1.
        bindE (create_account (\<lambda>acc.
             (initialize_account_object n (occa_memo_key op) (dgpo db) False (occa_creator op) (get_hardfork db) acc)
               \<lparr>a_json_metadata := occa_json_metadata op\<rparr>) db1) (\<lambda>db2.
          create_account_authority n (occa_owner op) (occa_active op) (occa_posting op) 0 db2)))))))))"

section \<open>Changing authorities\<close>

definition find_authority :: "account_name_type \<Rightarrow> database \<Rightarrow> account_authority_object option" where
  "find_authority n db = t_find (\<lambda>x. auth_account x = n) (account_authorities db)"

definition get_authority :: "account_name_type \<Rightarrow> database \<Rightarrow> account_authority_object result" where
  "get_authority n db = t_get (\<lambda>x. auth_account x = n) (account_authorities db)"

definition modify_authority ::
    "account_name_type \<Rightarrow> (account_authority_object \<Rightarrow> account_authority_object result) \<Rightarrow> database \<Rightarrow> database result" where
  "modify_authority n f db =
     bindE (t_modify (\<lambda>x. auth_account x = n) f (account_authorities db)) (\<lambda>t. Inr (db\<lparr>account_authorities := t\<rparr>))"

definition update_owner_authority :: "account_name_type \<Rightarrow> authority \<Rightarrow> database \<Rightarrow> database result" where
  "update_owner_authority n owner_authority db =
     bindE (if head_block_num db \<ge> GAMEBANK_OWNER_AUTH_HISTORY_TRACKING_START_BLOCK_NUM then
              bindE (get_authority n db) (\<lambda>x.
              bindE (t_create (\<lambda>_ _. False) (\<lambda>_.
                  \<lparr>oah_account = n, oah_previous_owner_authority = auth_owner x, oah_last_valid_time = head_block_time db\<rparr>)
                 (owner_histories db)) (\<lambda>t. Inr (db\<lparr>owner_histories := t\<rparr>)))
            else Inr db) (\<lambda>db1.
       modify_authority n (\<lambda>x. Inr (x\<lparr>auth_owner := owner_authority, auth_last_owner_update := head_block_time db1\<rparr>)) db1)"

definition account_update_evaluator :: "account_update_operation \<Rightarrow> database \<Rightarrow> database result" where
  "account_update_evaluator op db =
     fc_assert (oau_account op \<noteq> GAMEBANK_TEMP_ACCOUNT)
     (bindE (case oau_posting op of None \<Rightarrow> Inr () | Some p \<Rightarrow> authority_validate p) (\<lambda>_.
      bindE (get_account (oau_account op) db) (\<lambda>_.
      bindE (get_authority (oau_account op) db) (\<lambda>account_auth.
      bindE (case oau_owner op of None \<Rightarrow> Inr db
             | Some own \<Rightarrow>
                 fc_assert (secs (head_block_time db) - secs (auth_last_owner_update account_auth) > GAMEBANK_OWNER_UPDATE_LIMIT)
                 (bindE (verify_authority_accounts_exist own db) (\<lambda>_. update_owner_authority (oau_account op) own db))) (\<lambda>db1.
      bindE (case oau_active op of None \<Rightarrow> Inr () | Some p \<Rightarrow> verify_authority_accounts_exist p db1) (\<lambda>_.
      bindE (case oau_posting op of None \<Rightarrow> Inr () | Some p \<Rightarrow> verify_authority_accounts_exist p db1) (\<lambda>_.
      bindE (modify_account (oau_account op) (\<lambda>acc. Inr
         (let acc1 = (if oau_memo_key op \<noteq> '''' then acc\<lparr>a_memo_key := oau_memo_key op\<rparr> else acc);
              acc2 = acc1\<lparr>a_last_account_update := head_block_time db1\<rparr>
          in if length (oau_json_metadata op) > 0 then acc2\<lparr>a_json_metadata := oau_json_metadata op\<rparr> else acc2)) db1) (\<lambda>db2.
      if oau_active op \<noteq> None \<or> oau_posting op \<noteq> None then
        modify_authority (oau_account op) (\<lambda>x. Inr
          (let x1 = (case oau_active op of None \<Rightarrow> x | Some p \<Rightarrow> x\<lparr>auth_active := p\<rparr>)
           in case oau_posting op of None \<Rightarrow> x1 | Some p \<Rightarrow> x1\<lparr>auth_posting := p\<rparr>)) db2
      else Inr db2))))))))"

section \<open>Recovery\<close>

text \<open>The first witness of the index \<^verbatim>\<open>by_vote_name\<close>: most votes, then the smaller name.\<close>

definition top_witness :: "database \<Rightarrow> witness_object option" where
  "top_witness db = t_begin (\<lambda>w. (- w_votes w, w_owner w)) (witnesses db)"

definition request_account_recovery_evaluator :: "request_account_recovery_operation \<Rightarrow> database \<Rightarrow> database result" where
  "request_account_recovery_evaluator op db =
     (let n = orar_account_to_recover op; auth = orar_new_owner_authority op;
          expires = plus_secs (head_block_time db) GAMEBANK_ACCOUNT_RECOVERY_REQUEST_EXPIRATION_PERIOD in
      bindE (get_account n db) (\<lambda>account_to_recover.
      fc_assert (if length (a_recovery_account account_to_recover) \<noteq> 0
                 then a_recovery_account account_to_recover = orar_recovery_account op
                 else map_option w_owner (top_witness db) = Some (orar_recovery_account op))
      (case t_find (\<lambda>r. arr_account_to_recover r = n) (recovery_requests db) of
         None \<Rightarrow>
           fc_assert (\<not> is_impossible auth)
           (fc_assert (weight_threshold auth \<noteq> 0)
           (bindE (get_authority_accounts auth db) (\<lambda>_.
            bindE (t_create (\<lambda>r s. arr_account_to_recover r = arr_account_to_recover s) (\<lambda>_.
               \<lparr>arr_account_to_recover = n, arr_new_owner_authority = auth, arr_expires = expires\<rparr>) (recovery_requests db)) (\<lambda>t.
              Inr (db\<lparr>recovery_requests := t\<rparr>)))))
       | Some r \<Rightarrow>
           if weight_threshold auth = 0 then
             Inr (db\<lparr>recovery_requests := t_remove (\<lambda>r. arr_account_to_recover r = n) (recovery_requests db)\<rparr>)
           else
             fc_assert (\<not> is_impossible auth)
             (bindE (get_authority_accounts auth db) (\<lambda>_.
              bindE (t_modify (\<lambda>r. arr_account_to_recover r = n)
                 (\<lambda>r. Inr (r\<lparr>arr_new_owner_authority := auth, arr_expires := expires\<rparr>)) (recovery_requests db)) (\<lambda>t.
                Inr (db\<lparr>recovery_requests := t\<rparr>)))))))"

definition recover_account_evaluator :: "recover_account_operation \<Rightarrow> database \<Rightarrow> database result" where
  "recover_account_evaluator op db =
     (let n = ora_account_to_recover op in
      bindE (get_account n db) (\<lambda>account.
      fc_assert (secs (head_block_time db) - secs (a_last_account_recovery account) > GAMEBANK_OWNER_UPDATE_LIMIT)
      (case t_find (\<lambda>r. arr_account_to_recover r = n) (recovery_requests db) of
         None \<Rightarrow> Inl assert_exception
       | Some request \<Rightarrow>
           fc_assert (arr_new_owner_authority request = ora_new_owner_authority op)
           (fc_assert (list_ex (\<lambda>h. oah_account h = n \<and> oah_previous_owner_authority h = ora_recent_owner_authority op)
                         (rows (owner_histories db)))
           (bindE (update_owner_authority n (ora_new_owner_authority op)
               (db\<lparr>recovery_requests := t_remove (\<lambda>r. arr_account_to_recover r = n) (recovery_requests db)\<rparr>)) (\<lambda>db1.
              modify_account n (\<lambda>a. Inr (a\<lparr>a_last_account_recovery := head_block_time db1\<rparr>)) db1))))))"

definition change_recovery_account_evaluator :: "change_recovery_account_operation \<Rightarrow> database \<Rightarrow> database result" where
  "change_recovery_account_evaluator op db =
     (let n = ochr_account_to_recover op; rec = ochr_new_recovery_account op;
          effective = plus_secs (head_block_time db) GAMEBANK_OWNER_AUTH_RECOVERY_PERIOD;
          is_req = (\<lambda>r. cra_account_to_recover r = n) in
      bindE (get_account rec db) (\<lambda>_.
      bindE (get_account n db) (\<lambda>account_to_recover.
      case t_find is_req (change_recovery_requests db) of
        None \<Rightarrow>
          bindE (t_create (\<lambda>r s. cra_account_to_recover r = cra_account_to_recover s) (\<lambda>_.
             \<lparr>cra_account_to_recover = n, cra_recovery_account = rec, cra_effective_on = effective\<rparr>) (change_recovery_requests db)) (\<lambda>t.
            Inr (db\<lparr>change_recovery_requests := t\<rparr>))
      | Some _ \<Rightarrow>
          if a_recovery_account account_to_recover \<noteq> rec then
            bindE (t_modify is_req (\<lambda>r. Inr (r\<lparr>cra_recovery_account := rec, cra_effective_on := effective\<rparr>))
                     (change_recovery_requests db)) (\<lambda>t. Inr (db\<lparr>change_recovery_requests := t\<rparr>))
          else Inr (db\<lparr>change_recovery_requests := t_remove is_req (change_recovery_requests db)\<rparr>))))"

text \<open>Three operations that the code has disabled.\<close>

definition reset_account_evaluator :: "reset_account_operation \<Rightarrow> database \<Rightarrow> database result" where
  "reset_account_evaluator op db = Inl assert_exception"

definition set_reset_account_evaluator :: "set_reset_account_operation \<Rightarrow> database \<Rightarrow> database result" where
  "set_reset_account_evaluator op db = Inl assert_exception"

text \<open>The sweep of every block over requests and histories.\<close>

definition next_recovery_request :: "database \<Rightarrow> account_recovery_request_object option" where
  "next_recovery_request db =
     t_due (\<lambda>r. (arr_expires r, arr_account_to_recover r)) (\<lambda>r. arr_expires r \<le> head_block_time db) (recovery_requests db)"

definition drop_recovery_request :: "account_recovery_request_object \<Rightarrow> database \<Rightarrow> database result" where
  "drop_recovery_request r db = Inr (db\<lparr>recovery_requests := t_remove (\<lambda>s. s = r) (recovery_requests db)\<rparr>)"

definition next_owner_history :: "database \<Rightarrow> owner_authority_history_object option" where
  "next_owner_history db =
     (case rows (owner_histories db) of [] \<Rightarrow> None
      | h # _ \<Rightarrow> if plus_secs (oah_last_valid_time h) GAMEBANK_OWNER_AUTH_RECOVERY_PERIOD < head_block_time db then Some h else None)"

definition drop_owner_history :: "owner_authority_history_object \<Rightarrow> database \<Rightarrow> database result" where
  "drop_owner_history h db = Inr (db\<lparr>owner_histories := t_remove (\<lambda>s. s = h) (owner_histories db)\<rparr>)"

definition next_change_request :: "database \<Rightarrow> change_recovery_account_request_object option" where
  "next_change_request db =
     t_due (\<lambda>r. (cra_effective_on r, cra_account_to_recover r)) (\<lambda>r. cra_effective_on r \<le> head_block_time db) (change_recovery_requests db)"

definition apply_change_request :: "change_recovery_account_request_object \<Rightarrow> database \<Rightarrow> database result" where
  "apply_change_request r db =
     bindE (modify_account (cra_account_to_recover r) (\<lambda>a. Inr (a\<lparr>a_recovery_account := cra_recovery_account r\<rparr>)) db) (\<lambda>db1.
       Inr (db1\<lparr>change_recovery_requests := t_remove (\<lambda>s. s = r) (change_recovery_requests db1)\<rparr>))"

definition account_recovery_processing :: "database \<Rightarrow> database result" where
  "account_recovery_processing db =
     bindE (drain (t_size (recovery_requests db)) next_recovery_request drop_recovery_request db) (\<lambda>db1.
     bindE (drain (t_size (owner_histories db1)) next_owner_history drop_owner_history db1) (\<lambda>db2.
       drain (t_size (change_recovery_requests db2)) next_change_request apply_change_request db2))"

section \<open>Conservation\<close>

lemma initialize_part [simp]: "account_part l (initialize_account_object n k p m r h a) = account_part l a"
  by (simp add: initialize_account_object_def Let_def)

lemmas creation_gaps = create_account_gap create_account_authority_gap delegation_table_gap(1) create_vesting_gap

lemma account_create_gap [gap_move]:
  assumes "account_create_evaluator op db = Inr db'"
  shows "\<forall>l. gap l db' = gap l db"
proof -
  obtain c where c: "find_account (oac_creator op) db = Some c" using assms by (auto simp: account_create_evaluator_def Let_def)
  show ?thesis
  proof (cases "a_name c = GAMEBANK_INIT_MINER_NAME")
    case True
    show ?thesis using assms c True
      by (auto simp: account_create_evaluator_def Let_def delegation_no_funds split: if_splits
          dest!: creation_gaps modify_account_moves)
  next
    case False
    show ?thesis using assms c False
      by (auto simp: account_create_evaluator_def Let_def vesting_part_def split: if_splits
          dest!: creation_gaps modify_account_delta asset_dest)
  qed
qed

lemma account_create_with_delegation_gap [gap_move]:
  assumes "account_create_with_delegation_evaluator op db = Inr db'" "0 \<le> amount (oacd_fee op)"
  shows "\<forall>l. gap l db' = gap l db"
proof -
  have z: "\<not> 0 < amount (oacd_fee op) \<Longrightarrow> part l (oacd_fee op) = 0" for l using assms(2) by (simp add: part_zero)
  obtain db1 c db2 db3 db4 where
    h: "modify_account (oacd_creator op) (\<lambda>c.
             bindE (asset_sub (a_balance c) (oacd_fee op)) (\<lambda>b.
             bindE (asset_add (a_delegated_vesting_shares c) (oacd_delegation op)) (\<lambda>d.
               Inr (c\<lparr>a_balance := b, a_delegated_vesting_shares := d\<rparr>)))) db = Inr db1"
      "create_account (\<lambda>acc.
             (initialize_account_object (oacd_new_account_name op) (oacd_memo_key op) (dgpo db) False (oacd_creator op) (get_hardfork db) acc)
               \<lparr>a_received_vesting_shares := oacd_delegation op, a_json_metadata := oacd_json_metadata op\<rparr>) db1 = Inr db2"
      "create_account_authority (oacd_new_account_name op) (oacd_owner op) (oacd_active op) (oacd_posting op) 0 db2 = Inr db3"
      "(if amount (oacd_delegation op) > 0 then
                   create_delegation (oacd_creator op) (oacd_new_account_name op) (oacd_delegation op)
                     (plus_secs (head_block_time db3) GAMEBANK_CREATE_ACCOUNT_DELEGATION_TIME) db3
                 else Inr db3) = Inr db4"
      "(if amount (oacd_fee op) > 0 then bindE (create_vesting (oacd_new_account_name op) (oacd_fee op) False db4) (\<lambda>(_, db5). Inr db5)
          else Inr db4) = Inr db'"
    using assms(1) unfolding account_create_with_delegation_evaluator_def Let_def bindE_Inr fc_assert_Inr fc_assertE_Inr
    by (elim exE conjE) (rule that)
  show ?thesis using h z
    by (auto simp: vesting_part_def split: if_splits dest!: creation_gaps modify_account_delta asset_dest)
qed

lemma claim_account_gap [gap_move]:
  assumes "claim_account_evaluator op db = Inr db'"
  shows "\<forall>l. gap l db' = gap l db"
  using assms
  by (auto simp: claim_account_evaluator_def dest!: adjust_balance_gap modify_account_delta asset_dest)

lemma create_claimed_account_gap [gap_move]:
  assumes "create_claimed_account_evaluator op db = Inr db'"
  shows "\<forall>l. gap l db' = gap l db"
  using assms
  by (auto simp: create_claimed_account_evaluator_def Let_def dest!: creation_gaps modify_account_delta)

section \<open>Who can change an owner authority\<close>

interpretation auths: keyed_store find_authority modify_authority auth_account "\<lambda>g db. t_sum g (account_authorities db)"
  unfolding find_authority_def modify_authority_def by (rule keyed_field) simp

lemma get_authority_Inr [simp]: "get_authority n db = Inr x \<longleftrightarrow> find_authority n db = Some x"
  by (simp add: get_authority_def find_authority_def)

lemma find_authority_cong: "account_authorities db' = account_authorities db \<Longrightarrow> find_authority n db' = find_authority n db"
  by (simp add: find_authority_def)

definition tracked :: "database \<Rightarrow> bool" where
  "tracked db \<longleftrightarrow> head_block_num db \<ge> GAMEBANK_OWNER_AUTH_HISTORY_TRACKING_START_BLOCK_NUM"

lemma update_owner_authority_effect:
  assumes "update_owner_authority n own db = Inr db'"
  obtains x where "find_authority n db = Some x"
    "\<And>m. find_authority m db' = (if m = n then Some (x\<lparr>auth_owner := own, auth_last_owner_update := head_block_time db\<rparr>) else find_authority m db)"
    "rows (owner_histories db') = rows (owner_histories db) @ (if tracked db
       then [\<lparr>oah_account = n, oah_previous_owner_authority = auth_owner x, oah_last_valid_time = head_block_time db\<rparr>] else [])"
    "accounts db' = accounts db" "dgpo db' = dgpo db" "recovery_requests db' = recovery_requests db"
proof -
  obtain db1 where h: "(if tracked db then
              bindE (get_authority n db) (\<lambda>x.
              bindE (t_create (\<lambda>_ _. False) (\<lambda>_.
                  \<lparr>oah_account = n, oah_previous_owner_authority = auth_owner x, oah_last_valid_time = head_block_time db\<rparr>)
                 (owner_histories db)) (\<lambda>t. Inr (db\<lparr>owner_histories := t\<rparr>)))
            else Inr db) = Inr db1"
    and m: "modify_authority n (\<lambda>x. Inr (x\<lparr>auth_owner := own, auth_last_owner_update := head_block_time db1\<rparr>)) db1 = Inr db'"
    using assms unfolding update_owner_authority_def tracked_def bindE_Inr by (elim exE conjE)
  obtain x where x: "find_authority n db1 = Some x" using auths.update_found[OF m] by blast
  have f1: "account_authorities db1 = account_authorities db" "accounts db1 = accounts db" "dgpo db1 = dgpo db"
    "recovery_requests db1 = recovery_requests db" using h by (auto split: if_splits)
  then have x0: "find_authority m db1 = find_authority m db" for m by (simp add: find_authority_def)
  have f2: "owner_histories db' = owner_histories db1" "accounts db' = accounts db1" "dgpo db' = dgpo db1"
    "recovery_requests db' = recovery_requests db1" using m by (auto simp: modify_authority_def)
  show ?thesis
  proof (rule that)
    show xn: "find_authority n db = Some x" using x x0 by simp
    show "find_authority m db' = (if m = n then Some (x\<lparr>auth_owner := own, auth_last_owner_update := head_block_time db\<rparr>) else find_authority m db)" for m
      using auths.lookup_update[OF m x] auths.lookup_key[OF x] x0 f1(3) by simp
    show "rows (owner_histories db') = rows (owner_histories db) @ (if tracked db
       then [\<lparr>oah_account = n, oah_previous_owner_authority = auth_owner x, oah_last_valid_time = head_block_time db\<rparr>] else [])"
    proof (cases "tracked db")
      case True
      have "owner_histories db1 = (owner_histories db)\<lparr>next_id := next_id (owner_histories db) + 1, rows := rows (owner_histories db) @
        [\<lparr>oah_account = n, oah_previous_owner_authority = auth_owner x, oah_last_valid_time = head_block_time db\<rparr>]\<rparr>"
        using h True xn by (auto simp: t_create_Inr)
      then show ?thesis using f2(1) True by simp
    qed (use h f2(1) in simp)
  qed (use f1 f2 in simp_all)
qed

lemma adjust_proxied_authorities:
  "adjust_proxied_witness_votes n d k db = Inr db' \<Longrightarrow> account_authorities db' = account_authorities db"
proof (erule adjust_proxied_invariant[where I = "\<lambda>s. account_authorities s = account_authorities db"], goal_cases)
  case (2 m e s s')
  show ?case
    by (rule foldE_invariant[OF _ _ 2(2)[unfolded adjust_witness_votes_def], where I = "\<lambda>s. account_authorities s = account_authorities db"])
      (use 2(1) in \<open>auto simp: adjust_witness_vote_def modify_witness_def\<close>)
qed (auto dest!: modify_account_frame)

lemma balances_authorities: "balances_only db db' \<Longrightarrow> account_authorities db' = account_authorities db"
proof -
  assume "balances_only db db'"
  then have "db' = db\<lparr>accounts := accounts db', dgpo := dgpo db'\<rparr>" by (simp add: balances_only_def)
  from arg_cong[OF this, of account_authorities] show ?thesis by simp
qed

lemma create_vesting_authorities:
  "create_vesting n liquid False db = Inr (nv, db') \<Longrightarrow> account_authorities db' = account_authorities db"
  by (auto simp: create_vesting_def dest!: adjust_proxied_authorities balances_authorities[OF conjunct2[OF adjust_balance_moves]])

lemma create_authority_keeps:
  "create_account_authority n o1 o2 o3 u db = Inr db' \<Longrightarrow> find_authority m db = Some x \<Longrightarrow> find_authority m db' = Some x"
proof -
  have "List.find P xs = Some x \<Longrightarrow> List.find P (xs @ ys) = Some x" for P and xs ys :: "account_authority_object list"
    by (induction xs) auto
  then show "create_account_authority n o1 o2 o3 u db = Inr db' \<Longrightarrow> find_authority m db = Some x \<Longrightarrow> find_authority m db' = Some x"
    by (auto simp: create_account_authority_def t_create_Inr find_authority_def t_find_def)
qed

lemma authorities_frame:
  "modify_account n f db = Inr db' \<Longrightarrow> account_authorities db' = account_authorities db"
  "create_account g db = Inr db' \<Longrightarrow> account_authorities db' = account_authorities db"
  "create_delegation r e s t db = Inr db' \<Longrightarrow> account_authorities db' = account_authorities db"
  "modify_witness n h db = Inr db' \<Longrightarrow> account_authorities db' = account_authorities db"
  "create_witness k db = Inr db' \<Longrightarrow> account_authorities db' = account_authorities db"
  by (auto simp: modify_account_def create_account_def create_delegation_def modify_witness_def create_witness_def)

lemma creation_keeps_authorities:
  assumes "find_authority n db = Some x"
  shows "account_create_evaluator op db = Inr db' \<Longrightarrow> find_authority n db' = Some x"
    and "account_create_with_delegation_evaluator op2 db = Inr db' \<Longrightarrow> find_authority n db' = Some x"
    and "create_claimed_account_evaluator op3 db = Inr db' \<Longrightarrow> find_authority n db' = Some x"
proof -
  have k: "find_authority n db' = Some x"
    if "account_authorities db2 = account_authorities db" "create_account_authority m o1 o2 o3 u db2 = Inr db3"
      "account_authorities db' = account_authorities db3" for m o1 o2 o3 u db2 db3
    using create_authority_keeps[OF that(2), of n x] find_authority_cong[OF that(1), of n] find_authority_cong[OF that(3), of n] assms by simp
  show "find_authority n db' = Some x" if ev: "account_create_evaluator op db = Inr db'"
  proof -
    obtain db1 g db2 db3 where "account_authorities db1 = account_authorities db" "create_account g db1 = Inr db2"
      "create_account_authority (oac_new_account_name op) (oac_owner op) (oac_active op) (oac_posting op) 0 db2 = Inr db3"
      "account_authorities db' = account_authorities db3"
      using ev unfolding account_create_evaluator_def Let_def
      by (auto split: if_splits dest!: authorities_frame(1,3) create_vesting_authorities)
    then show ?thesis using k[of db2] authorities_frame(2) by simp
  qed
  show "find_authority n db' = Some x" if ev: "account_create_with_delegation_evaluator op2 db = Inr db'"
  proof -
    obtain db1 g db2 db3 where "account_authorities db1 = account_authorities db" "create_account g db1 = Inr db2"
      "create_account_authority (oacd_new_account_name op2) (oacd_owner op2) (oacd_active op2) (oacd_posting op2) 0 db2 = Inr db3"
      "account_authorities db' = account_authorities db3"
      using ev unfolding account_create_with_delegation_evaluator_def Let_def bindE_Inr fc_assert_Inr fc_assertE_Inr
      by (elim exE conjE) (auto split: if_splits dest!: authorities_frame(1,3) create_vesting_authorities)
    then show ?thesis using k[of db2] authorities_frame(2) by simp
  qed
  show "find_authority n db' = Some x" if "create_claimed_account_evaluator op3 db = Inr db'"
    using that unfolding create_claimed_account_evaluator_def Let_def
    by (auto dest!: authorities_frame(1,2) intro: k)
qed

inductive account_step :: "database \<Rightarrow> database \<Rightarrow> bool" where
  as_witness_update: "witness_update_evaluator producing op db = Inr db' \<Longrightarrow> account_step db db'"
| as_feed_publish: "feed_publish_evaluator op db = Inr db' \<Longrightarrow> account_step db db'"
| as_create: "account_create_evaluator op db = Inr db' \<Longrightarrow> account_step db db'"
| as_create_delegated: "account_create_with_delegation_evaluator op db = Inr db' \<Longrightarrow> account_step db db'"
| as_claim: "claim_account_evaluator op db = Inr db' \<Longrightarrow> account_step db db'"
| as_create_claimed: "create_claimed_account_evaluator op db = Inr db' \<Longrightarrow> account_step db db'"
| as_update: "account_update_evaluator op db = Inr db' \<Longrightarrow> account_step db db'"
| as_request_recovery: "request_account_recovery_evaluator op db = Inr db' \<Longrightarrow> account_step db db'"
| as_recover: "recover_account_evaluator op db = Inr db' \<Longrightarrow> account_step db db'"
| as_change_recovery: "change_recovery_account_evaluator op db = Inr db' \<Longrightarrow> account_step db db'"
| as_sweep: "account_recovery_processing db = Inr db' \<Longrightarrow> account_step db db'"

lemma modify_authority_frame:
  "modify_authority n f db = Inr db' \<Longrightarrow> accounts db' = accounts db \<and> owner_histories db' = owner_histories db \<and> dgpo db' = dgpo db"
  by (auto simp: modify_authority_def)

text \<open>What an account update does to authorities: only the account's own, and the owner part only when the operation gives one.\<close>

lemma account_update_authority:
  assumes ev: "account_update_evaluator op db = Inr db'" and x: "find_authority n db = Some x" and x': "find_authority n db' = Some x'"
    and ne: "auth_owner x' \<noteq> auth_owner x"
  shows "oau_account op = n \<and> oau_owner op = Some (auth_owner x') \<and>
    secs (head_block_time db) - secs (auth_last_owner_update x) > GAMEBANK_OWNER_UPDATE_LIMIT \<and>
    auth_last_owner_update x' = head_block_time db \<and>
    (tracked db \<longrightarrow> (\<exists>h \<in> set (rows (owner_histories db')). oah_account h = n \<and>
       oah_previous_owner_authority h = auth_owner x \<and> oah_last_valid_time h = head_block_time db))"
proof -
  let ?n = "oau_account op"
  let ?f = "\<lambda>u. Inr (let x1 = (case oau_active op of None \<Rightarrow> u | Some p \<Rightarrow> u\<lparr>auth_active := p\<rparr>)
           in case oau_posting op of None \<Rightarrow> x1 | Some p \<Rightarrow> x1\<lparr>auth_posting := p\<rparr>) :: account_authority_object result"
  obtain y db1 db2 g where y: "find_authority ?n db = Some y"
    and own: "(case oau_owner op of None \<Rightarrow> Inr db
             | Some own \<Rightarrow>
                 fc_assert (secs (head_block_time db) - secs (auth_last_owner_update y) > GAMEBANK_OWNER_UPDATE_LIMIT)
                 (bindE (verify_authority_accounts_exist own db) (\<lambda>_. update_owner_authority ?n own db))) = Inr db1"
    and m: "modify_account ?n g db1 = Inr db2"
    and last: "(if oau_active op \<noteq> None \<or> oau_posting op \<noteq> None then modify_authority ?n ?f db2 else Inr db2) = Inr db'"
    using ev unfolding account_update_evaluator_def bindE_Inr fc_assert_Inr get_authority_Inr by (elim exE conjE) (rule that)
  have m': "find_authority k db2 = find_authority k db1" "owner_histories db2 = owner_histories db1" for k
    using authorities_frame(1)[OF m] modify_account_frame[OF m] by (auto simp: find_authority_def)
  have keep: "auth_owner u' = auth_owner u \<and> auth_account u' = auth_account u \<and> auth_last_owner_update u' = auth_last_owner_update u"
    if "?f u = Inr u'" for u u' using that by (auto simp: Let_def split: option.splits)
  have "\<exists>z. find_authority n db2 = Some z \<and> auth_owner z = auth_owner x' \<and> auth_last_owner_update z = auth_last_owner_update x'"
  proof (cases "oau_active op \<noteq> None \<or> oau_posting op \<noteq> None")
    case True
    then have md: "modify_authority ?n ?f db2 = Inr db'" using last by simp
    obtain u u' where u: "find_authority ?n db2 = Some u" "?f u = Inr u'" using auths.update_found[OF md] by blast
    have "find_authority n db' = (if n = ?n then Some u' else find_authority n db2)"
      using auths.lookup_update[where f = ?f and k' = n, OF md u] keep[OF u(2)] auths.lookup_key[OF u(1)] by simp
    then have "(if n = ?n then Some u' else find_authority n db2) = Some x'" using x' by (rule subst)
    then show ?thesis using keep[OF u(2)] u(1) by (cases "n = ?n") simp_all
  qed (use last x' in auto)
  then obtain z where z: "find_authority n db1 = Some z" "auth_owner z = auth_owner x'" "auth_last_owner_update z = auth_last_owner_update x'"
    using m' by auto
  have hist: "owner_histories db' = owner_histories db1" using last m' modify_authority_frame[of ?n ?f db2 db'] by (auto split: if_splits)
  show ?thesis
  proof (cases "oau_owner op")
    case None
    then show ?thesis using own z x ne by simp
  next
    case (Some own')
    then have lim: "secs (head_block_time db) - secs (auth_last_owner_update y) > GAMEBANK_OWNER_UPDATE_LIMIT"
      and up: "update_owner_authority ?n own' db = Inr db1" using own by auto
    show ?thesis
    proof (rule update_owner_authority_effect[OF up], goal_cases)
      case (1 v)
      have "n = ?n" using 1(2)[of n] z x ne by (auto split: if_splits)
      then have "v = x" "y = x" "z = v\<lparr>auth_owner := own', auth_last_owner_update := head_block_time db\<rparr>"
        using 1(1) 1(2)[of n] z(1) x y by auto
      then show ?thesis using 1(3) hist lim z \<open>n = ?n\<close> Some by auto
    qed
  qed
qed

lemma recover_account_form:
  assumes "recover_account_evaluator op db = Inr db'"
  obtains a r h db1 where "find_account (ora_account_to_recover op) db = Some a"
    "secs (head_block_time db) - secs (a_last_account_recovery a) > GAMEBANK_OWNER_UPDATE_LIMIT"
    "t_find (\<lambda>r. arr_account_to_recover r = ora_account_to_recover op) (recovery_requests db) = Some r"
    "arr_new_owner_authority r = ora_new_owner_authority op"
    "h \<in> set (rows (owner_histories db))" "oah_account h = ora_account_to_recover op"
    "oah_previous_owner_authority h = ora_recent_owner_authority op"
    "update_owner_authority (ora_account_to_recover op) (ora_new_owner_authority op)
       (db\<lparr>recovery_requests := t_remove (\<lambda>r. arr_account_to_recover r = ora_account_to_recover op) (recovery_requests db)\<rparr>) = Inr db1"
    "modify_account (ora_account_to_recover op) (\<lambda>a. Inr (a\<lparr>a_last_account_recovery := head_block_time db1\<rparr>)) db1 = Inr db'"
  using assms unfolding recover_account_evaluator_def Let_def
  by (auto simp: list_ex_iff split: option.splits)

lemma request_frames:
  "request_account_recovery_evaluator op db = Inr db' \<Longrightarrow> account_authorities db' = account_authorities db"
  "change_recovery_account_evaluator op2 db = Inr db' \<Longrightarrow> account_authorities db' = account_authorities db"
  "witness_update_evaluator producing op3 db = Inr db' \<Longrightarrow> account_authorities db' = account_authorities db"
  "feed_publish_evaluator op4 db = Inr db' \<Longrightarrow> account_authorities db' = account_authorities db"
  "claim_account_evaluator op5 db = Inr db' \<Longrightarrow> account_authorities db' = account_authorities db"
  by (auto simp: request_account_recovery_evaluator_def change_recovery_account_evaluator_def witness_update_evaluator_def
      feed_publish_evaluator_def claim_account_evaluator_def Let_def split: option.splits if_splits
      dest!: authorities_frame balances_authorities[OF conjunct2[OF adjust_balance_moves]])

lemma sweep_authorities:
  assumes "account_recovery_processing db = Inr db'"
  shows "account_authorities db' = account_authorities db"
proof -
  obtain db1 db2 where h: "drain (t_size (recovery_requests db)) next_recovery_request drop_recovery_request db = Inr db1"
    "drain (t_size (owner_histories db1)) next_owner_history drop_owner_history db1 = Inr db2"
    "drain (t_size (change_recovery_requests db2)) next_change_request apply_change_request db2 = Inr db'"
    using assms unfolding account_recovery_processing_def bindE_Inr by (elim exE conjE)
  have keep: "account_authorities s' = account_authorities s" if "drain k nxt step s = Inr s'"
    "\<And>r s s'. step r s = Inr s' \<Longrightarrow> account_authorities s' = account_authorities s" for k nxt step s s'
    by (rule drain_invariant[OF that(1), where I = "\<lambda>u. account_authorities u = account_authorities s"]) (use that(2) in auto)
  have "account_authorities db1 = account_authorities db" by (rule keep[OF h(1)]) (auto simp: drop_recovery_request_def)
  moreover have "account_authorities db2 = account_authorities db1" by (rule keep[OF h(2)]) (auto simp: drop_owner_history_def)
  moreover have "account_authorities db' = account_authorities db2"
    by (rule keep[OF h(3)]) (auto simp: apply_change_request_def dest: authorities_frame(1))
  ultimately show ?thesis by simp
qed

text \<open>
  C10. The owner authority of an account changes in two ways only. If one step of the account and
  witness operations or of the recovery sweep replaces the owner authority of an account, then either
  the account's own update operation did so, with exactly that authority and more than an hour after
  the last change, or it was recovered: then a pending recovery request, filed for that account, carries
  exactly the new authority, and the recovering operation names an authority that the history of this
  account still holds. Either way the time of the change is recorded.
\<close>

theorem owner_authority_safe:
  assumes "account_step db db'" "find_authority n db = Some x" "find_authority n db' = Some x'" "auth_owner x' \<noteq> auth_owner x"
  shows "((\<exists>op. account_update_evaluator op db = Inr db' \<and> oau_account op = n \<and> oau_owner op = Some (auth_owner x') \<and>
            secs (head_block_time db) - secs (auth_last_owner_update x) > GAMEBANK_OWNER_UPDATE_LIMIT) \<or>
          (\<exists>op. recover_account_evaluator op db = Inr db' \<and> ora_account_to_recover op = n \<and> ora_new_owner_authority op = auth_owner x' \<and>
            (\<exists>r \<in> set (rows (recovery_requests db)). arr_account_to_recover r = n \<and> arr_new_owner_authority r = auth_owner x') \<and>
            (\<exists>h \<in> set (rows (owner_histories db)). oah_account h = n \<and>
               oah_previous_owner_authority h = ora_recent_owner_authority op))) \<and>
         auth_last_owner_update x' = head_block_time db" (is ?thesis)
proof -
  have same: ?thesis if "account_authorities db' = account_authorities db"
    using find_authority_cong[OF that, of n] assms by auto
  show ?thesis
    using assms(1)
  proof (cases rule: account_step.cases)
    case (as_update op)
    then show ?thesis using account_update_authority[OF as_update assms(2-4)] by blast
  next
    case (as_recover op)
    show ?thesis
    proof (rule recover_account_form[OF as_recover], goal_cases)
      case (1 a r h db1)
      have k: "find_authority n db' = find_authority n db1" using authorities_frame(1)[OF 1(9)] by (simp add: find_authority_def)
      show ?thesis
      proof (rule update_owner_authority_effect[OF 1(8)], goal_cases)
        case (1 y)
        have f: "find_authority n (db\<lparr>recovery_requests := t\<rparr>) = find_authority n db" for t by (simp add: find_authority_def)
        have n: "n = ora_account_to_recover op" using 1(2)[of n] k f assms(2-4) by (auto split: if_splits)
        then have "x' = y\<lparr>auth_owner := ora_new_owner_authority op, auth_last_owner_update := head_block_time db\<rparr>"
          using 1(2)[of n] k assms(3) by simp
        then have "ora_new_owner_authority op = auth_owner x'" "auth_last_owner_update x' = head_block_time db" by simp_all
        then show ?thesis using as_recover n \<open>t_find _ _ = Some r\<close> \<open>arr_new_owner_authority r = _\<close>
            \<open>h \<in> _\<close> \<open>oah_account h = _\<close> \<open>oah_previous_owner_authority h = _\<close> t_find_Some[OF \<open>t_find _ _ = Some r\<close>] by auto
      qed
    qed
  next
    case (as_create op)
    then show ?thesis using creation_keeps_authorities(1)[OF assms(2)] assms(3,4) by auto
  next
    case (as_create_delegated op)
    then show ?thesis using creation_keeps_authorities(2)[OF assms(2)] assms(3,4) by auto
  next
    case (as_create_claimed op)
    then show ?thesis using creation_keeps_authorities(3)[OF assms(2)] assms(3,4) by auto
  next
    case as_sweep
    then show ?thesis by (intro same sweep_authorities)
  qed (rule same, erule request_frames)+
qed

section \<open>Recovery works exactly when it should\<close>

lemma update_owner_authority_returns:
  "find_authority n db = Some x \<Longrightarrow> \<exists>db'. update_owner_authority n own db = Inr db'"
proof -
  assume x: "find_authority n db = Some x"
  have "\<exists>s'. modify_authority n (\<lambda>x. Inr (x\<lparr>auth_owner := own, auth_last_owner_update := t\<rparr>)) s = Inr s'"
    if "account_authorities s = account_authorities db" for s t
    using auths.update_returns[of n s x] find_authority_cong[OF that, of n] x by (auto simp: returns_iff)
  then show ?thesis using x unfolding update_owner_authority_def by (auto simp: t_create_Inr)
qed

text \<open>
  C11. The exact conditions of account recovery. The operation succeeds if and only if the account and
  its authorities exist, its last recovery is more than an hour ago, a recovery request for it is
  pending with the same new owner authority, and the operation's recent owner authority is in the
  account's history; every other case throws. When it succeeds the new owner authority is in force, the
  request is gone, the replaced authority has entered the history (from the tracking start on), and the
  authorities of all other accounts are as before.
\<close>

theorem recover_account_exact:
  assumes "n = ora_account_to_recover op"
  shows "(returns (recover_account_evaluator op db) \<longleftrightarrow>
      (\<exists>a x r. find_account n db = Some a \<and> find_authority n db = Some x \<and>
         secs (head_block_time db) - secs (a_last_account_recovery a) > GAMEBANK_OWNER_UPDATE_LIMIT \<and>
         t_find (\<lambda>r. arr_account_to_recover r = n) (recovery_requests db) = Some r \<and>
         arr_new_owner_authority r = ora_new_owner_authority op \<and>
         (\<exists>h \<in> set (rows (owner_histories db)). oah_account h = n \<and> oah_previous_owner_authority h = ora_recent_owner_authority op))) \<and>
    (\<forall>db' x. recover_account_evaluator op db = Inr db' \<longrightarrow> find_authority n db = Some x \<longrightarrow>
       (\<forall>m. find_authority m db' = (if m = n
          then Some (x\<lparr>auth_owner := ora_new_owner_authority op, auth_last_owner_update := head_block_time db\<rparr>)
          else find_authority m db)) \<and>
       recovery_requests db' = t_remove (\<lambda>r. arr_account_to_recover r = n) (recovery_requests db) \<and>
       (tracked db \<longrightarrow> \<lparr>oah_account = n, oah_previous_owner_authority = auth_owner x, oah_last_valid_time = head_block_time db\<rparr>
          \<in> set (rows (owner_histories db'))))"
proof -
  let ?db = "db\<lparr>recovery_requests := t_remove (\<lambda>r. arr_account_to_recover r = n) (recovery_requests db)\<rparr>"
  have f: "find_authority m ?db = find_authority m db" "tracked ?db = tracked db" for m
    by (simp_all add: find_authority_def tracked_def)
  have "returns (recover_account_evaluator op db)"
    if a: "find_account n db = Some a" and x: "find_authority n db = Some x"
      and t: "secs (head_block_time db) - secs (a_last_account_recovery a) > GAMEBANK_OWNER_UPDATE_LIMIT"
      and r: "t_find (\<lambda>r. arr_account_to_recover r = n) (recovery_requests db) = Some r" "arr_new_owner_authority r = ora_new_owner_authority op"
      and h: "h \<in> set (rows (owner_histories db))" "oah_account h = n" "oah_previous_owner_authority h = ora_recent_owner_authority op"
    for a x r h
  proof -
    obtain db1 where up: "update_owner_authority n (ora_new_owner_authority op) ?db = Inr db1"
      using update_owner_authority_returns[of n ?db x] f x by auto
    then have "find_account n db1 = Some a" using a find_account_cong[of db1 db] by (auto elim: update_owner_authority_effect)
    then have "returns (modify_account n (\<lambda>a. Inr (a\<lparr>a_last_account_recovery := head_block_time db1\<rparr>)) db1)"
      by (rule accts.update_returns) simp
    then obtain db' where "modify_account n (\<lambda>a. Inr (a\<lparr>a_last_account_recovery := head_block_time db1\<rparr>)) db1 = Inr db'"
      by (auto simp: returns_iff)
    then show ?thesis using a t r h up unfolding recover_account_evaluator_def assms[symmetric] returns_iff
      by (auto simp: Let_def list_ex_iff)
  qed
  moreover have "\<exists>a x r. find_account n db = Some a \<and> find_authority n db = Some x \<and>
         secs (head_block_time db) - secs (a_last_account_recovery a) > GAMEBANK_OWNER_UPDATE_LIMIT \<and>
         t_find (\<lambda>r. arr_account_to_recover r = n) (recovery_requests db) = Some r \<and>
         arr_new_owner_authority r = ora_new_owner_authority op \<and>
         (\<exists>h \<in> set (rows (owner_histories db)). oah_account h = n \<and> oah_previous_owner_authority h = ora_recent_owner_authority op)"
    if "recover_account_evaluator op db = Inr db'" for db'
  proof (rule recover_account_form[OF that], goal_cases)
    case (1 a r h db1)
    obtain x where "find_authority n db = Some x" using 1(8) f(1) assms by (auto elim: update_owner_authority_effect)
    then show ?case using 1(1-7) assms by blast
  qed
  moreover have "(\<forall>m. find_authority m db' = (if m = n
          then Some (x\<lparr>auth_owner := ora_new_owner_authority op, auth_last_owner_update := head_block_time db\<rparr>)
          else find_authority m db)) \<and>
       recovery_requests db' = t_remove (\<lambda>r. arr_account_to_recover r = n) (recovery_requests db) \<and>
       (tracked db \<longrightarrow> \<lparr>oah_account = n, oah_previous_owner_authority = auth_owner x, oah_last_valid_time = head_block_time db\<rparr>
          \<in> set (rows (owner_histories db')))"
    if ev: "recover_account_evaluator op db = Inr db'" and x: "find_authority n db = Some x" for db' x
  proof (rule recover_account_form[OF ev], goal_cases)
    case (1 a r h db1)
    then have up: "update_owner_authority n (ora_new_owner_authority op) ?db = Inr db1"
      and m: "modify_account n (\<lambda>a. Inr (a\<lparr>a_last_account_recovery := head_block_time db1\<rparr>)) db1 = Inr db'" using assms by simp_all
    have k: "find_authority j db' = find_authority j db1" "recovery_requests db' = recovery_requests db1"
      "owner_histories db' = owner_histories db1" for j using modify_account_frame[OF m] by (auto simp: find_authority_def)
    show ?case
    proof (rule update_owner_authority_effect[OF up], goal_cases)
      case (1 y)
      then show ?case using x f k by simp
    qed
  qed
  ultimately show ?thesis unfolding returns_iff by blast
qed

section \<open>The recovery sweep\<close>

text \<open>A sweep that removes the first due object until none is due keeps exactly the objects that are not due.\<close>

lemma filter_del_first: "P v \<Longrightarrow> filter (\<lambda>w. \<not> P w) (del_first (\<lambda>w. w = v) vs) = filter (\<lambda>w. \<not> P w) vs"
  by (induction vs) auto

lemma drain_filter:
  assumes "drain k nxt step s = Inr s'" "t_size (T s) \<le> k" "I s"
    and nxt: "\<And>s. I s \<Longrightarrow> nxt s = t_due key due (T s)"
    and step: "\<And>r s s'. I s \<Longrightarrow> r \<in> set (rows (T s)) \<Longrightarrow> step r s = Inr s' \<Longrightarrow> I s' \<and> T s' = t_remove (\<lambda>x. x = r) (T s)"
    and closed: "\<And>v w. due w \<Longrightarrow> key v \<le> key w \<Longrightarrow> due v"
  shows "rows (T s') = filter (\<lambda>v. \<not> due v) (rows (T s)) \<and> I s'"
  using assms(1-3)
proof (induction k arbitrary: s)
  case 0
  then show ?case by (simp add: t_size_def)
next
  case (Suc k)
  show ?case
  proof (cases "nxt s")
    case None
    then have d: "t_due key due (T s) = None" using nxt[OF Suc.prems(3)] by simp
    have "\<not> due v" if "v \<in> set (rows (T s))" for v
      by (rule t_due_None[OF d _ that]) (rule closed)
    then show ?thesis using None Suc.prems by simp
  next
    case (Some r)
    then obtain u where u: "step r s = Inr u" "drain k nxt step u = Inr s'" using Suc.prems(1) by auto
    have r: "r \<in> set (rows (T s)) \<and> due r" using Some nxt[OF Suc.prems(3)] t_due_Some[of key due "T s" r] by simp
    note st = step[OF Suc.prems(3) conjunct1[OF r] u(1)]
    have "t_size (T u) \<le> k" using st t_size_remove[OF t_find_self[of r "T s"]] r Suc.prems(2) by simp
    then show ?thesis using Suc.IH[OF u(2)] st filter_del_first[of due r] r by (simp add: t_remove_def)
  qed
qed

definition expired_history :: "time_point_sec \<Rightarrow> owner_authority_history_object \<Rightarrow> bool" where
  "expired_history now h \<longleftrightarrow> plus_secs (oah_last_valid_time h) GAMEBANK_OWNER_AUTH_RECOVERY_PERIOD < now"

lemma drain_histories:
  assumes "drain k next_owner_history drop_owner_history s = Inr s'" "t_size (owner_histories s) \<le> k"
  shows "rows (owner_histories s') = dropWhile (expired_history (head_block_time s)) (rows (owner_histories s)) \<and>
    dgpo s' = dgpo s \<and> accounts s' = accounts s \<and> recovery_requests s' = recovery_requests s \<and>
    change_recovery_requests s' = change_recovery_requests s"
  using assms
proof (induction k arbitrary: s)
  case 0
  then show ?case by (simp add: t_size_def)
next
  case (Suc k)
  show ?case
  proof (cases "next_owner_history s")
    case None
    then show ?thesis using Suc.prems(1)
      by (auto simp: next_owner_history_def expired_history_def split: list.splits if_splits)
  next
    case (Some h)
    then obtain hs where hs: "rows (owner_histories s) = h # hs" "expired_history (head_block_time s) h"
      by (auto simp: next_owner_history_def expired_history_def split: list.splits if_splits)
    let ?u = "s\<lparr>owner_histories := t_remove (\<lambda>x. x = h) (owner_histories s)\<rparr>"
    have "drain k next_owner_history drop_owner_history ?u = Inr s'" using Suc.prems(1) Some by (simp add: drop_owner_history_def[of h s])
    then show ?thesis using Suc.IH[of ?u] Suc.prems(2) hs by (simp add: t_size_def t_remove_def)
  qed
qed

text \<open>A request to change the recovery partner that has been carried out is in force.\<close>

definition in_force :: "change_recovery_account_request_object \<Rightarrow> database \<Rightarrow> bool" where
  "in_force r db \<longleftrightarrow> (\<exists>a. find_account (cra_account_to_recover r) db = Some a \<and> a_recovery_account a = cra_recovery_account r)"

lemma apply_change_request_effect:
  assumes "apply_change_request r s = Inr s'"
  shows "in_force r s' \<and> (\<forall>q. cra_account_to_recover q \<noteq> cra_account_to_recover r \<longrightarrow> in_force q s' = in_force q s) \<and>
    change_recovery_requests s' = t_remove (\<lambda>x. x = r) (change_recovery_requests s) \<and> dgpo s' = dgpo s \<and>
    recovery_requests s' = recovery_requests s \<and> owner_histories s' = owner_histories s"
proof -
  let ?n = "cra_account_to_recover r" and ?f = "\<lambda>a. Inr (a\<lparr>a_recovery_account := cra_recovery_account r\<rparr>) :: account_object result"
  obtain s1 where m: "modify_account ?n ?f s = Inr s1"
    and s': "s' = s1\<lparr>change_recovery_requests := t_remove (\<lambda>x. x = r) (change_recovery_requests s1)\<rparr>"
    using assms by (auto simp: apply_change_request_def)
  obtain a where a: "find_account ?n s = Some a" using accts.update_found[OF m] by blast
  have "find_account k s' = (if k = ?n then Some (a\<lparr>a_recovery_account := cra_recovery_account r\<rparr>) else find_account k s)" for k
    using accts.lookup_update[OF m a refl, of k] accts.lookup_key[OF a] by (simp add: s' find_account_def)
  then show ?thesis using modify_account_frame[OF m] by (auto simp: in_force_def s')
qed

lemma distinct_requests_remove:
  "distinct (map f vs) \<Longrightarrow> v \<in> set vs \<Longrightarrow> u \<in> set vs \<Longrightarrow> u \<in> set (del_first (\<lambda>w. w = v) vs) \<or> u = v"
  "distinct (map f vs) \<Longrightarrow> distinct (map f (del_first P vs))"
  by (induction vs) (auto dest: set_del_first[THEN subsetD])

text \<open>
  C27. The recovery sweep of a block is exact. Of the pending recovery requests it keeps, in their order,
  exactly those that have not expired; of the owner authority histories it drops expired ones from the
  oldest on and never one that is younger than thirty days; of the requests to change a recovery partner
  it keeps exactly those that are not yet effective, and every other one is now in force.
\<close>

theorem recovery_sweep_exact:
  assumes "account_recovery_processing db = Inr db'"
    and "distinct (map cra_account_to_recover (rows (change_recovery_requests db)))"
  shows "rows (recovery_requests db') = filter (\<lambda>r. head_block_time db < arr_expires r) (rows (recovery_requests db)) \<and>
    rows (owner_histories db') = dropWhile (expired_history (head_block_time db)) (rows (owner_histories db)) \<and>
    (\<forall>h \<in> set (rows (owner_histories db)). \<not> expired_history (head_block_time db) h \<longrightarrow> h \<in> set (rows (owner_histories db'))) \<and>
    rows (change_recovery_requests db') = filter (\<lambda>r. head_block_time db < cra_effective_on r) (rows (change_recovery_requests db)) \<and>
    (\<forall>r \<in> set (rows (change_recovery_requests db)). cra_effective_on r \<le> head_block_time db \<longrightarrow> in_force r db')"
proof -
  let ?now = "head_block_time db"
  obtain db1 db2 where h: "drain (t_size (recovery_requests db)) next_recovery_request drop_recovery_request db = Inr db1"
    "drain (t_size (owner_histories db1)) next_owner_history drop_owner_history db1 = Inr db2"
    "drain (t_size (change_recovery_requests db2)) next_change_request apply_change_request db2 = Inr db'"
    using assms(1) unfolding account_recovery_processing_def bindE_Inr by (elim exE conjE)
  have s1: "rows (recovery_requests db1) = filter (\<lambda>r. \<not> arr_expires r \<le> ?now) (rows (recovery_requests db)) \<and>
    (dgpo db1 = dgpo db \<and> owner_histories db1 = owner_histories db \<and> change_recovery_requests db1 = change_recovery_requests db)"
    by (rule drain_filter[OF h(1), where key = "\<lambda>r. (arr_expires r, arr_account_to_recover r)" and T = recovery_requests
          and I = "\<lambda>s. dgpo s = dgpo db \<and> owner_histories s = owner_histories db \<and> change_recovery_requests s = change_recovery_requests db"])
      (auto simp: next_recovery_request_def drop_recovery_request_def)
  note s2 = drain_histories[OF h(2) order_refl]
  let ?Q = "rows (change_recovery_requests db)"
  have s3: "rows (change_recovery_requests db') = filter (\<lambda>r. \<not> cra_effective_on r \<le> ?now) (rows (change_recovery_requests db2)) \<and>
    (dgpo db' = dgpo db \<and> owner_histories db' = owner_histories db2 \<and> recovery_requests db' = recovery_requests db2 \<and>
      distinct (map cra_account_to_recover (rows (change_recovery_requests db'))) \<and>
      set (rows (change_recovery_requests db')) \<subseteq> set ?Q \<and>
      (\<forall>r \<in> set ?Q. r \<in> set (rows (change_recovery_requests db')) \<or> in_force r db'))"
  proof (rule drain_filter[OF h(3), where key = "\<lambda>r. (cra_effective_on r, cra_account_to_recover r)" and T = change_recovery_requests
        and I = "\<lambda>s. dgpo s = dgpo db \<and> owner_histories s = owner_histories db2 \<and> recovery_requests s = recovery_requests db2 \<and>
          distinct (map cra_account_to_recover (rows (change_recovery_requests s))) \<and>
          set (rows (change_recovery_requests s)) \<subseteq> set ?Q \<and>
          (\<forall>r \<in> set ?Q. r \<in> set (rows (change_recovery_requests s)) \<or> in_force r s)"], goal_cases)
    case 2
    then show ?case using s1 s2 assms(2) by simp
  next
    case (4 q s s')
    note e = apply_change_request_effect[OF 4(3)]
    have "r \<in> set (rows (change_recovery_requests s')) \<or> in_force r s'" if r: "r \<in> set ?Q" for r
    proof (cases "r \<in> set (rows (change_recovery_requests s))")
      case True
      then show ?thesis using distinct_requests_remove(1)[of cra_account_to_recover "rows (change_recovery_requests s)" q r] 4 e
        by (auto simp: t_remove_def)
    next
      case False
      then have "in_force r s" using 4(1) r by blast
      moreover have "r \<noteq> q" using False 4(2) by auto
      then have "cra_account_to_recover r \<noteq> cra_account_to_recover q"
        using r 4(1,2) assms(2) by (auto simp: distinct_map inj_on_def)
      ultimately show ?thesis using e by blast
    qed
    then show ?case using 4 e distinct_requests_remove(2)[of cra_account_to_recover "rows (change_recovery_requests s)"]
      by (auto simp: t_remove_def dest: set_del_first[THEN subsetD])
  qed (auto simp: next_change_request_def)
  have keep: "h \<in> set (dropWhile P hs)" if "h \<in> set hs" "\<not> P h" for P h and hs :: "owner_authority_history_object list"
    using that by (induction hs) auto
  show ?thesis using s1 s2 s3 by (auto simp: not_le intro!: keep)
qed

section \<open>Concrete runs\<close>

text \<open>
  Alice's owner key was replaced by a thief; her recovery partner has filed a request, and her old
  authority is in the history.
\<close>

definition key_authority :: "public_key_type \<Rightarrow> authority" where
  "key_authority k = \<lparr>weight_threshold = 1, account_auths = [], key_auths = [(k, 1)]\<rparr>"

definition stolen_db :: database where
  "stolen_db = empty_database\<lparr>
     accounts := \<lparr>next_id = 1, rows = [(new_account 0)\<lparr>a_name := ''alice''\<rparr>]\<rparr>,
     account_authorities := \<lparr>next_id = 1, rows = [\<lparr>auth_account = ''alice'', auth_owner = key_authority ''thief'',
        auth_active = key_authority ''a'', auth_posting = key_authority ''p'', auth_last_owner_update = 90000\<rparr>]\<rparr>,
     recovery_requests := \<lparr>next_id = 1, rows = [\<lparr>arr_account_to_recover = ''alice'', arr_new_owner_authority = key_authority ''new'',
        arr_expires = 200000\<rparr>]\<rparr>,
     owner_histories := \<lparr>next_id = 1, rows = [\<lparr>oah_account = ''alice'', oah_previous_owner_authority = key_authority ''old'',
        oah_last_valid_time = 90000\<rparr>]\<rparr>,
     change_recovery_requests := \<lparr>next_id = 1, rows = [\<lparr>cra_account_to_recover = ''alice'', cra_recovery_account = ''bob'',
        cra_effective_on = 95000\<rparr>]\<rparr>,
     dgpo := new_dgpo\<lparr>dgp_time := 100000\<rparr>\<rparr>"

definition alice_recovers :: recover_account_operation where
  "alice_recovers = \<lparr>ora_account_to_recover = ''alice'', ora_new_owner_authority = key_authority ''new'',
     ora_recent_owner_authority = key_authority ''old''\<rparr>"

lemmas stolen_run = stolen_db_def alice_recovers_def recover_account_evaluator_def update_owner_authority_def
  get_authority_def find_authority_def modify_authority_def concrete

lemma recovery_run:
  "\<exists>db'. recover_account_evaluator alice_recovers stolen_db = Inr db' \<and>
     map auth_owner (rows (account_authorities db')) = [key_authority ''new'']"
  by (rule returningD, simp add: returning_def stolen_run GAMEBANK_OWNER_UPDATE_LIMIT_def
      GAMEBANK_OWNER_AUTH_HISTORY_TRACKING_START_BLOCK_NUM_def cong: eager)

theorem owner_authority_safe_witness:
  "\<exists>db' x'. recover_account_evaluator alice_recovers stolen_db = Inr db' \<and> find_authority ''alice'' db' = Some x' \<and>
     auth_owner x' = key_authority ''new'' \<and> auth_last_owner_update x' = head_block_time stolen_db"
proof -
  obtain db' where r: "recover_account_evaluator alice_recovers stolen_db = Inr db'"
    "map auth_owner (rows (account_authorities db')) = [key_authority ''new'']" using recovery_run by (elim exE conjE)
  obtain x where x: "find_authority ''alice'' stolen_db = Some x" "auth_owner x = key_authority ''thief''"
    by (simp add: stolen_db_def find_authority_def t_find_def)
  have "find_authority ''alice'' db' \<noteq> None"
    by (rule recover_account_form[OF r(1)], erule update_owner_authority_effect)
      (use x(1) in \<open>auto simp: alice_recovers_def find_authority_def dest!: authorities_frame(1)\<close>)
  then obtain x' where x': "find_authority ''alice'' db' = Some x'" by auto
  then have o': "auth_owner x' = key_authority ''new''"
    using r(2) by (auto simp: find_authority_def dest!: t_find_Some)
  then have "auth_owner x' \<noteq> auth_owner x" using x(2) by (simp add: key_authority_def)
  from owner_authority_safe[OF as_recover[OF r(1)] x(1) x' this, THEN conjunct2]
  show ?thesis using r(1) x' o' by blast
qed

theorem recover_account_exact_witness:
  "returns (recover_account_evaluator alice_recovers stolen_db) \<and>
   (\<exists>a x r. find_account ''alice'' stolen_db = Some a \<and> find_authority ''alice'' stolen_db = Some x \<and>
      t_find (\<lambda>r. arr_account_to_recover r = ''alice'') (recovery_requests stolen_db) = Some r \<and>
      arr_new_owner_authority r = key_authority ''new'')"
proof -
  have n: "''alice'' = ora_account_to_recover alice_recovers" "ora_new_owner_authority alice_recovers = key_authority ''new''"
    by (simp_all add: alice_recovers_def)
  have "returns (recover_account_evaluator alice_recovers stolen_db)" using recovery_run by (auto simp: returns_iff)
  with recover_account_exact[OF n(1), THEN conjunct1, THEN iffD1, OF this] show ?thesis unfolding n(2) by blast
qed

lemma sweep_run: "\<exists>db'. account_recovery_processing stolen_db = Inr db'"
  by (rule returningD[where P = "\<lambda>_. True", simplified], simp add: returning_def stolen_db_def account_recovery_processing_def concrete
      next_recovery_request_def next_owner_history_def next_change_request_def t_due_def t_size_def
      drop_recovery_request_def apply_change_request_def GAMEBANK_OWNER_AUTH_RECOVERY_PERIOD_def cong: eager)

theorem recovery_sweep_exact_witness:
  "\<exists>db'. account_recovery_processing stolen_db = Inr db' \<and> rows (recovery_requests db') = rows (recovery_requests stolen_db) \<and>
     rows (change_recovery_requests db') = [] \<and>
     in_force \<lparr>cra_account_to_recover = ''alice'', cra_recovery_account = ''bob'', cra_effective_on = 95000\<rparr> db'"
proof -
  obtain db' where r: "account_recovery_processing stolen_db = Inr db'" using sweep_run by (elim exE)
  have d: "distinct (map cra_account_to_recover (rows (change_recovery_requests stolen_db)))" by (simp add: stolen_db_def)
  note e = recovery_sweep_exact[OF r d]
  have s: "rows (recovery_requests db') = rows (recovery_requests stolen_db)" "rows (change_recovery_requests db') = []"
    using e by (simp_all add: stolen_db_def)
  have "in_force \<lparr>cra_account_to_recover = ''alice'', cra_recovery_account = ''bob'', cra_effective_on = 95000\<rparr> db'"
    using e by (simp add: stolen_db_def)
  then show ?thesis using r s by blast
qed

end
