(* ===== verification/Funds.thy ===== *)
theory Funds
  imports Accounts
begin

text \<open>
  Crowdfunding and non-fungible funds, the parts of the chain that are gamebank's own: the evaluators
  of src/libraries/chain/gamebank_evaluator.cpp and the sweeps \<^verbatim>\<open>process_crowdfunding\<close> and
  \<^verbatim>\<open>clear_expired_nonfungible_funds_on_sale\<close> of database.cpp.
\<close>

definition GAMEBANK_MIN_PERMLINK_LENGTH :: nat where "GAMEBANK_MIN_PERMLINK_LENGTH = 0"
definition GAMEBANK_MAX_PERMLINK_LENGTH :: nat where "GAMEBANK_MAX_PERMLINK_LENGTH = 256"

definition validate_permlink_0_1 :: "string \<Rightarrow> unit result" where
  "validate_permlink_0_1 permlink =
     fc_assert (length permlink > GAMEBANK_MIN_PERMLINK_LENGTH \<and> length permlink < GAMEBANK_MAX_PERMLINK_LENGTH)
     (fc_assert (list_all (\<lambda>c. c \<in> set ''abcdefghijklmnopqrstuvwxyz0123456789-'') permlink) (Inr ()))"

section \<open>Crowdfunding\<close>

definition crowdfunding_clash :: "crowdfunding_object \<Rightarrow> crowdfunding_object \<Rightarrow> bool" where
  "crowdfunding_clash c d \<longleftrightarrow>
     (cf_originator c, cf_permlink c) = (cf_originator d, cf_permlink d) \<or> (cf_expire c, cf_originator c) = (cf_expire d, cf_originator d)"

definition invest_clash :: "crowdfunding_invest_object \<Rightarrow> crowdfunding_invest_object \<Rightarrow> bool" where
  "invest_clash i j \<longleftrightarrow>
     (inv_crowdfunding i, inv_invester i) = (inv_crowdfunding j, inv_invester j) \<or> (inv_expire i, inv_invester i) = (inv_expire j, inv_invester j)"

definition find_crowdfunding :: "account_name_type \<Rightarrow> string \<Rightarrow> database \<Rightarrow> crowdfunding_object option" where
  "find_crowdfunding originator permlink db =
     t_find (\<lambda>c. cf_originator c = originator \<and> cf_permlink c = permlink) (crowdfundings db)"

definition get_crowdfunding :: "account_name_type \<Rightarrow> string \<Rightarrow> database \<Rightarrow> crowdfunding_object result" where
  "get_crowdfunding originator permlink db =
     t_get (\<lambda>c. cf_originator c = originator \<and> cf_permlink c = permlink) (crowdfundings db)"

definition find_cf :: "nat \<Rightarrow> database \<Rightarrow> crowdfunding_object option" where
  "find_cf i db = t_find (\<lambda>c. cf_id c = i) (crowdfundings db)"

definition modify_cf :: "nat \<Rightarrow> (crowdfunding_object \<Rightarrow> crowdfunding_object result) \<Rightarrow> database \<Rightarrow> database result" where
  "modify_cf i f db = bindE (t_modify (\<lambda>c. cf_id c = i) f (crowdfundings db)) (\<lambda>t. Inr (db\<lparr>crowdfundings := t\<rparr>))"

definition crowdfunding_evaluator :: "text_checks \<Rightarrow> crowdfunding_operation \<Rightarrow> database \<Rightarrow> database result" where
  "crowdfunding_evaluator tc op db =
     (let now = head_block_time db; expire = plus_secs now (3 * 86400); i = next_id (crowdfundings db) in
      fc_assert (length (ocrf_title op) + length (ocrf_body op) + length (ocrf_json_metadata op) \<noteq> 0)
      (fc_assert (is_utf8 tc (ocrf_json_metadata op))
      (bindE (get_account (ocrf_originator op) db) (\<lambda>originator.
       fc_assert (now > a_last_crowdfunding_expire originator)
       (fc_assert (find_crowdfunding (ocrf_originator op) (ocrf_permlink op) db = None)
       (bindE (modify_account (ocrf_originator op) (\<lambda>a. Inr (a\<lparr>a_last_crowdfunding_expire := expire,
            a_crowdfunding_count := a_crowdfunding_count a + 1\<rparr>)) db) (\<lambda>db1.
        bindE (validate_permlink_0_1 (ocrf_permlink op)) (\<lambda>_.
        bindE (t_create crowdfunding_clash (\<lambda>i.
           \<lparr>cf_id = i, cf_originator = ocrf_originator op, cf_permlink = ocrf_permlink op, cf_created = now, cf_expire = expire,
            cf_last_raise = 0, cf_total_raise_value = ocrf_raise op, cf_curator_raise_value = GBC 0, cf_finish = 0\<rparr>) (crowdfundings db1)) (\<lambda>t.
        bindE (t_create (\<lambda>c d. cfc_crowdfunding c = cfc_crowdfunding d) (\<lambda>_.
           \<lparr>cfc_crowdfunding = i, cfc_title = ocrf_title op,
            cfc_body = (if length (ocrf_body op) < 1024 * 1024 * 128 then ocrf_body op else ''''),
            cfc_json_metadata = ocrf_json_metadata op\<rparr>) (crowdfunding_contents db1)) (\<lambda>u.
          Inr (db1\<lparr>crowdfundings := t, crowdfunding_contents := u\<rparr>)))))))))))"

definition invest_evaluator :: "invest_operation \<Rightarrow> database \<Rightarrow> database result" where
  "invest_evaluator op db =
     (let now = head_block_time db; raise = oiv_raise op in
      bindE (get_crowdfunding (oiv_originator op) (oiv_permlink op) db) (\<lambda>cf.
      bindE (get_account (oiv_invester op) db) (\<lambda>invester.
      fc_assert (now < cf_expire cf)
      (bindE (get_balance invester (symbol raise)) (\<lambda>b.
       fc_assertE (asset_ge b raise)
       (bindE (asset_add (cf_curator_raise_value cf) raise) (\<lambda>s.
        fc_assertE (asset_le s (cf_total_raise_value cf))
        (bindE (asset_neg raise) (\<lambda>neg.
         bindE (adjust_balance (oiv_invester op) neg db) (\<lambda>db1.
         bindE (modify_cf (cf_id cf) (\<lambda>co. bindE (asset_add (cf_curator_raise_value co) raise) (\<lambda>v.
              Inr (co\<lparr>cf_curator_raise_value := v, cf_last_raise := now\<rparr>))) db1) (\<lambda>db2.
         let is_inv = (\<lambda>i. inv_crowdfunding i = cf_id cf \<and> inv_invester i = a_name invester) in
         case t_find is_inv (crowdfunding_invests db2) of
           None \<Rightarrow>
             bindE (t_create invest_clash (\<lambda>_.
               \<lparr>inv_invester = a_name invester, inv_crowdfunding = cf_id cf, inv_expire = cf_expire cf, inv_last_update = now, inv_raise = raise\<rparr>)
               (crowdfunding_invests db2)) (\<lambda>t. Inr (db2\<lparr>crowdfunding_invests := t\<rparr>))
         | Some _ \<Rightarrow>
             bindE (t_modify is_inv (\<lambda>i. bindE (asset_add (inv_raise i) raise) (\<lambda>r.
               Inr (i\<lparr>inv_raise := r, inv_last_update := now\<rparr>))) (crowdfunding_invests db2)) (\<lambda>t.
               Inr (db2\<lparr>crowdfunding_invests := t\<rparr>)))))))))))))"

text \<open>
  The settlement of crowdfundings: the loop looks at the first one by expiration, gives it up when it
  has not expired or is finished, and starts again after settling it. A crowdfunding that raised
  less than its goal returns every expired investment; otherwise the originator receives what was raised.
\<close>

definition next_crowdfunding :: "database \<Rightarrow> crowdfunding_object option" where
  "next_crowdfunding db =
     t_due (\<lambda>c. (cf_expire c, cf_originator c)) (\<lambda>c. \<not> cf_expire c > head_block_time db \<and> \<not> cf_finish c > 0) (crowdfundings db)"

definition next_refund :: "database \<Rightarrow> crowdfunding_invest_object option" where
  "next_refund db =
     t_due (\<lambda>i. (inv_expire i, inv_invester i)) (\<lambda>i. \<not> inv_expire i > head_block_time db) (crowdfunding_invests db)"

definition refund_invest :: "crowdfunding_invest_object \<Rightarrow> database \<Rightarrow> database result" where
  "refund_invest i db =
     bindE (get_account (inv_invester i) db) (\<lambda>_.
     bindE (adjust_balance (inv_invester i) (inv_raise i) db) (\<lambda>db1.
       Inr (db1\<lparr>crowdfunding_invests := t_remove (\<lambda>j. j = i) (crowdfunding_invests db1)\<rparr>)))"

definition settle_crowdfunding :: "crowdfunding_object \<Rightarrow> database \<Rightarrow> database result" where
  "settle_crowdfunding c db =
     bindE (asset_gt (cf_total_raise_value c) (cf_curator_raise_value c)) (\<lambda>missed.
     bindE (if missed then drain (t_size (crowdfunding_invests db)) next_refund refund_invest db
            else bindE (get_account (cf_originator c) db) (\<lambda>_. adjust_balance (cf_originator c) (cf_curator_raise_value c) db)) (\<lambda>db1.
       modify_cf (cf_id c) (\<lambda>co. Inr (co\<lparr>cf_finish := (if missed then 2 else 1)\<rparr>)) db1))"

definition process_crowdfunding :: "database \<Rightarrow> database result" where
  "process_crowdfunding db = drain (t_size (crowdfundings db)) next_crowdfunding settle_crowdfunding db"

section \<open>Non-fungible funds\<close>

definition find_fund :: "int \<Rightarrow> database \<Rightarrow> nonfungible_fund_object option" where
  "find_fund i db = t_find (\<lambda>f. int (nf_id f) = i) (nonfungible_funds db)"

definition get_fund :: "int \<Rightarrow> database \<Rightarrow> nonfungible_fund_object result" where
  "get_fund i db = t_get (\<lambda>f. int (nf_id f) = i) (nonfungible_funds db)"

definition modify_fund :: "int \<Rightarrow> (nonfungible_fund_object \<Rightarrow> nonfungible_fund_object result) \<Rightarrow> database \<Rightarrow> database result" where
  "modify_fund i f db = bindE (t_modify (\<lambda>f. int (nf_id f) = i) f (nonfungible_funds db)) (\<lambda>t. Inr (db\<lparr>nonfungible_funds := t\<rparr>))"

definition find_sale :: "int \<Rightarrow> database \<Rightarrow> nonfungible_fund_on_sale_object option" where
  "find_sale i db = t_find (\<lambda>s. ns_fund_id s = i) (nonfungible_on_sale db)"

definition get_sale :: "int \<Rightarrow> database \<Rightarrow> nonfungible_fund_on_sale_object result" where
  "get_sale i db = t_get (\<lambda>s. ns_fund_id s = i) (nonfungible_on_sale db)"

definition remove_sale :: "int \<Rightarrow> database \<Rightarrow> database" where
  "remove_sale i db = db\<lparr>nonfungible_on_sale := t_remove (\<lambda>s. ns_fund_id s = i) (nonfungible_on_sale db)\<rparr>"

definition nonfungible_fund_create_evaluator :: "nonfungible_fund_create_operation \<Rightarrow> database \<Rightarrow> database result" where
  "nonfungible_fund_create_evaluator op db =
     bindE (get_account (onfc_creator op) db) (\<lambda>creator.
     bindE (get_account (onfc_owner op) db) (\<lambda>own.
     bindE (t_create (\<lambda>_ _. False) (\<lambda>i.
         \<lparr>nf_id = i, nf_creator = a_name creator, nf_owner = a_name own, nf_meta_data = onfc_meta_data op, nf_creator_sign = '''',
          nf_last_update = head_block_time db, nf_created = head_block_time db\<rparr>) (nonfungible_funds db)) (\<lambda>t.
       Inr (db\<lparr>nonfungible_funds := t\<rparr>))))"

definition nonfungible_fund_transfer_evaluator :: "nonfungible_fund_transfer_operation \<Rightarrow> database \<Rightarrow> database result" where
  "nonfungible_fund_transfer_evaluator op db =
     bindE (get_account (onft_from op) db) (\<lambda>from.
     bindE (get_account (onft_to op) db) (\<lambda>to.
     bindE (get_fund (onft_fund_id op) db) (\<lambda>nfo.
     fc_assert (nf_owner nfo = a_name from)
     (fc_assert (find_sale (onft_fund_id op) db = None)
       (modify_fund (onft_fund_id op) (\<lambda>f. Inr (f\<lparr>nf_owner := a_name to, nf_last_update := head_block_time db\<rparr>)) db)))))"

definition nonfungible_fund_put_up_for_sale_evaluator ::
    "nonfungible_fund_put_up_for_sale_operation \<Rightarrow> database \<Rightarrow> database result" where
  "nonfungible_fund_put_up_for_sale_evaluator op db =
     fc_assert (onfs_expiration op > head_block_time db)
     (bindE (get_account (onfs_seller op) db) (\<lambda>seller.
      bindE (get_fund (onfs_fund_id op) db) (\<lambda>nfo.
      fc_assert (nf_owner nfo = a_name seller)
      (fc_assert (find_sale (onfs_fund_id op) db = None)
      (bindE (t_create (\<lambda>s u. ns_fund_id s = ns_fund_id u) (\<lambda>_.
          \<lparr>ns_fund_id = onfs_fund_id op, ns_created = head_block_time db, ns_expiration = onfs_expiration op,
           ns_seller = onfs_seller op, ns_selling_price = onfs_selling_price op\<rparr>) (nonfungible_on_sale db)) (\<lambda>t.
        Inr (db\<lparr>nonfungible_on_sale := t\<rparr>)))))))"

definition nonfungible_fund_withdraw_from_sale_evaluator ::
    "nonfungible_fund_withdraw_from_sale_operation \<Rightarrow> database \<Rightarrow> database result" where
  "nonfungible_fund_withdraw_from_sale_evaluator op db =
     bindE (get_account (onfw_seller op) db) (\<lambda>seller.
     bindE (get_fund (onfw_fund_id op) db) (\<lambda>nfo.
     fc_assert (nf_owner nfo = a_name seller)
     (bindE (get_sale (onfw_fund_id op) db) (\<lambda>_. Inr (remove_sale (onfw_fund_id op) db)))))"

definition nonfungible_fund_buy_evaluator :: "nonfungible_fund_buy_operation \<Rightarrow> database \<Rightarrow> database result" where
  "nonfungible_fund_buy_evaluator op db =
     bindE (get_fund (onfb_fund_id op) db) (\<lambda>nfo.
     bindE (get_sale (onfb_fund_id op) db) (\<lambda>sale.
     bindE (get_account (onfb_buyer op) db) (\<lambda>buyer.
     bindE (get_balance buyer (symbol (ns_selling_price sale))) (\<lambda>b.
     fc_assertE (asset_ge b (ns_selling_price sale))
     (bindE (asset_neg (ns_selling_price sale)) (\<lambda>neg.
      bindE (adjust_balance (onfb_buyer op) neg db) (\<lambda>db1.
      bindE (adjust_balance (ns_seller sale) (ns_selling_price sale) db1) (\<lambda>db2.
        modify_fund (onfb_fund_id op) (\<lambda>f. Inr (f\<lparr>nf_owner := onfb_buyer op, nf_last_update := head_block_time db\<rparr>))
          (remove_sale (onfb_fund_id op) db2)))))))))"

definition next_expired_sale :: "database \<Rightarrow> nonfungible_fund_on_sale_object option" where
  "next_expired_sale db = t_due ns_expiration (\<lambda>s. ns_expiration s < head_block_time db) (nonfungible_on_sale db)"

definition drop_sale :: "nonfungible_fund_on_sale_object \<Rightarrow> database \<Rightarrow> database result" where
  "drop_sale s db = Inr (remove_sale (ns_fund_id s) db)"

definition clear_expired_nonfungible_funds_on_sale :: "database \<Rightarrow> database result" where
  "clear_expired_nonfungible_funds_on_sale db = drain (t_size (nonfungible_on_sale db)) next_expired_sale drop_sale db"

section \<open>Ownership of funds\<close>

interpretation funds: keyed_store find_fund modify_fund "\<lambda>f. int (nf_id f)" "\<lambda>g db. t_sum g (nonfungible_funds db)"
  unfolding find_fund_def modify_fund_def by (rule keyed_field) simp

interpretation cfs: keyed_store find_cf modify_cf cf_id "\<lambda>g db. t_sum g (crowdfundings db)"
  unfolding find_cf_def modify_cf_def by (rule keyed_field) simp

lemma get_fund_Inr [simp]: "get_fund i db = Inr f \<longleftrightarrow> find_fund i db = Some f"
  by (simp add: get_fund_def find_fund_def)

lemma get_sale_Inr [simp]: "get_sale i db = Inr s \<longleftrightarrow> find_sale i db = Some s"
  by (simp add: get_sale_def find_sale_def)

inductive nft_step :: "database \<Rightarrow> database \<Rightarrow> bool" where
  nft_create: "nonfungible_fund_create_evaluator op db = Inr db' \<Longrightarrow> nft_step db db'"
| nft_transfer: "nonfungible_fund_transfer_evaluator op db = Inr db' \<Longrightarrow> nft_step db db'"
| nft_offer: "nonfungible_fund_put_up_for_sale_evaluator op db = Inr db' \<Longrightarrow> nft_step db db'"
| nft_withdraw: "nonfungible_fund_withdraw_from_sale_evaluator op db = Inr db' \<Longrightarrow> nft_step db db'"
| nft_buy: "nonfungible_fund_buy_evaluator op db = Inr db' \<Longrightarrow> nft_step db db'"
| nft_expire: "clear_expired_nonfungible_funds_on_sale db = Inr db' \<Longrightarrow> nft_step db db'"

text \<open>Every offer is of a fund that its seller owns, and no fund is offered twice.\<close>

definition offers_ok :: "database \<Rightarrow> bool" where
  "offers_ok db \<longleftrightarrow>
     (\<forall>s \<in> set (rows (nonfungible_on_sale db)). \<exists>f. find_fund (ns_fund_id s) db = Some f \<and> nf_owner f = ns_seller s) \<and>
     distinct (map ns_fund_id (rows (nonfungible_on_sale db)))"

lemma find_sale_row: "find_sale i db = Some s \<Longrightarrow> s \<in> set (rows (nonfungible_on_sale db)) \<and> ns_fund_id s = i"
  unfolding find_sale_def by (drule t_find_Some) simp

lemma no_sale_row: "find_sale i db = None \<Longrightarrow> s \<in> set (rows (nonfungible_on_sale db)) \<Longrightarrow> ns_fund_id s \<noteq> i"
  by (auto simp: find_sale_def t_find_def find_None_iff)

lemma remove_sale_funds [simp]: "find_fund i (remove_sale j db) = find_fund i db"
  by (simp add: find_fund_def remove_sale_def)

lemma remove_sale_rows:
  assumes "distinct (map ns_fund_id (rows (nonfungible_on_sale db)))"
  shows "rows (nonfungible_on_sale (remove_sale j db)) = filter (\<lambda>s. ns_fund_id s \<noteq> j) (rows (nonfungible_on_sale db))"
proof -
  have "del_first (\<lambda>s. ns_fund_id s = j) ss = filter (\<lambda>s. ns_fund_id s \<noteq> j) ss" if "distinct (map ns_fund_id ss)" for ss
    using that by (induction ss) (auto intro!: filter_True[symmetric] simp: image_iff)
  then show ?thesis using assms by (simp add: remove_sale_def t_remove_def)
qed

lemma offers_ok_remove: "offers_ok db \<Longrightarrow> offers_ok (remove_sale j db)"
  by (auto simp: offers_ok_def remove_sale_rows distinct_map_filter)

lemma offers_ok_funds:
  assumes "offers_ok db" "nonfungible_on_sale db' = nonfungible_on_sale db"
    and "\<And>s. s \<in> set (rows (nonfungible_on_sale db)) \<Longrightarrow> find_fund (ns_fund_id s) db' = find_fund (ns_fund_id s) db"
  shows "offers_ok db'"
  using assms by (simp add: offers_ok_def)

lemma balances_funds:
  assumes "balances_only db db'"
  shows "nonfungible_funds db' = nonfungible_funds db" "nonfungible_on_sale db' = nonfungible_on_sale db" "find_fund i db' = find_fund i db"
    "find_sale i db' = find_sale i db"
proof -
  have e: "db' = db\<lparr>accounts := accounts db', dgpo := dgpo db'\<rparr>" using assms by (simp add: balances_only_def)
  show "nonfungible_funds db' = nonfungible_funds db" "nonfungible_on_sale db' = nonfungible_on_sale db"
    using arg_cong[OF e, of nonfungible_funds] arg_cong[OF e, of nonfungible_on_sale] by simp_all
  then show "find_fund i db' = find_fund i db" "find_sale i db' = find_sale i db" by (simp_all add: find_fund_def find_sale_def)
qed

text \<open>Giving a fund that is not on offer to another owner.\<close>

lemma give_fund:
  assumes m: "modify_fund i (\<lambda>f. Inr (f\<lparr>nf_owner := n, nf_last_update := t\<rparr>)) db = Inr db'" and f: "find_fund i db = Some f"
  shows "find_fund j db' = (if j = i then Some (f\<lparr>nf_owner := n, nf_last_update := t\<rparr>) else find_fund j db)"
    and "nonfungible_on_sale db' = nonfungible_on_sale db" and "accounts db' = accounts db"
    and "offers_ok db \<Longrightarrow> find_sale i db = None \<Longrightarrow> offers_ok db'"
proof -
  show l: "find_fund j db' = (if j = i then Some (f\<lparr>nf_owner := n, nf_last_update := t\<rparr>) else find_fund j db)" for j
    using funds.lookup_update[OF m f refl, of j] funds.lookup_key[OF f] by simp
  show s: "nonfungible_on_sale db' = nonfungible_on_sale db" "accounts db' = accounts db" using m by (auto simp: modify_fund_def)
  show "offers_ok db \<Longrightarrow> find_sale i db = None \<Longrightarrow> offers_ok db'"
    using no_sale_row by (fastforce intro!: offers_ok_funds[OF _ s(1)] simp: l)
qed

lemma buy_form:
  assumes "nonfungible_fund_buy_evaluator op db = Inr db'"
  obtains f s neg db1 db2 where "find_fund (onfb_fund_id op) db = Some f" "find_sale (onfb_fund_id op) db = Some s"
    "asset_neg (ns_selling_price s) = Inr neg" "adjust_balance (onfb_buyer op) neg db = Inr db1"
    "adjust_balance (ns_seller s) (ns_selling_price s) db1 = Inr db2"
    "modify_fund (onfb_fund_id op) (\<lambda>f. Inr (f\<lparr>nf_owner := onfb_buyer op, nf_last_update := head_block_time db\<rparr>))
       (remove_sale (onfb_fund_id op) db2) = Inr db'"
  using assms unfolding nonfungible_fund_buy_evaluator_def bindE_Inr fc_assertE_Inr get_fund_Inr get_sale_Inr
  by (elim exE conjE) (rule that)

text \<open>What one step may do to the owner of a fund: nothing, a gift by the owner while the fund is not on offer, or a sale.\<close>

definition owner_change :: "int \<Rightarrow> account_name_type \<Rightarrow> account_name_type \<Rightarrow> database \<Rightarrow> database \<Rightarrow> bool" where
  "owner_change i x y db db' \<longleftrightarrow>
     (\<exists>op. nonfungible_fund_transfer_evaluator op db = Inr db' \<and> onft_fund_id op = i \<and> onft_from op = x \<and> onft_to op = y \<and>
        find_sale i db = None) \<or>
     (\<exists>op s neg db1 db2. nonfungible_fund_buy_evaluator op db = Inr db' \<and> onfb_fund_id op = i \<and> onfb_buyer op = y \<and>
        find_sale i db = Some s \<and> ns_seller s = x \<and> asset_neg (ns_selling_price s) = Inr neg \<and>
        adjust_balance y neg db = Inr db1 \<and> adjust_balance x (ns_selling_price s) db1 = Inr db2 \<and> accounts db' = accounts db2 \<and>
        find_sale i db' = None)"

lemma transfer_fund_safe:
  assumes ev: "nonfungible_fund_transfer_evaluator op db = Inr db'" and ok: "offers_ok db" and f: "find_fund i db = Some f"
  shows "offers_ok db' \<and> (\<exists>f'. find_fund i db' = Some f' \<and> nf_creator f' = nf_creator f \<and>
    (nf_owner f' \<noteq> nf_owner f \<longrightarrow> owner_change i (nf_owner f) (nf_owner f') db db'))"
proof -
  obtain a b g where h: "find_account (onft_from op) db = Some a" "find_account (onft_to op) db = Some b"
    "find_fund (onft_fund_id op) db = Some g" "nf_owner g = a_name a" "find_sale (onft_fund_id op) db = None"
    and m: "modify_fund (onft_fund_id op) (\<lambda>f. Inr (f\<lparr>nf_owner := a_name b, nf_last_update := head_block_time db\<rparr>)) db = Inr db'"
    using ev unfolding nonfungible_fund_transfer_evaluator_def bindE_Inr fc_assert_Inr get_fund_Inr get_account_Inr
    by (elim exE conjE)
  note n = find_account_name[OF h(1)] find_account_name[OF h(2)]
  show ?thesis using give_fund[OF m h(3)] ok f h n ev by (auto simp: owner_change_def)
qed

lemma buy_fund_safe:
  assumes ev: "nonfungible_fund_buy_evaluator op db = Inr db'" and ok: "offers_ok db" and f: "find_fund i db = Some f"
  shows "offers_ok db' \<and> (\<exists>f'. find_fund i db' = Some f' \<and> nf_creator f' = nf_creator f \<and>
    (nf_owner f' \<noteq> nf_owner f \<longrightarrow> owner_change i (nf_owner f) (nf_owner f') db db'))"
proof (rule buy_form[OF ev], goal_cases)
  case (1 g s neg db1 db2)
  let ?j = "onfb_fund_id op"
  note b1 = balances_funds[OF conjunct2[OF adjust_balance_moves[OF 1(4)]]]
  note b2 = balances_funds[OF conjunct2[OF adjust_balance_moves[OF 1(5)]]]
  have g: "find_fund ?j (remove_sale ?j db2) = Some g" using 1(1) b1 b2 by simp
  have ok2: "offers_ok db2" using ok b1 b2 by (simp add: offers_ok_def)
  have none: "find_sale ?j (remove_sale ?j db2) = None"
    using ok2 by (auto simp: find_sale_def t_find_def find_None_iff offers_ok_def remove_sale_rows)
  have s: "nf_owner g = ns_seller s" using ok find_sale_row[OF 1(2)] 1(1) by (auto simp: offers_ok_def)
  note r = give_fund[OF 1(6) g]
  have "accounts db' = accounts db2" "find_sale ?j db' = None" using r(2,3) none by (auto simp: remove_sale_def find_sale_def)
  moreover have "offers_ok db'" by (rule r(4)[OF offers_ok_remove[OF ok2] none])
  ultimately show ?case using r(1) 1 s f ev b1 b2 by (auto simp: owner_change_def)
qed

lemma sweep_offers:
  assumes "clear_expired_nonfungible_funds_on_sale db = Inr db'" "offers_ok db"
  shows "offers_ok db' \<and> nonfungible_funds db' = nonfungible_funds db"
  using assms(1) unfolding clear_expired_nonfungible_funds_on_sale_def
  by (rule drain_invariant[where I = "\<lambda>s. offers_ok s \<and> nonfungible_funds s = nonfungible_funds db"])
    (use assms(2) in \<open>auto simp: drop_sale_def offers_ok_remove\<close>, simp add: remove_sale_def)

lemma create_fund_safe:
  assumes "nonfungible_fund_create_evaluator op db = Inr db'" "offers_ok db" "find_fund i db = Some f"
  shows "offers_ok db' \<and> find_fund i db' = Some f"
proof -
  have k: "List.find P xs = Some x \<Longrightarrow> List.find P (xs @ ys) = Some x" for P x and xs ys :: "nonfungible_fund_object list"
    by (induction xs) auto
  have keep: "find_fund j db' = Some g" if "find_fund j db = Some g" for j g
    using assms(1) that k by (auto simp: nonfungible_fund_create_evaluator_def t_create_Inr find_fund_def t_find_def)
  moreover have "nonfungible_on_sale db' = nonfungible_on_sale db" using assms(1) by (auto simp: nonfungible_fund_create_evaluator_def)
  ultimately show ?thesis using assms(2,3) unfolding offers_ok_def by metis
qed

lemma offer_safe:
  assumes "nonfungible_fund_put_up_for_sale_evaluator op db = Inr db'" "offers_ok db"
  shows "offers_ok db' \<and> nonfungible_funds db' = nonfungible_funds db"
proof -
  have f: "nonfungible_funds db' = nonfungible_funds db"
    using assms(1) by (auto simp: nonfungible_fund_put_up_for_sale_evaluator_def)
  then have "find_fund j db' = find_fund j db" for j by (simp add: find_fund_def)
  with assms f show ?thesis
    by (auto simp: nonfungible_fund_put_up_for_sale_evaluator_def t_create_Inr offers_ok_def find_fund_def) (erule find_account_name)
qed

text \<open>
  C13. Non-fungible funds change hands only as they should. In a state where every offer comes from the
  owner of the fund, one step of the fund operations or of the expiry sweep keeps it so, keeps every
  fund and its creator, and changes the owner of a fund in two ways only: the owner transfers it while
  it is not on offer, or a buyer takes the owner's offer, in which case the asked price has moved
  from the buyer to that owner and the offer is gone.
\<close>

theorem fund_owner_safe:
  assumes "nft_step db db'" "offers_ok db" "find_fund i db = Some f"
  shows "offers_ok db' \<and> (\<exists>f'. find_fund i db' = Some f' \<and> nf_creator f' = nf_creator f \<and>
    (nf_owner f' \<noteq> nf_owner f \<longrightarrow> owner_change i (nf_owner f) (nf_owner f') db db'))"
  using assms(1)
proof (cases rule: nft_step.cases)
  case (nft_transfer op)
  then show ?thesis by (rule transfer_fund_safe[OF _ assms(2,3)])
next
  case (nft_buy op)
  then show ?thesis by (rule buy_fund_safe[OF _ assms(2,3)])
next
  case (nft_create op)
  then show ?thesis using create_fund_safe[OF _ assms(2,3)] by auto
next
  case (nft_offer op)
  then show ?thesis using offer_safe[OF _ assms(2)] assms(3) by (auto simp: find_fund_def)
next
  case (nft_withdraw op)
  then show ?thesis using assms(2,3) offers_ok_remove by (auto simp: nonfungible_fund_withdraw_from_sale_evaluator_def)
next
  case nft_expire
  then show ?thesis using sweep_offers[OF _ assms(2)] assms(3) by (auto simp: find_fund_def)
qed

section \<open>Crowdfunding conserves tokens\<close>

abbreviation cf_key :: "crowdfunding_object \<Rightarrow> time_point_sec \<times> account_name_type" where
  "cf_key c \<equiv> (cf_expire c, cf_originator c)"

abbreviation cf_rows :: "database \<Rightarrow> crowdfunding_object list" where
  "cf_rows db \<equiv> rows (crowdfundings db)"

text \<open>A crowdfunding whose originator has been paid, and the tokens that investors have given to all others.\<close>

definition paid_out :: "crowdfunding_object list \<Rightarrow> nat \<Rightarrow> bool" where
  "paid_out cs i \<longleftrightarrow> (\<exists>c \<in> set cs. cf_id c = i \<and> cf_finish c = 1)"

definition pledged :: "database \<Rightarrow> int" where
  "pledged db = t_sum (\<lambda>i. if paid_out (cf_rows db) (inv_crowdfunding i) then 0 else amount (inv_raise i)) (crowdfunding_invests db)"

definition invested_in :: "nat \<Rightarrow> database \<Rightarrow> int" where
  "invested_in i db = t_sum (\<lambda>v. if inv_crowdfunding v = i then amount (inv_raise v) else 0) (crowdfunding_invests db)"

text \<open>
  The consistency of the tables: keys identify crowdfundings, an investment has the expiration of its
  crowdfunding, a finished crowdfunding has expired and comes first, and as long as nothing is
  finished every crowdfunding has raised what was invested in it. Times stay three days below the
  end of the 32-bit clock.
\<close>

definition cf_ok :: "database \<Rightarrow> crowdfunding_object \<Rightarrow> bool" where
  "cf_ok db c \<longleftrightarrow> cf_id c < next_id (crowdfundings db) \<and> symbol (cf_curator_raise_value c) = GBC_SYMBOL \<and>
     (cf_finish c \<noteq> 0 \<longrightarrow> cf_expire c \<le> head_block_time db \<and> (\<forall>d \<in> set (cf_rows db). cf_key c \<le> cf_key d))"

definition crowd_inv :: "database \<Rightarrow> bool" where
  "crowd_inv db \<longleftrightarrow>
     distinct (map cf_id (cf_rows db)) \<and> distinct (map cf_key (cf_rows db)) \<and> (\<forall>c \<in> set (cf_rows db). cf_ok db c) \<and>
     (\<forall>v \<in> set (rows (crowdfunding_invests db)). symbol (inv_raise v) = GBC_SYMBOL \<and>
        (\<exists>c \<in> set (cf_rows db). cf_id c = inv_crowdfunding v \<and> cf_expire c = inv_expire v)) \<and>
     ((\<forall>c \<in> set (cf_rows db). cf_finish c = 0) \<longrightarrow>
        (\<forall>c \<in> set (cf_rows db). invested_in (cf_id c) db = amount (cf_curator_raise_value c))) \<and>
     secs (head_block_time db) + 3 * 86400 < 2 ^ 32"

lemma crowd_inv_cong:
  assumes "crowdfundings db' = crowdfundings db" "crowdfunding_invests db' = crowdfunding_invests db" "head_block_time db' = head_block_time db"
  shows "crowd_inv db' = crowd_inv db" "pledged db' = pledged db"
  using assms by (simp_all add: crowd_inv_def cf_ok_def invested_in_def pledged_def)

lemma balances_crowd:
  assumes "balances_only db db'"
  shows "crowdfundings db' = crowdfundings db" "crowdfunding_invests db' = crowdfunding_invests db" "head_block_time db' = head_block_time db"
proof -
  have e: "db' = db\<lparr>accounts := accounts db', dgpo := dgpo db'\<rparr>" and "head_block_time db' = head_block_time db"
    using assms by (simp_all add: balances_only_def)
  then show "head_block_time db' = head_block_time db" by simp
  show "crowdfundings db' = crowdfundings db" "crowdfunding_invests db' = crowdfunding_invests db" by (subst e, simp)+
qed

lemma find_cf_iff: "distinct (map cf_id (cf_rows db)) \<Longrightarrow> find_cf i db = Some c \<longleftrightarrow> c \<in> set (cf_rows db) \<and> cf_id c = i"
proof -
  have "distinct (map cf_id cs) \<Longrightarrow> List.find (\<lambda>c. cf_id c = i) cs = Some c \<longleftrightarrow> c \<in> set cs \<and> cf_id c = i" for cs
    by (induction cs) auto
  then show "distinct (map cf_id (cf_rows db)) \<Longrightarrow> find_cf i db = Some c \<longleftrightarrow> c \<in> set (cf_rows db) \<and> cf_id c = i"
    by (simp add: find_cf_def t_find_def)
qed

lemma modify_cf_rows:
  assumes m: "modify_cf i f db = Inr db'" and d: "distinct (map cf_id (cf_rows db))"
  obtains c c' where "c \<in> set (cf_rows db)" "cf_id c = i" "f c = Inr c'"
    "cf_rows db' = map (\<lambda>e. if cf_id e = i then c' else e) (cf_rows db)"
    "db' = db\<lparr>crowdfundings := crowdfundings db'\<rparr>" "next_id (crowdfundings db') = next_id (crowdfundings db)"
proof -
  obtain c c' where c: "find_cf i db = Some c" "f c = Inr c'" using cfs.update_found[OF m] by blast
  have r: "upd_first (\<lambda>e. cf_id e = i) c' cs = map (\<lambda>e. if cf_id e = i then c' else e) cs" if "distinct (map cf_id cs)" for cs
    using that by (induction cs) (auto intro!: map_idI[symmetric] simp: image_iff)
  show ?thesis
    by (rule that[of c c']) (use m c d find_cf_iff[OF d] r[OF d] in \<open>auto simp: modify_cf_def t_modify_Inr find_cf_def\<close>)
qed

text \<open>An unfinished crowdfunding at the front means that nothing has been settled.\<close>

lemma front_unfinished:
  assumes inv: "crowd_inv db" and n: "next_crowdfunding db = Some c"
  shows "c \<in> set (cf_rows db) \<and> cf_finish c = 0 \<and> cf_expire c \<le> head_block_time db \<and>
    (\<forall>d \<in> set (cf_rows db). cf_key c \<le> cf_key d \<and> cf_finish d = 0)"
proof -
  obtain b: "t_begin (\<lambda>c. cf_key c) (crowdfundings db) = Some c" and c: "\<not> cf_expire c > head_block_time db" "\<not> cf_finish c > 0"
    using n unfolding next_crowdfunding_def t_due_def by (auto split: option.splits if_splits)
  note m = t_begin_Some[OF b]
  have "cf_finish d = 0" if d: "d \<in> set (cf_rows db)" for d
  proof (rule ccontr)
    assume "cf_finish d \<noteq> 0"
    then have "cf_key d \<le> cf_key c" using inv d m by (auto simp: crowd_inv_def cf_ok_def)
    then have "cf_key d = cf_key c" using m d by (intro order.antisym) auto
    then have "d = c" using inv d m unfolding crowd_inv_def distinct_map by (auto dest: inj_onD)
    then show False using c(2) \<open>cf_finish d \<noteq> 0\<close> by (simp add: word_gt_0)
  qed
  then show ?thesis using m c by (auto simp: not_less)
qed

definition crowd_gap :: "ledger \<Rightarrow> database \<Rightarrow> int" where
  "crowd_gap l db = gap l db - (if l = Liquid then pledged db else 0)"

lemma nothing_paid: "\<forall>c \<in> set cs. cf_finish c = 0 \<Longrightarrow> \<not> paid_out cs i"
  by (auto simp: paid_out_def)

lemma refund_step:
  assumes st: "refund_invest v s = Inr s'" and v: "v \<in> set (rows (crowdfunding_invests s))" "symbol (inv_raise v) = GBC_SYMBOL"
    and un: "\<forall>c \<in> set (cf_rows s). cf_finish c = 0"
  shows "crowdfundings s' = crowdfundings s \<and> head_block_time s' = head_block_time s \<and>
    crowdfunding_invests s' = t_remove (\<lambda>j. j = v) (crowdfunding_invests s) \<and> (\<forall>l. crowd_gap l s' = crowd_gap l s)"
proof -
  obtain s1 where a: "adjust_balance (inv_invester v) (inv_raise v) s = Inr s1"
    and s': "s' = s1\<lparr>crowdfunding_invests := t_remove (\<lambda>j. j = v) (crowdfunding_invests s1)\<rparr>"
    using st unfolding refund_invest_def bindE_Inr by auto
  note b = balances_crowd[OF conjunct2[OF adjust_balance_moves[OF a]]]
  have "pledged s' = pledged s - amount (inv_raise v)"
    using t_sum_remove[OF t_find_self[OF v(1)]] nothing_paid[OF un] by (simp add: pledged_def s' b)
  then show ?thesis using b adjust_balance_gap[OF a] part_symbol(1)[OF v(2)] by (simp add: s' crowd_gap_def)
qed

lemma refunds_keep:
  assumes "drain k next_refund refund_invest db = Inr db'" "crowd_inv db" "\<forall>c \<in> set (cf_rows db). cf_finish c = 0"
  shows "crowdfundings db' = crowdfundings db \<and> head_block_time db' = head_block_time db \<and>
    set (rows (crowdfunding_invests db')) \<subseteq> set (rows (crowdfunding_invests db)) \<and> (\<forall>l. crowd_gap l db' = crowd_gap l db)"
  using assms(1)
proof (rule drain_invariant[where I = "\<lambda>s. crowdfundings s = crowdfundings db \<and> head_block_time s = head_block_time db \<and>
    set (rows (crowdfunding_invests s)) \<subseteq> set (rows (crowdfunding_invests db)) \<and> (\<forall>l. crowd_gap l s = crowd_gap l db)"], goal_cases)
  case (2 v s s')
  have v: "v \<in> set (rows (crowdfunding_invests s))" using 2(1) t_due_Some unfolding next_refund_def by fastforce
  then have "symbol (inv_raise v) = GBC_SYMBOL" using assms(2) 2(3) by (auto simp: crowd_inv_def)
  then show ?case using refund_step[OF 2(2) v] 2(3) assms(3) set_del_first by (fastforce simp: t_remove_def)
qed simp

lemma finish_keeps:
  assumes inv: "crowd_inv db" and c: "c \<in> set (cf_rows db)" "cf_expire c \<le> head_block_time db"
    and front: "\<forall>d \<in> set (cf_rows db). cf_key c \<le> cf_key d \<and> cf_finish d = 0"
    and s: "crowdfundings db1 = crowdfundings db" "head_block_time db1 = head_block_time db"
      "set (rows (crowdfunding_invests db1)) \<subseteq> set (rows (crowdfunding_invests db))"
    and m: "modify_cf (cf_id c) (\<lambda>co. Inr (co\<lparr>cf_finish := k\<rparr>)) db1 = Inr db'" and k: "k \<noteq> 0"
  shows "crowd_inv db' \<and> (\<forall>l. gap l db' = gap l db1) \<and>
    pledged db' = pledged db1 - (if k = 1 then invested_in (cf_id c) db1 else 0)"
proof -
  have d: "distinct (map cf_id (cf_rows db1))" using inv s by (simp add: crowd_inv_def)
  obtain e where e: "e \<in> set (cf_rows db1)" "cf_id e = cf_id c"
    and r: "cf_rows db' = map (\<lambda>d. if cf_id d = cf_id c then e\<lparr>cf_finish := k\<rparr> else d) (cf_rows db1)"
    and o': "db' = db1\<lparr>crowdfundings := crowdfundings db'\<rparr>" "next_id (crowdfundings db') = next_id (crowdfundings db1)"
    by (rule modify_cf_rows[OF m d]) auto
  have "e = c" using e c(1) d s(1) unfolding distinct_map by (auto dest: inj_onD)
  have v: "crowdfunding_invests db' = crowdfunding_invests db1" "head_block_time db' = head_block_time db1"
    by (subst o', simp)+
  have g: "\<forall>l. gap l db' = gap l db1" by (subst o', simp)
  have rk: "cf_rows db' = map (\<lambda>d. d\<lparr>cf_finish := (if cf_id d = cf_id c then k else cf_finish d)\<rparr>) (cf_rows db1)"
    using r \<open>e = c\<close> d c(1) s(1) by (auto simp: distinct_map dest: inj_onD)
  have ids: "map cf_id (cf_rows db') = map cf_id (cf_rows db)" "map cf_key (cf_rows db') = map cf_key (cf_rows db)"
    by (simp_all add: rk s comp_def)
  have "cf_ok db' x" if x: "x \<in> set (cf_rows db')" for x
  proof -
    obtain y where y: "y \<in> set (cf_rows db)" "x = y\<lparr>cf_finish := (if cf_id y = cf_id c then k else cf_finish y)\<rparr>"
      using x rk s by auto
    have "y = c" if "cf_id y = cf_id c" using that y c(1) inv unfolding crowd_inv_def distinct_map by (auto dest: inj_onD)
    moreover have "cf_ok db y" using inv y by (simp add: crowd_inv_def)
    ultimately show ?thesis using y front c(2) o'(2) by (auto simp: cf_ok_def v s rk)
  qed
  moreover have "\<exists>x \<in> set (cf_rows db'). cf_finish x \<noteq> 0" using c(1) k by (auto simp: rk s intro!: bexI[of _ c])
  moreover have "\<forall>v \<in> set (rows (crowdfunding_invests db')). symbol (inv_raise v) = GBC_SYMBOL \<and>
        (\<exists>x \<in> set (cf_rows db'). cf_id x = inv_crowdfunding v \<and> cf_expire x = inv_expire v)"
    using inv s(3) by (auto simp: crowd_inv_def v rk s(1))
  ultimately have "crowd_inv db'" using inv unfolding crowd_inv_def ids v(2) s(2) by blast
  moreover have "paid_out (cf_rows db') i \<longleftrightarrow> k = 1 \<and> i = cf_id c" for i
    using front c(1) by (auto simp: paid_out_def rk s split: if_splits)
  then have "pledged db' = pledged db1 - (if k = 1 then invested_in (cf_id c) db1 else 0)"
    using nothing_paid[of "cf_rows db1"] front s
    by (simp add: pledged_def invested_in_def v t_sum_def sum_list_subtractf[symmetric] cong: if_cong)
      (auto intro!: arg_cong[where f = sum_list])
  ultimately show ?thesis using g by blast
qed

lemma settle_keeps:
  assumes st: "settle_crowdfunding c db = Inr db'" and n: "next_crowdfunding db = Some c" and inv: "crowd_inv db"
  shows "crowd_inv db' \<and> (\<forall>l. crowd_gap l db' = crowd_gap l db)"
proof -
  note f = front_unfinished[OF inv n]
  have un: "\<forall>d \<in> set (cf_rows db). cf_finish d = 0" using f by blast
  obtain missed db1 where
    pay: "(if missed then drain (t_size (crowdfunding_invests db)) next_refund refund_invest db
            else bindE (get_account (cf_originator c) db) (\<lambda>_. adjust_balance (cf_originator c) (cf_curator_raise_value c) db)) = Inr db1"
    and m: "modify_cf (cf_id c) (\<lambda>co. Inr (co\<lparr>cf_finish := (if missed then 2 else 1)\<rparr>)) db1 = Inr db'"
    using st unfolding settle_crowdfunding_def bindE_Inr by (elim exE conjE)
  show ?thesis
  proof (cases missed)
    case True
    then have "drain (t_size (crowdfunding_invests db)) next_refund refund_invest db = Inr db1" using pay by simp
    note r = refunds_keep[OF this inv un]
    have "crowd_inv db' \<and> (\<forall>l. gap l db' = gap l db1) \<and> pledged db' = pledged db1 - (if (2::32 word) = 1 then invested_in (cf_id c) db1 else 0)"
      by (rule finish_keeps[OF inv, of c db1]) (use f r m True in auto)
    then have "crowd_inv db'" "\<forall>l. crowd_gap l db' = crowd_gap l db1" by (simp_all add: crowd_gap_def)
    then show ?thesis using r by simp
  next
    case False
    then have a: "adjust_balance (cf_originator c) (cf_curator_raise_value c) db = Inr db1" using pay by auto
    note b = balances_crowd[OF conjunct2[OF adjust_balance_moves[OF a]]]
    have k: "crowd_inv db' \<and> (\<forall>l. gap l db' = gap l db1) \<and> pledged db' = pledged db1 - (if (1::32 word) = 1 then invested_in (cf_id c) db1 else 0)"
      by (rule finish_keeps[OF inv, of c db1]) (use f b m False in auto)
    have "invested_in (cf_id c) db1 = amount (cf_curator_raise_value c)" "symbol (cf_curator_raise_value c) = GBC_SYMBOL"
      using inv f un b by (auto simp: crowd_inv_def invested_in_def cf_ok_def)
    then show ?thesis using k adjust_balance_gap[OF a] b by (simp add: crowd_gap_def part_symbol crowd_inv_cong(2)[OF b])
  qed
qed

lemma process_crowdfunding_keeps:
  assumes "process_crowdfunding db = Inr db'" "crowd_inv db"
  shows "crowd_inv db' \<and> (\<forall>l. crowd_gap l db' = crowd_gap l db)"
  using assms(1) unfolding process_crowdfunding_def
  by (rule drain_invariant[where I = "\<lambda>s. crowd_inv s \<and> (\<forall>l. crowd_gap l s = crowd_gap l db)"])
    (use assms(2) settle_keeps in auto)

lemma later_than_now:
  assumes "secs now + 3 * 86400 < 2 ^ 32"
  shows "now < plus_secs now (3 * 86400)"
  using assms by (simp add: word_less_def uint_word_ariths)

lemma open_keeps:
  assumes ev: "crowdfunding_evaluator tc op db = Inr db'" and inv: "crowd_inv db"
  shows "crowd_inv db' \<and> (\<forall>l. crowd_gap l db' = crowd_gap l db)"
proof -
  define c where "c = \<lparr>cf_id = next_id (crowdfundings db), cf_originator = ocrf_originator op, cf_permlink = ocrf_permlink op,
    cf_created = head_block_time db, cf_expire = plus_secs (head_block_time db) (3 * 86400), cf_last_raise = 0,
    cf_total_raise_value = ocrf_raise op, cf_curator_raise_value = GBC 0, cf_finish = 0\<rparr>"
  obtain db1 u g where m: "modify_account (ocrf_originator op) g db = Inr db1" and g: "\<forall>l. gap l db1 = gap l db"
    and fresh: "\<forall>d \<in> set (cf_rows db). \<not> crowdfunding_clash c d"
    and db': "db' = db1\<lparr>crowdfundings := (crowdfundings db)\<lparr>next_id := Suc (next_id (crowdfundings db)), rows := cf_rows db @ [c]\<rparr>, crowdfunding_contents := u\<rparr>"
  proof -
    obtain a db1 t u where h: "modify_account (ocrf_originator op) (\<lambda>a. Inr (a\<lparr>a_last_crowdfunding_expire := plus_secs (head_block_time db) (3 * 86400),
            a_crowdfunding_count := a_crowdfunding_count a + 1\<rparr>)) db = Inr db1"
      and t: "t_create crowdfunding_clash (\<lambda>i.
           \<lparr>cf_id = i, cf_originator = ocrf_originator op, cf_permlink = ocrf_permlink op, cf_created = head_block_time db,
            cf_expire = plus_secs (head_block_time db) (3 * 86400),
            cf_last_raise = 0, cf_total_raise_value = ocrf_raise op, cf_curator_raise_value = GBC 0, cf_finish = 0\<rparr>) (crowdfundings db1) = Inr t"
      and e: "Inr (db1\<lparr>crowdfundings := t, crowdfunding_contents := u\<rparr>) = (Inr db' :: database result)"
      using ev unfolding crowdfunding_evaluator_def Let_def bindE_Inr fc_assert_Inr by (elim exE conjE) (rule that)
    have "crowdfundings db1 = crowdfundings db" using modify_account_frame[OF h] by auto
    moreover have "\<forall>l. gap l db1 = gap l db" by (rule modify_account_gap_same[OF h]) auto
    ultimately show ?thesis using t e by (intro that[OF h]) (auto simp: t_create_Inr c_def)
  qed
  have f: "crowdfunding_invests db1 = crowdfunding_invests db" "dgpo db1 = dgpo db" using modify_account_frame[OF m] by auto
  have r: "cf_rows db' = cf_rows db @ [c]" "crowdfunding_invests db' = crowdfunding_invests db" "dgpo db' = dgpo db" using f by (simp_all add: db')
  have new: "cf_id d < cf_id c" if "d \<in> set (cf_rows db)" for d using inv that by (auto simp: crowd_inv_def cf_ok_def c_def)
  have inv_old: "inv_crowdfunding v \<noteq> cf_id c" if "v \<in> set (rows (crowdfunding_invests db))" for v
    using inv that new by (fastforce simp: crowd_inv_def)
  have po: "paid_out (cf_rows db') i = paid_out (cf_rows db) i" for i by (auto simp: paid_out_def r c_def)
  then have "pledged db' = pledged db" by (simp add: pledged_def r)
  moreover have "\<forall>l. gap l db' = gap l db" using g by (simp add: db')
  moreover have "cf_ok db' d" if "d \<in> set (cf_rows db')" for d
  proof (cases "d = c")
    case True
    then show ?thesis by (simp add: cf_ok_def c_def db')
  next
    case False
    then have "cf_ok db d" "d \<in> set (cf_rows db)" using inv that by (auto simp: crowd_inv_def r)
    moreover have "cf_key d \<le> cf_key c" if "cf_expire d \<le> head_block_time db"
      using that later_than_now[of "head_block_time db"] inv by (auto simp: c_def crowd_inv_def)
    ultimately show ?thesis by (auto simp: cf_ok_def r db' f)
  qed
  moreover have "invested_in i db' = invested_in i db" "invested_in (cf_id c) db = 0" for i
    using inv_old by (simp_all add: invested_in_def r t_sum_def sum_list_0 cong: map_cong)
  moreover have "cf_id c \<notin> cf_id ` set (cf_rows db)" using new by fastforce
  then have "distinct (map cf_id (cf_rows db'))" "distinct (map cf_key (cf_rows db'))"
    using inv fresh by (auto simp: crowd_inv_def r crowdfunding_clash_def)
  ultimately show ?thesis using inv by (auto simp: crowd_inv_def crowd_gap_def r c_def)
qed

lemma invest_form:
  assumes "invest_evaluator op db = Inr db'"
  obtains c a neg db1 db2 t where "find_crowdfunding (oiv_originator op) (oiv_permlink op) db = Some c"
    "find_account (oiv_invester op) db = Some a" "head_block_time db < cf_expire c"
    "symbol (cf_curator_raise_value c) = symbol (oiv_raise op)" "asset_neg (oiv_raise op) = Inr neg"
    "adjust_balance (oiv_invester op) neg db = Inr db1"
    "modify_cf (cf_id c) (\<lambda>co. bindE (asset_add (cf_curator_raise_value co) (oiv_raise op)) (\<lambda>v.
        Inr (co\<lparr>cf_curator_raise_value := v, cf_last_raise := head_block_time db\<rparr>))) db1 = Inr db2"
    "db' = db2\<lparr>crowdfunding_invests := t\<rparr>"
    "\<forall>g. t_sum (\<lambda>v. g (inv_crowdfunding v) * amount (inv_raise v)) t =
       t_sum (\<lambda>v. g (inv_crowdfunding v) * amount (inv_raise v)) (crowdfunding_invests db2) + g (cf_id c) * amount (oiv_raise op)"
    "\<forall>v \<in> set (rows t). (v \<in> set (rows (crowdfunding_invests db2)) \<or> inv_crowdfunding v = cf_id c \<and> inv_expire v = cf_expire c \<and>
        symbol (inv_raise v) = symbol (oiv_raise op)) \<or>
       (\<exists>w \<in> set (rows (crowdfunding_invests db2)). inv_crowdfunding v = inv_crowdfunding w \<and> inv_expire v = inv_expire w \<and>
          symbol (inv_raise v) = symbol (inv_raise w))"
proof -
  let ?new = "\<lambda>c a. \<lparr>inv_invester = a_name a, inv_crowdfunding = cf_id c, inv_expire = cf_expire c,
    inv_last_update = head_block_time db, inv_raise = oiv_raise op\<rparr>"
  let ?is = "\<lambda>c a i. inv_crowdfunding i = cf_id c \<and> inv_invester i = a_name a"
  let ?f = "\<lambda>i. bindE (asset_add (inv_raise i) (oiv_raise op)) (\<lambda>r. Inr (i\<lparr>inv_raise := r, inv_last_update := head_block_time db\<rparr>))"
  obtain c a s neg db1 db2 where h: "find_crowdfunding (oiv_originator op) (oiv_permlink op) db = Some c"
    "find_account (oiv_invester op) db = Some a" "head_block_time db < cf_expire c"
    "asset_add (cf_curator_raise_value c) (oiv_raise op) = Inr s" "asset_neg (oiv_raise op) = Inr neg"
    "adjust_balance (oiv_invester op) neg db = Inr db1"
    "modify_cf (cf_id c) (\<lambda>co. bindE (asset_add (cf_curator_raise_value co) (oiv_raise op)) (\<lambda>v.
        Inr (co\<lparr>cf_curator_raise_value := v, cf_last_raise := head_block_time db\<rparr>))) db1 = Inr db2"
    and e: "(case t_find (?is c a) (crowdfunding_invests db2) of
           None \<Rightarrow> bindE (t_create invest_clash (\<lambda>_. ?new c a) (crowdfunding_invests db2)) (\<lambda>t. Inr (db2\<lparr>crowdfunding_invests := t\<rparr>))
         | Some _ \<Rightarrow> bindE (t_modify (?is c a) ?f (crowdfunding_invests db2)) (\<lambda>t. Inr (db2\<lparr>crowdfunding_invests := t\<rparr>))) = Inr db'"
    using assms unfolding invest_evaluator_def Let_def bindE_Inr fc_assert_Inr fc_assertE_Inr get_account_Inr get_crowdfunding_def
      t_get_Inr find_crowdfunding_def[symmetric]
    by (elim exE conjE) (rule that)
  have sym: "symbol (cf_curator_raise_value c) = symbol (oiv_raise op)" using h(4) by (auto dest: asset_add_dest)
  show ?thesis
  proof (cases "t_find (?is c a) (crowdfunding_invests db2)")
    case None
    then obtain t where t: "t_create invest_clash (\<lambda>_. ?new c a) (crowdfunding_invests db2) = Inr t" "db' = db2\<lparr>crowdfunding_invests := t\<rparr>"
      using e by auto
    show ?thesis by (rule that[OF h(1-3) sym h(5-7) t(2)]) (use t(1) in \<open>auto simp: t_sum_create t_create_Inr\<close>)
  next
    case (Some v)
    then obtain t where t: "t_modify (?is c a) ?f (crowdfunding_invests db2) = Inr t" "db' = db2\<lparr>crowdfunding_invests := t\<rparr>"
      using e by auto
    obtain v' where v': "?f v = Inr v'" "t = (crowdfunding_invests db2)\<lparr>rows := upd_first (?is c a) v' (rows (crowdfunding_invests db2))\<rparr>"
      using t(1) Some by (auto simp: t_modify_Inr)
    have eq: "inv_crowdfunding v' = inv_crowdfunding v \<and> inv_expire v' = inv_expire v \<and> symbol (inv_raise v') = symbol (inv_raise v) \<and>
      amount (inv_raise v') = amount (inv_raise v) + amount (oiv_raise op)" using v'(1) by (auto dest!: asset_add_dest)
    have v: "v \<in> set (rows (crowdfunding_invests db2))" "inv_crowdfunding v = cf_id c" using t_find_Some[OF Some] by auto
    show ?thesis
    proof (rule that[OF h(1-3) sym h(5-7) t(2)], goal_cases)
      case 1
      show ?case
      proof
        fix g :: "nat \<Rightarrow> int"
        show "t_sum (\<lambda>v. g (inv_crowdfunding v) * amount (inv_raise v)) t =
           t_sum (\<lambda>v. g (inv_crowdfunding v) * amount (inv_raise v)) (crowdfunding_invests db2) + g (cf_id c) * amount (oiv_raise op)"
          using t_sum_modify[OF t(1) Some v'(1), of "\<lambda>v. g (inv_crowdfunding v) * amount (inv_raise v)"] eq v(2)
          by (simp add: algebra_simps)
      qed
    next
      case 2
      then show ?case using set_upd_first[of "?is c a" v' "rows (crowdfunding_invests db2)"] eq v(1) by (fastforce simp: v'(2))
    qed
  qed
qed

lemma invested_weighted:
  "pledged db = t_sum (\<lambda>v. (if paid_out (cf_rows db) (inv_crowdfunding v) then 0 else 1) * amount (inv_raise v)) (crowdfunding_invests db)"
  "invested_in i db = t_sum (\<lambda>v. (if inv_crowdfunding v = i then 1 else 0) * amount (inv_raise v)) (crowdfunding_invests db)"
  by (auto simp: pledged_def invested_in_def t_sum_def intro!: arg_cong[where f = sum_list])

lemma invest_keeps:
  assumes ev: "invest_evaluator op db = Inr db'" and inv: "crowd_inv db"
  shows "crowd_inv db' \<and> (\<forall>l. crowd_gap l db' = crowd_gap l db)"
proof (rule invest_form[OF ev], goal_cases)
  case (1 c a neg db1 db2 t)
  note b = balances_crowd[OF conjunct2[OF adjust_balance_moves[OF 1(6)]]]
  have c: "c \<in> set (cf_rows db)" using 1(1) by (auto simp: find_crowdfunding_def dest: t_find_Some)
  have un: "cf_finish c = 0" using inv c 1(3) by (force simp: crowd_inv_def cf_ok_def)
  have sym: "symbol (oiv_raise op) = GBC_SYMBOL" using inv c 1(4) by (auto simp: crowd_inv_def cf_ok_def)
  have d: "distinct (map cf_id (cf_rows db1))" using inv b by (simp add: crowd_inv_def)
  have same: "e = c" if "e \<in> set (cf_rows db)" "cf_id e = cf_id c" for e
    using that c inv unfolding crowd_inv_def distinct_map by (auto dest: inj_onD)
  obtain e c' where e: "e \<in> set (cf_rows db1)" "cf_id e = cf_id c"
    "bindE (asset_add (cf_curator_raise_value e) (oiv_raise op)) (\<lambda>v.
        Inr (e\<lparr>cf_curator_raise_value := v, cf_last_raise := head_block_time db\<rparr>)) = Inr c'"
    and r1: "cf_rows db2 = map (\<lambda>e. if cf_id e = cf_id c then c' else e) (cf_rows db1)"
    and o2: "db2 = db1\<lparr>crowdfundings := crowdfundings db2\<rparr>" "next_id (crowdfundings db2) = next_id (crowdfundings db1)"
    by (rule modify_cf_rows[OF 1(7) d])
  have r: "cf_rows db2 = map (\<lambda>e. if cf_id e = cf_id c then c' else e) (cf_rows db)" by (simp add: r1 b)
  have "e = c" using same e(1,2) b by simp
  then have c': "cf_id c' = cf_id c \<and> cf_key c' = cf_key c \<and> cf_finish c' = 0 \<and> symbol (cf_curator_raise_value c') = GBC_SYMBOL \<and>
      amount (cf_curator_raise_value c') = amount (cf_curator_raise_value c) + amount (oiv_raise op)"
    using e(3) un sym 1(4) by (auto dest!: asset_add_dest)
  have v2: "crowdfunding_invests db2 = crowdfunding_invests db" "head_block_time db2 = head_block_time db"
    by (subst o2, simp add: b)+
  have r': "cf_rows db' = cf_rows db2" "crowdfunding_invests db' = t" "head_block_time db' = head_block_time db"
    "next_id (crowdfundings db') = next_id (crowdfundings db)" by (simp_all add: 1(8) v2 o2(2) b)
  have ids: "map cf_id (cf_rows db') = map cf_id (cf_rows db)" "map cf_key (cf_rows db') = map cf_key (cf_rows db)"
    using c' same by (auto simp: r' r)
  have keys: "\<exists>e \<in> set (cf_rows db). cf_key x = cf_key e \<and> cf_id x = cf_id e \<and> cf_finish x = cf_finish e \<and>
      amount (cf_curator_raise_value x) = amount (cf_curator_raise_value e) + (if cf_id e = cf_id c then amount (oiv_raise op) else 0) \<and>
      (symbol (cf_curator_raise_value e) = GBC_SYMBOL \<longrightarrow> symbol (cf_curator_raise_value x) = GBC_SYMBOL)"
    if "x \<in> set (cf_rows db')" for x
    using that c' c un by (auto simp: r' r split: if_splits intro: bexI[of _ c])
  have kept: "\<exists>x \<in> set (cf_rows db'). cf_key x = cf_key e \<and> cf_id x = cf_id e \<and> cf_finish x = cf_finish e" if "e \<in> set (cf_rows db)" for e
    using that c' same un by (force simp: r' r)
  have po: "paid_out (cf_rows db') i = paid_out (cf_rows db) i" for i
    using keys kept unfolding paid_out_def by metis
  have npo: "\<not> paid_out (cf_rows db) (cf_id c)" using same un unfolding paid_out_def by fastforce
  have "pledged db' = pledged db + amount (oiv_raise op)"
    using 1(9)[rule_format, of "\<lambda>i. if paid_out (cf_rows db) i then 0 else 1"] npo by (simp add: invested_weighted(1) po r'(2) v2)
  moreover have "gap l db' = gap l db - part l neg" for l using adjust_balance_gap[OF 1(6)] by (simp add: 1(8), subst o2, simp)
  moreover have "part l neg = - (if l = Liquid then amount (oiv_raise op) else 0)" for l
    using asset_neg_dest[OF 1(5)] part_symbol(1)[OF sym] by simp
  ultimately have g: "\<forall>l. crowd_gap l db' = crowd_gap l db" by (simp add: crowd_gap_def)
  have iv: "invested_in i db' = invested_in i db + (if i = cf_id c then amount (oiv_raise op) else 0)" for i
    using 1(9)[rule_format, of "\<lambda>j. if j = i then 1 else 0"] by (simp add: invested_weighted(2) r' v2)
  have "cf_ok db' x" if x: "x \<in> set (cf_rows db')" for x
  proof -
    obtain e where e: "e \<in> set (cf_rows db)" "cf_key x = cf_key e" "cf_id x = cf_id e" "cf_finish x = cf_finish e"
      "symbol (cf_curator_raise_value e) = GBC_SYMBOL \<longrightarrow> symbol (cf_curator_raise_value x) = GBC_SYMBOL" using keys[OF x] by blast
    then have ok: "cf_ok db e" using inv by (simp add: crowd_inv_def)
    have "cf_key x \<le> cf_key y" if "cf_finish x \<noteq> 0" "y \<in> set (cf_rows db')" for y
      using keys[OF that(2)] ok that(1) e by (auto simp: cf_ok_def)
    then show ?thesis using ok e by (auto simp: cf_ok_def r')
  qed
  moreover have "\<forall>v \<in> set (rows t). symbol (inv_raise v) = GBC_SYMBOL \<and>
        (\<exists>x \<in> set (cf_rows db'). cf_id x = inv_crowdfunding v \<and> cf_expire x = inv_expire v)"
  proof
    fix v assume "v \<in> set (rows t)"
    then consider "inv_crowdfunding v = cf_id c \<and> inv_expire v = cf_expire c \<and> symbol (inv_raise v) = GBC_SYMBOL"
      | w where "w \<in> set (rows (crowdfunding_invests db))" "inv_crowdfunding v = inv_crowdfunding w" "inv_expire v = inv_expire w"
          "symbol (inv_raise v) = symbol (inv_raise w)" using 1(10) unfolding v2 sym by blast
    then show "symbol (inv_raise v) = GBC_SYMBOL \<and> (\<exists>x \<in> set (cf_rows db'). cf_id x = inv_crowdfunding v \<and> cf_expire x = inv_expire v)"
    proof cases
      case 1
      then show ?thesis using kept[OF c] by auto
    next
      case (2 w)
      then show ?thesis using inv kept unfolding crowd_inv_def by fastforce
    qed
  qed
  moreover have "invested_in (cf_id x) db' = amount (cf_curator_raise_value x)"
    if "\<forall>x \<in> set (cf_rows db'). cf_finish x = 0" "x \<in> set (cf_rows db')" for x
  proof -
    have "\<forall>e \<in> set (cf_rows db). cf_finish e = 0" using that(1) kept by fastforce
    then have "\<forall>e \<in> set (cf_rows db). invested_in (cf_id e) db = amount (cf_curator_raise_value e)" using inv by (simp add: crowd_inv_def)
    then show ?thesis using keys[OF that(2)] iv by fastforce
  qed
  ultimately have "crowd_inv db'" using inv unfolding crowd_inv_def ids r'(2,3) by blast
  then show ?case using g by blast
qed

text \<open>The crowdfunding operations, the settlement of a block, and the passing of time between blocks.\<close>

inductive crowd_step :: "database \<Rightarrow> database \<Rightarrow> bool" where
  cs_open: "crowdfunding_evaluator tc op db = Inr db' \<Longrightarrow> crowd_step db db'"
| cs_invest: "invest_evaluator op db = Inr db' \<Longrightarrow> crowd_step db db'"
| cs_settle: "process_crowdfunding db = Inr db' \<Longrightarrow> crowd_step db db'"
| cs_tick: "head_block_time db \<le> t \<Longrightarrow> secs t + 3 * 86400 < 2 ^ 32 \<Longrightarrow> crowd_step db (db\<lparr>dgpo := (dgpo db)\<lparr>dgp_time := t\<rparr>\<rparr>)"

lemma crowd_step_keeps:
  assumes "crowd_step db db'" "crowd_inv db"
  shows "crowd_inv db' \<and> (\<forall>l. crowd_gap l db' = crowd_gap l db)"
  using assms
proof (cases rule: crowd_step.cases)
  case (cs_tick t)
  then show ?thesis using assms(2)
    by (auto simp: crowd_inv_def cf_ok_def crowd_gap_def pledged_def invested_in_def)
qed (auto dest: open_keeps invest_keeps process_crowdfunding_keeps)

lemma crowd_steps_keep:
  assumes "crowd_step\<^sup>*\<^sup>* db db'" "crowd_inv db"
  shows "crowd_inv db' \<and> (\<forall>l. crowd_gap l db' = crowd_gap l db)"
  using assms by (induction rule: rtranclp_induct) (auto dest: crowd_step_keeps)

text \<open>
  C12. Crowdfunding neither creates nor destroys tokens. Over any sequence of new crowdfundings,
  investments, settlements and passing time, in every ledger the recorded supply minus all holdings
  changes by exactly the change of the liquid tokens pledged to crowdfundings that have not been paid
  out, and the tables stay consistent.
\<close>

theorem crowdfunding_conserves:
  assumes "crowd_step\<^sup>*\<^sup>* db db'" "crowd_inv db"
  shows "crowd_inv db' \<and> (\<forall>l. gap l db' - gap l db = (if l = Liquid then pledged db' - pledged db else 0))"
  using crowd_steps_keep[OF assms] by (auto simp: crowd_gap_def split: if_splits)

text \<open>
  C29. The node's own audit does not count investments: in a state that passes \<^verbatim>\<open>validate_invariants\<close>,
  after any sequence of crowdfunding steps that leaves a different amount of tokens pledged (an
  investment, to begin with), the audit throws although not a token was created or lost.
\<close>

theorem audit_rejects_pledges:
  assumes "crowd_step\<^sup>*\<^sup>* db db'" "crowd_inv db" "validate_invariants db = Inr ()" "pledged db' \<noteq> pledged db"
    and "\<forall>ord \<in> set (rows (limit_orders db)) \<union> set (rows (limit_orders db')). symbol (base (lo_sell_price ord)) \<noteq> GBS_SYMBOL"
  shows "\<exists>e. validate_invariants db' = Inl e"
proof (cases "validate_invariants db'")
  case (Inr u)
  have "crowd_gap Liquid db' = crowd_gap Liquid db" using crowd_steps_keep[OF assms(1,2)] by blast
  moreover have "gap Liquid db = 0" "gap Liquid db' = 0" using audited_gap[of db] audited_gap[of db'] Inr assms(3,5) by simp_all
  ultimately show ?thesis using assms(4) by (simp add: crowd_gap_def)
qed simp

lemma finished_stops:
  assumes "crowd_inv db" "c \<in> set (cf_rows db)" "cf_finish c \<noteq> 0"
  shows "next_crowdfunding db = None"
proof (rule ccontr)
  assume "next_crowdfunding db \<noteq> None"
  then obtain d where "next_crowdfunding db = Some d" by auto
  from front_unfinished[OF assms(1) this] show False using assms(2,3) by auto
qed

text \<open>
  The settlement happens once. As soon as one crowdfunding is finished, in a consistent state, the
  settlement of every later block leaves the state as it is: the finished crowdfunding stays first in
  the order by expiration and the loop gives up at it, so an expired crowdfunding that is not finished
  is neither paid out nor refunded.
\<close>

theorem crowdfunding_settles_once:
  assumes "crowd_inv db" "c \<in> set (rows (crowdfundings db))" "cf_finish c \<noteq> 0"
  shows "process_crowdfunding db = Inr db"
  using finished_stops[OF assms] by (cases "t_size (crowdfundings db)") (simp_all add: process_crowdfunding_def)

section \<open>A missed goal\<close>

definition liquid :: "account_name_type \<Rightarrow> database \<Rightarrow> int" where
  "liquid n db = (case find_account n db of None \<Rightarrow> 0 | Some a \<Rightarrow> amount (a_balance a))"

text \<open>What the expired investments of an account amount to.\<close>

definition refund_due :: "account_name_type \<Rightarrow> database \<Rightarrow> int" where
  "refund_due n db = t_sum (\<lambda>v. if inv_invester v = n \<and> inv_expire v \<le> head_block_time db then amount (inv_raise v) else 0)
     (crowdfunding_invests db)"

lemma adjust_balance_liquid:
  assumes a: "adjust_balance n d db = Inr db'" and s: "symbol d = GBC_SYMBOL"
  shows "liquid m db' = liquid m db + (if m = n then amount d else 0)"
proof (cases "m = n")
  case True
  obtain x b where x: "find_account n db = Some x" "asset_add (a_balance x) d = Inr b"
    and m: "modify_account n (\<lambda>acnt. Inr (acnt\<lparr>a_balance := b\<rparr>)) db = Inr db'"
    using a s unfolding adjust_balance_def modify_balance_def by auto
  have "find_account n db' = Some (x\<lparr>a_balance := b\<rparr>)"
    using accts.lookup_update[OF m x(1) refl, of n] accts.lookup_key[OF x(1)] by simp
  then show ?thesis using x True by (auto simp: liquid_def dest: asset_add_dest)
qed (use adjust_balance_other[OF a] in \<open>simp add: liquid_def\<close>)

lemma next_refund_Some: "next_refund s = Some v \<Longrightarrow> v \<in> set (rows (crowdfunding_invests s)) \<and> inv_expire v \<le> head_block_time s"
  unfolding next_refund_def by (drule t_due_Some) (simp add: not_less)

lemma refund_invest_invests:
  "refund_invest v s = Inr s' \<Longrightarrow> crowdfunding_invests s' = t_remove (\<lambda>j. j = v) (crowdfunding_invests s)"
  by (auto simp: refund_invest_def balances_crowd[OF conjunct2[OF adjust_balance_moves]])

interpretation refund_loop: draining next_refund refund_invest "\<lambda>s. t_size (crowdfunding_invests s)"
proof
  fix s v s' assume v: "next_refund s = Some v" "refund_invest v s = Inr s'"
  show "t_size (crowdfunding_invests s') < t_size (crowdfunding_invests s)"
    using t_size_remove[OF t_find_self[OF conjunct1[OF next_refund_Some[OF v(1)]]]] refund_invest_invests[OF v(2)] by simp
next
  fix s v assume "next_refund s = Some v"
  then have "v \<in> set (rows (crowdfunding_invests s))" by (simp add: next_refund_Some)
  then show "0 < t_size (crowdfunding_invests s)" by (cases "rows (crowdfunding_invests s)") (simp_all add: t_size_def)
qed

lemma refunds_exact:
  assumes dr: "drain (t_size (crowdfunding_invests db)) next_refund refund_invest db = Inr db'" and inv: "crowd_inv db"
  shows "liquid n db' = liquid n db + refund_due n db \<and> (\<forall>v \<in> set (rows (crowdfunding_invests db')). head_block_time db' < inv_expire v)"
proof -
  have k: "set (rows (crowdfunding_invests db')) \<subseteq> set (rows (crowdfunding_invests db)) \<and> head_block_time db' = head_block_time db \<and>
      liquid n db' + refund_due n db' = liquid n db + refund_due n db"
    using dr
  proof (rule drain_invariant[where I = "\<lambda>s. set (rows (crowdfunding_invests s)) \<subseteq> set (rows (crowdfunding_invests db)) \<and>
      head_block_time s = head_block_time db \<and> liquid n s + refund_due n s = liquid n db + refund_due n db"], goal_cases)
    case (2 v s s')
    note v = next_refund_Some[OF 2(1)]
    have sym: "symbol (inv_raise v) = GBC_SYMBOL" using inv v 2(3) by (auto simp: crowd_inv_def)
    obtain s1 where a: "adjust_balance (inv_invester v) (inv_raise v) s = Inr s1"
      and s': "s' = s1\<lparr>crowdfunding_invests := t_remove (\<lambda>j. j = v) (crowdfunding_invests s1)\<rparr>"
      using 2(2) unfolding refund_invest_def bindE_Inr by auto
    note b = balances_crowd[OF conjunct2[OF adjust_balance_moves[OF a]]]
    have "liquid n s' = liquid n s1" by (simp add: s' liquid_def find_account_def)
    moreover have "refund_due n s' = refund_due n s - (if n = inv_invester v then amount (inv_raise v) else 0)"
      using t_sum_remove[OF t_find_self[OF conjunct1[OF v]]] v by (auto simp: refund_due_def s' b)
    ultimately show ?case using adjust_balance_liquid[OF a sym, of n] 2(3) b set_del_first[of _ "rows (crowdfunding_invests s)"]
      by (auto simp: s' t_remove_def)
  qed simp
  have "next_refund db' = None" by (rule refund_loop.drained[OF order_refl dr])
  then have due: "\<not> \<not> inv_expire v > head_block_time db'" if "v \<in> set (rows (crowdfunding_invests db'))" for v
    unfolding next_refund_def by (rule t_due_None[OF _ _ that]) (auto simp: less_eq_prod_def)
  then have "refund_due n db' = 0" by (auto simp: refund_due_def t_sum_def not_le[symmetric] intro!: sum_list_0 cong: map_cong)
  then show ?thesis using k due by simp
qed

text \<open>A crowdfunding marked as settled.\<close>

definition settled_as :: "32 word \<Rightarrow> crowdfunding_object \<Rightarrow> crowdfunding_object \<Rightarrow> crowdfunding_object" where
  "settled_as k c d = (if cf_id d = cf_id c then d\<lparr>cf_finish := k\<rparr> else d)"

lemma mark_settled:
  assumes "modify_cf (cf_id c) (\<lambda>co. Inr (co\<lparr>cf_finish := k\<rparr>)) db1 = Inr db'" "distinct (map cf_id (cf_rows db1))"
  shows "cf_rows db' = map (settled_as k c) (cf_rows db1) \<and> (\<forall>n. liquid n db' = liquid n db1) \<and>
    crowdfunding_invests db' = crowdfunding_invests db1 \<and> head_block_time db' = head_block_time db1"
proof (rule modify_cf_rows[OF assms], goal_cases)
  case (1 e e')
  have "accounts db' = accounts db1" "crowdfunding_invests db' = crowdfunding_invests db1" "head_block_time db' = head_block_time db1"
    by (subst 1(5), simp)+
  moreover have "cf_rows db' = map (settled_as k c) (cf_rows db1)"
  proof -
    have "e = d" if "d \<in> set (cf_rows db1)" "cf_id d = cf_id c" for d
      using that 1(1,2) assms(2) unfolding distinct_map by (metis inj_onD)
    then show ?thesis using 1(3,4) by (auto simp: settled_as_def)
  qed
  ultimately show ?case by (simp add: liquid_def find_account_def)
qed

text \<open>What settling the crowdfunding \<open>c\<close> at the front does to balances and tables.\<close>

definition settles :: "crowdfunding_object \<Rightarrow> database \<Rightarrow> database \<Rightarrow> bool" where
  "settles c db db' \<longleftrightarrow>
     (if amount (cf_curator_raise_value c) < amount (cf_total_raise_value c)
      then cf_rows db' = map (settled_as 2 c) (cf_rows db) \<and> (\<forall>n. liquid n db' = liquid n db + refund_due n db) \<and>
        (\<forall>v \<in> set (rows (crowdfunding_invests db')). head_block_time db < inv_expire v)
      else cf_rows db' = map (settled_as 1 c) (cf_rows db) \<and> crowdfunding_invests db' = crowdfunding_invests db \<and>
        (\<forall>n. liquid n db' = liquid n db + (if n = cf_originator c then amount (cf_curator_raise_value c) else 0)))"

lemma settles_marks:
  assumes "settles c db db'" "c \<in> set (cf_rows db)"
  shows "\<exists>d \<in> set (cf_rows db'). cf_finish d \<noteq> 0"
proof -
  obtain j where "j \<noteq> 0" "cf_rows db' = map (settled_as j c) (cf_rows db)"
    by (rule that[of "if amount (cf_curator_raise_value c) < amount (cf_total_raise_value c) then 2 else 1"])
      (use assms(1) in \<open>simp_all add: settles_def split: if_splits\<close>)
  then show ?thesis using assms(2) by (intro bexI[of _ "settled_as j c c"]) (simp_all add: settled_as_def)
qed

lemma settle_settles:
  assumes "settle_crowdfunding c db = Inr db'" "next_crowdfunding db = Some c" "crowd_inv db"
  shows "settles c db db'"
proof (cases "amount (cf_curator_raise_value c) < amount (cf_total_raise_value c)")
  case True
  then obtain db1 where r: "drain (t_size (crowdfunding_invests db)) next_refund refund_invest db = Inr db1"
    and m: "modify_cf (cf_id c) (\<lambda>co. Inr (co\<lparr>cf_finish := 2\<rparr>)) db1 = Inr db'"
    using assms(1) unfolding settle_crowdfunding_def by auto
  have k: "crowdfundings db1 = crowdfundings db" "head_block_time db1 = head_block_time db"
    using refunds_keep[OF r assms(3)] front_unfinished[OF assms(3,2)] by blast+
  then show ?thesis using True mark_settled[OF m] refunds_exact[OF r assms(3)] assms(3) by (simp add: settles_def crowd_inv_def)
next
  case False
  then obtain db1 where a: "adjust_balance (cf_originator c) (cf_curator_raise_value c) db = Inr db1"
    and m: "modify_cf (cf_id c) (\<lambda>co. Inr (co\<lparr>cf_finish := 1\<rparr>)) db1 = Inr db'"
    using assms(1) unfolding settle_crowdfunding_def by auto
  note b = balances_crowd[OF conjunct2[OF adjust_balance_moves[OF a]]]
  have "symbol (cf_curator_raise_value c) = GBC_SYMBOL"
    using assms(3) front_unfinished[OF assms(3,2)] by (auto simp: crowd_inv_def cf_ok_def)
  then show ?thesis using False b mark_settled[OF m] adjust_balance_liquid[OF a] assms(3) by (simp add: settles_def crowd_inv_def)
qed

lemma nothing_settled:
  assumes "next_crowdfunding db = None" "c \<in> set (cf_rows db)" "cf_expire c \<le> head_block_time db"
  shows "\<exists>d \<in> set (cf_rows db). cf_finish d \<noteq> 0"
proof -
  have "t_begin (\<lambda>c. cf_key c) (crowdfundings db) \<noteq> None" using assms(2) by (auto simp: t_begin_None)
  then obtain f where f: "t_begin (\<lambda>c. cf_key c) (crowdfundings db) = Some f" by auto
  note m = t_begin_Some[OF f]
  then have "cf_key f \<le> cf_key c" using assms(2) by blast
  then have "cf_expire f \<le> head_block_time db" using assms(3) by (auto simp: less_eq_prod_def)
  then have "cf_finish f \<noteq> 0" using assms(1) f unfolding next_crowdfunding_def t_due_def by (auto split: if_splits)
  then show ?thesis using m by blast
qed

text \<open>
  C28. What the settlement of a block does, exactly. In a consistent state \<^verbatim>\<open>process_crowdfunding\<close> either
  changes nothing, and then no crowdfunding has expired or one was settled earlier; or no crowdfunding
  was settled before, and it settles the one that expires first, once, and no other: when that one missed
  its goal, every account's liquid balance grows by exactly its expired investments (into whichever
  crowdfunding), no expired investment is left and the crowdfunding is marked as failed; otherwise its
  originator alone receives exactly what was raised, the investments stay, and it is marked as paid.
  Afterwards nothing more is settled, in this block or a later one.
\<close>

theorem settlement_exact:
  assumes "process_crowdfunding db = Inr db'" "crowd_inv db"
  shows "db' = db \<and> (\<forall>c \<in> set (rows (crowdfundings db)). cf_expire c \<le> head_block_time db \<longrightarrow> (\<exists>d \<in> set (rows (crowdfundings db)). cf_finish d \<noteq> 0)) \<or>
    (\<exists>c \<in> set (rows (crowdfundings db)). cf_expire c \<le> head_block_time db \<and>
       (\<forall>d \<in> set (rows (crowdfundings db)). cf_finish d = 0 \<and> cf_expire c \<le> cf_expire d) \<and>
       settles c db db' \<and> process_crowdfunding db' = Inr db')"
proof (cases "next_crowdfunding db")
  case None
  then have "db' = db" using assms(1) by (cases "t_size (crowdfundings db)") (simp_all add: process_crowdfunding_def)
  then show ?thesis using nothing_settled[OF None] by blast
next
  case (Some c)
  note f = front_unfinished[OF assms(2) Some]
  then have "t_size (crowdfundings db) \<noteq> 0" by (auto simp: t_size_def)
  then obtain k where k: "t_size (crowdfundings db) = Suc k" using not0_implies_Suc by blast
  then obtain db1 where s: "settle_crowdfunding c db = Inr db1" and r: "drain k next_crowdfunding settle_crowdfunding db1 = Inr db'"
    using assms(1) Some by (auto simp: process_crowdfunding_def)
  note st = settle_settles[OF s Some assms(2)]
  have inv: "crowd_inv db1" using settle_keeps[OF s Some assms(2)] by blast
  have "\<exists>d \<in> set (cf_rows db1). cf_finish d \<noteq> 0" by (rule settles_marks[OF st]) (use f in blast)
  then have n: "next_crowdfunding db1 = None" using finished_stops[OF inv] by blast
  then have "db' = db1" using r by (cases k) simp_all
  moreover have "process_crowdfunding db1 = Inr db1" using n by (cases "t_size (crowdfundings db1)") (simp_all add: process_crowdfunding_def)
  moreover have "cf_expire c \<le> cf_expire d" if "d \<in> set (cf_rows db)" for d
  proof -
    have "cf_key c \<le> cf_key d" using f that by blast
    then show ?thesis by (auto simp: less_eq_prod_def)
  qed
  ultimately show ?thesis using st f by blast
qed

section \<open>Concrete runs\<close>

text \<open>
  Alice raises 100 tokens until time 300000; each holds 500 tokens. The parameters are the time, the
  state of the crowdfunding and what Bob has invested in it. Alice also owns fund 1, which she offers
  for 30 tokens.
\<close>

definition party :: "nat \<Rightarrow> account_name_type \<Rightarrow> account_object" where
  "party i n = (new_account i)\<lparr>a_name := n, a_balance := GBC 500\<rparr>"

definition crowd_db :: "time_point_sec \<Rightarrow> 32 word \<Rightarrow> int list \<Rightarrow> database" where
  "crowd_db t fin paid = empty_database\<lparr>
     accounts := \<lparr>next_id = 2, rows = [party 0 ''alice'', party 1 ''bob'']\<rparr>,
     crowdfundings := \<lparr>next_id = 1, rows = [\<lparr>cf_id = 0, cf_originator = ''alice'', cf_permlink = ''game'', cf_created = 40800,
        cf_expire = 300000, cf_last_raise = 0, cf_total_raise_value = GBC 100, cf_curator_raise_value = GBC (sum_list paid), cf_finish = fin\<rparr>]\<rparr>,
     crowdfunding_invests := \<lparr>next_id = 1, rows = map (\<lambda>x. \<lparr>inv_invester = ''bob'', inv_crowdfunding = 0, inv_expire = 300000,
        inv_last_update = 50000, inv_raise = GBC x\<rparr>) paid\<rparr>,
     nonfungible_funds := \<lparr>next_id = 2, rows = [\<lparr>nf_id = 1, nf_creator = ''alice'', nf_owner = ''alice'', nf_meta_data = ''sword'',
        nf_creator_sign = '''', nf_last_update = 0, nf_created = 0\<rparr>]\<rparr>,
     nonfungible_on_sale := \<lparr>next_id = 1, rows = [\<lparr>ns_fund_id = 1, ns_created = 0, ns_expiration = 900000, ns_seller = ''alice'',
        ns_selling_price = GBC 30\<rparr>]\<rparr>,
     dgpo := new_dgpo\<lparr>dgp_time := t, current_supply := GBC 1000, virtual_supply := GBC 1000\<rparr>\<rparr>"

definition bob_invests :: invest_operation where
  "bob_invests = \<lparr>oiv_invester = ''bob'', oiv_originator = ''alice'', oiv_permlink = ''game'', oiv_raise = GBC 40\<rparr>"

definition bob_buys :: nonfungible_fund_buy_operation where
  "bob_buys = \<lparr>onfb_buyer = ''bob'', onfb_fund_id = 1\<rparr>"

lemma crowd_db_inv:
  "crowd_inv (crowd_db 50000 0 [])" "crowd_inv (crowd_db 300000 0 [40])" "crowd_inv (crowd_db 300000 2 [])"
  by (simp_all add: crowd_inv_def cf_ok_def crowd_db_def invested_in_def t_sum_def)

lemmas crowd_run = crowd_db_def party_def bob_invests_def bob_buys_def concrete

lemma invest_run: "\<exists>db'. invest_evaluator bob_invests (crowd_db 50000 0 []) = Inr db' \<and> pledged db' = 40 \<and> rows (limit_orders db') = []"
  by (rule returningD, simp add: returning_def invest_evaluator_def get_crowdfunding_def modify_cf_def get_balance_def asset_le_def
      crowd_run pledged_def t_sum_def paid_out_def cong: eager)

theorem crowdfunding_conserves_witness:
  "\<exists>db'. invest_evaluator bob_invests (crowd_db 50000 0 []) = Inr db' \<and> crowd_inv db' \<and>
     gap Liquid db' - gap Liquid (crowd_db 50000 0 []) = 40"
proof -
  obtain db' where r: "invest_evaluator bob_invests (crowd_db 50000 0 []) = Inr db'" "pledged db' = 40" using invest_run by blast
  have "pledged (crowd_db 50000 0 []) = 0" by (simp add: crowd_db_def pledged_def t_sum_def)
  then show ?thesis using crowdfunding_conserves[OF r_into_rtranclp[of crowd_step, OF cs_invest[OF r(1)]] crowd_db_inv(1)] r by auto
qed

lemma audit_run: "validate_invariants (crowd_db 50000 0 []) = Inr ()"
  by (simp add: validate_invariants_def count_all_def count_account_def count_votes_def add_supply_def add_gbd_def add_vesting_def
      add_pending_def crowd_run witness_vote_weight_def proxied_vsf_votes_total_def is_null_def price_eq_def
      same_market_def price_mults_def null_price_def GAMEBANK_MAX_PROXY_RECURSION_DEPTH_def cong: eager)

theorem audit_rejects_pledges_witness:
  "\<exists>db' e. validate_invariants (crowd_db 50000 0 []) = Inr () \<and> invest_evaluator bob_invests (crowd_db 50000 0 []) = Inr db' \<and>
     validate_invariants db' = Inl e"
proof -
  obtain db' where r: "invest_evaluator bob_invests (crowd_db 50000 0 []) = Inr db'" "pledged db' = 40" "rows (limit_orders db') = []"
    using invest_run by blast
  have "pledged (crowd_db 50000 0 []) = 0" "rows (limit_orders (crowd_db 50000 0 [])) = []"
    by (simp_all add: crowd_db_def pledged_def t_sum_def empty_database_def empty_table_def)
  then show ?thesis
    using audit_rejects_pledges[OF r_into_rtranclp[of crowd_step, OF cs_invest[OF r(1)]] crowd_db_inv(1) audit_run] r audit_run by auto
qed

theorem crowdfunding_settles_once_witness: "process_crowdfunding (crowd_db 300000 2 []) = Inr (crowd_db 300000 2 [])"
  by (rule crowdfunding_settles_once[OF crowd_db_inv(3), of "hd (rows (crowdfundings (crowd_db 300000 2 [])))"])
    (simp_all add: crowd_db_def)

lemma settle_run: "\<exists>db'. process_crowdfunding (crowd_db 300000 0 [40]) = Inr db' \<and> map cf_finish (cf_rows db') = [2]"
  by (rule returningD, simp add: returning_def process_crowdfunding_def settle_crowdfunding_def next_crowdfunding_def crowd_run t_size_def
      next_refund_def t_due_def t_begin_def refund_invest_def modify_cf_def cong: eager)

theorem settlement_exact_witness:
  "\<exists>db'. process_crowdfunding (crowd_db 300000 0 [40]) = Inr db' \<and> liquid ''bob'' db' = 540 \<and> liquid ''alice'' db' = 500"
proof -
  let ?db = "crowd_db 300000 0 [40]"
  obtain db' where r: "process_crowdfunding ?db = Inr db'" "map cf_finish (cf_rows db') = [2]" using settle_run by (elim exE conjE)
  have "db' \<noteq> ?db" using r(2) by (auto simp: crowd_db_def)
  then obtain c where "c \<in> set (cf_rows ?db)" "settles c ?db db'" using settlement_exact[OF r(1) crowd_db_inv(2)] by blast
  then have "liquid n db' = liquid n ?db + refund_due n ?db" for n by (auto simp: crowd_db_def settles_def)
  then show ?thesis using r(1)
    by (simp add: liquid_def refund_due_def crowd_db_def party_def find_account_def t_find_def t_sum_def new_account_def)
qed

theorem fund_owner_safe_witness:
  "\<exists>db' f'. nonfungible_fund_buy_evaluator bob_buys (crowd_db 50000 0 []) = Inr db' \<and> find_fund 1 db' = Some f' \<and>
     owner_change 1 ''alice'' (nf_owner f') (crowd_db 50000 0 []) db'"
proof -
  have "\<exists>db'. nonfungible_fund_buy_evaluator bob_buys (crowd_db 50000 0 []) = Inr db' \<and> map nf_owner (rows (nonfungible_funds db')) = [''bob'']"
    by (rule returningD, simp add: returning_def nonfungible_fund_buy_evaluator_def get_fund_def get_sale_def modify_fund_def remove_sale_def
        get_balance_def crowd_run cong: eager)
  then obtain db' where r: "nonfungible_fund_buy_evaluator bob_buys (crowd_db 50000 0 []) = Inr db'"
    "map nf_owner (rows (nonfungible_funds db')) = [''bob'']" by (elim exE conjE)
  have ok: "offers_ok (crowd_db 50000 0 [])" by (simp add: offers_ok_def crowd_db_def find_fund_def t_find_def)
  obtain f where f: "find_fund 1 (crowd_db 50000 0 []) = Some f" "nf_owner f = ''alice''" by (simp add: crowd_db_def find_fund_def t_find_def)
  obtain f' where f': "find_fund 1 db' = Some f'" "nf_owner f' \<noteq> nf_owner f \<longrightarrow> owner_change 1 (nf_owner f) (nf_owner f') (crowd_db 50000 0 []) db'"
    using fund_owner_safe[OF nft_buy[OF r(1)] ok f(1)] by (elim exE conjE)
  have "nf_owner f' \<in> set (map nf_owner (rows (nonfungible_funds db')))" using f'(1) by (auto simp: find_fund_def dest!: t_find_Some)
  then have "nf_owner f' = ''bob''" unfolding r(2) by simp
  then show ?thesis using r(1) f f' by auto
qed

end
