(* ===== verification/Schedule.thy ===== *)
theory Schedule
  imports Funds
begin

unbundle bit_operations_syntax

text \<open>
  The witness schedule of src/libraries/chain/witness_schedule.cpp: once per round the witnesses of the
  next round are chosen (the most voted, queued miners, and the witnesses in the lead of the virtual
  schedule), the versions they report are counted, the list is shuffled and the median of the chain
  properties they propose takes effect. An id of a witness is its owner, which is unique too.
\<close>

definition GAMEBANK_MAX_WITNESSES :: nat where "GAMEBANK_MAX_WITNESSES = 21"
definition GAMEBANK_VIRTUAL_SCHEDULE_LAP_LENGTH2 :: "128 word" where "GAMEBANK_VIRTUAL_SCHEDULE_LAP_LENGTH2 = - 1"

abbreviation (input) null_key :: public_key_type where "null_key \<equiv> ''''"

definition virtual_lap :: "witness_object \<Rightarrow> 128 word result" where
  "virtual_lap w = udiv128 GAMEBANK_VIRTUAL_SCHEDULE_LAP_LENGTH2 (uint128 (w_votes w + 1))"

definition reset_virtual_schedule_time :: "database \<Rightarrow> database result" where
  "reset_virtual_schedule_time db =
     (let db1 = db\<lparr>witness_schedule := (witness_schedule db)\<lparr>ws_current_virtual_time := 0\<rparr>\<rparr> in
      foldE (\<lambda>n. modify_witness n (\<lambda>w. bindE (virtual_lap w) (\<lambda>lap.
          Inr (w\<lparr>w_virtual_position := 0, w_virtual_last_update := ws_current_virtual_time (witness_schedule db1),
                 w_virtual_scheduled_time := lap\<rparr>))))
        (map w_owner (rows (witnesses db1))) db1)"

section \<open>Median properties\<close>

definition scheduled :: "witness_schedule_object \<Rightarrow> account_name_type list" where
  "scheduled wso = take (unat (ws_num_scheduled_witnesses wso)) (ws_current_shuffled_witnesses wso)"

fun get_witnesses :: "account_name_type list \<Rightarrow> database \<Rightarrow> witness_object list result" where
  "get_witnesses [] db = Inr []"
| "get_witnesses (n # ns) db = bindE (get_witness n db) (\<lambda>w. bindE (get_witnesses ns db) (\<lambda>ws. Inr (w # ws)))"

text \<open>The value at the middle of the witnesses sorted by it.\<close>

definition median :: "('a \<Rightarrow> 'k::linorder) \<Rightarrow> 'a list \<Rightarrow> 'a" where
  "median f xs = sort_key f xs ! (length xs div 2)"

definition update_median_witness_props :: "database \<Rightarrow> database result" where
  "update_median_witness_props db =
     bindE (get_witnesses (scheduled (witness_schedule db)) db) (\<lambda>active.
      let fee = cp_account_creation_fee (w_props (median (\<lambda>w. amount (cp_account_creation_fee (w_props w))) active));
          size = cp_maximum_block_size (w_props (median (\<lambda>w. cp_maximum_block_size (w_props w)) active));
          rate = cp_gbd_interest_rate (w_props (median (\<lambda>w. cp_gbd_interest_rate (w_props w)) active));
          subsidy = cp_account_subsidy_limit (w_props (median (\<lambda>w. cp_account_subsidy_limit (w_props w)) active)) in
      Inr (db\<lparr>witness_schedule := (witness_schedule db)\<lparr>ws_median_props :=
                 (ws_median_props (witness_schedule db))\<lparr>cp_account_creation_fee := fee, cp_maximum_block_size := size,
                    cp_gbd_interest_rate := rate, cp_account_subsidy_limit := subsidy\<rparr>\<rparr>,
              dgpo := (dgpo db)\<lparr>maximum_block_size := size, gbd_interest_rate := rate\<rparr>\<rparr>))"

section \<open>Choosing the witnesses of a round\<close>

definition by_vote_name :: "database \<Rightarrow> witness_object list" where
  "by_vote_name db = sort_key (\<lambda>w. (- w_votes w, w_owner w)) (rows (witnesses db))"

text \<open>The most voted witnesses that have a signing key.\<close>

definition elect :: "database \<Rightarrow> account_name_type list" where
  "elect db = map w_owner (take (unat (ws_max_voted_witnesses (witness_schedule db)))
     (filter (\<lambda>w. w_signing_key w \<noteq> null_key) (by_vote_name db)))"

definition set_schedule :: "witness_schedule_type \<Rightarrow> account_name_type \<Rightarrow> database \<Rightarrow> database result" where
  "set_schedule s n db = modify_witness n (\<lambda>w. Inr (w\<lparr>w_schedule := s\<rparr>)) db"

text \<open>The mining queue: every visited miner leaves it, and is chosen if it has a key and is not elected.\<close>

definition mining_queue :: "database \<Rightarrow> account_name_type list" where
  "mining_queue db = map w_owner (sort_key w_pow_worker (filter (\<lambda>w. w_pow_worker w > 0) (rows (witnesses db))))"

fun choose_miners :: "nat \<Rightarrow> account_name_type list \<Rightarrow> account_name_type list \<Rightarrow> account_name_type list \<Rightarrow> database \<Rightarrow>
    (account_name_type list \<times> database) result" where
  "choose_miners limit elected chosen [] db = Inr (chosen, db)"
| "choose_miners limit elected chosen (n # ns) db =
     (if length chosen < limit then
        bindE (if n \<in> set elected then Inr (chosen, db)
               else bindE (get_witness n db) (\<lambda>w.
                 if w_signing_key w \<noteq> null_key then bindE (set_schedule miner n db) (\<lambda>db1. Inr (chosen @ [n], db1))
                 else Inr (chosen, db))) (\<lambda>(chosen', db1).
        bindE (modify_witness n (\<lambda>w. Inr (w\<lparr>w_pow_worker := 0\<rparr>)) db1) (\<lambda>db2.
          choose_miners limit elected chosen' ns
            (db2\<lparr>dgpo := (dgpo db2)\<lparr>num_pow_witnesses := num_pow_witnesses (dgpo db2) - 1\<rparr>\<rparr>)))
      else Inr (chosen, db))"

text \<open>
  The witnesses in the lead of the virtual schedule, until the round is full: the virtual time reached,
  the witnesses passed on the way and those that join the round.
\<close>

fun run_lead :: "nat \<Rightarrow> account_name_type list \<Rightarrow> 128 word \<Rightarrow> witness_object list \<Rightarrow>
    128 word \<times> witness_object list \<times> account_name_type list" where
  "run_lead count taken vt [] = (vt, [], [])"
| "run_lead count taken vt (w # ws) =
     (if count < GAMEBANK_MAX_WITNESSES then
        let joins = (w_signing_key w \<noteq> null_key \<and> w_owner w \<notin> set taken);
            (vt', processed, runners) = run_lead (if joins then count + 1 else count) taken (w_virtual_scheduled_time w) ws
        in (vt', w # processed, if joins then w_owner w # runners else runners)
      else (vt, [], []))"

fun advance_schedule :: "128 word \<Rightarrow> witness_object list \<Rightarrow> database \<Rightarrow> (bool \<times> database) result" where
  "advance_schedule vt [] db = Inr (False, db)"
| "advance_schedule vt (w # ws) db =
     bindE (virtual_lap w) (\<lambda>lap.
      if vt + lap < vt then Inr (True, db)
      else bindE (modify_witness (w_owner w) (\<lambda>w. Inr (w\<lparr>w_virtual_position := 0, w_virtual_last_update := vt,
               w_virtual_scheduled_time := vt + lap\<rparr>)) db) (advance_schedule vt ws))"

section \<open>Versions\<close>

definition votes_for_value :: "'a list \<Rightarrow> 'a \<Rightarrow> nat" where
  "votes_for_value xs v = length (filter (\<lambda>x. x = v) xs)"

text \<open>The highest version that enough witnesses run at least; otherwise the majority stays as it is.\<close>

fun find_majority :: "nat \<Rightarrow> version list \<Rightarrow> nat \<Rightarrow> version list \<Rightarrow> version option" where
  "find_majority required running on_version [] = None"
| "find_majority required running on_version (v # vs) =
     (let on_version' = on_version + votes_for_value running v in
      if on_version' \<ge> required then Some v else find_majority required running on_version' vs)"

definition majority_version :: "nat \<Rightarrow> version list \<Rightarrow> version option" where
  "majority_version required running = find_majority required running 0 (rev (sort (remdups running)))"

definition agreed_hardfork :: "nat \<Rightarrow> (version \<times> time_point_sec) list \<Rightarrow> (version \<times> time_point_sec) option" where
  "agreed_hardfork required hf_votes = List.find (\<lambda>v. votes_for_value hf_votes v \<ge> required) (sort (remdups hf_votes))"

definition count_versions :: "database \<Rightarrow> (version \<times> database) result" where
  "count_versions db =
     (let wso = witness_schedule db; required = unat (ws_hardfork_required_witnesses wso); hpo = hardfork_property db in
      bindE (get_witnesses (scheduled wso) db) (\<lambda>ws.
        Inr (case majority_version required (map w_running_version ws) of None \<Rightarrow> ws_majority_version wso | Some v \<Rightarrow> v,
             db\<lparr>hardfork_property :=
               (case agreed_hardfork required (map (\<lambda>w. (w_hardfork_version_vote w, w_hardfork_time_vote w)) ws) of
                  Some (v, t) \<Rightarrow> hpo\<lparr>hf_next_hardfork := v, hf_next_hardfork_time := t\<rparr>
                | None \<Rightarrow> hpo\<lparr>hf_next_hardfork := hf_current_hardfork_version hpo\<rparr>)\<rparr>)))"

section \<open>Shuffling\<close>

definition xorshift :: "64 word \<Rightarrow> 64 word" where
  "xorshift k =
     (let k = xor k (drop_bit 12 k); k = xor k (push_bit 25 k); k = xor k (drop_bit 27 k) in k * 2685821657736338717)"

definition shuffle_target :: "time_point_sec \<Rightarrow> nat \<Rightarrow> nat \<Rightarrow> nat" where
  "shuffle_target now num i =
     (let now_hi = push_bit 32 (ucast now :: 64 word) in
      i + unat (xorshift (now_hi + of_nat i * 2685821657736338717)) mod (num - i))"

definition swap_at :: "nat \<Rightarrow> nat \<Rightarrow> 'a list \<Rightarrow> 'a list" where
  "swap_at i j xs = xs[i := xs ! j, j := xs ! i]"

definition shuffle :: "time_point_sec \<Rightarrow> nat \<Rightarrow> 'a list \<Rightarrow> 'a list" where
  "shuffle now num xs = fold (\<lambda>i. swap_at i (shuffle_target now num i)) [0..<num] xs"

section \<open>The round\<close>

definition install_schedule :: "account_name_type list \<Rightarrow> nat \<Rightarrow> nat \<Rightarrow> nat \<Rightarrow> 128 word \<Rightarrow> version \<Rightarrow> database \<Rightarrow> database" where
  "install_schedule active num_elected num_miners num_timeshare vt majority db =
     (let wso = witness_schedule db; num = max (of_nat (length active)) (1 :: 8 word) in
      db\<lparr>witness_schedule := wso\<lparr>
        ws_current_shuffled_witnesses := shuffle (head_block_time db) (unat num)
          (active @ replicate (GAMEBANK_MAX_WITNESSES - length active) ''''),
        ws_num_scheduled_witnesses := num,
        ws_witness_pay_normalization_factor :=
          of_nat (unat (ws_top19_weight wso) * num_elected + unat (ws_miner_weight wso) * num_miners + unat (ws_timeshare_weight wso) * num_timeshare),
        ws_current_virtual_time := vt,
        ws_next_shuffle_block_num := head_block_num db + ucast num,
        ws_majority_version := majority\<rparr>\<rparr>)"

definition update_witness_schedule4 :: "database \<Rightarrow> database result" where
  "update_witness_schedule4 db =
     (let wso = witness_schedule db; elected = elect db in
      bindE (foldE (set_schedule top19) elected db) (\<lambda>db1.
      bindE (choose_miners (unat (ws_max_miner_witnesses wso)) elected [] (mining_queue db1) db1) (\<lambda>(miners, db2).
      let (vt, processed, runners) = run_lead (length elected + length miners) (elected @ miners) (ws_current_virtual_time wso)
            (sort_key w_virtual_scheduled_time (rows (witnesses db2)));
          active = elected @ miners @ runners in
      bindE (foldE (set_schedule timeshare) runners db2) (\<lambda>db3.
      bindE (advance_schedule vt processed db3) (\<lambda>(reset, db4).
      bindE (if reset then reset_virtual_schedule_time db4 else Inr db4) (\<lambda>db5.
      fc_assert (length active = min GAMEBANK_MAX_WITNESSES (t_size (witnesses db5)))
      (bindE (count_versions db5) (\<lambda>(majority, db6).
        update_median_witness_props
          (install_schedule active (length elected) (length miners) (length runners) (if reset then 0 else vt) majority db6)))))))))"

definition update_witness_schedule :: "database \<Rightarrow> database result" where
  "update_witness_schedule db =
     (if unat (head_block_num db) mod GAMEBANK_MAX_WITNESSES = 0 then update_witness_schedule4 db else Inr db)"

section \<open>The schedule keeps owners and keys\<close>

definition keys_of :: "database \<Rightarrow> (account_name_type \<times> public_key_type) list" where
  "keys_of db = map (\<lambda>w. (w_owner w, w_signing_key w)) (rows (witnesses db))"

lemma modify_witness_keys:
  assumes "modify_witness n f db = Inr db'"
    and "\<And>w w'. f w = Inr w' \<Longrightarrow> w_owner w' = w_owner w \<and> w_signing_key w' = w_signing_key w"
  shows "keys_of db' = keys_of db \<and> witness_schedule db' = witness_schedule db \<and> dgpo db' = dgpo db"
  using assms by (auto simp: modify_witness_def t_modify_Inr keys_of_def t_find_def intro!: map_upd_first)

lemma foldE_keys:
  assumes "foldE g ns db = Inr db'"
    and "\<And>n s s'. g n s = Inr s' \<Longrightarrow> keys_of s' = keys_of s \<and> witness_schedule s' = witness_schedule s \<and> dgpo s' = dgpo s"
  shows "keys_of db' = keys_of db \<and> witness_schedule db' = witness_schedule db \<and> dgpo db' = dgpo db"
  by (rule foldE_invariant[OF _ _ assms(1), where I = "\<lambda>s. keys_of s = keys_of db \<and> witness_schedule s = witness_schedule db \<and> dgpo s = dgpo db"])
    (use assms(2) in auto)

lemma set_schedule_keys:
  "set_schedule k n db = Inr db' \<Longrightarrow> keys_of db' = keys_of db \<and> witness_schedule db' = witness_schedule db \<and> dgpo db' = dgpo db"
  unfolding set_schedule_def by (erule modify_witness_keys) auto

lemma advance_schedule_keys:
  "advance_schedule vt ws db = Inr (r, db') \<Longrightarrow> keys_of db' = keys_of db"
proof (induction vt ws db arbitrary: r db' rule: advance_schedule.induct)
  case (2 vt w ws db)
  then obtain lap where lap: "virtual_lap w = Inr lap" by auto
  show ?case
  proof (cases "vt + lap < vt")
    case False
    then obtain s where s: "modify_witness (w_owner w) (\<lambda>w. Inr (w\<lparr>w_virtual_position := 0, w_virtual_last_update := vt,
               w_virtual_scheduled_time := vt + lap\<rparr>)) db = Inr s" "advance_schedule vt ws s = Inr (r, db')"
      using 2(2) lap by auto
    have "keys_of s = keys_of db" using modify_witness_keys[OF s(1)] by auto
    then show ?thesis using 2(1)[OF False s(2)] by simp
  qed (use 2(2) lap in auto)
qed simp

lemma reset_virtual_keys:
  assumes "reset_virtual_schedule_time db = Inr db'"
  shows "keys_of db' = keys_of db"
proof -
  let ?db1 = "db\<lparr>witness_schedule := (witness_schedule db)\<lparr>ws_current_virtual_time := 0\<rparr>\<rparr>"
  have "keys_of db' = keys_of ?db1 \<and> witness_schedule db' = witness_schedule ?db1 \<and> dgpo db' = dgpo ?db1"
    using assms unfolding reset_virtual_schedule_time_def Let_def
    by (rule foldE_keys) (rule modify_witness_keys, auto)
  then show ?thesis by (simp add: keys_of_def)
qed

lemma get_witness_keys: "get_witness n db = Inr w \<Longrightarrow> (n, w_signing_key w) \<in> set (keys_of db)"
  by (auto simp: get_witness_def keys_of_def dest!: t_find_Some)

lemma choose_miners_keys:
  assumes "choose_miners limit elected chosen ns db = Inr (chosen', db')"
  shows "keys_of db' = keys_of db \<and> (\<exists>xs. chosen' = chosen @ xs \<and> set xs \<subseteq> set ns - set elected \<and> (distinct ns \<longrightarrow> distinct xs) \<and>
    (\<forall>n \<in> set xs. \<exists>k. (n, k) \<in> set (keys_of db) \<and> k \<noteq> null_key))"
  using assms
proof (induction ns arbitrary: chosen db)
  case (Cons n ns)
  show ?case
  proof (cases "length chosen < limit")
    case True
    let ?pick = "if n \<in> set elected then Inr (chosen, db)
               else bindE (get_witness n db) (\<lambda>w.
                 if w_signing_key w \<noteq> null_key then bindE (set_schedule miner n db) (\<lambda>db1. Inr (chosen @ [n], db1))
                 else Inr (chosen, db))"
    obtain c1 db1 db2 where p: "?pick = Inr (c1, db1)" and m: "modify_witness n (\<lambda>w. Inr (w\<lparr>w_pow_worker := 0\<rparr>)) db1 = Inr db2"
      and r: "choose_miners limit elected c1 ns (db2\<lparr>dgpo := (dgpo db2)\<lparr>num_pow_witnesses := num_pow_witnesses (dgpo db2) - 1\<rparr>\<rparr>) = Inr (chosen', db')"
      using Cons.prems True by auto
    have k1: "keys_of db1 = keys_of db" using p by (auto split: if_splits dest: set_schedule_keys)
    have k2: "keys_of db2 = keys_of db1" using modify_witness_keys[OF m] by auto
    have c1: "c1 = chosen \<or> c1 = chosen @ [n] \<and> n \<notin> set elected \<and> (\<exists>k. (n, k) \<in> set (keys_of db) \<and> k \<noteq> null_key)"
      using p by (auto split: if_splits dest: get_witness_keys)
    have k3: "keys_of (db2\<lparr>dgpo := d\<rparr>) = keys_of db" for d using k1 k2 by (simp add: keys_of_def)
    obtain xs where xs: "keys_of db' = keys_of db" "chosen' = c1 @ xs" "set xs \<subseteq> set ns - set elected" "distinct ns \<longrightarrow> distinct xs"
      "\<forall>n \<in> set xs. \<exists>k. (n, k) \<in> set (keys_of db) \<and> k \<noteq> null_key"
      using Cons.IH[OF r] unfolding k3 by blast
    show ?thesis
    proof (cases "c1 = chosen")
      case True
      then show ?thesis using xs by (auto intro!: exI[of _ xs])
    next
      case False
      then show ?thesis using xs c1 by (auto intro!: exI[of _ "n # xs"])
    qed
  qed (use Cons.prems in auto)
qed auto

lemma run_lead_runners:
  "run_lead count taken vt ws = (vt', processed, runners) \<Longrightarrow>
   set runners \<subseteq> {w_owner w | w. w \<in> set ws \<and> w_signing_key w \<noteq> null_key \<and> w_owner w \<notin> set taken} \<and>
   (distinct (map w_owner ws) \<longrightarrow> distinct runners)"
proof (induction count taken vt ws arbitrary: vt' processed runners rule: run_lead.induct)
  case (2 count taken vt w ws)
  show ?case
  proof (cases "count < GAMEBANK_MAX_WITNESSES")
    case True
    let ?j = "w_signing_key w \<noteq> null_key \<and> w_owner w \<notin> set taken"
    obtain v p r where i: "run_lead (if ?j then count + 1 else count) taken (w_virtual_scheduled_time w) ws = (v, p, r)"
      by (cases "run_lead (if ?j then count + 1 else count) taken (w_virtual_scheduled_time w) ws") auto
    have e: "runners = (if ?j then w_owner w # r else r)" using 2(2) True i by (simp add: Let_def split: prod.splits if_splits)
    show ?thesis using 2(1)[OF True refl i] unfolding e by auto
  qed (use 2(2) in auto)
qed auto

section \<open>The round is sound\<close>

lemma take_swap_at:
  assumes "i < num" "j < num" "num \<le> length xs"
  shows "take num (swap_at i j xs) = swap_at i j (take num xs)"
  using assms by (simp add: swap_at_def take_update_swap)

lemma swap_at_permutes:
  "i < length ys \<Longrightarrow> j < length ys \<Longrightarrow> set (swap_at i j ys) = set ys \<and> distinct (swap_at i j ys) = distinct ys \<and> length (swap_at i j ys) = length ys"
  by (simp add: swap_at_def set_swap distinct_swap)

lemma shuffle_target_less: "i < num \<Longrightarrow> shuffle_target now num i < num"
proof -
  assume i: "i < num"
  then have "m mod (num - i) < num - i" for m by simp
  from this[of "unat (xorshift (push_bit 32 (ucast now) + of_nat i * 2685821657736338717))"]
  show ?thesis by (simp add: shuffle_target_def Let_def less_diff_conv add.commute)
qed

text \<open>Shuffling permutes the scheduled witnesses among themselves.\<close>

lemma shuffle_permutes:
  assumes "num \<le> length xs"
  shows "length (shuffle now num xs) = length xs \<and> set (take num (shuffle now num xs)) = set (take num xs) \<and>
    (distinct (take num xs) \<longrightarrow> distinct (take num (shuffle now num xs)))"
proof -
  have "length (fold (\<lambda>i. swap_at i (shuffle_target now num i)) is xs) = length xs \<and>
      set (take num (fold (\<lambda>i. swap_at i (shuffle_target now num i)) is xs)) = set (take num xs) \<and>
      (distinct (take num xs) \<longrightarrow> distinct (take num (fold (\<lambda>i. swap_at i (shuffle_target now num i)) is xs)))"
    if "set is \<subseteq> {..<num}" for "is"
    using that assms
  proof (induction "is" arbitrary: xs)
    case (Cons i "is")
    let ?ys = "swap_at i (shuffle_target now num i) xs"
    have i: "i < num" "shuffle_target now num i < num" using Cons.prems(1) shuffle_target_less by auto
    have "set (take num ?ys) = set (take num xs) \<and> (distinct (take num xs) \<longrightarrow> distinct (take num ?ys)) \<and> length ?ys = length xs"
      unfolding take_swap_at[OF i Cons.prems(2)] using i Cons.prems(2) swap_at_permutes[of i "take num xs"] by (simp add: swap_at_def)
    then show ?case using Cons.IH[of ?ys] Cons.prems by auto
  qed simp
  moreover have "set [0..<num] \<subseteq> {..<num}" by auto
  ultimately show ?thesis unfolding shuffle_def by blast
qed

text \<open>An element with fewer than \<open>k\<close> elements before it is among the first \<open>k\<close>.\<close>

lemma take_sort_key:
  assumes "w \<in> set xs" "inj_on f (set xs)" "distinct xs" "length (filter (\<lambda>v. f v < f w) xs) < k"
  shows "w \<in> set (take k (sort_key f xs))"
proof (rule ccontr)
  let ?ys = "sort_key f xs"
  assume n: "w \<notin> set (take k ?ys)"
  have "w \<in> set ?ys" using assms(1) by simp
  then obtain i where i: "i < length ?ys" "?ys ! i = w" by (metis in_set_conv_nth)
  have ki: "k \<le> i"
  proof (rule ccontr)
    assume "\<not> k \<le> i"
    then have "take k ?ys ! i = w" "i < length (take k ?ys)" using i by simp_all
    then show False using n nth_mem by metis
  qed
  have "f (?ys ! j) < f w" if "j < k" for j
  proof -
    have le: "f (?ys ! j) \<le> f (?ys ! i)"
      using sorted_nth_mono[OF sorted_sort_key[of f xs], of j i] that ki i by simp
    have "?ys ! j \<noteq> ?ys ! i" using nth_eq_iff_index_eq[of ?ys j i] assms(3) that ki i by simp
    moreover have "?ys ! j \<in> set xs" "?ys ! i \<in> set xs" using nth_mem[of j ?ys] nth_mem[of i ?ys] i that ki by simp_all
    ultimately have "f (?ys ! j) \<noteq> f (?ys ! i)" using inj_onD[OF assms(2)] by blast
    with le show ?thesis using i by simp
  qed
  then have "filter (\<lambda>v. f v < f w) (take k ?ys) = take k ?ys" using ki i(1) by (auto simp: filter_id_conv in_set_conv_nth)
  then have "k \<le> length (filter (\<lambda>v. f v < f w) (take k ?ys))" using ki i(1) by simp
  also have "\<dots> \<le> length (filter (\<lambda>v. f v < f w) ?ys)"
    by (subst (2) append_take_drop_id[symmetric, of _ k]) (simp del: append_take_drop_id)
  also have "\<dots> = length (filter (\<lambda>v. f v < f w) xs)" by (simp add: filter_sort)
  finally show False using assms(4) by simp
qed

lemma distinct_map_sort: "distinct (map f xs) \<Longrightarrow> distinct (map f (sort_key g xs))"
  by (simp add: distinct_map)

lemma keys_lookup:
  assumes "distinct (map w_owner (rows (witnesses db)))" "(n, k) \<in> set (keys_of db)"
  shows "\<exists>w. find_witness n db = Some w \<and> w_signing_key w = k"
proof -
  have "distinct (map w_owner ws) \<Longrightarrow> (n, k) \<in> (\<lambda>w. (w_owner w, w_signing_key w)) ` set ws \<Longrightarrow>
    \<exists>w. List.find (\<lambda>w. w_owner w = n) ws = Some w \<and> w_signing_key w = k" for ws
    by (induction ws) (auto simp: image_iff)
  then show ?thesis using assms by (simp add: find_witness_def t_find_def keys_of_def)
qed

lemma update_median_frame:
  assumes "update_median_witness_props db = Inr db'"
  shows "scheduled (witness_schedule db') = scheduled (witness_schedule db)" "keys_of db' = keys_of db"
    "\<exists>ws. get_witnesses (scheduled (witness_schedule db)) db = Inr ws"
  using assms unfolding update_median_witness_props_def Let_def by (auto simp: scheduled_def keys_of_def)

lemma count_versions_frame:
  "count_versions db = Inr (m, db') \<Longrightarrow> witness_schedule db' = witness_schedule db \<and> witnesses db' = witnesses db \<and> dgpo db' = dgpo db"
  unfolding count_versions_def by (auto simp: Let_def)

lemma elected_sound:
  assumes "distinct (map w_owner (rows (witnesses db)))"
  shows "distinct (elect db) \<and> (\<forall>n \<in> set (elect db). \<exists>k. (n, k) \<in> set (keys_of db) \<and> k \<noteq> null_key)"
proof -
  have "distinct (map w_owner (by_vote_name db))" unfolding by_vote_name_def by (rule distinct_map_sort[OF assms])
  then have "distinct (map w_owner (filter (\<lambda>w. w_signing_key w \<noteq> null_key) (by_vote_name db)))" by (rule distinct_map_filter)
  then have "distinct (elect db)" unfolding elect_def take_map[symmetric] by (rule distinct_take)
  moreover have "\<exists>k. (n, k) \<in> set (keys_of db) \<and> k \<noteq> null_key" if "n \<in> set (elect db)" for n
    using that by (force simp: elect_def by_vote_name_def keys_of_def dest!: in_set_takeD)
  ultimately show ?thesis by blast
qed

text \<open>A witness with a key that fewer than \<open>max_voted_witnesses\<close> others with a key outrank is elected.\<close>

definition outranked_by :: "database \<Rightarrow> witness_object \<Rightarrow> nat" where
  "outranked_by db w = length (filter (\<lambda>v. w_signing_key v \<noteq> null_key \<and> (- w_votes v, w_owner v) < (- w_votes w, w_owner w)) (rows (witnesses db)))"

lemma top_witness_elected:
  assumes d: "distinct (map w_owner (rows (witnesses db)))" and w: "w \<in> set (rows (witnesses db))" "w_signing_key w \<noteq> null_key"
    and top: "outranked_by db w < unat (ws_max_voted_witnesses (witness_schedule db))"
  shows "w_owner w \<in> set (elect db)"
proof -
  let ?f = "\<lambda>w. (- w_votes w, w_owner w)" and ?ws = "filter (\<lambda>w. w_signing_key w \<noteq> null_key) (rows (witnesses db))"
  have "w \<in> set (take (unat (ws_max_voted_witnesses (witness_schedule db))) (sort_key ?f ?ws))"
  proof (rule take_sort_key)
    show "inj_on ?f (set ?ws)" using d by (auto simp: inj_on_def distinct_map)
    show "distinct ?ws" using d by (simp add: distinct_map)
    show "length (filter (\<lambda>v. ?f v < ?f w) ?ws) < unat (ws_max_voted_witnesses (witness_schedule db))"
      using top by (simp add: outranked_by_def conj_commute)
  qed (use w in simp)
  then show ?thesis by (auto simp: elect_def by_vote_name_def filter_sort)
qed

lemma schedule4_form:
  assumes "update_witness_schedule4 db = Inr db'"
  obtains db1 miners db2 vt processed runners db3 reset db4 db5 majority db6 where
    "foldE (set_schedule top19) (elect db) db = Inr db1"
    "choose_miners (unat (ws_max_miner_witnesses (witness_schedule db))) (elect db) [] (mining_queue db1) db1 = Inr (miners, db2)"
    "run_lead (length (elect db) + length miners) (elect db @ miners) (ws_current_virtual_time (witness_schedule db))
            (sort_key w_virtual_scheduled_time (rows (witnesses db2))) = (vt, processed, runners)"
    "foldE (set_schedule timeshare) runners db2 = Inr db3"
    "advance_schedule vt processed db3 = Inr (reset, db4)"
    "(if reset then reset_virtual_schedule_time db4 else Inr db4) = Inr db5"
    "length (elect db @ miners @ runners) = min GAMEBANK_MAX_WITNESSES (t_size (witnesses db5))"
    "count_versions db5 = Inr (majority, db6)"
    "update_median_witness_props (install_schedule (elect db @ miners @ runners) (length (elect db)) (length miners) (length runners)
       (if reset then 0 else vt) majority db6) = Inr db'"
proof -
  obtain db1 m2 where h: "foldE (set_schedule top19) (elect db) db = Inr db1"
    "choose_miners (unat (ws_max_miner_witnesses (witness_schedule db))) (elect db) [] (mining_queue db1) db1 = Inr m2"
    and r: "(case m2 of (miners, db2) \<Rightarrow> case run_lead (length (elect db) + length miners) (elect db @ miners) (ws_current_virtual_time (witness_schedule db))
            (sort_key w_virtual_scheduled_time (rows (witnesses db2))) of (vt, processed, runners) \<Rightarrow>
      bindE (foldE (set_schedule timeshare) runners db2) (\<lambda>db3.
      bindE (advance_schedule vt processed db3) (\<lambda>(reset, db4).
      bindE (if reset then reset_virtual_schedule_time db4 else Inr db4) (\<lambda>db5.
      fc_assert (length (elect db @ miners @ runners) = min GAMEBANK_MAX_WITNESSES (t_size (witnesses db5)))
      (bindE (count_versions db5) (\<lambda>(majority, db6).
        update_median_witness_props
          (install_schedule (elect db @ miners @ runners) (length (elect db)) (length miners) (length runners) (if reset then 0 else vt) majority db6))))))) = Inr db'"
    using assms unfolding update_witness_schedule4_def Let_def bindE_Inr by (elim exE conjE)
  obtain miners db2 where m2: "m2 = (miners, db2)" by (cases m2)
  obtain vt processed runners where rl: "run_lead (length (elect db) + length miners) (elect db @ miners) (ws_current_virtual_time (witness_schedule db))
            (sort_key w_virtual_scheduled_time (rows (witnesses db2))) = (vt, processed, runners)"
    by (cases "run_lead (length (elect db) + length miners) (elect db @ miners) (ws_current_virtual_time (witness_schedule db))
            (sort_key w_virtual_scheduled_time (rows (witnesses db2)))") auto
  show ?thesis
    using r unfolding m2 prod.case rl bindE_Inr fc_assert_Inr split_paired_Ex
    by (elim exE conjE) (rule that[OF h(1) h(2)[unfolded m2] rl])
qed

text \<open>The witnesses chosen for a round, and the list that is installed.\<close>

lemma chosen_sound:
  assumes up: "update_witness_schedule4 db = Inr db'" and d: "distinct (map w_owner (rows (witnesses db)))"
  shows "\<exists>active. distinct active \<and> length active = min GAMEBANK_MAX_WITNESSES (t_size (witnesses db)) \<and>
    set (elect db) \<subseteq> set active \<and> (\<forall>n \<in> set active. \<exists>k. (n, k) \<in> set (keys_of db) \<and> k \<noteq> null_key) \<and>
    distinct (scheduled (witness_schedule db')) \<and> set (scheduled (witness_schedule db')) = set active"
proof (rule schedule4_form[OF up], goal_cases)
  case (1 db1 miners db2 vt processed runners db3 reset db4 db5 majority db6)
  let ?active = "elect db @ miners @ runners"
  have k1: "keys_of db1 = keys_of db" using foldE_keys[OF 1(1)] set_schedule_keys by blast
  note m = choose_miners_keys[OF 1(2), simplified]
  have k3: "keys_of db3 = keys_of db2" using foldE_keys[OF 1(4)] set_schedule_keys by blast
  have k5: "keys_of db5 = keys_of db4" using 1(6) by (cases reset) (auto dest: reset_virtual_keys)
  have keys: "keys_of db2 = keys_of db" "keys_of db5 = keys_of db"
    using k1 m k3 k5 advance_schedule_keys[OF 1(5)] by simp_all
  have owners: "map w_owner (rows (witnesses s)) = map fst (keys_of s)" for s by (simp add: keys_of_def)
  have d12: "distinct (map w_owner (rows (witnesses db1)))" "distinct (map w_owner (rows (witnesses db2)))"
    using d unfolding owners k1 keys by simp_all
  have "distinct (mining_queue db1)" unfolding mining_queue_def by (intro distinct_map_sort distinct_map_filter d12(1))
  moreover note r = run_lead_runners[OF 1(3)]
  have "distinct runners" using r distinct_map_sort[OF d12(2)] by blast
  moreover have "set runners \<inter> (set (elect db) \<union> set miners) = {}" using r by auto
  ultimately have dist: "distinct ?active" using elected_sound[OF d] m by auto
  have row: "(w_owner w, w_signing_key w) \<in> set (keys_of db)" if "w \<in> set (rows (witnesses db2))" for w
    using that by (subst keys(1)[symmetric]) (simp add: keys_of_def)
  have "\<exists>k. (n, k) \<in> set (keys_of db) \<and> k \<noteq> null_key" if n: "n \<in> set runners" for n
  proof -
    obtain w where "w \<in> set (rows (witnesses db2))" "w_signing_key w \<noteq> null_key" "n = w_owner w" using r n by fastforce
    then show ?thesis using row[of w] by blast
  qed
  moreover have "\<exists>k. (n, k) \<in> set (keys_of db) \<and> k \<noteq> null_key" if "n \<in> set miners" for n using that m unfolding k1 by blast
  ultimately have keyed: "\<forall>n \<in> set ?active. \<exists>k. (n, k) \<in> set (keys_of db) \<and> k \<noteq> null_key"
    using elected_sound[OF d] by auto
  have "t_size (witnesses db5) = t_size (witnesses db)"
    using arg_cong[OF keys(2), of length] by (simp add: keys_of_def t_size_def)
  then have len: "length ?active = min GAMEBANK_MAX_WITNESSES (t_size (witnesses db))" using 1(7) by simp
  let ?inst = "install_schedule ?active (length (elect db)) (length miners) (length runners) (if reset then 0 else vt) majority db6"
  note md = update_median_frame[OF 1(9)]
  have ne: "?active \<noteq> []"
  proof
    assume "?active = []"
    then have "rows (witnesses db) = []" using len by (simp add: t_size_def GAMEBANK_MAX_WITNESSES_def min_def split: if_splits)
    then have "keys_of ?inst = []" using keys(2) count_versions_frame[OF 1(8)] by (simp add: keys_of_def install_schedule_def Let_def)
    then have none: "get_witness n ?inst = Inl out_of_range" for n by (simp add: keys_of_def get_witness_def t_get_def t_find_def)
    have len21: "length (shuffle t 1 (replicate GAMEBANK_MAX_WITNESSES ('''' :: string))) = 21" for t :: time_point_sec
      using shuffle_permutes[of 1 "replicate GAMEBANK_MAX_WITNESSES ('''' :: string)" t] by (simp add: GAMEBANK_MAX_WITNESSES_def)
    have "scheduled (witness_schedule ?inst) = take 1 (shuffle (head_block_time db6) 1 (replicate GAMEBANK_MAX_WITNESSES ''''))"
      using \<open>?active = []\<close> by (simp add: scheduled_def install_schedule_def Let_def)
    then have "length (scheduled (witness_schedule ?inst)) = 1" using len21 by simp
    then have "scheduled (witness_schedule ?inst) \<noteq> []" by (metis length_0_conv zero_neq_one)
    then show False using md(3) none by (cases "scheduled (witness_schedule ?inst)") auto
  qed
  define num where "num = length ?active"
  have "num \<noteq> 0" unfolding num_def using ne by (simp only: length_0_conv not_False_eq_True)
  then have bnd: "1 \<le> num" "num \<le> 21" using len unfolding num_def GAMEBANK_MAX_WITNESSES_def by linarith+
  then have u: "unat (of_nat num :: 8 word) = num" by (simp add: unat_of_nat take_bit_nat_eq_self)
  have num: "unat (max (of_nat num) (1 :: 8 word)) = num" using bnd u by (simp add: max_def word_le_nat_alt)
  let ?base = "?active @ replicate (GAMEBANK_MAX_WITNESSES - length ?active) ''''"
  have "scheduled (witness_schedule ?inst) = take num (shuffle (head_block_time db6) num ?base)"
    using num by (simp add: scheduled_def install_schedule_def Let_def num_def)
  moreover have "num \<le> length ?base" "take num ?base = ?active" by (simp_all add: num_def)
  ultimately have "distinct (scheduled (witness_schedule db'))" "set (scheduled (witness_schedule db')) = set ?active"
    using shuffle_permutes[of num ?base "head_block_time db6"] dist md(1) by simp_all
  then show ?case using dist len keyed by (intro exI[of _ ?active]) auto
qed

text \<open>
  C8. The schedule of a round is sound. After a successful update from a state in which witnesses have
  distinct owners, the scheduled witnesses are all different, there are 21 of them or as many as there
  are witnesses, every one has a signing key, and no witness that should be elected is left out: a
  witness with a key is scheduled whenever fewer than \<open>max_voted_witnesses\<close> others with a key have more
  votes (or as many and a smaller name).
\<close>

theorem schedule_sound:
  assumes "update_witness_schedule4 db = Inr db'" "distinct (map w_owner (rows (witnesses db)))"
  shows "distinct (scheduled (witness_schedule db')) \<and>
    length (scheduled (witness_schedule db')) = min 21 (length (rows (witnesses db))) \<and>
    (\<forall>n \<in> set (scheduled (witness_schedule db')). \<exists>w. find_witness n db = Some w \<and> w_signing_key w \<noteq> '''') \<and>
    (\<forall>w \<in> set (rows (witnesses db)). w_signing_key w \<noteq> '''' \<longrightarrow>
       outranked_by db w < unat (ws_max_voted_witnesses (witness_schedule db)) \<longrightarrow> w_owner w \<in> set (scheduled (witness_schedule db')))"
proof -
  obtain active where a: "distinct active" "length active = min GAMEBANK_MAX_WITNESSES (t_size (witnesses db))"
    "set (elect db) \<subseteq> set active" "\<forall>n \<in> set active. \<exists>k. (n, k) \<in> set (keys_of db) \<and> k \<noteq> null_key"
    and s: "distinct (scheduled (witness_schedule db'))" "set (scheduled (witness_schedule db')) = set active"
    using chosen_sound[OF assms] by blast
  have "length (scheduled (witness_schedule db')) = length active"
    using distinct_card[OF s(1)] distinct_card[OF a(1)] s(2) by simp
  moreover have "\<exists>w. find_witness n db = Some w \<and> w_signing_key w \<noteq> ''''" if "n \<in> set active" for n
    using a(4) that keys_lookup[OF assms(2)] by blast
  ultimately show ?thesis using a(2,3) s top_witness_elected[OF assms(2)] by (auto simp: t_size_def GAMEBANK_MAX_WITNESSES_def)
qed

text \<open>
  C30. Too few signing keys stop the schedule. If fewer witnesses have a signing key than the round needs
  (21, or all witnesses when there are fewer), the update of the schedule throws, and with it the
  application of the block. Together with the rule that takes the key from a witness that has been
  inactive for a day, one inactive witness among at most 21 is enough.
\<close>

theorem keyless_witnesses_stop_schedule:
  assumes "distinct (map w_owner (rows (witnesses db)))"
    and "length (filter (\<lambda>w. w_signing_key w \<noteq> '''') (rows (witnesses db))) < min 21 (length (rows (witnesses db)))"
  shows "\<not> returns (update_witness_schedule4 db)"
proof
  let ?keyed = "filter (\<lambda>w. w_signing_key w \<noteq> '''') (rows (witnesses db))"
  assume "returns (update_witness_schedule4 db)"
  then obtain db' where "update_witness_schedule4 db = Inr db'" by (auto simp: returns_iff)
  then obtain active where a: "distinct active" "length active = min GAMEBANK_MAX_WITNESSES (t_size (witnesses db))"
    "\<forall>n \<in> set active. \<exists>k. (n, k) \<in> set (keys_of db) \<and> k \<noteq> null_key" using chosen_sound[OF _ assms(1)] by blast
  have "set active \<subseteq> set (map w_owner ?keyed)" using a(3) by (fastforce simp: keys_of_def)
  then have "card (set active) \<le> card (set (map w_owner ?keyed))" by (rule card_mono[rotated]) simp
  also have "\<dots> \<le> length ?keyed" using card_length[of "map w_owner ?keyed"] by simp
  finally have "length active \<le> length ?keyed" using distinct_card[OF a(1)] by simp
  then show False using a(2) assms(2) by (simp add: t_size_def GAMEBANK_MAX_WITNESSES_def)
qed

section \<open>Medians\<close>

text \<open>More than half of the values are at most the median, and at least half are at least the median.\<close>

lemma median_half:
  assumes "xs \<noteq> []"
  shows "median f xs \<in> set xs" "length xs < 2 * length (filter (\<lambda>x. f x \<le> f (median f xs)) xs)"
    "length xs \<le> 2 * length (filter (\<lambda>x. f (median f xs) \<le> f x) xs)"
proof -
  let ?ys = "sort_key f xs" and ?h = "length xs div 2"
  have h: "?h < length ?ys" using assms by simp
  have mono: "f (?ys ! i) \<le> f (?ys ! j)" if "i \<le> j" "j < length xs" for i j
    using sorted_nth_mono[OF sorted_sort_key[of f xs], of i j] that by simp
  show "median f xs \<in> set xs" using nth_mem[OF h] by (simp add: median_def)
  have count: "length (filter P xs) = length (filter P ?ys)" for P by (simp add: filter_sort)
  have part: "length (filter P us) \<le> length (filter P (us @ vs))" "length (filter P vs) \<le> length (filter P (us @ vs))" for P :: "'a \<Rightarrow> bool" and us vs
    by simp_all
  have "filter (\<lambda>x. f x \<le> f (median f xs)) (take (?h + 1) ?ys) = take (?h + 1) ?ys"
    using h mono by (auto simp: filter_id_conv in_set_conv_nth median_def)
  then have "?h + 1 \<le> length (filter (\<lambda>x. f x \<le> f (median f xs)) (take (?h + 1) ?ys))" using h by simp
  also have "\<dots> \<le> length (filter (\<lambda>x. f x \<le> f (median f xs)) xs)"
    unfolding count using part(1)[of _ "take (?h + 1) ?ys" "drop (?h + 1) ?ys"] by (simp only: append_take_drop_id)
  finally show "length xs < 2 * length (filter (\<lambda>x. f x \<le> f (median f xs)) xs)" by linarith
  have "filter (\<lambda>x. f (median f xs) \<le> f x) (drop ?h ?ys) = drop ?h ?ys"
    using h mono by (auto simp: filter_id_conv in_set_conv_nth median_def)
  then have "length xs - ?h \<le> length (filter (\<lambda>x. f (median f xs) \<le> f x) (drop ?h ?ys))" by simp
  also have "\<dots> \<le> length (filter (\<lambda>x. f (median f xs) \<le> f x) xs)"
    unfolding count using part(2)[of _ "drop ?h ?ys" "take ?h ?ys"] by (simp only: append_take_drop_id)
  finally show "length xs \<le> 2 * length (filter (\<lambda>x. f (median f xs) \<le> f x) xs)" by linarith
qed

definition is_median :: "'k::linorder \<Rightarrow> 'k list \<Rightarrow> bool" where
  "is_median m vs \<longleftrightarrow> m \<in> set vs \<and> length vs < 2 * length (filter (\<lambda>v. v \<le> m) vs) \<and> length vs \<le> 2 * length (filter (\<lambda>v. m \<le> v) vs)"

lemma median_is_median: "xs \<noteq> [] \<Longrightarrow> is_median (f (median f xs)) (map f xs)"
  using median_half[of xs f] by (simp add: is_median_def filter_map comp_def)

text \<open>
  C31. The chain properties in force are medians of what the scheduled witnesses propose. After the
  median update with at least one scheduled witness, the creation fee, the maximum block size, the
  interest rate and the subsidy limit are each a value that one of them proposes, more than half of
  them propose at most that value and at least half propose at least that value; block size and
  interest rate are copied to the global properties.
\<close>

theorem median_props_exact:
  assumes "update_median_witness_props db = Inr db'" "scheduled (witness_schedule db) \<noteq> []"
  shows "\<exists>ws. get_witnesses (scheduled (witness_schedule db)) db = Inr ws \<and>
    is_median (amount (cp_account_creation_fee (ws_median_props (witness_schedule db')))) (map (\<lambda>w. amount (cp_account_creation_fee (w_props w))) ws) \<and>
    is_median (cp_maximum_block_size (ws_median_props (witness_schedule db'))) (map (\<lambda>w. cp_maximum_block_size (w_props w)) ws) \<and>
    is_median (cp_gbd_interest_rate (ws_median_props (witness_schedule db'))) (map (\<lambda>w. cp_gbd_interest_rate (w_props w)) ws) \<and>
    is_median (cp_account_subsidy_limit (ws_median_props (witness_schedule db'))) (map (\<lambda>w. cp_account_subsidy_limit (w_props w)) ws) \<and>
    maximum_block_size (dgpo db') = cp_maximum_block_size (ws_median_props (witness_schedule db')) \<and>
    gbd_interest_rate (dgpo db') = cp_gbd_interest_rate (ws_median_props (witness_schedule db'))"
proof -
  obtain ws where ws: "get_witnesses (scheduled (witness_schedule db)) db = Inr ws"
    using assms(1) by (auto simp: update_median_witness_props_def)
  have "ws \<noteq> []" using ws assms(2) by (cases "scheduled (witness_schedule db)") auto
  note m = median_is_median[OF this, of "\<lambda>w. amount (cp_account_creation_fee (w_props w))"]
    median_is_median[OF this, of "\<lambda>w. cp_maximum_block_size (w_props w)"]
    median_is_median[OF this, of "\<lambda>w. cp_gbd_interest_rate (w_props w)"]
    median_is_median[OF this, of "\<lambda>w. cp_account_subsidy_limit (w_props w)"]
  show ?thesis
    by (rule exI[of _ ws]) (use m ws assms(1) in \<open>auto simp: update_median_witness_props_def Let_def\<close>)
qed

section \<open>A concrete round\<close>

text \<open>Three witnesses, one of them without a signing key would stop the update; here all have one.\<close>

definition small_witness :: "account_name_type \<Rightarrow> int \<Rightarrow> int \<Rightarrow> witness_object" where
  "small_witness n votes fee = new_witness\<lparr>w_owner := n, w_signing_key := ''key'', w_votes := votes,
     w_props := default_chain_properties\<lparr>cp_account_creation_fee := GBC fee\<rparr>\<rparr>"

definition small_chain :: database where
  "small_chain = empty_database\<lparr>
     witnesses := \<lparr>next_id = 3, rows = [small_witness ''ann'' 10 5, small_witness ''bea'' 30 7, small_witness ''cid'' 20 6]\<rparr>,
     witness_schedule := new_witness_schedule\<lparr>ws_current_shuffled_witnesses := ''ann'' # replicate 20 '''', ws_num_scheduled_witnesses := 1,
        ws_max_voted_witnesses := 2\<rparr>\<rparr>"

lemmas small_run = small_chain_def small_witness_def new_witness_def default_chain_properties_def empty_database_def new_witness_schedule_def
  update_witness_schedule4_def elect_def by_vote_name_def set_schedule_def modify_witness_def get_witness_def t_modify_def t_get_def t_find_def
  mining_queue_def GAMEBANK_MAX_WITNESSES_def advance_schedule.simps virtual_lap_def udiv128_def GAMEBANK_VIRTUAL_SCHEDULE_LAP_LENGTH2_def
  t_size_def count_versions_def scheduled_def majority_version_def agreed_hardfork_def votes_for_value_def fc_assert_def throw_unless_def Let_def
  update_median_witness_props_def install_schedule_def reset_virtual_schedule_time_def

lemma small_targets: "shuffle_target 0 3 0 = 0" "shuffle_target 0 3 (Suc 0) = 1" "shuffle_target 0 3 (Suc (Suc 0)) = 2"
  by (simp_all add: shuffle_target_def xorshift_def Let_def)

lemma small_round: "returns (update_witness_schedule4 small_chain)"
  by (simp add: small_run new_dgpo_def shuffle_def upt_rec[of _ 3] small_targets swap_at_def median_def returns_def cong: eager)

theorem schedule_sound_witness:
  "\<exists>db'. update_witness_schedule4 small_chain = Inr db' \<and> distinct (scheduled (witness_schedule db')) \<and>
     length (scheduled (witness_schedule db')) = 3 \<and> ''bea'' \<in> set (scheduled (witness_schedule db'))"
proof -
  obtain db' where r: "update_witness_schedule4 small_chain = Inr db'" using small_round by (auto simp: returns_iff)
  have d: "distinct (map w_owner (rows (witnesses small_chain)))" by (simp add: small_chain_def small_witness_def)
  note e = schedule_sound[OF r d]
  have "small_witness ''bea'' 30 7 \<in> set (rows (witnesses small_chain))" "w_signing_key (small_witness ''bea'' 30 7) \<noteq> ''''"
    "outranked_by small_chain (small_witness ''bea'' 30 7) < unat (ws_max_voted_witnesses (witness_schedule small_chain))"
    by (simp_all add: small_chain_def small_witness_def outranked_by_def)
  with e have "w_owner (small_witness ''bea'' 30 7) \<in> set (scheduled (witness_schedule db'))" by blast
  moreover have "length (rows (witnesses small_chain)) = 3" by (simp add: small_chain_def)
  ultimately show ?thesis using r e by (auto simp: small_witness_def)
qed

theorem median_props_exact_witness:
  "\<exists>db'. update_median_witness_props small_chain = Inr db' \<and>
     is_median (amount (cp_account_creation_fee (ws_median_props (witness_schedule db')))) [5]"
proof -
  have s: "scheduled (witness_schedule small_chain) \<noteq> []" by (simp add: small_chain_def scheduled_def)
  have w: "get_witnesses (scheduled (witness_schedule small_chain)) small_chain = Inr [small_witness ''ann'' 10 5]"
    by (simp add: small_chain_def scheduled_def get_witness_def t_get_def t_find_def small_witness_def)
  then obtain db' where r: "update_median_witness_props small_chain = Inr db'" by (auto simp: update_median_witness_props_def Let_def)
  from median_props_exact[OF r s] w r show ?thesis by (auto simp: small_witness_def)
qed

definition keyless_chain :: database where
  "keyless_chain = small_chain\<lparr>witnesses := \<lparr>next_id = 2, rows = [small_witness ''ann'' 10 5, (small_witness ''bea'' 30 7)\<lparr>w_signing_key := ''''\<rparr>]\<rparr>\<rparr>"

theorem keyless_witnesses_stop_schedule_witness: "\<not> returns (update_witness_schedule4 keyless_chain)"
  by (rule keyless_witnesses_stop_schedule) (simp_all add: keyless_chain_def small_witness_def)

end
