(* ===== verification/Block.thy ===== *)
theory Block
  imports Schedule
begin

unbundle bit_operations_syntax

text \<open>
  Block bookkeeping of src/libraries/chain/database.cpp and src/libraries/protocol/block.cpp: block
  numbers and slots, the validation of block headers, missed blocks and participation, the last
  irreversible block, the median price feed, the virtual supply and the application of hardforks. The
  key that signed a block is an argument, the one \<^verbatim>\<open>signee\<close> recovers. Writing irreversible blocks to the
  block log and resizing the fork database are not part of the state.
\<close>

definition GAMEBANK_BLOCK_INTERVAL :: nat where "GAMEBANK_BLOCK_INTERVAL = 3"
definition GAMEBANK_BLOCKS_PER_DAY :: nat where "GAMEBANK_BLOCKS_PER_DAY = 28800"
definition GAMEBANK_START_MINER_VOTING_BLOCK :: nat where "GAMEBANK_START_MINER_VOTING_BLOCK = 28800 * 30"
definition GAMEBANK_IRREVERSIBLE_THRESHOLD :: nat where "GAMEBANK_IRREVERSIBLE_THRESHOLD = 7500"
definition GAMEBANK_MAX_UNDO_HISTORY :: nat where "GAMEBANK_MAX_UNDO_HISTORY = 10000"
definition GAMEBANK_FEED_INTERVAL_BLOCKS :: nat where "GAMEBANK_FEED_INTERVAL_BLOCKS = 1200"
definition GAMEBANK_FEED_HISTORY_WINDOW :: nat where "GAMEBANK_FEED_HISTORY_WINDOW = 84"
definition GAMEBANK_MAX_FEED_AGE_SECONDS :: int where "GAMEBANK_MAX_FEED_AGE_SECONDS = 604800"
definition GAMEBANK_MIN_FEEDS :: nat where "GAMEBANK_MIN_FEEDS = 7"
definition GAMEBANK_GBD_START_PERCENT :: nat where "GAMEBANK_GBD_START_PERCENT = 200"
definition GAMEBANK_GBD_STOP_PERCENT :: nat where "GAMEBANK_GBD_STOP_PERCENT = 500"

section \<open>Blocks\<close>

datatype block_header_extension = Void_ext | Version_ext version | Hardfork_vote_ext version time_point_sec

record block_header =
  bh_previous :: block_id_type
  bh_timestamp :: time_point_sec
  bh_witness :: account_name_type
  bh_transaction_merkle_root :: "160 word"
  bh_extensions :: "block_header_extension list"

definition endian_reverse_u32 :: "32 word \<Rightarrow> 32 word" where
  "endian_reverse_u32 x =
     (push_bit 24 (and x 0xFF) OR push_bit 16 (and (drop_bit 8 x) 0xFF)) OR
     (push_bit 8 (and (drop_bit 16 x) 0xFF) OR and (drop_bit 24 x) 0xFF)"

text \<open>The first word of the hash that is a block id holds the block number, byte-reversed.\<close>

definition num_from_id :: "block_id_type \<Rightarrow> 32 word" where
  "num_from_id i = endian_reverse_u32 (ucast i)"

definition block_num :: "block_header \<Rightarrow> 32 word" where
  "block_num b = num_from_id (bh_previous b) + 1"

definition header_id :: "(block_header \<Rightarrow> 224 word) \<Rightarrow> block_header \<Rightarrow> block_id_type" where
  "header_id hash b = push_bit 32 (drop_bit 32 (ucast (hash b))) OR ucast (endian_reverse_u32 (block_num b))"

section \<open>Slots\<close>

definition get_slot_time :: "32 word \<Rightarrow> database \<Rightarrow> time_point_sec" where
  "get_slot_time slot_num db =
     (if slot_num = 0 then 0
      else if head_block_num db = 0 then head_block_time db + slot_num * of_nat GAMEBANK_BLOCK_INTERVAL
      else head_block_time db div of_nat GAMEBANK_BLOCK_INTERVAL * of_nat GAMEBANK_BLOCK_INTERVAL + slot_num * of_nat GAMEBANK_BLOCK_INTERVAL)"

definition get_slot_at_time :: "time_point_sec \<Rightarrow> database \<Rightarrow> 32 word" where
  "get_slot_at_time when_t db =
     (let first_slot_time = get_slot_time 1 db in
      if when_t < first_slot_time then 0
      else word_of_int ((secs when_t - secs first_slot_time) div int GAMEBANK_BLOCK_INTERVAL) + 1)"

definition get_scheduled_witness :: "32 word \<Rightarrow> database \<Rightarrow> account_name_type" where
  "get_scheduled_witness slot_num db =
     (let wso = witness_schedule db; aslot = current_aslot (dgpo db) + ucast slot_num in
      ws_current_shuffled_witnesses wso ! (unat aslot mod unat (ws_num_scheduled_witnesses wso)))"

definition validate_block_header ::
    "bool \<Rightarrow> bool \<Rightarrow> public_key_type \<Rightarrow> block_header \<Rightarrow> database \<Rightarrow> witness_object result" where
  "validate_block_header skip_witness_signature skip_witness_schedule_check signee b db =
     fc_assert (head_block_id (dgpo db) = bh_previous b)
     (fc_assert (head_block_time db < bh_timestamp b)
     (bindE (get_witness (bh_witness b) db) (\<lambda>w.
      fc_assert (\<not> skip_witness_signature \<longrightarrow> signee = w_signing_key w)
      (fc_assert (\<not> skip_witness_schedule_check \<longrightarrow>
          get_slot_at_time (bh_timestamp b) db > 0 \<and> w_owner w = get_scheduled_witness (get_slot_at_time (bh_timestamp b) db) db)
       (Inr w)))))"

definition process_header_extension :: "account_name_type \<Rightarrow> block_header_extension \<Rightarrow> database \<Rightarrow> database result" where
  "process_header_extension n e db =
     (case e of
        Void_ext \<Rightarrow> Inr db
      | Version_ext v \<Rightarrow> modify_witness n (\<lambda>w. Inr (w\<lparr>w_running_version := v\<rparr>)) db
      | Hardfork_vote_ext v t \<Rightarrow> modify_witness n (\<lambda>w. Inr (w\<lparr>w_hardfork_version_vote := v, w_hardfork_time_vote := t\<rparr>)) db)"

definition process_header_extensions :: "block_header \<Rightarrow> database \<Rightarrow> database result" where
  "process_header_extensions b db = foldE (process_header_extension (bh_witness b)) (bh_extensions b) db"

section \<open>Missed blocks\<close>

definition miss_block :: "block_header \<Rightarrow> nat \<Rightarrow> database \<Rightarrow> database result" where
  "miss_block b i db =
     bindE (get_witness (get_scheduled_witness (of_nat i + 1) db) db) (\<lambda>missed.
      if w_owner missed \<noteq> bh_witness b then
        modify_witness (w_owner missed) (\<lambda>w.
          let w1 = w\<lparr>w_total_missed := w_total_missed w + 1\<rparr> in
          Inr (if ucast (head_block_num db) - w_last_confirmed_block_num w1 > of_nat GAMEBANK_BLOCKS_PER_DAY
               then w1\<lparr>w_signing_key := ''''\<rparr> else w1)) db
      else Inr db)"

text \<open>One slot of the participation record: the oldest bit leaves, the newest says whether the slot was filled.\<close>

definition fill_slot :: "nat \<Rightarrow> dynamic_global_property_object \<Rightarrow> dynamic_global_property_object" where
  "fill_slot i p =
     p\<lparr>participation_count := participation_count p - (if bit (recent_slots_filled p) 127 then 1 else 0) + (if i = 0 then 1 else 0),
       recent_slots_filled := push_bit 1 (recent_slots_filled p) + (if i = 0 then 1 else 0)\<rparr>"

definition update_global_dynamic_data :: "bool \<Rightarrow> block_header \<Rightarrow> block_id_type \<Rightarrow> database \<Rightarrow> database result" where
  "update_global_dynamic_data skip_undo_history_check b block_id db =
     (let missed_blocks = (if head_block_time db \<noteq> 0 then get_slot_at_time (bh_timestamp b) db - 1 else 0) in
      bindE (if head_block_time db \<noteq> 0 then foldE (miss_block b) [0..<unat missed_blocks] db else Inr db) (\<lambda>db1.
       let p = fold fill_slot [0..<unat (missed_blocks + 1)] (dgpo db1);
           p' = p\<lparr>head_block_number := block_num b, head_block_id := block_id, dgp_time := bh_timestamp b,
                  current_aslot := current_aslot p + ucast (missed_blocks + 1)\<rparr> in
       if \<not> skip_undo_history_check \<and> \<not> head_block_number p' - last_irreversible_block_num p' < of_nat GAMEBANK_MAX_UNDO_HISTORY
       then Inl undo_database_exception else Inr (db1\<lparr>dgpo := p'\<rparr>)))"

definition confirm_by :: "account_name_type \<Rightarrow> block_header \<Rightarrow> database \<Rightarrow> database result" where
  "confirm_by n b db =
     bindE (get_witness n db) (\<lambda>w.
      if w_last_confirmed_block_num w > ucast (block_num b) then Inr db
      else modify_witness n (\<lambda>w. Inr (w\<lparr>
             w_last_aslot := current_aslot (dgpo db) + ucast (get_slot_at_time (bh_timestamp b) db),
             w_last_confirmed_block_num := ucast (block_num b)\<rparr>)) db)"

definition update_signing_witness :: "account_name_type \<Rightarrow> block_header \<Rightarrow> database \<Rightarrow> database result" where
  "update_signing_witness n b db = confirm_by n b db"

definition update_last_irreversible_block :: "database \<Rightarrow> database result" where
  "update_last_irreversible_block db =
     (if unat (head_block_num db) < GAMEBANK_START_MINER_VOTING_BLOCK then
        Inr (if unat (head_block_num db) > GAMEBANK_MAX_WITNESSES
             then db\<lparr>dgpo := (dgpo db)\<lparr>last_irreversible_block_num := head_block_num db - of_nat GAMEBANK_MAX_WITNESSES\<rparr>\<rparr> else db)
      else
        bindE (get_witnesses (scheduled (witness_schedule db)) db) (\<lambda>wit_objs.
          let offset = (10000 - GAMEBANK_IRREVERSIBLE_THRESHOLD) * length wit_objs div 10000;
              lib = ucast (w_last_confirmed_block_num (sort_key w_last_confirmed_block_num wit_objs ! offset)) in
          Inr (if lib > last_irreversible_block_num (dgpo db)
               then db\<lparr>dgpo := (dgpo db)\<lparr>last_irreversible_block_num := lib\<rparr>\<rparr> else db)))"

definition update_confirm_witness :: "account_name_type \<Rightarrow> block_header \<Rightarrow> database \<Rightarrow> database result" where
  "update_confirm_witness n b db =
     bindE (get_witness n db) (\<lambda>w.
      if w_last_confirmed_block_num w > ucast (block_num b) then Inr db
      else bindE (confirm_by n b db) update_last_irreversible_block)"

definition confirm_block :: "bool \<Rightarrow> bool \<Rightarrow> public_key_type \<Rightarrow> block_header \<Rightarrow> database \<Rightarrow> database result" where
  "confirm_block skip_sig skip_sched signee b db =
     bindE (validate_block_header skip_sig skip_sched signee b db) (\<lambda>w. update_confirm_witness (w_owner w) b db)"

section \<open>Feeds and virtual supply\<close>

definition recent_feeds :: "database \<Rightarrow> witness_object list \<Rightarrow> price list" where
  "recent_feeds db ws = map w_gbd_exchange_rate (filter (\<lambda>w.
     head_block_time db < plus_secs (w_last_gbd_exchange_update w) GAMEBANK_MAX_FEED_AGE_SECONDS \<and> \<not> is_null (w_gbd_exchange_rate w)) ws)"

definition middle_price :: "price list \<Rightarrow> price" where
  "middle_price ps = sort_by price_less ps ! (length ps div 2)"

definition update_median_feed :: "database \<Rightarrow> database result" where
  "update_median_feed db =
     (if unat (head_block_num db) mod GAMEBANK_FEED_INTERVAL_BLOCKS \<noteq> 0 then Inr db
      else bindE (get_witnesses (scheduled (witness_schedule db)) db) (\<lambda>ws.
        let feeds = recent_feeds db ws in
        if length feeds \<ge> GAMEBANK_MIN_FEEDS then
          let history = fh_price_history (feed_history db) @ [middle_price feeds];
              history' = (if length history > GAMEBANK_FEED_HISTORY_WINDOW then tl history else history);
              median = middle_price history' in
          bindE (safe_mul 9 (amount (current_gbd_supply (dgpo db)))) (\<lambda>limit.
          bindE (mk_price (GBD limit) (current_supply (dgpo db))) (\<lambda>min_price.
            Inr (db\<lparr>feed_history := \<lparr>fh_current_median_history = (if price_less median min_price then min_price else median),
                                    fh_price_history = history'\<rparr>\<rparr>)))
        else Inr db))"

definition print_rate :: "16 word \<Rightarrow> 16 word" where
  "print_rate percent_gbd =
     (if unat percent_gbd \<le> GAMEBANK_GBD_START_PERCENT then 10000
      else if unat percent_gbd \<ge> GAMEBANK_GBD_STOP_PERCENT then 0
      else of_nat ((GAMEBANK_GBD_STOP_PERCENT - unat percent_gbd) * 10000 div (GAMEBANK_GBD_STOP_PERCENT - GAMEBANK_GBD_START_PERCENT)))"

definition update_virtual_supply :: "database \<Rightarrow> database result" where
  "update_virtual_supply db =
     modify_dgpo (\<lambda>p.
       bindE (if is_null (median_price db) then Inr (GBC 0) else asset_times_price (current_gbd_supply p) (median_price db)) (\<lambda>debt.
       bindE (asset_add (current_supply p) debt) (\<lambda>vs.
       let p1 = p\<lparr>virtual_supply := vs\<rparr> in
       if is_null (median_price db) then Inr p1
       else
         bindE (udiv128 (uint128 (amount debt) * 10000) (uint128 (amount vs))) (\<lambda>q.
         fc_assert (drop_bit 64 q = 0) (Inr (p1\<lparr>gbd_print_rate := print_rate (ucast q)\<rparr>)))))) db"

section \<open>Hardforks\<close>

text \<open>The times and versions of the known hardforks; the live build knows only the genesis one.\<close>

definition GAMEBANK_NUM_HARDFORKS :: nat where "GAMEBANK_NUM_HARDFORKS = 0"
definition hardfork_times :: "time_point_sec list" where "hardfork_times = [GAMEBANK_GENESIS_TIME]"
definition hardfork_versions :: "version list" where "hardfork_versions = [0]"

definition apply_hardfork :: "nat \<Rightarrow> database \<Rightarrow> database result" where
  "apply_hardfork hardfork db =
     (let hfp = hardfork_property db in
      fc_assert (hardfork = unat (hf_last_hardfork hfp + 1))
      (fc_assert (length (hf_processed_hardforks hfp) = hardfork)
      (let processed = hf_processed_hardforks hfp @ [hardfork_times ! hardfork] in
       fc_assert (processed ! hardfork = hardfork_times ! hardfork)
       (Inr (db\<lparr>hardfork_property := hfp\<lparr>hf_processed_hardforks := processed, hf_last_hardfork := of_nat hardfork,
               hf_current_hardfork_version := hardfork_versions ! hardfork\<rparr>\<rparr>)))))"

function process_hardforks :: "database \<Rightarrow> database result" where
  "process_hardforks db =
     (let hfp = hardfork_property db in
      if hardfork_versions ! unat (hf_last_hardfork hfp) < hf_next_hardfork hfp \<and> hf_next_hardfork_time hfp \<le> head_block_time db then
        if unat (hf_last_hardfork hfp) < GAMEBANK_NUM_HARDFORKS then
          bindE (apply_hardfork (unat (hf_last_hardfork hfp) + 1) db) process_hardforks
        else Inl unknown_hardfork_exception
      else Inr db)"
  by pat_completeness auto

termination
  by (relation "measure (\<lambda>db. GAMEBANK_NUM_HARDFORKS - unat (hf_last_hardfork (hardfork_property db)))")
    (auto simp: GAMEBANK_NUM_HARDFORKS_def)

section \<open>Slots and times\<close>

text \<open>The time from which slots are counted.\<close>

definition slot_base :: "database \<Rightarrow> int" where
  "slot_base db = (if head_block_num db = 0 then secs (head_block_time db) else secs (head_block_time db) div 3 * 3)"

lemma slot_base_bounds: "0 \<le> slot_base db" "slot_base db < 2 ^ 32" "slot_base db \<le> secs (head_block_time db)"
  using uint_bounded[of "head_block_time db"] by (auto simp: slot_base_def pos_imp_zdiv_nonneg_iff)

lemma get_slot_time_secs:
  assumes "slot_base db + 3 * int k < 2 ^ 32" "0 < k"
  shows "secs (get_slot_time (of_nat k) db) = slot_base db + 3 * int k"
proof -
  define b :: "32 word" where "b = (if head_block_num db = 0 then head_block_time db else head_block_time db div 3 * 3)"
  have k: "int k < 2 ^ 32" "3 * int k < 2 ^ 32" using assms slot_base_bounds(1)[of db] by linarith+
  then have "(of_nat k :: 32 word) \<noteq> 0" using assms(2) by (auto simp: word_of_nat_eq_0_iff dest: dvd_imp_le)
  then have e: "get_slot_time (of_nat k) db = b + of_nat k * 3"
    by (simp add: get_slot_time_def b_def GAMEBANK_BLOCK_INTERVAL_def)
  have "uint (x div 3 * 3 :: 32 word) = uint x div 3 * 3" for x :: "32 word"
  proof -
    have "0 \<le> uint x div 3 * 3" "uint x div 3 * 3 < 2 ^ 32" using uint_bounded[of x] uint_nonnegative[of x] by (auto simp: pos_imp_zdiv_nonneg_iff)
    then show ?thesis by (simp add: uint_word_ariths uint_div_distrib)
  qed
  then have b: "uint b = slot_base db" by (simp add: b_def slot_base_def)
  have "uint (of_nat k :: 32 word) = int k" using k(1) by (simp add: unsigned_of_nat take_bit_nat_eq_self)
  then have "uint (of_nat k * 3 :: 32 word) = 3 * int k" using k(2) by (simp add: uint_word_ariths)
  then show ?thesis using assms(1) b slot_base_bounds(1)[of db] unfolding e by (simp add: uint_word_ariths)
qed

lemma get_slot_at_time_first:
  assumes "slot_base db + 3 < 2 ^ 32"
  shows "get_slot_at_time t db = (if secs t < slot_base db + 3 then 0 else word_of_int ((secs t - (slot_base db + 3)) div 3) + 1)"
proof -
  have "secs (get_slot_time 1 db) = slot_base db + 3" using get_slot_time_secs[of db 1] assms by simp
  then show ?thesis by (simp add: get_slot_at_time_def Let_def word_less_def GAMEBANK_BLOCK_INTERVAL_def)
qed

lemma unat_slot:
  assumes "slot_base db + 3 \<le> secs t"
  shows "int (unat (get_slot_at_time t db)) = (secs t - slot_base db) div 3"
proof -
  have b: "slot_base db + 3 < 2 ^ 32" using assms uint_bounded[of t] by simp
  have lt: "(secs t - (slot_base db + 3)) div 3 + 1 < 2 ^ 32" "0 \<le> (secs t - (slot_base db + 3)) div 3"
    using assms uint_bounded[of t] slot_base_bounds(1)[of db] by auto
  have "uint (word_of_int x + 1 :: 32 word) = x + 1" if "0 \<le> x" "x + 1 < 2 ^ 32" for x
  proof -
    have "uint (word_of_int x :: 32 word) = x" using that by (simp add: unsigned_of_int take_bit_int_eq_self)
    then show ?thesis using that by (simp add: uint_word_ariths)
  qed
  note this[OF lt(2,1)]
  moreover have "(secs t - (slot_base db + 3)) div 3 + 1 = (secs t - slot_base db) div 3" by simp
  ultimately show ?thesis using assms by (simp add: get_slot_at_time_first[OF b])
qed

text \<open>
  C33. Slots and times correspond. As long as times stay below the end of the 32-bit clock, the slot at
  the time of slot \<open>k\<close> is \<open>k\<close>; and every time from the first slot on lies in the slot that is computed for
  it: not before that slot's time and less than one block interval after it.
\<close>

theorem slot_roundtrip:
  assumes "slot_base db + 3 * int k < 2 ^ 32" "0 < k"
  shows "get_slot_at_time (get_slot_time (of_nat k) db) db = of_nat k \<and>
    (\<forall>t. slot_base db + 3 \<le> secs t \<longrightarrow>
       secs (get_slot_time (get_slot_at_time t db) db) \<le> secs t \<and> secs t < secs (get_slot_time (get_slot_at_time t db) db) + 3)"
proof
  note s = get_slot_time_secs[OF assms]
  have "int (unat (get_slot_at_time (get_slot_time (of_nat k) db) db)) = int k"
    using unat_slot[of db "get_slot_time (of_nat k) db"] s assms(2) by simp
  then have "unat (get_slot_at_time (get_slot_time (of_nat k) db) db) = k" by (simp only: of_nat_eq_iff)
  from arg_cong[OF this, of "of_nat :: nat \<Rightarrow> 32 word"] show "get_slot_at_time (get_slot_time (of_nat k) db) db = of_nat k" by simp
  show "\<forall>t. slot_base db + 3 \<le> secs t \<longrightarrow>
       secs (get_slot_time (get_slot_at_time t db) db) \<le> secs t \<and> secs t < secs (get_slot_time (get_slot_at_time t db) db) + 3"
  proof (intro allI impI)
    fix t assume t: "slot_base db + 3 \<le> secs t"
    define n where "n = unat (get_slot_at_time t db)"
    have n: "int n = (secs t - slot_base db) div 3" "get_slot_at_time t db = of_nat n" using unat_slot[OF t] by (simp_all add: n_def)
    have "secs (get_slot_time (of_nat n) db) = slot_base db + 3 * int n"
    proof (rule get_slot_time_secs)
      have "3 * int n \<le> secs t - slot_base db" unfolding n(1) by simp
      then show "slot_base db + 3 * int n < 2 ^ 32" using uint_bounded[of t] by simp
      show "0 < n" using n(1) t by (cases n) auto
    qed
    moreover have "3 * ((secs t - slot_base db) div 3) \<le> secs t - slot_base db" "secs t - slot_base db < 3 * ((secs t - slot_base db) div 3) + 3"
      by auto
    ultimately show "secs (get_slot_time (get_slot_at_time t db) db) \<le> secs t \<and> secs t < secs (get_slot_time (get_slot_at_time t db) db) + 3"
      using n by simp
  qed
qed

section \<open>Participation\<close>

definition ones :: "128 word \<Rightarrow> nat" where
  "ones w = length (filter (bit w) [0..<128])"

lemma ones_le: "ones w \<le> 128"
  using length_filter_le[of "bit w" "[0..<128]"] by (simp add: ones_def)

lemma bit_shifted: "bit (push_bit 1 w :: 128 word) i \<longleftrightarrow> 0 < i \<and> i < 128 \<and> bit w (i - 1)"
  by (simp only: bit_push_bit_iff) (auto dest: bit_imp_le_length)

lemma ones_card: "ones w = card {k. bit w k}"
proof -
  have "{k. bit w k} = set (filter (bit w) [0..<128])" by (auto dest: bit_imp_le_length)
  then show ?thesis unfolding ones_def by (simp only: distinct_card[symmetric] distinct_filter distinct_upt)
qed

lemma ones_push: "ones (push_bit 1 w) + (if bit w 127 then 1 else 0) = ones w"
proof -
  have "length (filter (bit (push_bit 1 w)) [0..<128]) = length (filter (bit (push_bit 1 w)) (0 # map Suc [0..<127]))"
    by (simp add: upt_conv_Cons map_Suc_upt del: upt_Suc)
  also have "\<dots> = length (filter (\<lambda>i. bit (push_bit 1 w) (Suc i)) [0..<127])"
    unfolding filter.simps bit_shifted[of w 0] by (simp add: filter_map comp_def del: push_bit_Suc)
  also have "filter (\<lambda>i. bit (push_bit 1 w) (Suc i)) [0..<127] = filter (bit w) [0..<127]"
    by (rule filter_cong) (simp_all only: bit_shifted, auto)
  finally have "ones (push_bit 1 w) = length (filter (bit w) [0..<127])" by (simp only: ones_def)
  moreover have "[0..<128] = [0..<127] @ [127 :: nat]" by (simp add: upt_Suc_append[of 0 127, simplified])
  ultimately show ?thesis by (simp only: ones_def) simp
qed

lemma shifted_plus_one: "push_bit 1 w + 1 = (push_bit 1 w OR 1 :: 128 word)"
  by (rule disjunctive_add) (auto simp only: bit_shifted bit_1_iff)

lemma ones_push_one: "ones (push_bit 1 w + 1) = ones (push_bit 1 w) + 1"
proof -
  have u: "[0..<128] = 0 # [1..<128 :: nat]" by (simp add: upt_conv_Cons del: upt_Suc)
  have f: "filter (bit (push_bit 1 w OR 1)) [1..<128] = filter (bit (push_bit 1 w)) [1..<128]"
    by (rule filter_cong) (simp_all only: bit_or_iff bit_1_iff set_upt, auto)
  show ?thesis unfolding shifted_plus_one ones_def u filter.simps f by (simp only: bit_or_iff bit_shifted bit_1_iff) simp
qed

definition participation_ok :: "dynamic_global_property_object \<Rightarrow> bool" where
  "participation_ok p \<longleftrightarrow> unat (participation_count p) = ones (recent_slots_filled p)"

lemma participation_okI: "participation_count p = of_nat (ones (recent_slots_filled p)) \<Longrightarrow> participation_ok p"
  using ones_le[of "recent_slots_filled p"] by (simp add: participation_ok_def unat_of_nat take_bit_nat_eq_self)

lemma fill_slot_ok:
  assumes "participation_ok p"
  shows "participation_ok (fill_slot i p)"
proof -
  let ?w = "recent_slots_filled p"
  have "of_nat (ones ?w) = (of_nat (unat (participation_count p)) :: 8 word)" using assms by (simp add: participation_ok_def)
  then have c: "participation_count p = of_nat (ones (push_bit 1 ?w)) + (if bit ?w 127 then 1 else 0)"
    using ones_push[of ?w, symmetric] by (cases "bit ?w 127") (auto simp: add.commute)
  show ?thesis
  proof (rule participation_okI, cases "i = 0")
    case True
    then show "participation_count (fill_slot i p) = of_nat (ones (recent_slots_filled (fill_slot i p)))"
      using c by (simp add: fill_slot_def ones_push_one del: push_bit_Suc One_nat_def)
  next
    case False
    then show "participation_count (fill_slot i p) = of_nat (ones (recent_slots_filled (fill_slot i p)))"
      using c by (simp add: fill_slot_def del: push_bit_Suc One_nat_def)
  qed
qed

lemma modify_witness_dgpo: "modify_witness n f db = Inr db' \<Longrightarrow> dgpo db' = dgpo db"
  by (auto simp: modify_witness_def)

lemma miss_block_dgpo: "miss_block b i db = Inr db' \<Longrightarrow> dgpo db' = dgpo db"
  unfolding miss_block_def bindE_Inr by (elim exE conjE) (simp split: if_split_asm, erule modify_witness_dgpo)

lemma update_global_form:
  assumes "update_global_dynamic_data skip b block_id db = Inr db'"
  obtains n where "dgpo db' = (fold fill_slot [0..<n] (dgpo db))\<lparr>head_block_number := block_num b, head_block_id := block_id,
      dgp_time := bh_timestamp b, current_aslot := current_aslot (dgpo db) + of_nat n\<rparr>"
    "n = (if head_block_time db \<noteq> 0 then unat (get_slot_at_time (bh_timestamp b) db) else 1)"
    "\<not> skip \<longrightarrow> block_num b - last_irreversible_block_num (dgpo db) < of_nat GAMEBANK_MAX_UNDO_HISTORY"
proof -
  let ?m = "if head_block_time db \<noteq> 0 then get_slot_at_time (bh_timestamp b) db - 1 else 0"
  obtain db1 where f: "(if head_block_time db \<noteq> 0 then foldE (miss_block b) [0..<unat ?m] db else Inr db) = Inr db1"
    and r: "(let p = fold fill_slot [0..<unat (?m + 1)] (dgpo db1);
           p' = p\<lparr>head_block_number := block_num b, head_block_id := block_id, dgp_time := bh_timestamp b,
                  current_aslot := current_aslot p + ucast (?m + 1)\<rparr> in
       if \<not> skip \<and> \<not> head_block_number p' - last_irreversible_block_num p' < of_nat GAMEBANK_MAX_UNDO_HISTORY
       then Inl undo_database_exception else Inr (db1\<lparr>dgpo := p'\<rparr>)) = Inr db'"
    using assms unfolding update_global_dynamic_data_def Let_def bindE_Inr by (elim exE conjE)
  have "dgpo s' = dgpo s" if "foldE (miss_block b) is s = Inr s'" for "is" s s'
    by (rule foldE_invariant[OF _ _ that, where I = "\<lambda>u. dgpo u = dgpo s"]) (auto dest: miss_block_dgpo)
  then have d1: "dgpo db1 = dgpo db" using f by (auto split: if_splits)
  have keep: "current_aslot (fold fill_slot is p) = current_aslot p \<and> last_irreversible_block_num (fold fill_slot is p) = last_irreversible_block_num p"
    for "is" p by (induction "is" arbitrary: p) (auto simp: fill_slot_def)
  show ?thesis
    by (rule that[of "unat (?m + 1)"]) (use r d1 keep in \<open>auto simp: Let_def split: if_splits\<close>)
qed

lemma bit_slot_entered:
  fixes x :: "128 word"
  shows "bit (push_bit m (push_bit 1 x + 1)) k \<longleftrightarrow> k < 128 \<and> (k = m \<or> m < k \<and> bit x (k - m - 1))"
  unfolding shifted_plus_one bit_push_bit_iff bit_or_iff bit_shifted bit_1_iff by auto

text \<open>
  C32. The participation count is exact with respect to the vector of slots. Applying a block keeps the
  count equal to the number of set bits of the 128-bit vector. The vector moves by as many slots as have
  passed since the previous block: the block itself enters as filled, with the slots missed before it
  as empty bits below it, and what was recorded before moves up behind it. So the bit of the block
  stands at the number of missed slots, and when 128 slots or more were missed, the block's own bit is
  shifted out with everything else and the count is zero. The absolute slot number advances by the slots
  passed.
\<close>

theorem participation_exact:
  assumes "update_global_dynamic_data skip b block_id db = Inr db'" "participation_ok (dgpo db)" "head_block_time db \<noteq> 0"
    and "unat (get_slot_at_time (bh_timestamp b) db) = Suc missed"
  shows "unat (participation_count (dgpo db')) = card {k. bit (recent_slots_filled (dgpo db')) k} \<and>
    (\<forall>k. bit (recent_slots_filled (dgpo db')) k \<longleftrightarrow>
       k < 128 \<and> (k = missed \<or> missed < k \<and> bit (recent_slots_filled (dgpo db)) (k - missed - 1))) \<and>
    (128 \<le> missed \<longrightarrow> participation_count (dgpo db') = 0) \<and>
    current_aslot (dgpo db') = current_aslot (dgpo db) + ucast (get_slot_at_time (bh_timestamp b) db)"
proof (rule update_global_form[OF assms(1)], goal_cases)
  case (1 n)
  then have n: "n = Suc missed" using assms(3,4) by simp
  have ok: "participation_ok (fold fill_slot is p)" if "participation_ok p" for "is" p
    using that by (induction "is" arbitrary: p) (auto intro: fill_slot_ok)
  have rest: "recent_slots_filled (fold fill_slot is p) = push_bit (length is) (recent_slots_filled p)" if "0 \<notin> set is" for "is" p
    using that by (induction "is" arbitrary: p) (auto simp: fill_slot_def push_bit_double simp del: push_bit_Suc)
  have "[0..<n] = 0 # [1..<n]" using n by (simp add: upt_conv_Cons)
  then have v: "recent_slots_filled (dgpo db') = push_bit missed (push_bit 1 (recent_slots_filled (dgpo db)) + 1)"
    using 1(1) n rest[of "[1..<n]" "fill_slot 0 (dgpo db)"] by (simp add: fill_slot_def del: push_bit_Suc upt_Suc)
  have "unat (participation_count (dgpo db')) = ones (recent_slots_filled (dgpo db'))"
    using 1(1) ok[OF assms(2), of "[0..<n]"] by (simp add: participation_ok_def del: upt_Suc)
  then have c: "unat (participation_count (dgpo db')) = card {k. bit (recent_slots_filled (dgpo db')) k}" by (simp add: ones_card)
  moreover have "participation_count (dgpo db') = 0" if "128 \<le> missed"
  proof -
    have none: "{k. bit (recent_slots_filled (dgpo db')) k} = {}" using that unfolding v bit_slot_entered by auto
    show ?thesis using c unfolding none by (simp add: unat_eq_zero)
  qed
  moreover have "current_aslot (dgpo db') = current_aslot (dgpo db) + ucast (get_slot_at_time (bh_timestamp b) db)"
  proof -
    have "n = unat (get_slot_at_time (bh_timestamp b) db)" using n assms(4) by simp
    then show ?thesis using 1(1) by simp
  qed
  moreover have "\<forall>k. bit (recent_slots_filled (dgpo db')) k \<longleftrightarrow>
      k < 128 \<and> (k = missed \<or> missed < k \<and> bit (recent_slots_filled (dgpo db)) (k - missed - 1))" unfolding v bit_slot_entered by blast
  ultimately show ?case by blast
qed

section \<open>Irreversibility\<close>

lemma sorted_tail_count:
  assumes "k < length xs"
  shows "length xs - k \<le> length (filter (\<lambda>x. f (sort_key f xs ! k) \<le> f x) xs)"
proof -
  let ?ys = "sort_key f xs"
  have "f (?ys ! k) \<le> f (?ys ! j)" if "k \<le> j" "j < length xs" for j
    using sorted_nth_mono[OF sorted_sort_key[of f xs], of k j] that by simp
  then have "filter (\<lambda>x. f (?ys ! k) \<le> f x) (drop k ?ys) = drop k ?ys"
    using assms by (auto simp: filter_id_conv in_set_conv_nth)
  then have "length xs - k \<le> length (filter (\<lambda>x. f (?ys ! k) \<le> f x) (drop k ?ys))" by simp
  also have "\<dots> \<le> length (filter (\<lambda>x. f (?ys ! k) \<le> f x) (take k ?ys @ drop k ?ys))" by (simp del: append_take_drop_id)
  also have "\<dots> = length (filter (\<lambda>x. f (?ys ! k) \<le> f x) xs)" by (simp only: append_take_drop_id filter_sort length_sort)
  finally show ?thesis .
qed

lemma filter_weaken: "(\<And>x. P x \<Longrightarrow> Q x) \<Longrightarrow> length (filter P xs) \<le> length (filter Q xs)"
  by (induction xs) auto

lemma confirmed_by_supermajority:
  assumes "update_last_irreversible_block db = Inr db'" "GAMEBANK_START_MINER_VOTING_BLOCK \<le> unat (head_block_num db)"
    and "scheduled (witness_schedule db) \<noteq> []"
  shows "last_irreversible_block_num (dgpo db) \<le> last_irreversible_block_num (dgpo db') \<and>
    (last_irreversible_block_num (dgpo db) < last_irreversible_block_num (dgpo db') \<longrightarrow>
      (\<exists>ws. get_witnesses (scheduled (witness_schedule db)) db = Inr ws \<and>
         3 * length ws \<le> 4 * length (filter (\<lambda>w. unat (last_irreversible_block_num (dgpo db')) \<le> unat (w_last_confirmed_block_num w)) ws)))"
proof -
  obtain ws where ws: "get_witnesses (scheduled (witness_schedule db)) db = Inr ws"
    using assms(1,2) by (auto simp: update_last_irreversible_block_def split: if_splits)
  have ne: "ws \<noteq> []" using ws assms(3) by (cases "scheduled (witness_schedule db)") auto
  let ?k = "length ws div 4" and ?f = w_last_confirmed_block_num
  define v where "v = ?f (sort_key ?f ws ! ?k)"
  have off: "(10000 - GAMEBANK_IRREVERSIBLE_THRESHOLD) * length ws div 10000 = ?k" by (simp add: GAMEBANK_IRREVERSIBLE_THRESHOLD_def)
  have lib: "dgpo db' = (if ucast v > last_irreversible_block_num (dgpo db)
     then (dgpo db)\<lparr>last_irreversible_block_num := ucast v\<rparr> else dgpo db)"
    using assms(1,2) ws by (auto simp: update_last_irreversible_block_def Let_def off v_def)
  have "?k < length ws" using ne by simp
  from sorted_tail_count[OF this, of ?f] have "length ws - ?k \<le> length (filter (\<lambda>w. v \<le> ?f w) ws)" by (simp add: v_def)
  moreover have "length (filter (\<lambda>w. v \<le> ?f w) ws) \<le> length (filter (\<lambda>w. unat (ucast v :: 32 word) \<le> unat (?f w)) ws)"
    by (rule filter_weaken) (auto simp: word_le_nat_alt unsigned_ucast_eq intro: order.trans[OF take_bit_nat_less_eq_self])
  ultimately have "length ws - ?k \<le> length (filter (\<lambda>w. unat (ucast v :: 32 word) \<le> unat (?f w)) ws)" by simp
  then have "3 * length ws \<le> 4 * length (filter (\<lambda>w. unat (ucast v :: 32 word) \<le> unat (?f w)) ws)" by linarith
  then show ?thesis using lib ws by auto
qed

text \<open>
  C14. How the last irreversible block advances. Before block 864000 (\<^verbatim>\<open>START_MINER_VOTING_BLOCK\<close>) it is
  the block 21 below the head, as soon as there are more than 21 blocks, and no confirmation by a witness
  is needed. From that block on it never decreases, and when it advances, at least three quarters of the
  scheduled witnesses have confirmed a block with that number or a later one.
\<close>

theorem irreversible_advance:
  assumes "update_last_irreversible_block db = Inr db'"
  shows "(unat (head_block_num db) < 864000 \<longrightarrow> last_irreversible_block_num (dgpo db') =
      (if 21 < unat (head_block_num db) then head_block_num db - 21 else last_irreversible_block_num (dgpo db))) \<and>
    (864000 \<le> unat (head_block_num db) \<and> scheduled (witness_schedule db) \<noteq> [] \<longrightarrow>
      last_irreversible_block_num (dgpo db) \<le> last_irreversible_block_num (dgpo db') \<and>
      (last_irreversible_block_num (dgpo db) < last_irreversible_block_num (dgpo db') \<longrightarrow>
        (\<exists>ws. get_witnesses (scheduled (witness_schedule db)) db = Inr ws \<and>
           3 * length ws \<le> 4 * length (filter (\<lambda>w. unat (last_irreversible_block_num (dgpo db')) \<le> unat (w_last_confirmed_block_num w)) ws))))"
proof -
  have "GAMEBANK_START_MINER_VOTING_BLOCK = 864000" by (simp add: GAMEBANK_START_MINER_VOTING_BLOCK_def)
  then show ?thesis using confirmed_by_supermajority[OF assms] assms
    by (auto simp: update_last_irreversible_block_def GAMEBANK_MAX_WITNESSES_def)
qed

section \<open>The price feed\<close>

lemma middle_price_in: "ps \<noteq> [] \<Longrightarrow> middle_price ps \<in> set ps"
proof -
  assume ps: "ps \<noteq> []"
  have "length (insort_by lt x ys) = Suc (length ys)" for lt x and ys :: "price list" by (induction ys) auto
  then have "length (sort_by price_less qs) = length qs" for qs by (induction qs) (auto simp: sort_by_def)
  then have "length ps div 2 < length (sort_by price_less ps)" using ps by simp
  from nth_mem[OF this] show ?thesis by (simp add: middle_price_def)
qed

text \<open>A feed of dollars against liquid tokens with amounts in the 64-bit range.\<close>

definition feed_ok :: "price \<Rightarrow> bool" where
  "feed_ok p \<longleftrightarrow> symbol (base p) = GBD_SYMBOL \<and> symbol (quote p) = GBC_SYMBOL \<and>
     0 < amount (base p) \<and> amount (base p) \<le> int64_max \<and> 0 < amount (quote p) \<and> amount (quote p) \<le> int64_max"

text \<open>
  C15. The median price limits the debt. When the hourly update sets a new median and all prices of the
  history and of the scheduled witnesses are dollar feeds, then at the new median nine times the dollar
  supply is worth at most the liquid supply, so dollars are at most a tenth of the whole.
\<close>

theorem median_feed_limits_debt:
  assumes up: "update_median_feed db = Inr db'" "feed_history db' \<noteq> feed_history db"
    and hist: "\<forall>p \<in> set (fh_price_history (feed_history db)). feed_ok p"
    and wits: "\<forall>ws. get_witnesses (scheduled (witness_schedule db)) db = Inr ws \<longrightarrow>
      (\<forall>w \<in> set ws. is_null (w_gbd_exchange_rate w) \<or> feed_ok (w_gbd_exchange_rate w))"
    and cs: "symbol (current_supply (dgpo db)) = GBC_SYMBOL" "amount (current_supply (dgpo db)) \<le> int64_max"
      "in_int64 (amount (current_gbd_supply (dgpo db)))"
  shows "9 * amount (current_gbd_supply (dgpo db)) * amount (quote (median_price db')) \<le>
    amount (current_supply (dgpo db)) * amount (base (median_price db'))"
proof -
  obtain ws where ws: "get_witnesses (scheduled (witness_schedule db)) db = Inr ws" and n: "length (recent_feeds db ws) \<ge> GAMEBANK_MIN_FEEDS"
    using up by (auto simp: update_median_feed_def Let_def split: if_splits)
  define h where "h = fh_price_history (feed_history db) @ [middle_price (recent_feeds db ws)]"
  define h' where "h' = (if length h > GAMEBANK_FEED_HISTORY_WINDOW then tl h else h)"
  have "unat (head_block_num db) mod GAMEBANK_FEED_INTERVAL_BLOCKS = 0" using up by (auto simp: update_median_feed_def split: if_splits)
  then have "bindE (safe_mul 9 (amount (current_gbd_supply (dgpo db)))) (\<lambda>limit.
      bindE (mk_price (GBD limit) (current_supply (dgpo db))) (\<lambda>min_price.
        Inr (db\<lparr>feed_history := \<lparr>fh_current_median_history = (if price_less (middle_price h') min_price then min_price else middle_price h'),
                                fh_price_history = h'\<rparr>\<rparr>))) = Inr db'"
    using up(1) ws n unfolding update_median_feed_def h_def h'_def by (simp add: Let_def)
  then obtain limit mp where l: "safe_mul 9 (amount (current_gbd_supply (dgpo db))) = Inr limit"
    and mp: "mk_price (GBD limit) (current_supply (dgpo db)) = Inr mp"
    and e: "median_price db' = (if price_less (middle_price h') mp then mp else middle_price h')" by auto
  have lim: "limit = 9 * amount (current_gbd_supply (dgpo db))" "limit \<le> int64_max"
    using l safe_mul_exact[of 9 "amount (current_gbd_supply (dgpo db))" limit] cs(3) by (auto simp: in_int64_def int64_min_def int64_max_def)
  have m: "mp = \<lparr>base = GBD limit, quote = current_supply (dgpo db)\<rparr>" "price_validate mp = Inr ()"
    using mp by (auto simp: mk_price_def)
  have "feed_ok (middle_price (recent_feeds db ws))"
  proof -
    have "recent_feeds db ws \<noteq> []" using n by (auto simp: GAMEBANK_MIN_FEEDS_def)
    from middle_price_in[OF this] show ?thesis using wits ws by (auto simp: recent_feeds_def)
  qed
  then have "\<forall>p \<in> set h. feed_ok p" using hist by (simp add: h_def)
  moreover have "set h' \<subseteq> set h" unfolding h'_def by (cases h) auto
  ultimately have "\<forall>p \<in> set h'. feed_ok p" by blast
  moreover have "0 < length h'" unfolding h'_def h_def by (simp del: length_greater_0_conv add: GAMEBANK_FEED_HISTORY_WINDOW_def)
  then have "h' \<noteq> []" by (rule length_greater_0_conv[THEN iffD1])
  ultimately have ok: "feed_ok (middle_price h')" using middle_price_in by blast
  have v: "price_validate (middle_price h') = Inr ()" "same_market (middle_price h') mp"
    using ok m(1) cs by (auto simp: feed_ok_def price_validate_def same_market_def fc_assert_def symbols_distinct)
  have le: "price_less (middle_price h') mp \<longleftrightarrow>
      amount (quote mp) * amount (base (middle_price h')) < amount (quote (middle_price h')) * amount (base mp)"
    using price_values[OF v(1) m(2) v(2)] ok lim cs by (auto simp: feed_ok_def m(1))
  show ?thesis
    using le lim by (cases "price_less (middle_price h') mp") (simp_all add: e m(1) algebra_simps)
qed

text \<open>
  The first feed stops the chain. While no dollars exist, the hourly update throws as soon as the
  seven feeds that it waits for have been published: the price that is to limit the debt is built from
  a zero amount, which the constructor of prices rejects. As dollars come into existence only at a
  median price, the update can never succeed.
\<close>

theorem first_feed_throws:
  assumes "get_witnesses (scheduled (witness_schedule db)) db = Inr ws" "unat (head_block_num db) mod 1200 = 0"
    and "7 \<le> length (recent_feeds db ws)" "amount (current_gbd_supply (dgpo db)) = 0"
  shows "update_median_feed db = Inl assert_exception"
proof -
  have "safe_mul 9 0 = Inr 0" by (simp add: safe_mul_exact in_int64_def int64_min_def int64_max_def)
  then show ?thesis using assms
    by (simp add: update_median_feed_def GAMEBANK_FEED_INTERVAL_BLOCKS_def GAMEBANK_MIN_FEEDS_def Let_def mk_price_def price_validate_def fc_assert_def)
qed

section \<open>A confirmation that shuts a witness down\<close>

text \<open>
  A witness that has confirmed the block after the head and is then found to have missed a slot loses
  its signing key: the number of blocks since its last confirmation is computed without a sign and
  wraps around to a huge number.
\<close>

theorem confirmed_witness_shut_down:
  assumes m: "miss_block b i db = Inr db'" and w: "get_witness (get_scheduled_witness (of_nat i + 1) db) db = Inr w" "w_owner w \<noteq> bh_witness b"
    and c: "w_last_confirmed_block_num w = ucast (head_block_num db) + 1"
  shows "\<exists>w'. find_witness (w_owner w) db' = Some w' \<and> w_signing_key w' = ''''"
proof -
  let ?f = "\<lambda>w. let w1 = w\<lparr>w_total_missed := w_total_missed w + 1\<rparr> in
          Inr (if ucast (head_block_num db) - w_last_confirmed_block_num w1 > of_nat GAMEBANK_BLOCKS_PER_DAY
               then w1\<lparr>w_signing_key := ''''\<rparr> else w1) :: witness_object result"
  have u: "modify_witness (w_owner w) ?f db = Inr db'" using m w by (simp add: miss_block_def)
  have fw: "find_witness (get_scheduled_witness (of_nat i + 1) db) db = Some w" using w(1) by (simp add: get_witness_def find_witness_def)
  then have f: "find_witness (w_owner w) db = Some w" using wits.lookup_key[OF fw] by simp
  have "ucast (head_block_num db) - w_last_confirmed_block_num w = - 1" using c by simp
  then have "ucast (head_block_num db) - w_last_confirmed_block_num w > of_nat GAMEBANK_BLOCKS_PER_DAY" by (simp add: GAMEBANK_BLOCKS_PER_DAY_def)
  then have fw': "?f w = Inr (w\<lparr>w_total_missed := w_total_missed w + 1, w_signing_key := ''''\<rparr>)" by (simp add: Let_def)
  show ?thesis using wits.lookup_update[OF u f fw', of "w_owner w"] by simp
qed

section \<open>Concrete runs\<close>

text \<open>A chain with one witness, Ann, in every slot of the schedule; the parameters are block number, time and dollar supply.\<close>

definition feed_chain :: "32 word \<Rightarrow> time_point_sec \<Rightarrow> int \<Rightarrow> database" where
  "feed_chain num t dollars = empty_database\<lparr>
     witnesses := \<lparr>next_id = 1, rows = [(small_witness ''ann'' 10 5)\<lparr>w_last_confirmed_block_num := 863990, w_last_gbd_exchange_update := t,
        w_gbd_exchange_rate := \<lparr>base = GBD 1, quote = GBC 1\<rparr>\<rparr>]\<rparr>,
     witness_schedule := new_witness_schedule\<lparr>ws_current_shuffled_witnesses := replicate 7 ''ann'', ws_num_scheduled_witnesses := 7\<rparr>,
     dgpo := new_dgpo\<lparr>head_block_number := num, dgp_time := t, current_supply := GBC 1000, current_gbd_supply := GBD dollars\<rparr>\<rparr>"

definition next_block :: block_header where
  "next_block = \<lparr>bh_previous = 0, bh_timestamp = 306, bh_witness = ''ann'', bh_transaction_merkle_root = 0, bh_extensions = []\<rparr>"

lemma feed_chain_witnesses:
  "get_witnesses (scheduled (witness_schedule (feed_chain num t dollars))) (feed_chain num t dollars) =
     Inr (replicate 7 ((small_witness ''ann'' 10 5)\<lparr>w_last_confirmed_block_num := 863990, w_last_gbd_exchange_update := t,
        w_gbd_exchange_rate := \<lparr>base = GBD 1, quote = GBC 1\<rparr>\<rparr>))"
proof -
  have rep: "get_witness n db = Inr w \<Longrightarrow> get_witnesses (replicate k n) db = Inr (replicate k w)" for k n db w by (induction k) auto
  have "scheduled (witness_schedule (feed_chain num t dollars)) = replicate 7 ''ann''" by (simp add: feed_chain_def scheduled_def)
  then show ?thesis by (simp only:, intro rep) (simp add: feed_chain_def get_witness_def t_find_def small_witness_def)
qed

theorem slot_roundtrip_witness: "get_slot_at_time (get_slot_time 5 (feed_chain 1 300 0)) (feed_chain 1 300 0) = 5"
proof -
  have "slot_base (feed_chain 1 300 0) + 3 * int 5 < 2 ^ 32" by (simp add: slot_base_def feed_chain_def)
  from slot_roundtrip[OF this, THEN conjunct1] show ?thesis by simp
qed

theorem participation_exact_witness:
  "\<exists>db'. update_global_dynamic_data False next_block 1 (feed_chain 1 300 0) = Inr db' \<and> participation_count (dgpo db') = 1"
proof -
  have base: "slot_base (feed_chain 1 300 0) = 300" by (simp add: slot_base_def feed_chain_def)
  have s: "get_slot_at_time (bh_timestamp next_block) (feed_chain 1 300 0) = 2"
    by (subst get_slot_at_time_first) (simp_all add: base next_block_def)
  have n: "block_num next_block = 1" by (simp add: block_num_def next_block_def num_from_id_def endian_reverse_u32_def)
  have "returns (update_global_dynamic_data False next_block 1 (feed_chain 1 300 0))"
    by (simp add: update_global_dynamic_data_def s n)
      (simp add: feed_chain_def next_block_def miss_block_def get_scheduled_witness_def get_witness_def t_get_def t_find_def Let_def
        small_witness_def fill_slot_def new_dgpo_def GAMEBANK_MAX_UNDO_HISTORY_def returns_def upt_rec[of _ 2] upt_rec[of _ 1])
  then obtain db' where r: "update_global_dynamic_data False next_block 1 (feed_chain 1 300 0) = Inr db'" by (auto simp: returns_iff)
  have "participation_ok (dgpo (feed_chain 1 300 0))" by (simp add: participation_ok_def feed_chain_def new_dgpo_def ones_def)
  moreover have "head_block_time (feed_chain 1 300 0) \<noteq> 0" by (simp add: feed_chain_def)
  moreover have "unat (get_slot_at_time (bh_timestamp next_block) (feed_chain 1 300 0)) = Suc 1" by (simp add: s)
  note exact = participation_exact[OF r _ _ this]
  have z: "\<not> bit (recent_slots_filled (dgpo (feed_chain 1 300 0))) k" for k by (simp add: feed_chain_def new_dgpo_def)
  ultimately have e: "unat (participation_count (dgpo db')) = card {k. bit (recent_slots_filled (dgpo db')) k}"
    "\<forall>k. bit (recent_slots_filled (dgpo db')) k \<longleftrightarrow> k < 128 \<and> (k = 1 \<or> 1 < k \<and> bit (recent_slots_filled (dgpo (feed_chain 1 300 0))) (k - 1 - 1))"
    using exact by blast+
  have "{k. bit (recent_slots_filled (dgpo db')) k} = {1}" using e(2) z by auto
  then have "unat (participation_count (dgpo db')) = card {1 :: nat}" using e(1) by simp
  then have "unat (participation_count (dgpo db')) = unat (1 :: 8 word)" by simp
  then show ?thesis using r by (simp only: word_unat_eq_iff) blast
qed

theorem irreversible_advance_witness:
  "(\<exists>db'. update_last_irreversible_block (feed_chain 100 300 0) = Inr db' \<and> last_irreversible_block_num (dgpo db') = 79) \<and>
   (\<exists>db'. update_last_irreversible_block (feed_chain 864000 300 0) = Inr db' \<and>
     last_irreversible_block_num (dgpo (feed_chain 864000 300 0)) \<le> last_irreversible_block_num (dgpo db'))"
proof -
  have run: "returns (update_last_irreversible_block (feed_chain k 300 0))" for k
    unfolding update_last_irreversible_block_def feed_chain_witnesses by (simp add: Let_def returns_def)
  obtain e where e: "update_last_irreversible_block (feed_chain 100 300 0) = Inr e" using run[of 100] by (auto simp: returns_iff)
  obtain l where l: "update_last_irreversible_block (feed_chain 864000 300 0) = Inr l" using run[of 864000] by (auto simp: returns_iff)
  have "head_block_num (feed_chain 100 300 0) = 100" "head_block_num (feed_chain 864000 300 0) = 864000"
    "scheduled (witness_schedule (feed_chain 864000 300 0)) \<noteq> []" by (simp_all add: feed_chain_def scheduled_def)
  then show ?thesis using irreversible_advance[OF e] irreversible_advance[OF l] e l by simp
qed

lemma feed_chain_feeds: "recent_feeds (feed_chain 1200 300 dollars) (replicate 7 ((small_witness ''ann'' 10 5)\<lparr>w_last_confirmed_block_num := 863990,
    w_last_gbd_exchange_update := 300, w_gbd_exchange_rate := \<lparr>base = GBD 1, quote = GBC 1\<rparr>\<rparr>)) = replicate 7 \<lparr>base = GBD 1, quote = GBC 1\<rparr>"
  by (simp add: recent_feeds_def feed_chain_def GAMEBANK_MAX_FEED_AGE_SECONDS_def is_null_def price_eq_def same_market_def null_price_def symbols_distinct)

theorem first_feed_throws_witness: "update_median_feed (feed_chain 1200 300 0) = Inl assert_exception"
  by (rule first_feed_throws[OF feed_chain_witnesses]) (simp_all only: feed_chain_feeds, simp_all add: feed_chain_def)

theorem median_feed_limits_debt_witness:
  "\<exists>db'. update_median_feed (feed_chain 1200 300 100) = Inr db' \<and>
     9 * 100 * amount (quote (median_price db')) \<le> 1000 * amount (base (median_price db'))"
proof -
  let ?db = "feed_chain 1200 300 100" and ?p = "\<lparr>base = GBD 1, quote = GBC 1\<rparr>"
  have mid: "middle_price (replicate 7 ?p) = ?p" "middle_price [?p] = ?p"
    using middle_price_in[of "replicate 7 ?p"] middle_price_in[of "[?p]"] by auto
  have h: "fh_price_history (feed_history ?db) = []" "unat (head_block_num ?db) mod GAMEBANK_FEED_INTERVAL_BLOCKS = 0"
    "current_gbd_supply (dgpo ?db) = GBD 100" "current_supply (dgpo ?db) = GBC 1000"
    by (simp_all add: feed_chain_def empty_database_def GAMEBANK_FEED_INTERVAL_BLOCKS_def)
  have "safe_mul 9 100 = Inr 900" by (simp add: safe_mul_exact in_int64_def int64_min_def int64_max_def)
  then obtain db' where r: "update_median_feed ?db = Inr db'" "fh_price_history (feed_history db') = [?p]"
    unfolding update_median_feed_def feed_chain_witnesses
    by (simp add: Let_def feed_chain_feeds h mid mk_price_def price_validate_def GAMEBANK_MIN_FEEDS_def GAMEBANK_FEED_HISTORY_WINDOW_def symbols_distinct)
  have "feed_history db' \<noteq> feed_history ?db" using r(2) h(1) by auto
  note e = median_feed_limits_debt[OF r(1) this]
  have "9 * amount (current_gbd_supply (dgpo ?db)) * amount (quote (median_price db')) \<le> amount (current_supply (dgpo ?db)) * amount (base (median_price db'))"
    by (rule e) (auto simp: h feed_chain_witnesses feed_ok_def int64_max_def int64_min_def in_int64_def)
  then show ?thesis using r h by auto
qed

end
