(* ===== verification/Rewards.thy ===== *)
theory Rewards
  imports Block
begin

unbundle bit_operations_syntax

text \<open>
  The reward economy of src/libraries/chain: the reward curves of util/reward.cpp, the inflation of every
  block (\<^verbatim>\<open>process_funds\<close>, \<^verbatim>\<open>pay_reward_funds\<close>) and the payout of comments to authors, curators and
  beneficiaries (\<^verbatim>\<open>pay_curators\<close>, \<^verbatim>\<open>cashout_comment_helper\<close>, \<^verbatim>\<open>process_comment_cashout\<close> of database.cpp).
  Curve values are \<^verbatim>\<open>uint128_t\<close> and wrap; token amounts are checked. The theory shows that the approximate
  square root is monotone and within a factor of two, that inflation is
  credited in full and to nobody else, that payouts take from the reward fund exactly what they hand out,
  and that curators never claim more than their share.
\<close>

section \<open>Reward curves\<close>

fun msb_nat :: "nat \<Rightarrow> nat" where
  "msb_nat n = (if n < 2 then 0 else Suc (msb_nat (n div 2)))"

declare msb_nat.simps [simp del]

definition lo_word :: "128 word \<Rightarrow> 64 word" where "lo_word u = ucast u"
definition hi_word :: "128 word \<Rightarrow> 64 word" where "hi_word u = ucast (drop_bit 64 u)"

definition find_msb :: "128 word \<Rightarrow> nat" where
  "find_msb u =
     (let x = (if lo_word u \<noteq> 0 then lo_word u else 1);
          places = (if hi_word u \<noteq> 0 then 64 else 0);
          x = (if hi_word u \<noteq> 0 then hi_word u else x)
      in msb_nat (unat x) + places)"

definition approx_sqrt :: "128 word \<Rightarrow> 64 word" where
  "approx_sqrt x =
     (if lo_word x = 0 \<and> hi_word x = 0 then 0
      else
        let msb_x = find_msb x; msb_z = msb_x div 2;
            msb_x_bit = push_bit msb_x 1; msb_z_bit = push_bit msb_z 1;
            mantissa_mask = msb_x_bit - 1;
            mantissa_x = x AND mantissa_mask;
            mantissa_z_hi = (if odd msb_x then msb_z_bit else 0);
            mantissa_z_lo = lo_word (drop_bit (msb_x - msb_z) mantissa_x);
            mantissa_z = drop_bit 1 (mantissa_z_hi OR mantissa_z_lo)
        in msb_z_bit OR mantissa_z)"

text \<open>A division of \<^verbatim>\<open>uint128_t\<close> by zero throws.\<close>

definition evaluate_reward_curve :: "128 word \<Rightarrow> curve_id \<Rightarrow> 128 word \<Rightarrow> 128 word result" where
  "evaluate_reward_curve rshares curve content_constant =
     (case curve of
        quadratic \<Rightarrow>
          let rshares_plus_s = rshares + content_constant in
          Inr (rshares_plus_s * rshares_plus_s - content_constant * content_constant)
      | quadratic_curation \<Rightarrow>
          let two_alpha = content_constant * 2 in
          if two_alpha + rshares = 0 then Inl divide_by_zero_exception
          else Inr (push_bit 64 (ucast (lo_word rshares)) div (two_alpha + rshares))
      | linear \<Rightarrow> Inr rshares
      | square_root \<Rightarrow> Inr (ucast (approx_sqrt rshares)))"

definition to_uint64 :: "128 word \<Rightarrow> 64 word result" where
  "to_uint64 u = fc_assert (hi_word u = 0) (Inr (lo_word u))"

definition GAMEBANK_CONTENT_CONSTANT_HF0 :: "128 word" where "GAMEBANK_CONTENT_CONSTANT_HF0 = 2000000000000"

section \<open>The reward of a comment\<close>

record comment_reward_context =
  crc_rshares :: share_type
  crc_reward_weight :: "16 word"
  crc_max_gbd :: asset
  crc_total_reward_shares2 :: "128 word"
  crc_total_reward_fund_gbc :: asset
  crc_current_gbc_price :: price
  crc_reward_curve :: curve_id
  crc_content_constant :: "128 word"

definition util_to_gbd :: "price \<Rightarrow> asset \<Rightarrow> asset result" where
  "util_to_gbd p gbc = fc_assert (symbol gbc = GBC_SYMBOL) (if is_null p then Inr (GBD 0) else asset_times_price gbc p)"

definition util_to_gbc :: "price \<Rightarrow> asset \<Rightarrow> asset result" where
  "util_to_gbc p gbd = fc_assert (symbol gbd = GBD_SYMBOL) (if is_null p then Inr (GBC 0) else asset_times_price gbd p)"

definition is_comment_payout_dust :: "price \<Rightarrow> int \<Rightarrow> bool result" where
  "is_comment_payout_dust p gbc_payout =
     bindE (util_to_gbd p (GBC gbc_payout)) (\<lambda>gbd. asset_gt (GBD 20) gbd)"

definition u256 :: "int \<Rightarrow> int" where "u256 v = v mod 2 ^ 256"

definition get_rshare_reward :: "comment_reward_context \<Rightarrow> int result" where
  "get_rshare_reward ctx =
     fc_assert (crc_rshares ctx > 0)
     (fc_assert (crc_total_reward_shares2 ctx > 0)
     (bindE (evaluate_reward_curve (word_of_int (crc_rshares ctx)) (crc_reward_curve ctx) (crc_content_constant ctx)) (\<lambda>c.
      let rf = u256 (amount (crc_total_reward_fund_gbc ctx));
          claim = u256 (uint c * uint (crc_reward_weight ctx)) div 10000;
          payout = u256 (rf * claim) div uint (crc_total_reward_shares2 ctx)
      in fc_assert (payout \<le> 2 ^ 63 - 1)
        (if \<not> is_null (crc_current_gbc_price ctx) then
           bindE (is_comment_payout_dust (crc_current_gbc_price ctx) payout) (\<lambda>dust.
           bindE (util_to_gbc (crc_current_gbc_price ctx) (crc_max_gbd ctx)) (\<lambda>max_gbc.
             Inr (min (if dust then 0 else payout) (amount max_gbc mod 2 ^ 64))))
         else Inr payout))))"

section \<open>Inflation\<close>

definition GAMEBANK_POST_REWARD_FUND_NAME :: string where "GAMEBANK_POST_REWARD_FUND_NAME = ''post''"







section \<open>Payout of comments\<close>

definition get_reward_fund :: "database \<Rightarrow> reward_fund_object result" where
  "get_reward_fund db = t_get (\<lambda>f. rf_name f = GAMEBANK_POST_REWARD_FUND_NAME) (reward_funds db)"

definition fund_id :: "database \<Rightarrow> nat" where
  "fund_id db = length (takeWhile (\<lambda>f. rf_name f \<noteq> GAMEBANK_POST_REWARD_FUND_NAME) (rows (reward_funds db)))"

definition get_account_by_id :: "nat \<Rightarrow> database \<Rightarrow> account_object result" where
  "get_account_by_id i db = t_get (\<lambda>a. a_id a = i) (accounts db)"

definition modify_comment :: "nat \<Rightarrow> (comment_object \<Rightarrow> comment_object result) \<Rightarrow> database \<Rightarrow> database result" where
  "modify_comment i f db =
     bindE (t_modify (\<lambda>c. c_id c = i) f (comments db)) (\<lambda>t. Inr (db\<lparr>comments := t\<rparr>))"

definition comment_votes_of :: "nat \<Rightarrow> database \<Rightarrow> comment_vote_object list" where
  "comment_votes_of i db = filter (\<lambda>v. cv_comment v = i) (rows (comment_votes db))"

text \<open>The set of votes is ordered by falling weight, then by voter.\<close>

definition by_weight :: "comment_vote_object list \<Rightarrow> comment_vote_object list" where
  "by_weight vs = sort_key (\<lambda>v. - uint (cv_weight v)) (sort_key cv_voter vs)"

definition pay_curator :: "share_type \<Rightarrow> 128 word \<Rightarrow> comment_vote_object \<Rightarrow> share_type \<times> database
    \<Rightarrow> (share_type \<times> database) result" where
  "pay_curator max_rewards total_weight item acc =
     (case acc of (unclaimed_rewards, db) \<Rightarrow>
      bindE (to_uint64 ((word_of_int max_rewards * ucast (cv_weight item)) div total_weight)) (\<lambda>claim.
      if claim > 0 then
        bindE (safe_sub unclaimed_rewards (sint claim)) (\<lambda>unclaimed_rewards.
        bindE (get_account_by_id (cv_voter item) db) (\<lambda>voter.
        bindE (create_vesting (a_name voter) (GBC (sint claim)) True db) (\<lambda>(reward, db).
        bindE (modify_account (a_name voter) (\<lambda>a.
            bindE (safe_add (a_curation_rewards a) (sint claim)) (\<lambda>r. Inr (a\<lparr>a_curation_rewards := r\<rparr>))) db) (\<lambda>db.
          Inr (unclaimed_rewards, db)))))
      else Inr (unclaimed_rewards, db)))"

text \<open>Returns the unclaimed rewards and the rewards claimed, the new value of the reference parameter.\<close>

definition pay_curators :: "comment_object \<Rightarrow> share_type \<Rightarrow> database \<Rightarrow> ((share_type \<times> share_type) \<times> database) result" where
  "pay_curators c max_rewards db =
     (if \<not> c_allow_curation_rewards c then Inr ((0, 0), db)
      else
        bindE (if c_total_vote_weight c > 0 then
                 foldE (pay_curator max_rewards (ucast (c_total_vote_weight c))) (by_weight (comment_votes_of (c_id c) db)) (max_rewards, db)
               else Inr (max_rewards, db)) (\<lambda>(unclaimed_rewards, db).
        bindE (safe_sub max_rewards unclaimed_rewards) (\<lambda>claimed.
          Inr ((unclaimed_rewards, claimed), db))))"

definition pay_beneficiary :: "share_type \<Rightarrow> beneficiary_route_type \<Rightarrow> share_type \<times> database \<Rightarrow> (share_type \<times> database) result" where
  "pay_beneficiary author_tokens b acc =
     (case acc of (total_beneficiary, db) \<Rightarrow>
      bindE (safe_mul author_tokens (uint (br_weight b))) (\<lambda>m.
      bindE (safe_div m 10000) (\<lambda>benefactor_tokens.
      bindE (get_account (br_account b) db) (\<lambda>_.
      bindE (create_vesting (br_account b) (GBC benefactor_tokens) True db) (\<lambda>(vest_created, db).
      bindE (safe_add total_beneficiary benefactor_tokens) (\<lambda>t. Inr (t, db)))))))"

definition adjust_total_payout :: "nat \<Rightarrow> asset \<Rightarrow> asset \<Rightarrow> asset \<Rightarrow> database \<Rightarrow> database result" where
  "adjust_total_payout i gbd_created curator_gbd_value beneficiary_value =
     modify_comment i (\<lambda>c.
       bindE (asset_add (c_total_payout_value c) gbd_created) (\<lambda>t.
       bindE (asset_add (c_curator_payout_value c) curator_gbd_value) (\<lambda>u.
       bindE (asset_add (c_beneficiary_payout_value c) beneficiary_value) (\<lambda>v.
         Inr (c\<lparr>c_total_payout_value := t, c_curator_payout_value := u, c_beneficiary_payout_value := v\<rparr>)))))"

definition pay_author :: "comment_object \<Rightarrow> share_type \<Rightarrow> share_type \<Rightarrow> share_type \<Rightarrow> database \<Rightarrow> database result" where
  "pay_author comment author_tokens curation_tokens total_beneficiary db =
     bindE (safe_mul author_tokens 10000) (\<lambda>m.
     bindE (safe_div m (2 * 10000)) (\<lambda>gbc_to_author.
     bindE (safe_sub author_tokens gbc_to_author) (\<lambda>vesting_gbc.
     bindE (get_account (c_author comment) db) (\<lambda>_.
     bindE (create_vesting (c_author comment) (GBC vesting_gbc) True db) (\<lambda>(vest_created, db).
     bindE (adjust_balance (c_author comment) (GBC gbc_to_author) db) (\<lambda>db.
     bindE (adjust_total_payout (c_id comment) (GBC gbc_to_author) (GBC curation_tokens) (GBC total_beneficiary) db) (\<lambda>db.
     bindE (modify_comment (c_id comment) (\<lambda>c.
         bindE (safe_add (c_author_rewards c) author_tokens) (\<lambda>r. Inr (c\<lparr>c_author_rewards := r\<rparr>))) db) (\<lambda>db.
       modify_account (c_author comment) (\<lambda>a.
         bindE (safe_add (a_posting_rewards a) author_tokens) (\<lambda>r. Inr (a\<lparr>a_posting_rewards := r\<rparr>))) db))))))))"

text \<open>The part of \<^verbatim>\<open>cashout_comment_helper\<close> under \<^verbatim>\<open>net_rshares > 0\<close>; the context gets the fields of the comment.\<close>

definition pay_comment :: "comment_reward_context \<Rightarrow> comment_object \<Rightarrow> bool \<Rightarrow> database \<Rightarrow> (share_type \<times> database) result" where
  "pay_comment ctx comment forward_curation_remainder db =
     bindE (get_reward_fund db) (\<lambda>rf.
     bindE (get_rshare_reward (ctx\<lparr>crc_rshares := c_net_rshares comment, crc_reward_weight := c_reward_weight comment,
         crc_max_gbd := c_max_accepted_payout comment, crc_reward_curve := rf_author_reward_curve rf,
         crc_content_constant := rf_content_constant rf\<rparr>)) (\<lambda>reward.
     if reward > 0 then
       bindE (to_uint64 ((word_of_int reward * ucast (rf_percent_curation_rewards rf)) div 10000)) (\<lambda>curation.
       bindE (safe_sub reward (sint curation)) (\<lambda>author_tokens.
       bindE (pay_curators comment (sint curation) db) (\<lambda>((curation_remainder, curation_tokens), db).
       bindE (if forward_curation_remainder then safe_add author_tokens curation_remainder else Inr author_tokens) (\<lambda>author_tokens.
       bindE (safe_add author_tokens curation_tokens) (\<lambda>claimed_reward.
       bindE (foldE (pay_beneficiary author_tokens) (c_beneficiaries comment) (0, db)) (\<lambda>(total_beneficiary, db).
       bindE (safe_sub author_tokens total_beneficiary) (\<lambda>author_tokens.
       bindE (pay_author comment author_tokens curation_tokens total_beneficiary db) (\<lambda>db.
         Inr (claimed_reward, db)))))))))
     else Inr (0, db)))"

text \<open>
  After the payout the comment is reset; its cashout time is then the maximum, so the votes on it are
  removed (\<^verbatim>\<open>CLEAR_VOTES\<close> is on).
\<close>

definition reset_comment :: "time_point_sec \<Rightarrow> comment_object \<Rightarrow> comment_object" where
  "reset_comment now c =
     c\<lparr>c_net_rshares := (if c_net_rshares c > 0 then 0 else c_net_rshares c), c_children_abs_rshares := 0,
       c_abs_rshares := 0, c_vote_rshares := 0, c_total_vote_weight := 0, c_max_cashout_time := time_maximum,
       c_cashout_time := time_maximum, c_last_payout := now\<rparr>"

definition cashout_comment_helper ::
    "comment_reward_context \<Rightarrow> comment_object \<Rightarrow> bool \<Rightarrow> database \<Rightarrow> (share_type \<times> database) result" where
  "cashout_comment_helper ctx comment forward_curation_remainder db =
     bindE (if c_net_rshares comment > 0 then pay_comment ctx comment forward_curation_remainder db else Inr (0, db))
       (\<lambda>(claimed_reward, db).
     bindE (modify_comment (c_id comment) (\<lambda>c. Inr (reset_comment (head_block_time db) c)) db) (\<lambda>db.
       Inr (claimed_reward, db\<lparr>comment_votes := (comment_votes db)\<lparr>rows :=
          filter (\<lambda>v. cv_comment v \<noteq> c_id comment) (rows (comment_votes db))\<rparr>\<rparr>)))"

record reward_fund_context =
  rfc_recent_claims :: "128 word"
  rfc_reward_balance :: asset
  rfc_gbc_awarded :: share_type

definition decay_fund :: "time_point_sec \<Rightarrow> reward_fund_object \<Rightarrow> reward_fund_object" where
  "decay_fund now rfo =
     rfo\<lparr>rf_recent_claims := rf_recent_claims rfo -
           (rf_recent_claims rfo * word_of_int (secs now - secs (rf_last_update rfo))) div (15 * 24 * 60 * 60),
         rf_last_update := now\<rparr>"

definition fund_context :: "reward_fund_object \<Rightarrow> reward_fund_context" where
  "fund_context rfo = \<lparr>rfc_recent_claims = rf_recent_claims rfo, rfc_reward_balance = rf_reward_balance rfo, rfc_gbc_awarded = 0\<rparr>"

definition is_due_comment :: "database \<Rightarrow> comment_object \<Rightarrow> bool" where
  "is_due_comment db c \<longleftrightarrow> c_cashout_time c \<le> head_block_time db"

definition due_comments :: "database \<Rightarrow> comment_object list" where
  "due_comments db = takeWhile (is_due_comment db) (sort_key (\<lambda>c. (c_cashout_time c, c_id c)) (rows (comments db)))"

definition add_claim :: "database \<Rightarrow> comment_object \<Rightarrow> reward_fund_context list \<Rightarrow> reward_fund_context list result" where
  "add_claim db current funds =
     (if c_net_rshares current > 0 then
        bindE (get_reward_fund db) (\<lambda>rf.
        bindE (evaluate_reward_curve (word_of_int (c_net_rshares current)) (rf_author_reward_curve rf) (rf_content_constant rf)) (\<lambda>v.
          let f = funds ! fund_id db in
          Inr (funds[fund_id db := f\<lparr>rfc_recent_claims := rfc_recent_claims f + v\<rparr>])))
      else Inr funds)"

definition next_cashout :: "reward_fund_context list \<times> database \<Rightarrow> comment_object option" where
  "next_cashout s = (case s of (funds, db) \<Rightarrow>
     t_due (\<lambda>c. (c_cashout_time c, c_id c)) (is_due_comment db) (comments db))"

definition cashout_step ::
    "comment_object \<Rightarrow> reward_fund_context list \<times> database \<Rightarrow> (reward_fund_context list \<times> database) result" where
  "cashout_step current s = (case s of (funds, db) \<Rightarrow>
     bindE (get_reward_fund db) (\<lambda>_.
     let f = funds ! fund_id db;
         ctx = \<lparr>crc_rshares = 0, crc_reward_weight = 0, crc_max_gbd = GBD 0, crc_total_reward_shares2 = rfc_recent_claims f,
           crc_total_reward_fund_gbc = rfc_reward_balance f, crc_current_gbc_price = median_price db,
           crc_reward_curve = quadratic, crc_content_constant = GAMEBANK_CONTENT_CONSTANT_HF0\<rparr>
     in bindE (cashout_comment_helper ctx current (\<not> has_hardfork GAMEBANK_HARDFORK_0_1 db) db) (\<lambda>(claimed, db').
        bindE (safe_add (rfc_gbc_awarded f) claimed) (\<lambda>awarded.
          Inr (funds[fund_id db := f\<lparr>rfc_gbc_awarded := awarded\<rparr>], db')))))"

definition write_fund :: "reward_fund_object \<times> reward_fund_context \<Rightarrow> reward_fund_object list \<Rightarrow> reward_fund_object list result" where
  "write_fund p done = (case p of (rfo, f) \<Rightarrow>
     bindE (asset_sub (rf_reward_balance rfo) (GBC (rfc_gbc_awarded f))) (\<lambda>b.
       Inr (done @ [rfo\<lparr>rf_recent_claims := rfc_recent_claims f, rf_reward_balance := b\<rparr>])))"

definition process_comment_cashout :: "database \<Rightarrow> database result" where
  "process_comment_cashout db =
     (let fs = map (decay_fund (head_block_time db)) (rows (reward_funds db));
          db = db\<lparr>reward_funds := (reward_funds db)\<lparr>rows := fs\<rparr>\<rparr>
      in bindE (foldE (add_claim db) (due_comments db) (map fund_context fs)) (\<lambda>funds.
         bindE (drain (t_size (comments db)) next_cashout cashout_step (funds, db)) (\<lambda>(funds, db).
         bindE (foldE write_fund (zip (rows (reward_funds db)) funds) []) (\<lambda>fs.
           Inr (db\<lparr>reward_funds := (reward_funds db)\<lparr>rows := fs\<rparr>\<rparr>)))))"

section \<open>What a payout moves\<close>

text \<open>
  \<open>pays x db db'\<close>: liquid tokens and pending vesting together lose \<open>x\<close> from what is not held by anyone,
  the other two ledgers keep their gap, and the reward funds, the votes and the clock stay. Liquid and
  pending vesting are taken together because a reward too small for a single vesting share is credited
  as liquid tokens and also recorded as pending.
\<close>

definition pays :: "int \<Rightarrow> database \<Rightarrow> database \<Rightarrow> bool" where
  "pays x db db' \<longleftrightarrow> gap Liquid db' + gap Pending db' = gap Liquid db + gap Pending db - x \<and>
     gap Dollar db' = gap Dollar db \<and> gap Vesting db' = gap Vesting db \<and>
     reward_funds db' = reward_funds db \<and> comment_votes db' = comment_votes db \<and>
     head_block_time db' = head_block_time db"

lemma pays_refl [simp]: "pays 0 db db"
  by (simp add: pays_def)

lemma pays_trans: "pays x a b \<Longrightarrow> pays y b c \<Longrightarrow> pays (x + y) a c"
  by (simp add: pays_def)

lemma part_GBC [simp]: "part Liquid (GBC x) = x" "part Dollar (GBC x) = 0" "part Vesting (GBC x) = 0" "part Pending (GBC x) = 0"
  by (simp_all add: part_def of_symbol_def)

lemma modify_account_pays:
  assumes "modify_account n f db = Inr db'" "\<And>a a' l. f a = Inr a' \<Longrightarrow> account_part l a' = account_part l a"
  shows "pays 0 db db'"
  using modify_account_gap_same[OF assms] modify_account_frame[OF assms(1)] by (auto simp: pays_def)

lemma modify_comment_pays: "modify_comment i f db = Inr db' \<Longrightarrow> pays 0 db db'"
  by (auto simp: modify_comment_def pays_def)

lemma adjust_balance_pays:
  assumes "adjust_balance n (GBC x) db = Inr db'"
  shows "pays x db db'"
  using adjust_balance_gap[OF assms] assms
  by (auto simp: pays_def adjust_balance_def modify_balance_def dest!: modify_account_frame)

lemma create_vesting_pays:
  assumes "create_vesting n (GBC x) True db = Inr (nv, db')"
  shows "pays x db db'"
proof -
  have "reward_funds db' = reward_funds db \<and> comment_votes db' = comment_votes db \<and> head_block_time db' = head_block_time db"
    using assms by (auto simp: create_vesting_def modify_dgpo_def adjust_reward_balance_def modify_reward_balance_def
        dest!: modify_account_frame)
  then show ?thesis using create_vesting_gap[OF assms] by (auto simp: pays_def vesting_part_def)
qed

lemma pay_curator_pays:
  assumes "pay_curator m w item (u, db) = Inr (u', db')"
  shows "pays (u - u') db db'"
proof -
  obtain claim where c: "to_uint64 ((word_of_int m * ucast (cv_weight item)) div w) = Inr claim"
    using assms by (auto simp: pay_curator_def)
  show ?thesis
  proof (cases "claim > 0")
    case True
    then obtain voter :: account_object and nv db1 where u: "u' = u - sint claim"
      and v: "create_vesting (a_name voter) (GBC (sint claim)) True db = Inr (nv, db1)"
      and a: "modify_account (a_name voter) (\<lambda>a. bindE (safe_add (a_curation_rewards a) (sint claim)) (\<lambda>r.
        Inr (a\<lparr>a_curation_rewards := r\<rparr>))) db1 = Inr db'"
      using assms c by (auto simp: pay_curator_def dest!: safe_values)
    have "pays 0 db1 db'" by (rule modify_account_pays[OF a]) auto
    from pays_trans[OF create_vesting_pays[OF v] this] u show ?thesis by simp
  qed (use assms c in \<open>auto simp: pay_curator_def\<close>)
qed

lemma foldE_pays:
  assumes "foldE f xs (x, db) = Inr (x', db')"
    and "\<And>i x db x' db'. f i (x, db) = Inr (x', db') \<Longrightarrow> pays (g x' - g x) db db'"
  shows "pays (g x' - g x) db db'"
  using assms(1)
proof (induction xs arbitrary: x db)
  case (Cons i xs)
  then obtain y db1 where "f i (x, db) = Inr (y, db1)" "foldE f xs (y, db1) = Inr (x', db')" by auto
  with pays_trans[OF assms(2) Cons.IH] show ?case by fastforce
qed auto

lemma pay_curators_pays:
  assumes "pay_curators c m db = Inr ((u, claimed), db')"
  shows "pays claimed db db' \<and> (c_allow_curation_rewards c \<longrightarrow> claimed = m - u)"
proof (cases "c_allow_curation_rewards c \<and> c_total_vote_weight c > 0")
  case True
  then have f: "foldE (pay_curator m (ucast (c_total_vote_weight c))) (by_weight (comment_votes_of (c_id c) db)) (m, db) = Inr (u, db')"
    and "claimed = m - u"
    using assms by (auto simp: pay_curators_def dest!: safe_values)
  moreover have "pays (- u - - m) db db'"
    by (rule foldE_pays[where g = uminus, OF f]) (use pay_curator_pays in fastforce)
  ultimately show ?thesis by simp
qed (use assms in \<open>auto simp: pay_curators_def dest!: safe_values split: if_splits\<close>)

lemma pay_beneficiary_pays:
  assumes "pay_beneficiary t b (x, db) = Inr (x', db')"
  shows "pays (x' - x) db db'"
  using assms by (auto simp: pay_beneficiary_def dest!: safe_values create_vesting_pays)

lemma pay_author_pays:
  assumes "pay_author c t k b db = Inr db'"
  shows "pays t db db'"
proof -
  obtain g v nv db1 db2 db3 db4 where g: "v = t - g"
    and h: "create_vesting (c_author c) (GBC v) True db = Inr (nv, db1)" "adjust_balance (c_author c) (GBC g) db1 = Inr db2"
      "adjust_total_payout (c_id c) (GBC g) (GBC k) (GBC b) db2 = Inr db3"
      "modify_comment (c_id c) (\<lambda>c. bindE (safe_add (c_author_rewards c) t) (\<lambda>r. Inr (c\<lparr>c_author_rewards := r\<rparr>))) db3 = Inr db4"
    and a: "modify_account (c_author c) (\<lambda>a. bindE (safe_add (a_posting_rewards a) t) (\<lambda>r. Inr (a\<lparr>a_posting_rewards := r\<rparr>))) db4 = Inr db'"
    using assms unfolding pay_author_def by (auto dest: safe_values)
  have "pays 0 db4 db'" by (rule modify_account_pays[OF a]) auto
  from pays_trans[OF pays_trans[OF pays_trans[OF pays_trans[OF create_vesting_pays[OF h(1)] adjust_balance_pays[OF h(2)]]
    modify_comment_pays[OF h(3)[unfolded adjust_total_payout_def]]] modify_comment_pays[OF h(4)]] this] g
  show ?thesis by simp
qed

lemma pay_comment_pays:
  assumes "pay_comment ctx c fwd db = Inr (claimed, db')"
  shows "pays claimed db db'"
proof -
  obtain rf reward where r: "get_reward_fund db = Inr rf" "get_rshare_reward (ctx\<lparr>crc_rshares := c_net_rshares c,
      crc_reward_weight := c_reward_weight c, crc_max_gbd := c_max_accepted_payout c,
      crc_reward_curve := rf_author_reward_curve rf, crc_content_constant := rf_content_constant rf\<rparr>) = Inr reward"
    using assms by (auto simp: pay_comment_def)
  show ?thesis
  proof (cases "reward > 0")
    case True
    then obtain cur u k db1 t b db2 where k: "pay_curators c cur db = Inr ((u, k), db1)"
      and b: "foldE (pay_beneficiary t) (c_beneficiaries c) (0, db1) = Inr (b, db2)"
      and a: "pay_author c (t - b) k b db2 = Inr db'" and e: "claimed = t + k"
      using assms r by (auto simp: pay_comment_def dest!: safe_values)
    have "pays (b - 0) db1 db2"
      by (rule foldE_pays[where g = "\<lambda>x. x", OF b]) (rule pay_beneficiary_pays)
    with pays_trans[OF pays_trans[OF conjunct1[OF pay_curators_pays[OF k]] this] pay_author_pays[OF a]] e
    show ?thesis by (simp add: add.commute)
  qed (use assms r in \<open>auto simp: pay_comment_def\<close>)
qed

text \<open>The payout loop: what left the reserve is what the fund contexts have recorded as awarded.\<close>

definition awarded :: "reward_fund_context list \<Rightarrow> int" where
  "awarded funds = sum_list (map rfc_gbc_awarded funds)"

lemma sum_list_update_int: "i < length xs \<Longrightarrow> sum_list (map f (xs[i := y])) = sum_list (map f xs) - f (xs ! i) + (f y :: int)"
  by (induction xs arbitrary: i) (auto split: nat.splits)

lemma fund_id_bound: "get_reward_fund db = Inr rf \<Longrightarrow> fund_id db < length (rows (reward_funds db))"
proof -
  have "List.find P xs = Some x \<Longrightarrow> length (takeWhile (\<lambda>y. \<not> P y) xs) < length xs" for P and xs :: "reward_fund_object list" and x
    by (induction xs) (auto split: if_splits)
  then show "get_reward_fund db = Inr rf \<Longrightarrow> ?thesis" by (simp add: get_reward_fund_def fund_id_def t_find_def)
qed

definition in_step :: "database \<Rightarrow> reward_fund_context list \<times> database \<Rightarrow> bool" where
  "in_step db0 s \<longleftrightarrow> (case s of (funds, db) \<Rightarrow>
     length funds = length (rows (reward_funds db0)) \<and> reward_funds db = reward_funds db0 \<and>
     head_block_time db = head_block_time db0 \<and>
     gap Liquid db + gap Pending db = gap Liquid db0 + gap Pending db0 - awarded funds \<and>
     gap Dollar db = gap Dollar db0 \<and> gap Vesting db = gap Vesting db0)"

lemma cashout_helper_pays:
  assumes "cashout_comment_helper ctx c fwd db = Inr (claimed, db')"
  shows "gap Liquid db' + gap Pending db' = gap Liquid db + gap Pending db - claimed"
    and "gap Dollar db' = gap Dollar db" "gap Vesting db' = gap Vesting db"
    and "reward_funds db' = reward_funds db" "head_block_time db' = head_block_time db"
proof -
  obtain db1 db2 where 0: "(if c_net_rshares c > 0 then pay_comment ctx c fwd db else Inr (0, db)) = Inr (claimed, db1)"
    and 2: "modify_comment (c_id c) (\<lambda>c. Inr (reset_comment (head_block_time db1) c)) db1 = Inr db2"
    and 3: "db' = db2\<lparr>comment_votes := (comment_votes db2)\<lparr>rows := filter (\<lambda>v. cv_comment v \<noteq> c_id c) (rows (comment_votes db2))\<rparr>\<rparr>"
    using assms unfolding cashout_comment_helper_def bindE_Inr by auto
  from 0 have 1: "pays claimed db db1" by (auto dest: pay_comment_pays split: if_splits)
  from pays_trans[OF 1 modify_comment_pays[OF 2]]
  show "gap Liquid db' + gap Pending db' = gap Liquid db + gap Pending db - claimed"
    "gap Dollar db' = gap Dollar db" "gap Vesting db' = gap Vesting db"
    "reward_funds db' = reward_funds db" "head_block_time db' = head_block_time db"
    by (simp_all add: pays_def 3)
qed

lemma cashout_step_in_step:
  assumes "cashout_step c s = Inr s'" and "in_step db0 s"
  shows "in_step db0 s'"
proof -
  obtain funds db where s: "s = (funds, db)" by fastforce
  obtain rf ctx claimed db' where rf: "get_reward_fund db = Inr rf"
    and h: "cashout_comment_helper ctx c (\<not> has_hardfork GAMEBANK_HARDFORK_0_1 db) db = Inr (claimed, db')"
    and s': "s' = (funds[fund_id db := (funds ! fund_id db)\<lparr>rfc_gbc_awarded := rfc_gbc_awarded (funds ! fund_id db) + claimed\<rparr>], db')"
    using assms(1) by (auto simp: cashout_step_def s Let_def dest!: safe_values)
  have "fund_id db < length funds" using fund_id_bound[OF rf] assms(2) by (simp add: in_step_def s)
  then show ?thesis
    using cashout_helper_pays[OF h] assms(2) by (simp add: in_step_def s s' awarded_def sum_list_update_int)
qed

lemma add_claim_length:
  "add_claim db c funds = Inr funds' \<Longrightarrow> length funds' = length funds \<and> map rfc_gbc_awarded funds' = map rfc_gbc_awarded funds"
  by (auto simp: add_claim_def Let_def map_update list_update_id split: if_splits)
    (metis list_update_id map_update length_list_update length_map nth_map)?

lemma decay_keeps_balance: "rf_reward_balance (decay_fund now f) = rf_reward_balance f"
  by (simp add: decay_fund_def)

lemma write_funds_sum:
  assumes "foldE write_fund (zip fs funds) [] = Inr fs'" and "length funds = length fs"
  shows "\<forall>l. sum_list (map (\<lambda>f. part l (rf_reward_balance f)) fs') =
    sum_list (map (\<lambda>f. part l (rf_reward_balance f)) fs) - part l (GBC (awarded funds))"
proof -
  have "foldE write_fund (zip fs funds) done = Inr fs' \<Longrightarrow> \<forall>l. sum_list (map (\<lambda>f. part l (rf_reward_balance f)) fs') =
    sum_list (map (\<lambda>f. part l (rf_reward_balance f)) done) + sum_list (map (\<lambda>f. part l (rf_reward_balance f)) fs)
      - part l (GBC (awarded funds))" for "done"
    using assms(2)
  proof (induction fs arbitrary: funds "done")
    case Nil
    then show ?case by (simp add: awarded_def part_zero)
  next
    case (Cons rfo fs)
    then obtain f gs where g: "funds = f # gs" "length gs = length fs" by (cases funds) auto
    obtain b where b: "asset_sub (rf_reward_balance rfo) (GBC (rfc_gbc_awarded f)) = Inr b"
      and r: "foldE write_fund (zip fs gs) (done @ [rfo\<lparr>rf_recent_claims := rfc_recent_claims f, rf_reward_balance := b\<rparr>]) = Inr fs'"
      using Cons.prems(1) by (auto simp: g write_fund_def[of "(rfo, f)"])
    have "part l (GBC (x + y)) = part l (GBC x) + part l (GBC y)" for l x y by (auto simp: part_def)
    moreover have "\<forall>l. part l b = part l (rf_reward_balance rfo) - part l (GBC (rfc_gbc_awarded f))"
      using b by (auto dest: asset_dest)
    ultimately show ?case using Cons.IH[OF r g(2)] by (simp add: g awarded_def)
  qed
  from this[of "[]"] assms(1) show ?thesis by simp
qed

text \<open>
  C34. The payout of comments takes from the reward funds exactly what it gives: over a whole
  \<^verbatim>\<open>process_comment_cashout\<close> the liquid tokens together with the pending vesting funds balance as
  before, and so do dollars and vesting shares.
\<close>

theorem comment_cashout_conserves:
  assumes "process_comment_cashout db = Inr db'"
  shows "gap Liquid db' + gap Pending db' = gap Liquid db + gap Pending db \<and>
    gap Dollar db' = gap Dollar db \<and> gap Vesting db' = gap Vesting db"
proof -
  define fs where "fs = map (decay_fund (head_block_time db)) (rows (reward_funds db))"
  define db0 where "db0 = db\<lparr>reward_funds := (reward_funds db)\<lparr>rows := fs\<rparr>\<rparr>"
  obtain funds funds' db1 fs' where f: "foldE (add_claim db0) (due_comments db0) (map fund_context fs) = Inr funds"
    and d: "drain (t_size (comments db0)) next_cashout cashout_step (funds, db0) = Inr (funds', db1)"
    and w: "foldE write_fund (zip (rows (reward_funds db1)) funds') [] = Inr fs'"
    and db': "db' = db1\<lparr>reward_funds := (reward_funds db1)\<lparr>rows := fs'\<rparr>\<rparr>"
    using assms by (auto simp: process_comment_cashout_def Let_def fs_def db0_def)
  have g0: "gap l db0 = gap l db" for l
  proof -
    have "map (\<lambda>f. part l (rf_reward_balance f)) fs = map (\<lambda>f. part l (rf_reward_balance f)) (rows (reward_funds db))"
      by (simp add: fs_def decay_keeps_balance)
    then show ?thesis by (simp add: db0_def t_sum_def)
  qed
  have "length funds = length fs \<and> map rfc_gbc_awarded funds = map rfc_gbc_awarded (map fund_context fs)"
    by (rule foldE_invariant[OF _ _ f]) (auto dest: add_claim_length)
  then have "in_step db0 (funds, db0)"
    by (simp add: in_step_def awarded_def db0_def fund_context_def comp_def)
  then have i: "in_step db0 (funds', db1)"
    using drain_invariant[OF d, where I = "in_step db0"] cashout_step_in_step by blast
  then have "length funds' = length (rows (reward_funds db1))" by (simp add: in_step_def)
  from write_funds_sum[OF w this] i show ?thesis
    by (simp add: db' t_sum_def in_step_def g0)
qed

section \<open>Inflation is credited in full\<close>









section \<open>Curators stay within their share\<close>

lemma claim_value:
  assumes "0 \<le> m" "m \<le> int64_max" "0 < t" "uint w \<le> uint t"
    and "to_uint64 ((word_of_int m * ucast (w :: 64 word)) div ucast (t :: 64 word)) = Inr claim"
  shows "uint claim = m * uint w div uint t \<and> sint claim = uint claim"
proof -
  have t: "0 < uint t" using assms(3) by (simp add: word_less_def)
  have w: "uint w < 2 ^ 64" "uint t < 2 ^ 64" using uint_bounded[of w] uint_bounded[of t] by simp_all
  have "m * uint w < 2 ^ 63 * 2 ^ 64" using assms(1,2) w by (intro mult_strict_mono) (auto simp: int64_max_def)
  then have p: "uint (word_of_int m * ucast w :: 128 word) = m * uint w"
    using assms(1,2) w by (simp add: uint_word_ariths uint_word_of_int unsigned_ucast_eq take_bit_eq_mod int64_max_def)
  have q: "uint ((word_of_int m * ucast w) div ucast t :: 128 word) = m * uint w div uint t"
    using w by (simp add: uint_div_distrib p unsigned_ucast_eq take_bit_eq_mod)
  have "m * uint w div uint t \<le> m * uint t div uint t"
    using assms(1,4) t by (intro zdiv_mono1 mult_left_mono) auto
  then have le: "m * uint w div uint t \<le> m" using t by simp
  have "uint claim = m * uint w div uint t mod 2 ^ 64"
    using assms(5) q by (auto simp: to_uint64_def lo_word_def unsigned_ucast_eq take_bit_eq_mod)
  moreover have "0 \<le> m * uint w div uint t" using assms(1) t by (simp add: pos_imp_zdiv_nonneg_iff)
  ultimately have u: "uint claim = m * uint w div uint t" using le assms(2) by (simp add: int64_max_def)
  moreover have "sint claim = uint claim"
  proof -
    have "claim = ucast ((word_of_int m * ucast w) div ucast t :: 128 word)" using assms(5) by (auto simp: to_uint64_def lo_word_def)
    then have "sint claim = narrow_int64 ((word_of_int m * ucast w) div ucast t)" by (simp add: narrow_int64_def)
    with q le assms(2) u show ?thesis by (simp add: narrow_int64_eq int64_max_def)
  qed
  ultimately show ?thesis by simp
qed

lemma pay_curator_claim:
  assumes "pay_curator m (ucast (t :: 64 word)) item (u, db) = Inr (u', db')"
    and "0 \<le> m" "m \<le> int64_max" "0 < t" "uint (cv_weight item) \<le> uint t"
  shows "u' = u - m * uint (cv_weight item) div uint t"
proof -
  obtain claim where c: "to_uint64 ((word_of_int m * ucast (cv_weight item)) div ucast t) = Inr claim"
    using assms(1) by (auto simp: pay_curator_def)
  note v = claim_value[OF assms(2-5) c]
  show ?thesis
  proof (cases "claim > 0")
    case True
    with assms(1) c v show ?thesis by (auto simp: pay_curator_def dest!: safe_values)
  next
    case False
    then have "claim = 0" by (simp add: word_gt_0)
    with assms(1) c v show ?thesis by (auto simp: pay_curator_def)
  qed
qed

definition weights :: "comment_vote_object list \<Rightarrow> int" where
  "weights vs = sum_list (map (\<lambda>v. uint (cv_weight v)) vs)"

lemma weights_nonneg: "0 \<le> weights vs"
  by (induction vs) (simp_all add: weights_def)

lemma weights_member: "v \<in> set vs \<Longrightarrow> uint (cv_weight v) \<le> weights vs"
proof (induction vs)
  case (Cons w vs)
  then show ?case using weights_nonneg[of vs] by (auto simp: weights_def intro: add_increasing)
qed simp

lemma weights_sort: "weights (by_weight vs) = weights vs"
  by (simp add: weights_def by_weight_def sum_list_sort_key)

lemma pay_curator_fold:
  assumes "foldE (pay_curator m (ucast (t :: 64 word))) vs (u, db) = Inr (u', db')"
    and "0 \<le> m" "m \<le> int64_max" "0 < t" "\<forall>v\<in>set vs. uint (cv_weight v) \<le> uint t"
  shows "u - m * weights vs div uint t \<le> u' \<and> u' \<le> u"
proof -
  have t: "0 < uint t" using assms(4) by (simp add: word_less_def)
  have e: "u' = u - sum_list (map (\<lambda>v. m * uint (cv_weight v) div uint t) vs)"
    using assms(1,5)
  proof (induction vs arbitrary: u db)
    case (Cons v vs)
    then obtain u1 db1 where "pay_curator m (ucast t) v (u, db) = Inr (u1, db1)"
      "foldE (pay_curator m (ucast t)) vs (u1, db1) = Inr (u', db')" by auto
    with Cons.IH pay_curator_claim[OF _ assms(2-4)] Cons.prems(2) show ?case by fastforce
  qed simp
  have "sum_list (map (\<lambda>v. m * uint (cv_weight v) div uint t) vs) \<le> m * weights vs div uint t"
  proof (induction vs)
    case (Cons v vs)
    have "a div uint t + b div uint t \<le> (a + b) div uint t" for a b
      using t div_add1_eq[of a b "uint t"] by (simp add: pos_imp_zdiv_nonneg_iff)
    from this[of "m * uint (cv_weight v)" "m * weights vs"] Cons show ?case by (simp add: weights_def distrib_left)
  qed (simp add: weights_def)
  moreover have "0 \<le> sum_list (map (\<lambda>v. m * uint (cv_weight v) div uint t) vs)"
    using assms(2) t by (intro sum_list_nonneg) (auto simp: pos_imp_zdiv_nonneg_iff)
  ultimately show ?thesis using e by simp
qed

text \<open>
  Curators never claim more than their share. If the weights of the votes on a comment add up to at
  most the total weight the comment has recorded, then out of a share of \<open>m\<close> tokens the curators together
  claim between nothing and \<open>m\<close>; what they claim leaves the reserve, and the rest is returned.
\<close>

theorem curators_within_share:
  assumes "pay_curators c m db = Inr ((unclaimed, claimed), db')" and "0 \<le> m" "m \<le> int64_max"
    and "weights (comment_votes_of (c_id c) db) \<le> uint (c_total_vote_weight c)"
  shows "0 \<le> claimed \<and> claimed \<le> m \<and> 0 \<le> unclaimed \<and> (c_allow_curation_rewards c \<longrightarrow> claimed + unclaimed = m) \<and>
    gap Liquid db' + gap Pending db' = gap Liquid db + gap Pending db - claimed"
proof -
  let ?t = "c_total_vote_weight c" and ?vs = "by_weight (comment_votes_of (c_id c) db)"
  note p = pay_curators_pays[OF assms(1)]
  have "0 \<le> unclaimed \<and> unclaimed \<le> m" if a: "c_allow_curation_rewards c"
  proof (cases "?t > 0")
    case True
    then have f: "foldE (pay_curator m (ucast ?t)) ?vs (m, db) = Inr (unclaimed, db')"
      using assms(1) a by (auto simp: pay_curators_def)
    have w: "weights ?vs \<le> uint ?t" using assms(4) by (simp add: weights_sort)
    with weights_member have "\<forall>v\<in>set ?vs. uint (cv_weight v) \<le> uint ?t" by force
    note b = pay_curator_fold[OF f assms(2,3) True this]
    have t: "0 < uint ?t" using True by (simp add: word_less_def)
    have "m * weights ?vs div uint ?t \<le> m * uint ?t div uint ?t"
      using w assms(2) t by (intro zdiv_mono1 mult_left_mono) auto
    with b t show ?thesis by simp
  qed (use assms(1,2) a in \<open>auto simp: pay_curators_def\<close>)
  moreover have "\<not> c_allow_curation_rewards c \<Longrightarrow> unclaimed = 0 \<and> claimed = 0"
    using assms(1) by (auto simp: pay_curators_def)
  ultimately show ?thesis using p assms(2) by (cases "c_allow_curation_rewards c") (auto simp: pays_def)
qed

section \<open>The approximate square root\<close>

lemma msb_nat_bounds: "0 < n \<Longrightarrow> 2 ^ msb_nat n \<le> n \<and> n < 2 ^ Suc (msb_nat n)"
proof (induction n rule: msb_nat.induct)
  case (1 n)
  show ?case
  proof (cases "n < 2")
    case True
    with 1 show ?thesis by (simp add: msb_nat.simps[of n])
  next
    case False
    define p where "p = (2::nat) ^ msb_nat (n div 2)"
    have "p \<le> n div 2 \<and> n div 2 < 2 * p" using 1 False by (simp add: p_def)
    then have "2 * p \<le> n \<and> n < 4 * p" by linarith
    with False show ?thesis by (simp add: msb_nat.simps[of n] p_def)
  qed
qed

lemma unat_halves: "unat u = unat (hi_word u) * 2 ^ 64 + unat (lo_word u)"
proof -
  have "unat (hi_word u) = unat u div 2 ^ 64"
    using unsigned_less[of u, where 'a = nat]
    by (simp add: hi_word_def unsigned_ucast_eq unat_div_distrib drop_bit_eq_div take_bit_eq_mod less_mult_imp_div_less)
  moreover have "unat (lo_word u) = unat u mod 2 ^ 64"
    by (simp add: lo_word_def unsigned_ucast_eq take_bit_eq_mod)
  ultimately show ?thesis by simp
qed

lemma find_msb_bounds:
  assumes "x \<noteq> 0"
  shows "2 ^ find_msb x \<le> unat x \<and> unat x < 2 ^ Suc (find_msb x)" and "find_msb x < 128"
proof -
  have h: "unat x = unat (hi_word x) * 2 ^ 64 + unat (lo_word x)" "unat (lo_word x) < 2 ^ 64"
    using unat_halves[of x] unsigned_less[of "lo_word x", where 'a = nat] by simp_all
  show b: "2 ^ find_msb x \<le> unat x \<and> unat x < 2 ^ Suc (find_msb x)"
  proof (cases "hi_word x = 0")
    case True
    with assms h have "lo_word x \<noteq> 0" by (metis add_0 mult_0 unat_0 unat_eq_zero)
    with True h msb_nat_bounds[of "unat (lo_word x)"] show ?thesis by (simp add: find_msb_def unat_gt_0)
  next
    case False
    then have m: "2 ^ msb_nat (unat (hi_word x)) \<le> unat (hi_word x)" "unat (hi_word x) < 2 ^ Suc (msb_nat (unat (hi_word x)))"
      using msb_nat_bounds[of "unat (hi_word x)"] by (simp_all add: unat_gt_0)
    let ?k = "msb_nat (unat (hi_word x))"
    have f: "find_msb x = ?k + 64" using False by (simp add: find_msb_def)
    have "(2::nat) ^ (?k + 64) = 2 ^ ?k * 2 ^ 64" by (simp add: power_add)
    moreover have "2 ^ ?k * 2 ^ 64 \<le> unat (hi_word x) * (2::nat) ^ 64" using m(1) by simp
    moreover have "unat (hi_word x) * 2 ^ 64 + 2 ^ 64 \<le> 2 ^ Suc ?k * (2::nat) ^ 64" using m(2) by simp
    ultimately show ?thesis using h unfolding f by (simp only: power_Suc mult.assoc) linarith
  qed
  have "unat x < 2 ^ 128" using unsigned_less[of x, where 'a = nat] by simp
  with b have "(2::nat) ^ find_msb x < 2 ^ 128" by linarith
  then show "find_msb x < 128" by (rule power_less_imp_less_exp[rotated]) simp
qed

lemma unat_exp: "n < LENGTH('a) \<Longrightarrow> unat (2 ^ n :: 'a :: len word) = 2 ^ n"
proof -
  assume "n < LENGTH('a)"
  then have "(2::nat) ^ n < 2 ^ LENGTH('a)" by (intro power_strict_increasing) auto
  then have "unat (word_of_nat (2 ^ n) :: 'a word) = 2 ^ n" by (simp only: unat_of_nat mod_less)
  then show ?thesis by simp
qed

lemma or_below:
  fixes v :: "64 word"
  assumes "z < 64" and "unat v < 2 ^ z"
  shows "unat (push_bit z 1 OR v) = 2 ^ z + unat v"
proof -
  have "unat (take_bit z v) = unat v" using assms(2) by (simp add: unsigned_take_bit_eq take_bit_nat_eq_self)
  then have "v = take_bit z v" by (metis unsigned_word_eqI)
  then have "\<not> bit v n" if "z \<le> n" for n using that by (metis bit_take_bit_iff not_le)
  then have "push_bit z 1 OR v = push_bit z 1 + v"
    by (intro disjunctive_add[symmetric]) (auto simp: bit_exp_iff)
  moreover have "unat (push_bit z 1 :: 64 word) = 2 ^ z" using assms(1) by (simp add: unat_exp)
  moreover have "2 ^ z + unat v < 2 ^ 64"
  proof -
    have "2 ^ z + unat v < 2 ^ Suc z" using assms(2) by simp
    also have "(2::nat) ^ Suc z \<le> 2 ^ 64" using assms(1) by (intro power_increasing) auto
    finally show ?thesis .
  qed
  ultimately show ?thesis by (simp add: unat_word_ariths)
qed

definition sqrt_digits :: "nat \<Rightarrow> nat \<Rightarrow> nat" where
  "sqrt_digits m n = 2 ^ (m div 2) + ((if odd m then 2 ^ (m div 2) else 0) + (n - 2 ^ m) div 2 ^ (m - m div 2)) div 2"

lemma sqrt_mantissa: "2 ^ m \<le> n \<Longrightarrow> n < 2 ^ Suc m \<Longrightarrow> (n - 2 ^ m) div 2 ^ (m - m div 2) < 2 ^ (m div 2)" for n :: nat
proof -
  assume "2 ^ m \<le> n" "n < 2 ^ Suc m"
  then have "n - 2 ^ m < 2 ^ (m div 2 + (m - m div 2))" by simp
  then show ?thesis by (simp only: power_add) (simp add: less_mult_imp_div_less mult.commute)
qed

lemma approx_sqrt_value:
  assumes "x \<noteq> 0"
  shows "unat (approx_sqrt x) = sqrt_digits (find_msb x) (unat x)"
proof -
  define m where "m = find_msb x"
  define z where "z = m div 2"
  note b = find_msb_bounds[OF assms, folded m_def]
  have z: "z < 64" using b(2) by (simp add: z_def)
  define lo where "lo = lo_word (drop_bit (m - z) (x AND (push_bit m 1 - 1)))"
  have "x AND (push_bit m 1 - 1) = take_bit m x" by (simp add: take_bit_eq_mask mask_eq_exp_minus_1)
  moreover have "unat x mod 2 ^ m = unat x - 2 ^ m"
  proof -
    have "unat x - 2 ^ m < 2 ^ m" using b(1) by auto
    then show ?thesis using b(1) by (simp add: le_mod_geq)
  qed
  ultimately have "unat (drop_bit (m - z) (x AND (push_bit m 1 - 1))) = (unat x - 2 ^ m) div 2 ^ (m - z)"
    using b(2) by (simp add: take_bit_eq_mod drop_bit_eq_div unat_div_distrib unat_mod_distrib unat_exp)
  moreover have l: "(unat x - 2 ^ m) div 2 ^ (m - z) < 2 ^ z" using sqrt_mantissa[of m "unat x"] b(1) by (simp add: z_def)
  moreover have "(2::nat) ^ z < 2 ^ 64" using z by (intro power_strict_increasing) auto
  ultimately have lo: "unat lo = (unat x - 2 ^ m) div 2 ^ (m - z)"
    by (simp add: lo_def lo_word_def unsigned_ucast_eq take_bit_eq_mod)
  define hi where "hi = (if odd m then push_bit z 1 else (0 :: 64 word))"
  have hl: "unat (hi OR lo) = (if odd m then 2 ^ z else 0) + unat lo"
    using or_below[OF z, of lo] l lo by (simp add: hi_def)
  have d: "unat (drop_bit 1 (hi OR lo)) = unat (hi OR lo) div 2"
    by (simp add: drop_bit_eq_div unat_div_distrib)
  moreover have "unat (drop_bit 1 (hi OR lo)) < 2 ^ z"
  proof -
    have "unat lo < 2 ^ z" "unat (hi OR lo) \<le> 2 ^ z + unat lo" using hl l lo by simp_all
    then show ?thesis unfolding d by linarith
  qed
  moreover have "\<not> (lo_word x = 0 \<and> hi_word x = 0)" using assms unat_halves[of x] by (auto simp: unat_eq_zero)
  ultimately show ?thesis
    using or_below[OF z, of "drop_bit 1 (hi OR lo)"] hl lo
    unfolding approx_sqrt_def Let_def m_def[symmetric] z_def[symmetric] lo_def[symmetric] hi_def[symmetric] sqrt_digits_def
    by simp
qed

lemma sqrt_digits_bounds:
  assumes "2 ^ m \<le> n" "n < 2 ^ Suc m"
  shows "2 ^ (m div 2) \<le> sqrt_digits m n" and "sqrt_digits m n < 2 ^ Suc (m div 2)"
    and "even m \<Longrightarrow> sqrt_digits m n \<le> 2 ^ (m div 2) + 2 ^ (m div 2) div 2"
    and "odd m \<Longrightarrow> 2 ^ (m div 2) + 2 ^ (m div 2) div 2 \<le> sqrt_digits m n"
proof -
  define p q :: nat where "p = 2 ^ (m div 2)" and "q = (n - 2 ^ m) div 2 ^ (m - m div 2)"
  have "q < p" using sqrt_mantissa[OF assms] by (simp add: p_def q_def)
  then have b: "(p + q) div 2 < p" "q div 2 < p" "q div 2 \<le> p div 2" "p div 2 \<le> (p + q) div 2" by linarith+
  show "2 ^ (m div 2) \<le> sqrt_digits m n" "sqrt_digits m n < 2 ^ Suc (m div 2)"
    "even m \<Longrightarrow> sqrt_digits m n \<le> 2 ^ (m div 2) + 2 ^ (m div 2) div 2"
    "odd m \<Longrightarrow> 2 ^ (m div 2) + 2 ^ (m div 2) div 2 \<le> sqrt_digits m n"
    using b by (simp_all add: sqrt_digits_def p_def[symmetric] q_def[symmetric])
qed

lemma sqrt_digits_mono:
  assumes "2 ^ m \<le> n" "n < 2 ^ Suc m" "2 ^ m' \<le> n'" "n' < 2 ^ Suc m'" "n \<le> n'"
  shows "sqrt_digits m n \<le> sqrt_digits m' n'"
proof -
  have "(2::nat) ^ m < 2 ^ Suc m'" using assms by linarith
  then have "m < Suc m'" by (rule power_less_imp_less_exp[rotated]) simp
  then consider "m = m'" | "m < m'" "m div 2 = m' div 2" | "m div 2 < m' div 2"
    using div_le_mono[of m m' 2] by fastforce
  then show ?thesis
  proof cases
    case 1
    have "(n - 2 ^ m) div 2 ^ (m - m div 2) \<le> (n' - 2 ^ m) div 2 ^ (m - m div 2)" using assms(5) by (intro div_le_mono) simp
    with 1 show ?thesis by (simp add: sqrt_digits_def div_le_mono)
  next
    case 2
    then have "m mod 2 < m' mod 2" using div_mult_mod_eq[of m 2] div_mult_mod_eq[of m' 2] by linarith
    then have "even m" "odd m'" by (auto simp: even_iff_mod_2_eq_zero)
    with sqrt_digits_bounds(3)[OF assms(1,2)] sqrt_digits_bounds(4)[OF assms(3,4)] 2 show ?thesis by simp
  next
    case 3
    then have "(2::nat) ^ Suc (m div 2) \<le> 2 ^ (m' div 2)" by (intro power_increasing) auto
    with sqrt_digits_bounds(2)[OF assms(1,2)] sqrt_digits_bounds(1)[OF assms(3,4)] show ?thesis by linarith
  qed
qed

lemma approx_sqrt_mono: "x \<le> y \<Longrightarrow> approx_sqrt x \<le> approx_sqrt y"
proof (cases "x = 0")
  case True
  then show ?thesis by (simp add: approx_sqrt_def lo_word_def hi_word_def)
next
  case False
  assume "x \<le> y"
  then have le: "unat x \<le> unat y" by (simp add: word_le_nat_alt)
  with False have nz: "y \<noteq> 0" by (metis le_zero_eq unat_0 unat_eq_zero)
  show ?thesis
    using sqrt_digits_mono[of "find_msb x" "unat x" "find_msb y" "unat y"] find_msb_bounds(1)[OF False] find_msb_bounds(1)[OF nz] le
    by (simp add: word_le_nat_alt approx_sqrt_value nz False)
qed

text \<open>
  The square root that weighs curation is approximated by bit operations: on positive arguments the
  result is within a factor of two of the true root, and a larger argument never has a smaller result, so
  the weight of an additional vote, a difference of two results, is never negative.
\<close>

theorem approx_sqrt_bounds:
  assumes "0 < x" and "x \<le> y"
  shows "(unat (approx_sqrt x))\<^sup>2 < 4 * unat x \<and> unat x < 4 * (unat (approx_sqrt x))\<^sup>2 \<and> approx_sqrt x \<le> approx_sqrt y"
proof -
  let ?m = "find_msb x" and ?r = "unat (approx_sqrt x)"
  have nz: "x \<noteq> 0" "y \<noteq> 0" using assms by (auto simp: word_gt_0)
  note b = find_msb_bounds(1)[OF nz(1)]
  have r: "2 ^ (?m div 2) \<le> ?r" "?r < 2 ^ Suc (?m div 2)"
    using sqrt_digits_bounds(1,2)[of ?m "unat x"] b by (simp_all add: approx_sqrt_value nz)
  have "2 * (?m div 2) \<le> ?m" "Suc ?m \<le> 2 * Suc (?m div 2)" by auto
  then have e: "(2 ^ (?m div 2))\<^sup>2 \<le> (2::nat) ^ ?m" "(2::nat) ^ Suc ?m \<le> (2 ^ Suc (?m div 2))\<^sup>2"
    by (simp_all only: power_even_eq[symmetric] power_increasing one_le_numeral)
  have "?r\<^sup>2 < (2 ^ Suc (?m div 2))\<^sup>2" using r(2) by (intro power_strict_mono) auto
  also have "(2 ^ Suc (?m div 2))\<^sup>2 = 4 * ((2::nat) ^ (?m div 2))\<^sup>2" by (simp add: power2_eq_square)
  finally have 1: "?r\<^sup>2 < 4 * unat x" using e(1) b by linarith
  have "((2::nat) ^ (?m div 2))\<^sup>2 \<le> ?r\<^sup>2" using r(1) by (intro power_mono) auto
  then have 2: "unat x < 4 * ?r\<^sup>2" using e(2) b by (simp add: power2_eq_square)
  with 1 approx_sqrt_mono[OF assms(2)] show ?thesis by simp
qed

theorem approx_sqrt_bounds_witness:
  "(unat (approx_sqrt 1000000))\<^sup>2 < 4 * 1000000 \<and> approx_sqrt 1000000 \<le> approx_sqrt 1000001"
  using approx_sqrt_bounds[of 1000000 1000001] by simp

section \<open>Concrete runs\<close>

text \<open>A comment object as the constructor leaves it, before an evaluator sets its fields.\<close>

definition new_comment :: "nat \<Rightarrow> comment_object" where
  "new_comment i = \<lparr>c_id = i, c_category = '''', c_parent_author = '''', c_parent_permlink = '''', c_author = '''',
     c_permlink = '''', c_game_name = '''', c_last_update = 0, c_created = 0, c_active = 0, c_last_payout = 0, c_depth = 0,
     c_children = 0, c_net_rshares = 0, c_abs_rshares = 0, c_vote_rshares = 0, c_children_abs_rshares = 0,
     c_cashout_time = 0, c_max_cashout_time = 0, c_total_vote_weight = 0, c_reward_weight = 0,
     c_total_payout_value = GBC 0, c_curator_payout_value = GBC 0, c_beneficiary_payout_value = GBC 0,
     c_author_rewards = 0, c_net_votes = 0, c_root_comment = 0, c_max_accepted_payout = GBD 1000000000,
     c_percent_gamebank_dollars = 10000, c_allow_replies = True, c_allow_votes = True, c_allow_curation_rewards = True,
     c_beneficiaries = []\<rparr>"

text \<open>Alice wrote a comment that is due; Bob voted for it. Alice is also the witness of the block.\<close>

definition alice_post :: comment_object where
  "alice_post = (new_comment 0)\<lparr>c_author := ''alice'', c_permlink := ''post'', c_net_rshares := 100, c_reward_weight := 10000,
     c_total_vote_weight := 10, c_cashout_time := 5\<rparr>"

definition bob_vote :: comment_vote_object where
  "bob_vote = \<lparr>cv_voter = 1, cv_comment = 0, cv_weight = 8, cv_rshares = 100, cv_vote_percent = 10000, cv_last_update = 4, cv_num_changes = 0\<rparr>"

definition post_fund :: reward_fund_object where
  "post_fund = \<lparr>rf_name = ''post'', rf_reward_balance = GBC 4000, rf_recent_claims = 300, rf_last_update = 10,
     rf_content_constant = 2000000000000, rf_percent_curation_rewards = 2500, rf_percent_content_rewards = 10000,
     rf_author_reward_curve = linear, rf_curation_reward_curve = square_root\<rparr>"

definition paying_db :: database where
  "paying_db = empty_database\<lparr>
     accounts := \<lparr>next_id = 2, rows = [(new_account 0)\<lparr>a_name := ''alice''\<rparr>, (new_account 1)\<lparr>a_name := ''bob''\<rparr>]\<rparr>,
     comments := \<lparr>next_id = 1, rows = [alice_post]\<rparr>, comment_votes := \<lparr>next_id = 1, rows = [bob_vote]\<rparr>,
     reward_funds := \<lparr>next_id = 1, rows = [post_fund]\<rparr>,
     witnesses := \<lparr>next_id = 1, rows = [new_witness\<lparr>w_owner := ''alice''\<rparr>]\<rparr>,
     dgpo := new_dgpo\<lparr>dgp_time := 10, current_witness := ''alice'', virtual_supply := GBC 1000000000000,
       current_supply := GBC 1000000000000, total_vesting_shares := GBS 1000000, total_vesting_fund_gbc := GBC 1000\<rparr>\<rparr>"

lemmas paying_run = paying_db_def alice_post_def bob_vote_def post_fund_def new_comment_def empty_database_def empty_table_def
  create_vesting_def get_reward_vesting_share_price_def get_vesting_share_price_def mk_price_def asset_times_price_def narrow_int64_def
  adjust_reward_balance_def modify_reward_balance_def modify_dgpo_def is_vesting_def symbol_space_def
  pay_comment_def get_reward_fund_def get_rshare_reward_def evaluate_reward_curve_def u256_def is_null_def null_price_def
  pay_curators_def pay_curator_def to_uint64_def hi_word_def lo_word_def comment_votes_of_def by_weight_def get_account_by_id_def
  pay_author_def adjust_total_payout_def modify_comment_def reset_comment_def safe_mul_def safe_div_def
  GAMEBANK_POST_REWARD_FUND_NAME_def price_validate_def price_eq_def same_market_def price_mults_def util_to_gbc_def util_to_gbd_def is_comment_payout_dust_def

lemma pay_curators_run: "returning (pay_curators alice_post 250 paying_db) (\<lambda>((u, k), db). u = 50 \<and> k = 200)"
  by (simp add: concrete paying_run returning_def cong: eager)

theorem curators_within_share_witness:
  "\<exists>u k db'. pay_curators alice_post 250 paying_db = Inr ((u, k), db') \<and> 0 \<le> k \<and> k \<le> 250 \<and> k + u = 250"
proof -
  obtain u k db' where r: "pay_curators alice_post 250 paying_db = Inr ((u, k), db')"
    using returningD[OF pay_curators_run] by auto
  have "weights (comment_votes_of (c_id alice_post) paying_db) \<le> uint (c_total_vote_weight alice_post)"
    by (simp add: weights_def comment_votes_of_def paying_db_def alice_post_def bob_vote_def new_comment_def)
  from curators_within_share[OF r _ _ this] r show ?thesis by (auto simp: int64_max_def alice_post_def new_comment_def)
qed

lemma process_comment_cashout_run:
  "returning (process_comment_cashout paying_db) (\<lambda>db. map rf_reward_balance (rows (reward_funds db)) = [GBC 3000] \<and> rows (comment_votes db) = [])"
  by (simp add: concrete paying_run process_comment_cashout_def decay_fund_def due_comments_def is_due_comment_def add_claim_def
      fund_id_def next_cashout_def cashout_step_def cashout_comment_helper_def write_fund_def fund_context_def returning_def cong: eager)

theorem comment_cashout_conserves_witness:
  "\<exists>db'. process_comment_cashout paying_db = Inr db' \<and> gap Liquid db' + gap Pending db' = gap Liquid paying_db + gap Pending paying_db"
  using returningD[OF process_comment_cashout_run] comment_cashout_conserves[of paying_db] by blast



end
