(* ===== verification/Comments.thy ===== *)
theory Comments
  imports Rewards
begin

text \<open>
  Comments and the votes on them: \<^verbatim>\<open>comment_evaluator\<close>, \<^verbatim>\<open>comment_options_evaluator\<close>,
  \<^verbatim>\<open>delete_comment_evaluator\<close> and \<^verbatim>\<open>vote_evaluator\<close> of gamebank_evaluator.cpp. Comment objects are modified
  through their id. The body of a comment can be edited by a patch in the format of the vendored
  \<^verbatim>\<open>diff_match_patch\<close>; what the patch of a text gives on a body, if it is a patch, is an argument.

  The invariant \<open>content_ok\<close> ties the counters of a comment to the votes that exist: the net reward shares
  and the net number of votes are sums over the votes, and the weights that share the curation reward
  never add up to more than the recorded total. It holds along every sequence of comment operations and
  payouts, and with it curators are never paid more than their share.
\<close>

section \<open>Lookup\<close>

text \<open>Permlinks are compared as C strings.\<close>

definition c_str :: "string \<Rightarrow> string" where "c_str s = takeWhile (\<lambda>c. c \<noteq> CHR 0x00) s"

definition same_permlink :: "account_name_type \<Rightarrow> string \<Rightarrow> comment_object \<Rightarrow> bool" where
  "same_permlink author permlink c \<longleftrightarrow> c_author c = author \<and> c_str (c_permlink c) = c_str permlink"

definition find_comment :: "account_name_type \<Rightarrow> string \<Rightarrow> database \<Rightarrow> comment_object option" where
  "find_comment author permlink db = t_find (same_permlink author permlink) (comments db)"

definition get_comment :: "account_name_type \<Rightarrow> string \<Rightarrow> database \<Rightarrow> comment_object result" where
  "get_comment author permlink db = t_get (same_permlink author permlink) (comments db)"

definition get_comment_by_id :: "nat \<Rightarrow> database \<Rightarrow> comment_object result" where
  "get_comment_by_id i db = t_get (\<lambda>c. c_id c = i) (comments db)"

definition find_vote :: "nat \<Rightarrow> nat \<Rightarrow> database \<Rightarrow> comment_vote_object option" where
  "find_vote i j db = t_find (\<lambda>v. cv_comment v = i \<and> cv_voter v = j) (comment_votes db)"

definition remove_votes :: "nat \<Rightarrow> database \<Rightarrow> database" where
  "remove_votes comment db =
     db\<lparr>comment_votes := (comment_votes db)\<lparr>rows := filter (\<lambda>v. cv_comment v \<noteq> comment) (rows (comment_votes db))\<rparr>\<rparr>"

section \<open>Ancestors\<close>

text \<open>
  The loop over the parents of a comment. A reply is one deeper than its parent, so the depth of the
  first parent bounds the rounds.
\<close>

definition touch_parent :: "32 word \<Rightarrow> comment_object \<Rightarrow> comment_object option \<times> database \<Rightarrow> (comment_object option \<times> database) result" where
  "touch_parent change parent s =
     (let db = snd s in
      bindE (modify_comment (c_id parent) (\<lambda>p. Inr (p\<lparr>c_children := c_children p + change, c_active := head_block_time db\<rparr>)) db) (\<lambda>db.
      if c_parent_author parent \<noteq> '''' then
        bindE (get_comment (c_parent_author parent) (c_parent_permlink parent) db) (\<lambda>p. Inr (Some p, db))
      else Inr (None, db)))"

definition touch_ancestors :: "32 word \<Rightarrow> comment_object \<Rightarrow> database \<Rightarrow> database result" where
  "touch_ancestors change parent db =
     bindE (drain (Suc (unat (c_depth parent))) fst (touch_parent change) (Some parent, db)) (\<lambda>s. Inr (snd s))"

section \<open>Writing comments\<close>

definition strcmp_equal :: "string \<Rightarrow> string \<Rightarrow> bool" where
  "strcmp_equal a b \<longleftrightarrow> length a = length b \<or> c_str a = c_str b"

definition comment_clash :: "comment_object \<Rightarrow> comment_object \<Rightarrow> bool" where
  "comment_clash c d \<longleftrightarrow> same_permlink (c_author c) (c_permlink c) d"

definition check_post_interval :: "account_object \<Rightarrow> bool \<Rightarrow> database \<Rightarrow> unit result" where
  "check_post_interval auth is_root db =
     (let now = secs (head_block_time db) in
      if is_root then fc_assert (now - secs (a_last_root_post auth) > 60 * 5) (Inr ())
      else if has_hardfork GAMEBANK_HARDFORK_0_1 db then fc_assert (now - secs (a_last_post auth) \<ge> 3) (Inr ())
      else fc_assert (now - secs (a_last_post auth) > 20) (Inr ()))"

definition written_comment :: "comment_operation \<Rightarrow> comment_object option \<Rightarrow> time_point_sec \<Rightarrow> nat \<Rightarrow> comment_object" where
  "written_comment op parent now i =
     (let c = (new_comment i)\<lparr>c_author := oco_author op, c_permlink := oco_permlink op, c_last_update := now, c_created := now,
         c_active := now, c_last_payout := 0, c_max_cashout_time := time_maximum, c_reward_weight := 10000,
         c_cashout_time := plus_secs now (60 * 60 * 24 * 7)\<rparr>
      in case parent of
           None \<Rightarrow> c\<lparr>c_parent_author := '''', c_parent_permlink := oco_parent_permlink op, c_category := oco_parent_permlink op,
             c_root_comment := i\<rparr>
         | Some p \<Rightarrow> c\<lparr>c_parent_author := c_author p, c_parent_permlink := c_permlink p, c_depth := c_depth p + 1,
             c_category := c_category p, c_root_comment := c_root_comment p\<rparr>)"

definition create_comment :: "comment_operation \<Rightarrow> account_object \<Rightarrow> comment_object option \<Rightarrow> database \<Rightarrow> database result" where
  "create_comment op auth parent db =
     (let now = head_block_time db in
      bindE (case parent of None \<Rightarrow> Inr ()
             | Some p \<Rightarrow> bindE (get_comment_by_id (c_root_comment p) db) (\<lambda>root. fc_assert (c_allow_replies root) (Inr ()))) (\<lambda>_.
      bindE (check_post_interval auth (parent = None) db) (\<lambda>_.
      bindE (modify_account (a_name auth) (\<lambda>a. Inr
          ((if parent = None then a\<lparr>a_last_root_post := now, a_post_bandwidth := a_post_bandwidth auth\<rparr> else a)
            \<lparr>a_last_post := now, a_post_count := a_post_count a + 1\<rparr>)) db) (\<lambda>db.
      bindE (validate_permlink_0_1 (oco_parent_permlink op)) (\<lambda>_.
      bindE (validate_permlink_0_1 (oco_permlink op)) (\<lambda>_.
      bindE (t_create comment_clash (written_comment op parent now) (comments db)) (\<lambda>cs.
      bindE (t_create (\<lambda>a b. cc_comment a = cc_comment b) (\<lambda>_. \<lparr>cc_comment = next_id (comments db), cc_title = oco_title op,
          cc_body = (if length (oco_body op) < 1024 * 1024 * 128 then oco_body op else ''''), cc_json_metadata = oco_json_metadata op\<rparr>)
          (comment_contents db)) (\<lambda>ct.
      let db = db\<lparr>comments := cs, comment_contents := ct\<rparr> in
      case parent of None \<Rightarrow> Inr db | Some p \<Rightarrow> touch_ancestors 1 p db))))))))"

definition edit_comment ::
    "(string \<Rightarrow> string \<Rightarrow> string option) \<Rightarrow> comment_operation \<Rightarrow> comment_object \<Rightarrow> comment_object option \<Rightarrow> database \<Rightarrow> database result" where
  "edit_comment patched op comment parent db =
     bindE (modify_comment (c_id comment) (\<lambda>com.
         fc_assert (c_parent_author com = (if parent = None then '''' else oco_parent_author op))
         (fc_assert (strcmp_equal (c_parent_permlink com) (oco_parent_permlink op))
         (Inr (com\<lparr>c_last_update := head_block_time db, c_active := head_block_time db\<rparr>)))) db) (\<lambda>db.
     bindE (t_modify (\<lambda>con. cc_comment con = c_id comment) (\<lambda>con. Inr (con\<lparr>
         cc_title := (if oco_title op \<noteq> [] then oco_title op else cc_title con),
         cc_json_metadata := (if oco_json_metadata op \<noteq> [] then oco_json_metadata op else cc_json_metadata con),
         cc_body := (if oco_body op \<noteq> [] then case patched (oco_body op) (cc_body con) of None \<Rightarrow> oco_body op | Some b \<Rightarrow> b
           else cc_body con)\<rparr>)) (comment_contents db)) (\<lambda>ct.
       Inr (db\<lparr>comment_contents := ct\<rparr>)))"

definition comment_evaluator ::
    "text_checks \<Rightarrow> (string \<Rightarrow> string \<Rightarrow> string option) \<Rightarrow> comment_operation \<Rightarrow> database \<Rightarrow> database result" where
  "comment_evaluator tc patched op db =
     fc_assert (length (oco_title op) + length (oco_body op) + length (oco_json_metadata op) > 0)
     (bindE (get_account (oco_author op) db) (\<lambda>auth.
      bindE (if oco_parent_author op \<noteq> '''' then
               bindE (get_comment (oco_parent_author op) (oco_parent_permlink op) db) (\<lambda>parent.
               fc_assert (c_depth parent < 0xffff) (Inr (Some parent)))
             else Inr None) (\<lambda>parent.
      fc_assert (is_utf8 tc (oco_json_metadata op))
      (case find_comment (oco_author op) (oco_permlink op) db of
         None \<Rightarrow> create_comment op auth parent db
       | Some comment \<Rightarrow> edit_comment patched op comment parent db))))"

definition delete_comment_evaluator :: "delete_comment_operation \<Rightarrow> database \<Rightarrow> database result" where
  "delete_comment_evaluator op db =
     bindE (get_comment (odc_author op) (odc_permlink op) db) (\<lambda>comment.
     fc_assert (c_children comment = 0)
     (fc_assert (c_cashout_time comment \<noteq> time_maximum)
     (fc_assert (c_net_rshares comment \<le> 0)
     (let db = remove_votes (c_id comment) db in
      bindE (if c_parent_author comment \<noteq> '''' then
               bindE (get_comment (c_parent_author comment) (c_parent_permlink comment) db) (\<lambda>parent.
                 touch_ancestors (- 1) parent db)
             else Inr db) (\<lambda>db.
        Inr (db\<lparr>comments := t_remove (\<lambda>c. c_id c = c_id comment) (comments db)\<rparr>))))))"

definition add_beneficiary :: "database \<Rightarrow> beneficiary_route_type \<Rightarrow> comment_object \<Rightarrow> comment_object result" where
  "add_beneficiary db b c =
     fc_assert (find_account (br_account b) db \<noteq> None) (Inr (c\<lparr>c_beneficiaries := c_beneficiaries c @ [b]\<rparr>))"

definition set_beneficiaries :: "nat \<Rightarrow> beneficiary_route_type list \<Rightarrow> database \<Rightarrow> database result" where
  "set_beneficiaries i bs db =
     modify_comment i (\<lambda>c.
       fc_assert (c_beneficiaries c = [])
       (fc_assert (c_abs_rshares c = 0)
       (foldE (add_beneficiary db) bs c))) db"

definition comment_options_evaluator :: "comment_options_operation \<Rightarrow> database \<Rightarrow> database result" where
  "comment_options_evaluator op db =
     bindE (get_comment (ocop_author op) (ocop_permlink op) db) (\<lambda>comment.
     bindE (if \<not> ocop_allow_curation_rewards op \<or> \<not> ocop_allow_votes op then Inr True
            else asset_gt (c_max_accepted_payout comment) (ocop_max_accepted_payout op)) (\<lambda>restricts.
     fc_assert (restricts \<longrightarrow> c_abs_rshares comment = 0)
     (fc_assert (ocop_allow_curation_rewards op \<longrightarrow> c_allow_curation_rewards comment)
     (fc_assert (ocop_allow_votes op \<longrightarrow> c_allow_votes comment)
     (fc_assertE (asset_ge (c_max_accepted_payout comment) (ocop_max_accepted_payout op))
     (fc_assert (c_percent_gamebank_dollars comment \<ge> ocop_percent_gamebank_dollars op)
     (bindE (modify_comment (c_id comment) (\<lambda>c. Inr (c\<lparr>c_max_accepted_payout := ocop_max_accepted_payout op,
          c_percent_gamebank_dollars := ocop_percent_gamebank_dollars op, c_allow_votes := ocop_allow_votes op,
          c_allow_curation_rewards := ocop_allow_curation_rewards op\<rparr>)) db) (\<lambda>db.
      foldE (set_beneficiaries (c_id comment)) (ocop_beneficiaries op) db))))))))"

section \<open>Voting\<close>

definition get_effective_vesting_shares :: "account_object \<Rightarrow> asset result" where
  "get_effective_vesting_shares account =
     bindE (asset_sub (a_vesting_shares account) (a_delegated_vesting_shares account)) (\<lambda>s.
       asset_add s (a_received_vesting_shares account))"

definition GAMEBANK_VOTE_REGENERATION_SECONDS :: "32 word" where "GAMEBANK_VOTE_REGENERATION_SECONDS = 5 * 60 * 60 * 24"

text \<open>The power of the voter before the vote, the power the vote uses, and the absolute reward shares of the vote.\<close>

definition vote_strength :: "account_object \<Rightarrow> int \<Rightarrow> database \<Rightarrow> (int \<times> int \<times> int) result" where
  "vote_strength who percent db =
     (let elapsed_seconds = secs (head_block_time db) - secs (a_last_vote_time who) in
      fc_assert (elapsed_seconds \<ge> 3)
      (let regenerated_power = (10000 * elapsed_seconds) sdiv uint GAMEBANK_VOTE_REGENERATION_SECONDS;
           current_power = min (uint (a_voting_power who) + regenerated_power) 10000
       in fc_assert (current_power > 0)
      (let used_power = ((current_power * \<bar>percent\<bar>) sdiv 10000) * (60 * 60 * 24);
           max_vote_denom = uint (vote_power_reserve_rate (dgpo db) * GAMEBANK_VOTE_REGENERATION_SECONDS)
       in fc_assert (max_vote_denom > 0)
      (let used_power = (used_power + max_vote_denom - 1) sdiv max_vote_denom
       in fc_assert (used_power \<le> current_power)
      (bindE (get_effective_vesting_shares who) (\<lambda>shares.
       bindE (to_uint64 ((word_of_int (amount shares) * word_of_int used_power) div 10000)) (\<lambda>r.
       if has_hardfork GAMEBANK_HARDFORK_0_1 db then Inr (current_power, used_power, max 0 (sint r - 50000000))
       else fc_assert (sint r > 50000000 \<or> percent = 0) (Inr (current_power, used_power, sint r)))))))))"

definition spend_power :: "account_object \<Rightarrow> int \<Rightarrow> int \<Rightarrow> database \<Rightarrow> database result" where
  "spend_power who current_power used_power db =
     modify_account (a_name who) (\<lambda>a. Inr (a\<lparr>a_voting_power := word_of_int (current_power - used_power),
       a_last_vote_time := head_block_time db\<rparr>)) db"

definition add_to_root :: "nat \<Rightarrow> int \<Rightarrow> database \<Rightarrow> database result" where
  "add_to_root root abs_rshares =
     modify_comment root (\<lambda>c. bindE (safe_add (c_children_abs_rshares c) abs_rshares) (\<lambda>r. Inr (c\<lparr>c_children_abs_rshares := r\<rparr>)))"

text \<open>The weight of a new vote before and after the discount of the first half hour.\<close>

definition curation_weight :: "int \<Rightarrow> share_type \<Rightarrow> comment_object \<Rightarrow> database \<Rightarrow> (64 word \<times> 64 word) result" where
  "curation_weight rshares old_vote_rshares comment db =
     (if rshares > 0 \<and> c_last_payout comment = 0 \<and> c_allow_curation_rewards comment then
        bindE (get_reward_fund db) (\<lambda>reward_fund.
        if rf_percent_curation_rewards reward_fund > 0 then
          bindE (evaluate_reward_curve (word_of_int old_vote_rshares) (rf_curation_reward_curve reward_fund) (rf_content_constant reward_fund)) (\<lambda>u.
          bindE (to_uint64 u) (\<lambda>old_weight.
          bindE (evaluate_reward_curve (word_of_int (c_vote_rshares comment)) (rf_curation_reward_curve reward_fund) (rf_content_constant reward_fund)) (\<lambda>v.
          bindE (to_uint64 v) (\<lambda>new_weight.
          let max_vote_weight = new_weight - old_weight;
              delta_t = min (word_of_int (secs (head_block_time db) - secs (c_created comment)) :: 64 word) (60 * 30)
          in bindE (to_uint64 ((ucast max_vote_weight * ucast delta_t) div (60 * 30))) (\<lambda>w. Inr (max_vote_weight, w))))))
        else Inr (0, 0))
      else Inr (0, 0))"

definition cast_vote :: "comment_object \<Rightarrow> account_object \<Rightarrow> int \<Rightarrow> int \<times> int \<times> int \<Rightarrow> database \<Rightarrow> database result" where
  "cast_vote comment who percent strength db =
     (case strength of (current_power, used_power, abs_rshares) \<Rightarrow>
      let rshares = (if percent < 0 then - abs_rshares else abs_rshares) in
      fc_assert (rshares > 0 \<longrightarrow> secs (head_block_time db) < secs (c_cashout_time comment) - 60 * 60 * 12)
      (bindE (spend_power who current_power used_power db) (\<lambda>db.
       bindE (get_comment_by_id (c_root_comment comment) db) (\<lambda>root.
       fc_assert (abs_rshares > 0)
       (bindE (modify_comment (c_id comment) (\<lambda>c.
            bindE (safe_add (c_net_rshares c) rshares) (\<lambda>n.
            bindE (safe_add (c_abs_rshares c) abs_rshares) (\<lambda>a.
            bindE (if rshares > 0 then safe_add (c_vote_rshares c) rshares else Inr (c_vote_rshares c)) (\<lambda>v.
              Inr (c\<lparr>c_net_rshares := n, c_abs_rshares := a, c_vote_rshares := v,
                c_net_votes := (if rshares > 0 then c_net_votes c + 1 else c_net_votes c - 1)\<rparr>))))) db) (\<lambda>db.
       bindE (add_to_root (c_id root) abs_rshares db) (\<lambda>db.
       bindE (get_comment_by_id (c_id comment) db) (\<lambda>voted.
       bindE (curation_weight rshares (c_vote_rshares comment) voted db) (\<lambda>(max_vote_weight, w).
       bindE (t_create (\<lambda>a b. cv_comment a = cv_comment b \<and> cv_voter a = cv_voter b)
            (\<lambda>_. \<lparr>cv_voter = a_id who, cv_comment = c_id comment, cv_weight = w, cv_rshares = rshares,
              cv_vote_percent = word_of_int percent, cv_last_update = head_block_time db, cv_num_changes = 0\<rparr>)
            (comment_votes db)) (\<lambda>vs.
       let db = db\<lparr>comment_votes := vs\<rparr> in
       if max_vote_weight \<noteq> 0 then
         modify_comment (c_id comment) (\<lambda>c. Inr (c\<lparr>c_total_vote_weight := c_total_vote_weight c + max_vote_weight\<rparr>)) db
       else Inr db))))))))))"

definition net_votes_change :: "int \<Rightarrow> int \<Rightarrow> 32 word" where
  "net_votes_change rshares old =
     (if rshares > 0 \<and> old < 0 then 2
      else if rshares > 0 \<and> old = 0 then 1
      else if rshares = 0 \<and> old < 0 then 1
      else if rshares = 0 \<and> old > 0 then - 1
      else if rshares < 0 \<and> old = 0 then - 1
      else if rshares < 0 \<and> old > 0 then - 2
      else 0)"

definition change_vote ::
    "comment_object \<Rightarrow> account_object \<Rightarrow> int \<Rightarrow> int \<times> int \<times> int \<Rightarrow> comment_vote_object \<Rightarrow> database \<Rightarrow> database result" where
  "change_vote comment who percent strength itr db =
     (case strength of (current_power, used_power, abs_rshares) \<Rightarrow>
      fc_assert (sint (cv_num_changes itr) < 5)
      (fc_assert (cv_vote_percent itr \<noteq> word_of_int percent)
      (let rshares = (if percent < 0 then - abs_rshares else abs_rshares) in
       fc_assert (cv_rshares itr < rshares \<longrightarrow> secs (head_block_time db) < secs (c_cashout_time comment) - 60 * 60 * 12)
       (bindE (spend_power who current_power used_power db) (\<lambda>db.
        bindE (get_comment_by_id (c_root_comment comment) db) (\<lambda>root.
        bindE (modify_comment (c_id comment) (\<lambda>c.
            bindE (safe_sub (c_net_rshares c) (cv_rshares itr)) (\<lambda>n.
            bindE (safe_add n rshares) (\<lambda>n.
            bindE (safe_add (c_abs_rshares c) abs_rshares) (\<lambda>a.
              Inr (c\<lparr>c_net_rshares := n, c_abs_rshares := a,
                c_net_votes := c_net_votes c + net_votes_change rshares (cv_rshares itr)\<rparr>))))) db) (\<lambda>db.
        bindE (add_to_root (c_id root) abs_rshares db) (\<lambda>db.
        bindE (modify_comment (c_id comment) (\<lambda>c. Inr (c\<lparr>c_total_vote_weight := c_total_vote_weight c - cv_weight itr\<rparr>)) db) (\<lambda>db.
        bindE (t_modify (\<lambda>v. cv_comment v = cv_comment itr \<and> cv_voter v = cv_voter itr) (\<lambda>cv. Inr (cv\<lparr>cv_rshares := rshares,
            cv_vote_percent := word_of_int percent, cv_last_update := head_block_time db, cv_weight := 0,
            cv_num_changes := cv_num_changes cv + 1\<rparr>)) (comment_votes db)) (\<lambda>vs.
          Inr (db\<lparr>comment_votes := vs\<rparr>)))))))))))"

definition vote_evaluator :: "vote_operation \<Rightarrow> database \<Rightarrow> database result" where
  "vote_evaluator op db =
     bindE (get_comment (ovo_author op) (ovo_permlink op) db) (\<lambda>comment.
     bindE (get_account (ovo_voter op) db) (\<lambda>voter.
     fc_assert (a_can_vote voter)
     (fc_assert (ovo_weight op > 0 \<longrightarrow> c_allow_votes comment)
     (if c_cashout_time comment = time_maximum then Inr db
      else
        bindE (vote_strength voter (ovo_weight op) db) (\<lambda>strength.
        case find_vote (c_id comment) (a_id voter) db of
          None \<Rightarrow> fc_assert (ovo_weight op \<noteq> 0) (cast_vote comment voter (ovo_weight op) strength db)
        | Some itr \<Rightarrow> fc_assert (cv_num_changes itr \<noteq> - 1) (change_vote comment voter (ovo_weight op) strength itr db))))))"

section \<open>Counters and votes\<close>

definition comment_at :: "nat \<Rightarrow> database \<Rightarrow> comment_object option" where
  "comment_at i db = t_find (\<lambda>c. c_id c = i) (comments db)"

interpretation comment_store: keyed_store comment_at modify_comment c_id "\<lambda>g db. t_sum g (comments db)"
proof unfold_locales
  fix k :: nat and s s' :: database and f v v' k' and g :: "comment_object \<Rightarrow> int" and e
  note defs = comment_at_def modify_comment_def
  show "comment_at k s = Some v \<Longrightarrow> c_id v = k" by (auto simp: defs dest: t_find_Some)
  show "modify_comment k f s = Inr s' \<Longrightarrow> \<exists>v v'. comment_at k s = Some v \<and> f v = Inr v'" by (auto simp: defs t_modify_Inr)
  show "comment_at k s = Some v \<Longrightarrow> f v = Inr v' \<Longrightarrow> returns (modify_comment k f s)" by (simp add: defs t_modify_def returns_def)
  show "comment_at k s = None \<Longrightarrow> modify_comment k f s = Inl out_of_range" by (simp add: defs t_modify_def)
  show "comment_at k s = Some v \<Longrightarrow> f v = Inl e \<Longrightarrow> modify_comment k f s = Inl e" by (simp add: defs t_modify_def)
  show "comment_at k' s' = (if k' = k then Some v' else comment_at k' s)"
    if "modify_comment k f s = Inr s'" "comment_at k s = Some v" "f v = Inr v'" "c_id v' = k"
    using that by (auto simp: defs t_modify_Inr t_find_def find_upd_first_same
        intro!: find_upd_first_other dest: t_find_Some[unfolded t_find_def])
  show "modify_comment k f s = Inr s' \<Longrightarrow> comment_at k s = Some v \<Longrightarrow> f v = Inr v' \<Longrightarrow>
      t_sum g (comments s') = t_sum g (comments s) - g v + g v'"
    by (auto simp: defs intro: t_sum_modify)
qed

text \<open>
  What the invariant says of a comment is said of its \<open>view\<close>: net reward shares, net votes, reward shares
  of all positive votes, total vote weight, and whether it has been paid out. The sums run over the votes on
  the comment.
\<close>

type_synonym comment_view = "share_type \<times> 32 word \<times> share_type \<times> 64 word \<times> bool"

definition view :: "comment_object \<Rightarrow> comment_view" where
  "view c = (c_net_rshares c, c_net_votes c, c_vote_rshares c, c_total_vote_weight c, c_cashout_time c = time_maximum)"

definition counted :: "database \<Rightarrow> nat \<Rightarrow> comment_view option" where
  "counted db i = map_option view (comment_at i db)"

definition vote_sum :: "(comment_vote_object \<Rightarrow> int) \<Rightarrow> nat \<Rightarrow> comment_vote_object table \<Rightarrow> int" where
  "vote_sum g i t = t_sum (\<lambda>v. if cv_comment v = i then g v else 0) t"

definition view_ok :: "comment_vote_object table \<Rightarrow> nat \<Rightarrow> comment_view \<Rightarrow> bool" where
  "view_ok t i x = (case x of (net, votes, positive, w_total, paid) \<Rightarrow>
     0 \<le> positive \<and> positive \<le> int64_max \<and>
     vote_sum (\<lambda>v. uint (cv_weight v)) i t \<le> uint w_total \<and> w_total \<le> approx_sqrt (word_of_int positive) \<and>
     (\<not> paid \<longrightarrow> net = vote_sum cv_rshares i t \<and> votes = word_of_int (vote_sum (\<lambda>v. sgn (cv_rshares v)) i t)))"

definition comment_ids :: "database \<Rightarrow> nat list" where
  "comment_ids db = map c_id (rows (comments db))"

definition root_curve :: "database \<Rightarrow> bool" where
  "root_curve db \<longleftrightarrow> (\<forall>f \<in> set (rows (reward_funds db)). rf_curation_reward_curve f = square_root)"

definition content_ok :: "database \<Rightarrow> bool" where
  "content_ok db \<longleftrightarrow> distinct (comment_ids db) \<and> (\<forall>i \<in> set (comment_ids db). i < next_id (comments db)) \<and>
     (\<forall>v \<in> set (rows (comment_votes db)). cv_comment v < next_id (comments db)) \<and>
     (\<forall>i x. counted db i = Some x \<longrightarrow> view_ok (comment_votes db) i x) \<and> root_curve db"

lemma comment_at_row:
  assumes "distinct (comment_ids db)" "c \<in> set (rows (comments db))"
  shows "comment_at (c_id c) db = Some c"
proof -
  have "distinct (map c_id cs) \<Longrightarrow> c \<in> set cs \<Longrightarrow> List.find (\<lambda>d. c_id d = c_id c) cs = Some c" for cs
    by (induction cs) (auto simp: image_iff)
  with assms show ?thesis by (simp add: comment_at_def t_find_def comment_ids_def)
qed

lemma get_comment_at:
  "content_ok db \<Longrightarrow> get_comment a p db = Inr c \<Longrightarrow> comment_at (c_id c) db = Some c"
  by (auto simp: content_ok_def get_comment_def dest!: t_find_Some intro: comment_at_row)

text \<open>A modification of one comment moves its view only.\<close>

lemma counted_modify:
  assumes "modify_comment i f db = Inr db'" and "\<And>c c'. f c = Inr c' \<Longrightarrow> c_id c' = c_id c"
  shows "\<exists>c c' t. comment_at i db = Some c \<and> f c = Inr c' \<and> comment_at i db' = Some c' \<and> counted db' = (counted db)(i \<mapsto> view c') \<and>
    db' = db\<lparr>comments := t\<rparr> \<and> next_id t = next_id (comments db) \<and> comment_ids db' = comment_ids db"
proof -
  obtain c c' where c: "comment_at i db = Some c" "f c = Inr c'" using comment_store.update_found[OF assms(1)] by blast
  have k: "c_id c' = i" using assms(2)[OF c(2)] comment_store.lookup_key[OF c(1)] by simp
  note u = comment_store.lookup_update[OF assms(1) c k]
  obtain t where t: "db' = db\<lparr>comments := t\<rparr>" "t = (comments db)\<lparr>rows := upd_first (\<lambda>c. c_id c = i) c' (rows (comments db))\<rparr>"
    using assms(1) c by (auto simp: modify_comment_def t_modify_Inr comment_at_def)
  have "map c_id (upd_first (\<lambda>c. c_id c = i) c' cs) = map c_id cs" for cs
    by (induction cs) (auto simp: k)
  with c u t show ?thesis by (auto simp: counted_def comment_ids_def fun_eq_iff)
qed

lemma counted_modify_same:
  assumes "modify_comment i f db = Inr db'" and "\<And>c c'. f c = Inr c' \<Longrightarrow> c_id c' = c_id c \<and> view c' = view c"
  shows "\<exists>t. counted db' = counted db \<and> db' = db\<lparr>comments := t\<rparr> \<and> next_id t = next_id (comments db) \<and> comment_ids db' = comment_ids db"
  using counted_modify[OF assms(1)] assms(2) by (fastforce simp: counted_def)

lemma content_frame [simp]:
  "comment_at i (db\<lparr>accounts := a\<rparr>) = comment_at i db" "comment_at i (db\<lparr>comment_votes := vs\<rparr>) = comment_at i db"
  "comment_at i (db\<lparr>comment_contents := cc\<rparr>) = comment_at i db" "comment_at i (db\<lparr>reward_funds := r\<rparr>) = comment_at i db"
  "comment_ids (db\<lparr>accounts := a\<rparr>) = comment_ids db" "comment_ids (db\<lparr>comment_votes := vs\<rparr>) = comment_ids db"
  "comment_ids (db\<lparr>comment_contents := cc\<rparr>) = comment_ids db" "comment_ids (db\<lparr>reward_funds := r\<rparr>) = comment_ids db"
  "counted (db\<lparr>accounts := a\<rparr>) = counted db" "counted (db\<lparr>comment_votes := vs\<rparr>) = counted db"
  "counted (db\<lparr>comment_contents := cc\<rparr>) = counted db" "counted (db\<lparr>reward_funds := r\<rparr>) = counted db"
  "root_curve (db\<lparr>accounts := a\<rparr>) = root_curve db" "root_curve (db\<lparr>comment_votes := vs\<rparr>) = root_curve db"
  "root_curve (db\<lparr>comment_contents := cc\<rparr>) = root_curve db" "root_curve (db\<lparr>comments := cs\<rparr>) = root_curve db"
  by (simp_all add: comment_at_def comment_ids_def counted_def root_curve_def fun_eq_iff)

text \<open>What all comment operations have in common: the set of comments stays, the funds stay.\<close>

definition same_comments :: "database \<Rightarrow> database \<Rightarrow> bool" where
  "same_comments db db' \<longleftrightarrow> comment_ids db' = comment_ids db \<and> next_id (comments db') = next_id (comments db) \<and>
     reward_funds db' = reward_funds db \<and> head_block_time db' = head_block_time db"

lemma same_comments_refl [simp]: "same_comments db db"
  by (simp add: same_comments_def)

lemma same_comments_trans: "same_comments a b \<Longrightarrow> same_comments b c \<Longrightarrow> same_comments a c"
  by (simp add: same_comments_def)

lemma modify_account_content:
  "modify_account n f db = Inr db' \<Longrightarrow> same_comments db db' \<and> counted db' = counted db \<and> comment_votes db' = comment_votes db \<and>
    (\<forall>i. comment_at i db' = comment_at i db)"
  by (auto simp: same_comments_def dest!: modify_account_frame)

lemma modify_comment_content:
  assumes "modify_comment i f db = Inr db'" and "\<And>c c'. f c = Inr c' \<Longrightarrow> c_id c' = c_id c"
  shows "same_comments db db' \<and> comment_votes db' = comment_votes db \<and> (\<exists>c c'. comment_at i db = Some c \<and> f c = Inr c' \<and>
    comment_at i db' = Some c' \<and> counted db' = (counted db)(i \<mapsto> view c'))"
  using counted_modify[OF assms] by (force simp: same_comments_def)

lemma modify_comment_content_same:
  assumes "modify_comment i f db = Inr db'" and "\<And>c c'. f c = Inr c' \<Longrightarrow> c_id c' = c_id c \<and> view c' = view c"
  shows "same_comments db db' \<and> comment_votes db' = comment_votes db \<and> counted db' = counted db"
  using counted_modify_same[OF assms] by (force simp: same_comments_def)

lemma add_to_root_content:
  assumes "add_to_root i r db = Inr db'"
  shows "same_comments db db' \<and> comment_votes db' = comment_votes db \<and> counted db' = counted db"
  by (rule modify_comment_content_same[OF assms[unfolded add_to_root_def]]) (auto simp: view_def)

lemma safe_add_max: "safe_add a b = Inr c \<Longrightarrow> a \<le> int64_max \<Longrightarrow> c = a + b \<and> c \<le> int64_max"
  by (auto simp: safe_add_def split: if_splits)

lemma counted_view: "comment_at i db = Some c \<Longrightarrow> counted db i = Some (view c)"
  by (simp add: counted_def)

lemma cast_vote_form:
  assumes "cast_vote c who p (cur, used, r) db = Inr db'" and c: "comment_at (c_id c) db = Some c" and "c_vote_rshares c \<le> int64_max"
  obtains s voted db1 m w where "s = (if p < 0 then - r else r)" "r > 0"
    "curation_weight s (c_vote_rshares c) voted db1 = Inr (m, w)" "reward_funds db1 = reward_funds db"
    "c_vote_rshares voted = (if s > 0 then c_vote_rshares c + s else c_vote_rshares c)" "c_vote_rshares voted \<le> int64_max"
    "same_comments db db'"
    "counted db' = (counted db)(c_id c \<mapsto> (c_net_rshares c + s, if s > 0 then c_net_votes c + 1 else c_net_votes c - 1,
       c_vote_rshares voted, c_total_vote_weight c + m, c_cashout_time c = time_maximum))"
    "\<exists>v clash. t_create clash (\<lambda>_. v) (comment_votes db) = Inr (comment_votes db') \<and> cv_comment v = c_id c \<and> cv_weight v = w \<and> cv_rshares v = s"
proof -
  define s where "s = (if p < 0 then - r else r)"
  obtain db1 db2 db3 root voted m w vs where r: "r > 0" and 1: "spend_power who cur used db = Inr db1"
    and 2: "modify_comment (c_id c) (\<lambda>c.
            bindE (safe_add (c_net_rshares c) s) (\<lambda>n.
            bindE (safe_add (c_abs_rshares c) r) (\<lambda>a.
            bindE (if s > 0 then safe_add (c_vote_rshares c) s else Inr (c_vote_rshares c)) (\<lambda>v.
              Inr (c\<lparr>c_net_rshares := n, c_abs_rshares := a, c_vote_rshares := v,
                c_net_votes := (if s > 0 then c_net_votes c + 1 else c_net_votes c - 1)\<rparr>))))) db1 = Inr db2"
    and 3: "add_to_root (c_id (root :: comment_object)) r db2 = Inr db3"
    and v: "get_comment_by_id (c_id c) db3 = Inr voted" and w: "curation_weight s (c_vote_rshares c) voted db3 = Inr (m, w)"
    and 4: "t_create (\<lambda>a b. cv_comment a = cv_comment b \<and> cv_voter a = cv_voter b)
            (\<lambda>_. \<lparr>cv_voter = a_id who, cv_comment = c_id c, cv_weight = w, cv_rshares = s,
              cv_vote_percent = word_of_int p, cv_last_update = head_block_time db3, cv_num_changes = 0\<rparr>)
            (comment_votes db3) = Inr vs"
    and 5: "(if m \<noteq> 0 then
         modify_comment (c_id c) (\<lambda>c. Inr (c\<lparr>c_total_vote_weight := c_total_vote_weight c + m\<rparr>)) (db3\<lparr>comment_votes := vs\<rparr>)
       else Inr (db3\<lparr>comment_votes := vs\<rparr>)) = Inr db'"
    using assms(1) unfolding cast_vote_def Let_def prod.case s_def[symmetric] by (auto simp del: if_Inr)
  note f1 = modify_account_content[OF 1[unfolded spend_power_def]]
  have 0: "comment_at (c_id c) db1 = Some c" using f1 c by simp
  have m2: "same_comments db1 db2 \<and> comment_votes db2 = comment_votes db1 \<and> (\<exists>d c'. comment_at (c_id c) db1 = Some d \<and>
      bindE (safe_add (c_net_rshares d) s) (\<lambda>n.
            bindE (safe_add (c_abs_rshares d) r) (\<lambda>a.
            bindE (if s > 0 then safe_add (c_vote_rshares d) s else Inr (c_vote_rshares d)) (\<lambda>v.
              Inr (d\<lparr>c_net_rshares := n, c_abs_rshares := a, c_vote_rshares := v,
                c_net_votes := (if s > 0 then c_net_votes d + 1 else c_net_votes d - 1)\<rparr>)))) = Inr c' \<and>
      comment_at (c_id c) db2 = Some c' \<and> counted db2 = (counted db1)(c_id c \<mapsto> view c'))"
    by (rule modify_comment_content[OF 2]) (auto simp del: if_Inr)
  from m2 obtain c2 n a v2 where f2: "same_comments db1 db2" "comment_votes db2 = comment_votes db1" "counted db2 = (counted db1)(c_id c \<mapsto> view c2)"
    and s2: "safe_add (c_net_rshares c) s = Inr n" "(if s > 0 then safe_add (c_vote_rshares c) s else Inr (c_vote_rshares c)) = Inr v2"
      "c2 = c\<lparr>c_net_rshares := n, c_abs_rshares := a, c_vote_rshares := v2,
        c_net_votes := (if s > 0 then c_net_votes c + 1 else c_net_votes c - 1)\<rparr>"
    unfolding 0 option.inject by (auto simp del: if_Inr)
  then have c2: "view c2 = (c_net_rshares c + s,
      if s > 0 then c_net_votes c + 1 else c_net_votes c - 1, if s > 0 then c_vote_rshares c + s else c_vote_rshares c,
      c_total_vote_weight c, c_cashout_time c = time_maximum)" "c_vote_rshares c2 \<le> int64_max"
    using assms(3) safe_add_max[of "c_vote_rshares c" s v2] by (auto simp: view_def dest: safe_values split: if_splits)
  note f3 = add_to_root_content[OF 3]
  have "counted db3 (c_id c) = Some (view voted)"
    using v by (simp add: counted_def comment_at_def get_comment_by_id_def)
  then have vv: "view voted = view c2" using f3 f2 by simp
  have total: "\<exists>x. comment_at (c_id c) db3 = Some x \<and> view x = view c2"
    using v vv by (simp add: comment_at_def get_comment_by_id_def)
  have f5: "same_comments (db3\<lparr>comment_votes := vs\<rparr>) db' \<and> comment_votes db' = vs \<and>
    counted db' = (counted db3)(c_id c \<mapsto> (c_net_rshares c + s, if s > 0 then c_net_votes c + 1 else c_net_votes c - 1,
       c_vote_rshares voted, c_total_vote_weight c + m, c_cashout_time c = time_maximum))"
  proof (cases "m = 0")
    case True
    then show ?thesis using 5 vv c2 f2 f3 by (auto simp: view_def)
  next
    case False
    with 5 have "modify_comment (c_id c) (\<lambda>c. Inr (c\<lparr>c_total_vote_weight := c_total_vote_weight c + m\<rparr>)) (db3\<lparr>comment_votes := vs\<rparr>) = Inr db'"
      by simp
    from modify_comment_content[OF this] total vv c2 show ?thesis by (auto simp: view_def)
  qed
  show thesis
  proof (rule that[of s voted db3 m w])
    show "same_comments db db'" using f1 f2 f3 f5 by (simp add: same_comments_def comment_ids_def)
    show "reward_funds db3 = reward_funds db" using f1 f2 f3 by (simp add: same_comments_def)
    show "counted db' = (counted db)(c_id c \<mapsto> (c_net_rshares c + s, if s > 0 then c_net_votes c + 1 else c_net_votes c - 1,
       c_vote_rshares voted, c_total_vote_weight c + m, c_cashout_time c = time_maximum))"
      using f1 f2 f3 f5 by (simp add: fun_eq_iff)
    show "\<exists>v clash. t_create clash (\<lambda>_. v) (comment_votes db) = Inr (comment_votes db') \<and> cv_comment v = c_id c \<and> cv_weight v = w \<and> cv_rshares v = s"
      using 4 f1 f2 f3 f5 by (fastforce)
  qed (use s_def r w vv c2 in \<open>auto simp: view_def\<close>)
qed

lemma sqrt_weight_mono:
  assumes "0 \<le> a" "a \<le> b" "b \<le> int64_max"
  shows "approx_sqrt (word_of_int a) \<le> approx_sqrt (word_of_int b)"
proof -
  have "b < 2 ^ 128" using assms(3) by (simp add: int64_max_def)
  then have "(word_of_int a :: 128 word) \<le> word_of_int b"
    using assms by (simp add: word_le_def uint_word_of_int take_bit_eq_mod)
  then show ?thesis by (rule approx_sqrt_mono)
qed

lemma to_uint64_ucast: "to_uint64 (ucast (x :: 64 word)) = Inr x"
proof -
  have "hi_word (ucast x) = 0"
    unfolding hi_word_def by (rule bit_word_eqI) (auto simp: bit_simps dest: bit_imp_le_length)
  moreover have "lo_word (ucast x) = x"
    unfolding lo_word_def by (rule bit_word_eqI) (auto simp: bit_simps)
  ultimately show ?thesis by (simp add: to_uint64_def)
qed

text \<open>The discount never raises a weight.\<close>

lemma discounted_weight:
  assumes "to_uint64 ((ucast (m :: 64 word) * ucast (min d 1800 :: 64 word)) div 1800) = Inr w"
  shows "uint w \<le> uint m"
proof -
  let ?d = "min d 1800 :: 64 word"
  have d: "uint ?d \<le> 1800" by (simp add: min_def word_le_def)
  have m: "0 \<le> uint m" "uint m < 2 ^ 64" using uint_bounded[of m] by simp_all
  have "0 \<le> uint ?d" by simp
  moreover have "uint m * uint ?d \<le> uint m * 1800" using d m by (intro mult_left_mono) auto
  ultimately have "uint (ucast m * ucast ?d :: 128 word) = uint m * uint ?d"
    using m d by (simp add: uint_word_ariths unsigned_ucast_eq take_bit_eq_mod del: uint_ge_0)
  then have "uint ((ucast m * ucast ?d) div 1800 :: 128 word) = uint m * uint ?d div 1800"
    by (simp add: uint_div_distrib)
  moreover have "uint m * uint ?d div 1800 \<le> uint m * 1800 div 1800" using d m by (intro zdiv_mono1 mult_left_mono) auto
  moreover have "uint w = uint ((ucast m * ucast ?d) div 1800 :: 128 word) mod 2 ^ 64"
    using assms by (auto simp: to_uint64_def lo_word_def unsigned_ucast_eq take_bit_eq_mod)
  ultimately have "uint w = uint m * uint ?d div 1800 mod 2 ^ 64" "uint m * uint ?d div 1800 \<le> uint m" by simp_all
  moreover have "uint m * uint ?d div 1800 mod 2 ^ 64 \<le> uint m * uint ?d div 1800"
    by (rule zmod_le_nonneg_dividend) (simp add: pos_imp_zdiv_nonneg_iff)
  ultimately show ?thesis by linarith
qed

lemma curation_weight_bounds:
  assumes "curation_weight s old c db = Inr (m, w)" and "root_curve db"
    and r: "0 \<le> old" "old \<le> c_vote_rshares c" "c_vote_rshares c \<le> int64_max" and t: "t \<le> approx_sqrt (word_of_int old)"
  shows "uint w \<le> uint m \<and> uint (t + m) = uint t + uint m \<and> t + m \<le> approx_sqrt (word_of_int (c_vote_rshares c))"
proof -
  let ?o = "approx_sqrt (word_of_int old)" and ?n = "approx_sqrt (word_of_int (c_vote_rshares c))"
  note le = sqrt_weight_mono[OF r]
  have "(m, w) = (0, 0) \<or> m = ?n - ?o \<and> uint w \<le> uint m"
  proof (cases "s > 0 \<and> c_last_payout c = 0 \<and> c_allow_curation_rewards c")
    case True
    then obtain rf where rf: "get_reward_fund db = Inr rf" using assms(1) by (auto simp: curation_weight_def)
    then have "rf_curation_reward_curve rf = square_root"
      using assms(2) by (auto simp: root_curve_def get_reward_fund_def dest!: t_find_Some)
    with assms(1) True rf show ?thesis
      by (auto simp: curation_weight_def evaluate_reward_curve_def to_uint64_ucast Let_def dest: discounted_weight split: if_splits)
  qed (use assms(1) in \<open>auto simp: curation_weight_def\<close>)
  moreover have "uint (?n - ?o) = uint ?n - uint ?o" using le by (simp add: uint_minus_simple_alt word_le_def)
  moreover have "uint t \<le> uint ?o" "uint ?o \<le> uint ?n" "uint ?n < 2 ^ 64" "0 \<le> uint t"
    using t le uint_bounded[of ?n] by (simp_all add: word_le_def)
  ultimately show ?thesis by (auto simp: word_le_def uint_word_ariths)
qed

lemma vote_sum_create:
  "t_create clash (\<lambda>_. v) t = Inr t' \<Longrightarrow> vote_sum g i t' = vote_sum g i t + (if cv_comment v = i then g v else 0)"
  by (simp add: vote_sum_def t_sum_create)

lemma content_ok_update:
  assumes "content_ok db" "same_comments db db'" "counted db' = (counted db)(i \<mapsto> x)" "view_ok (comment_votes db') i x"
    and "\<And>j g. j \<noteq> i \<Longrightarrow> vote_sum g j (comment_votes db') = vote_sum g j (comment_votes db)"
    and "\<forall>v \<in> set (rows (comment_votes db')). cv_comment v < next_id (comments db)"
  shows "content_ok db'"
  using assms by (auto simp: content_ok_def same_comments_def root_curve_def view_ok_def split: if_splits)

lemma content_ok_view: "content_ok db \<Longrightarrow> comment_at i db = Some c \<Longrightarrow> view_ok (comment_votes db) i (view c)"
  unfolding content_ok_def using counted_view by blast

lemma content_ok_id: "content_ok db \<Longrightarrow> comment_at i db = Some c \<Longrightarrow> i < next_id (comments db)"
  by (auto simp: content_ok_def comment_at_def comment_ids_def dest!: t_find_Some)

lemma cast_vote_content:
  assumes "cast_vote c who p (cur, used, r) db = Inr db'" and ok: "content_ok db" and c: "comment_at (c_id c) db = Some c"
  shows "content_ok db'"
proof -
  let ?i = "c_id c" and ?t = "comment_votes db"
  note o = content_ok_view[OF ok c, unfolded view_ok_def view_def prod.case]
  have le: "c_vote_rshares c \<le> int64_max" using o by simp
  obtain s voted db1 m w where s: "s = (if p < 0 then - r else r)" "r > 0"
    and w: "curation_weight s (c_vote_rshares c) voted db1 = Inr (m, w)" "reward_funds db1 = reward_funds db"
    and r: "c_vote_rshares voted = (if s > 0 then c_vote_rshares c + s else c_vote_rshares c)" "c_vote_rshares voted \<le> int64_max"
    and f: "same_comments db db'" "counted db' = (counted db)(?i \<mapsto> (c_net_rshares c + s, if s > 0 then c_net_votes c + 1 else c_net_votes c - 1,
       c_vote_rshares voted, c_total_vote_weight c + m, c_cashout_time c = time_maximum))"
    and e: "\<exists>v clash. t_create clash (\<lambda>_. v) ?t = Inr (comment_votes db') \<and> cv_comment v = ?i \<and> cv_weight v = w \<and> cv_rshares v = s"
    by (rule cast_vote_form[OF assms(1) c le])
  from e obtain v clash where v: "t_create clash (\<lambda>_. v) ?t = Inr (comment_votes db')" "cv_comment v = ?i" "cv_weight v = w" "cv_rshares v = s"
    by blast
  have "root_curve db1" using ok w(2) by (simp add: content_ok_def root_curve_def)
  moreover have "0 \<le> c_vote_rshares c" "c_vote_rshares c \<le> c_vote_rshares voted" "c_total_vote_weight c \<le> approx_sqrt (word_of_int (c_vote_rshares c))"
    using o r by (auto split: if_splits)
  ultimately have b: "uint w \<le> uint m \<and> uint (c_total_vote_weight c + m) = uint (c_total_vote_weight c) + uint m \<and>
      c_total_vote_weight c + m \<le> approx_sqrt (word_of_int (c_vote_rshares voted))"
    using curation_weight_bounds[OF w(1)] r(2) by blast
  have "s \<noteq> 0" using s by simp
  then have g: "(if s > 0 then c_net_votes c + 1 else c_net_votes c - 1) = c_net_votes c + word_of_int (sgn s)" by simp
  have u: "vote_sum g j (comment_votes db') = vote_sum g j ?t + (if ?i = j then g v else 0)" for g j
    using vote_sum_create[OF v(1)] v(2) by simp
  have "view_ok (comment_votes db') ?i (c_net_rshares c + s, if s > 0 then c_net_votes c + 1 else c_net_votes c - 1,
       c_vote_rshares voted, c_total_vote_weight c + m, c_cashout_time c = time_maximum)"
    unfolding view_ok_def prod.case g using o b r(2) v r(1) by (auto simp: u)
  then show ?thesis
  proof (rule content_ok_update[OF ok f])
    show "\<forall>v\<in>set (rows (comment_votes db')). cv_comment v < next_id (comments db)"
      using ok v content_ok_id[OF ok c] by (auto simp: content_ok_def t_create_Inr)
  qed (simp add: u)
qed

lemma net_votes_change_sgn: "net_votes_change a b = word_of_int (sgn a - sgn b)"
  by (auto simp: net_votes_change_def sgn_if)

lemma vote_sum_nonneg: "(\<And>v. 0 \<le> g v) \<Longrightarrow> 0 \<le> vote_sum g i t"
  by (auto simp: vote_sum_def intro: t_sum_nonneg)

lemma vote_sum_member:
  assumes "t_find P t = Some v" "cv_comment v = i" "\<And>v. 0 \<le> g v"
  shows "g v \<le> vote_sum g i t"
proof -
  have "v \<in> set (rows t)" using assms(1) by (auto dest: t_find_Some)
  from sum_list_member[OF this, of "\<lambda>v. if cv_comment v = i then g v else 0"] assms(2,3) show ?thesis
    by (auto simp: vote_sum_def t_sum_def)
qed

lemma change_vote_form:
  assumes "change_vote c who p (cur, used, r) itr db = Inr db'" and c: "comment_at (c_id c) db = Some c"
    and itr: "find_vote (c_id c) (a_id who) db = Some itr"
  obtains s v where "s = (if p < 0 then - r else r)" "same_comments db db'"
    "counted db' = (counted db)(c_id c \<mapsto> (c_net_rshares c - cv_rshares itr + s,
       c_net_votes c + word_of_int (sgn s - sgn (cv_rshares itr)), c_vote_rshares c, c_total_vote_weight c - cv_weight itr,
       c_cashout_time c = time_maximum))"
    "t_modify (\<lambda>v. cv_comment v = c_id c \<and> cv_voter v = a_id who) (\<lambda>_. Inr v) (comment_votes db) = Inr (comment_votes db')"
    "cv_comment v = c_id c" "cv_voter v = a_id who" "cv_rshares v = s" "cv_weight v = 0"
proof -
  define s where "s = (if p < 0 then - r else r)"
  have k: "cv_comment itr = c_id c" "cv_voter itr = a_id who" using itr by (auto simp: find_vote_def dest: t_find_Some)
  obtain db1 db2 db3 db4 root vs where 1: "spend_power who cur used db = Inr db1"
    and 2: "modify_comment (c_id c) (\<lambda>c.
            bindE (safe_sub (c_net_rshares c) (cv_rshares itr)) (\<lambda>n.
            bindE (safe_add n s) (\<lambda>n.
            bindE (safe_add (c_abs_rshares c) r) (\<lambda>a.
              Inr (c\<lparr>c_net_rshares := n, c_abs_rshares := a,
                c_net_votes := c_net_votes c + net_votes_change s (cv_rshares itr)\<rparr>))))) db1 = Inr db2"
    and 3: "add_to_root (c_id (root :: comment_object)) r db2 = Inr db3"
    and 4: "modify_comment (c_id c) (\<lambda>c. Inr (c\<lparr>c_total_vote_weight := c_total_vote_weight c - cv_weight itr\<rparr>)) db3 = Inr db4"
    and 5: "t_modify (\<lambda>v. cv_comment v = c_id c \<and> cv_voter v = a_id who) (\<lambda>cv. Inr (cv\<lparr>cv_rshares := s,
            cv_vote_percent := word_of_int p, cv_last_update := head_block_time db4, cv_weight := 0,
            cv_num_changes := cv_num_changes cv + 1\<rparr>)) (comment_votes db4) = Inr vs" and db': "db' = db4\<lparr>comment_votes := vs\<rparr>"
    using assms(1) unfolding change_vote_def Let_def prod.case s_def[symmetric] k by (auto simp del: if_Inr)
  note f1 = modify_account_content[OF 1[unfolded spend_power_def]]
  have c1: "comment_at (c_id c) db1 = Some c" using f1 c by simp
  have m2: "same_comments db1 db2 \<and> comment_votes db2 = comment_votes db1 \<and> (\<exists>d c'. comment_at (c_id c) db1 = Some d \<and>
       bindE (safe_sub (c_net_rshares d) (cv_rshares itr)) (\<lambda>n.
            bindE (safe_add n s) (\<lambda>n.
            bindE (safe_add (c_abs_rshares d) r) (\<lambda>a.
              Inr (d\<lparr>c_net_rshares := n, c_abs_rshares := a,
                c_net_votes := c_net_votes d + net_votes_change s (cv_rshares itr)\<rparr>)))) = Inr c' \<and>
      comment_at (c_id c) db2 = Some c' \<and> counted db2 = (counted db1)(c_id c \<mapsto> view c'))"
    by (rule modify_comment_content[OF 2]) auto
  then have f2: "same_comments db1 db2" "comment_votes db2 = comment_votes db1"
    "counted db2 = (counted db1)(c_id c \<mapsto> (c_net_rshares c - cv_rshares itr + s,
      c_net_votes c + word_of_int (sgn s - sgn (cv_rshares itr)), c_vote_rshares c, c_total_vote_weight c, c_cashout_time c = time_maximum))"
    unfolding c1 option.inject by (auto simp: view_def net_votes_change_sgn dest!: safe_values)
  note f3 = add_to_root_content[OF 3]
  have m4: "same_comments db3 db4 \<and> comment_votes db4 = comment_votes db3 \<and> (\<exists>d c'. comment_at (c_id c) db3 = Some d \<and>
      Inr (d\<lparr>c_total_vote_weight := c_total_vote_weight d - cv_weight itr\<rparr>) = (Inr c' :: comment_object result) \<and>
      comment_at (c_id c) db4 = Some c' \<and> counted db4 = (counted db3)(c_id c \<mapsto> view c'))"
    by (rule modify_comment_content[OF 4]) auto
  then obtain d where d: "comment_at (c_id c) db3 = Some d" "same_comments db3 db4" "comment_votes db4 = comment_votes db3"
    "counted db4 = (counted db3)(c_id c \<mapsto> view (d\<lparr>c_total_vote_weight := c_total_vote_weight d - cv_weight itr\<rparr>))" by auto
  have "view d = (c_net_rshares c - cv_rshares itr + s, c_net_votes c + word_of_int (sgn s - sgn (cv_rshares itr)),
      c_vote_rshares c, c_total_vote_weight c, c_cashout_time c = time_maximum)" using counted_view[OF d(1)] f3 f2 by simp
  then have v: "counted db' = (counted db)(c_id c \<mapsto> (c_net_rshares c - cv_rshares itr + s,
       c_net_votes c + word_of_int (sgn s - sgn (cv_rshares itr)), c_vote_rshares c, c_total_vote_weight c - cv_weight itr,
       c_cashout_time c = time_maximum))"
    using d(4) f1 f2 f3 by (auto simp: db' view_def)
  let ?v = "itr\<lparr>cv_rshares := s, cv_vote_percent := word_of_int p, cv_last_update := head_block_time db4, cv_weight := 0,
     cv_num_changes := cv_num_changes itr + 1\<rparr>"
  show thesis
  proof (rule that[OF s_def _ v, of ?v])
    show "same_comments db db'" using f1 f2 f3 d(2) by (simp add: same_comments_def db' comment_ids_def)
    show "t_modify (\<lambda>v. cv_comment v = c_id c \<and> cv_voter v = a_id who) (\<lambda>_. Inr ?v) (comment_votes db) = Inr (comment_votes db')"
      using 5 itr f1 f2 f3 d(3) by (auto simp: t_modify_Inr db' find_vote_def)
  qed (simp_all add: k)
qed

lemma vote_sum_modify:
  assumes "t_modify P (\<lambda>_. Inr v) t = Inr t'" "t_find P t = Some u" "cv_comment u = cv_comment v"
  shows "vote_sum g i t' = vote_sum g i t + (if cv_comment v = i then g v - g u else 0)"
  using t_sum_modify[OF assms(1,2) refl] assms(3) by (simp add: vote_sum_def)

lemma change_vote_content:
  assumes "change_vote c who p (cur, used, r) itr db = Inr db'" and ok: "content_ok db" and c: "comment_at (c_id c) db = Some c"
    and itr: "find_vote (c_id c) (a_id who) db = Some itr"
  shows "content_ok db'"
proof -
  let ?i = "c_id c" and ?t = "comment_votes db"
  note o = content_ok_view[OF ok c, unfolded view_ok_def view_def prod.case]
  have k: "cv_comment itr = ?i" using itr by (auto simp: find_vote_def dest: t_find_Some)
  obtain s v where f: "same_comments db db'" "counted db' = (counted db)(?i \<mapsto> (c_net_rshares c - cv_rshares itr + s,
       c_net_votes c + word_of_int (sgn s - sgn (cv_rshares itr)), c_vote_rshares c, c_total_vote_weight c - cv_weight itr,
       c_cashout_time c = time_maximum))"
    and t: "t_modify (\<lambda>v. cv_comment v = ?i \<and> cv_voter v = a_id who) (\<lambda>_. Inr v) ?t = Inr (comment_votes db')"
    and v: "cv_comment v = ?i" "cv_rshares v = s" "cv_weight v = 0"
    by (rule change_vote_form[OF assms(1) c itr])
  have u: "vote_sum g j (comment_votes db') = vote_sum g j ?t + (if ?i = j then g v - g itr else 0)" for g j
    using vote_sum_modify[OF t itr[unfolded find_vote_def]] k v by simp
  have "cv_weight itr \<le> c_total_vote_weight c"
    using vote_sum_member[OF itr[unfolded find_vote_def] k, of "\<lambda>v. uint (cv_weight v)"] o by (simp add: word_le_def)
  then have w: "uint (c_total_vote_weight c - cv_weight itr) = uint (c_total_vote_weight c) - uint (cv_weight itr)"
    by (simp add: uint_minus_simple_alt word_le_def)
  then have w': "c_total_vote_weight c - cv_weight itr \<le> c_total_vote_weight c" by (simp add: word_le_def)
  have "view_ok (comment_votes db') ?i (c_net_rshares c - cv_rshares itr + s,
       c_net_votes c + word_of_int (sgn s - sgn (cv_rshares itr)), c_vote_rshares c, c_total_vote_weight c - cv_weight itr,
       c_cashout_time c = time_maximum)"
    unfolding view_ok_def prod.case using o v w order_trans[OF w'] by (auto simp: u)
  then show ?thesis
  proof (rule content_ok_update[OF ok f])
    show "\<forall>v\<in>set (rows (comment_votes db')). cv_comment v < next_id (comments db)"
      using ok v(1) t content_ok_id[OF ok c] set_upd_first by (fastforce simp: content_ok_def t_modify_Inr)
  qed (simp add: u)
qed

lemma vote_content:
  assumes "vote_evaluator op db = Inr db'" and ok: "content_ok db"
  shows "content_ok db'"
proof -
  obtain c who where c: "get_comment (ovo_author op) (ovo_permlink op) db = Inr c" and "find_account (ovo_voter op) db = Some who"
    using assms(1) by (auto simp: vote_evaluator_def)
  note at = get_comment_at[OF ok c]
  show ?thesis
  proof (cases "c_cashout_time c = time_maximum")
    case False
    then obtain cur used r where "vote_strength who (ovo_weight op) db = Inr (cur, used, r)"
      "case find_vote (c_id c) (a_id who) db of None \<Rightarrow> cast_vote c who (ovo_weight op) (cur, used, r) db = Inr db'
        | Some itr \<Rightarrow> change_vote c who (ovo_weight op) (cur, used, r) itr db = Inr db'"
      using assms(1) c \<open>find_account (ovo_voter op) db = Some who\<close> by (auto simp: vote_evaluator_def split: option.splits)
    then show ?thesis using cast_vote_content[OF _ ok at] change_vote_content[OF _ ok at] by (auto split: option.splits)
  qed (use assms c \<open>find_account (ovo_voter op) db = Some who\<close> in \<open>auto simp: vote_evaluator_def\<close>)
qed

text \<open>Operations that leave all views and votes alone.\<close>

definition same_content :: "database \<Rightarrow> database \<Rightarrow> bool" where
  "same_content db db' \<longleftrightarrow> same_comments db db' \<and> counted db' = counted db \<and> comment_votes db' = comment_votes db"

lemma same_content_refl [simp]: "same_content db db"
  by (simp add: same_content_def)

lemma same_content_trans: "same_content a b \<Longrightarrow> same_content b c \<Longrightarrow> same_content a c"
  by (auto simp: same_content_def intro: same_comments_trans)

lemma same_content_ok: "same_content db db' \<Longrightarrow> content_ok db \<Longrightarrow> content_ok db'"
  by (auto simp: same_content_def same_comments_def content_ok_def root_curve_def)

lemma modify_account_same: "modify_account n f db = Inr db' \<Longrightarrow> same_content db db'"
  using modify_account_content by (auto simp: same_content_def)

lemma modify_comment_same:
  assumes "modify_comment i f db = Inr db'" and "\<And>c c'. f c = Inr c' \<Longrightarrow> c_id c' = c_id c \<and> view c' = view c"
  shows "same_content db db'"
  using modify_comment_content_same[OF assms] by (simp add: same_content_def)

lemma foldE_same:
  assumes "foldE f xs s = Inr s'" and "\<And>x s s'. f x s = Inr s' \<Longrightarrow> same_content (g s) (g s')"
  shows "same_content (g s) (g s')"
  by (rule foldE_invariant[OF _ _ assms(1), where I = "\<lambda>t. same_content (g s) (g t)"])
    (auto intro: same_content_trans assms(2))

lemma touch_parent_same:
  assumes "touch_parent d p s = Inr s'"
  shows "same_content (snd s) (snd s')"
proof -
  have "modify_comment (c_id p) (\<lambda>p. Inr (p\<lparr>c_children := c_children p + d, c_active := head_block_time (snd s)\<rparr>)) (snd s) = Inr (snd s')"
    using assms by (auto simp: touch_parent_def Let_def split: if_splits)
  then show ?thesis by (rule modify_comment_same) (auto simp: view_def)
qed

lemma touch_ancestors_same:
  assumes "touch_ancestors d p db = Inr db'"
  shows "same_content db db'"
proof -
  obtain s where s: "drain (Suc (unat (c_depth p))) fst (touch_parent d) (Some p, db) = Inr s" "db' = snd s"
    using assms by (auto simp: touch_ancestors_def)
  have "same_content db (snd s)"
    by (rule drain_invariant[OF s(1), where I = "\<lambda>t. same_content db (snd t)"]) (auto intro: same_content_trans touch_parent_same)
  with s show ?thesis by simp
qed

lemma counted_row: "counted db i = map_option view (List.find (\<lambda>c. c_id c = i) (rows (comments db)))"
  by (simp add: counted_def comment_at_def t_find_def)

lemma counted_None: "i \<notin> set (comment_ids db) \<Longrightarrow> counted db i = None"
  by (force simp: counted_row comment_ids_def find_None_iff)

lemma find_snoc: "List.find P (xs @ [x]) = (case List.find P xs of None \<Rightarrow> if P x then Some x else None | Some y \<Rightarrow> Some y)"
  by (induction xs) auto

lemma vote_sum_filter: "vote_sum g i t = sum_list (map g (filter (\<lambda>v. cv_comment v = i) (rows t)))"
  by (simp add: vote_sum_def t_sum_def sum_list_map_filter')

lemma vote_sum_none: "\<forall>v \<in> set (rows t). cv_comment v \<noteq> i \<Longrightarrow> vote_sum g i t = 0"
  by (simp add: vote_sum_filter filter_empty_conv)

lemma content_ok_create:
  assumes ok: "content_ok db" and cs: "t_create clash f (comments db) = Inr cs"
    and c: "c_id (f (next_id (comments db))) = next_id (comments db)" "\<exists>p. view (f (next_id (comments db))) = (0, 0, 0, 0, p)"
  shows "content_ok (db\<lparr>comments := cs, comment_contents := ct\<rparr>)"
proof -
  let ?n = "next_id (comments db)" and ?db = "db\<lparr>comments := cs, comment_contents := ct\<rparr>"
  have n: "\<forall>i \<in> set (comment_ids db). i < ?n" "\<forall>v \<in> set (rows (comment_votes db)). cv_comment v < ?n"
    using ok by (auto simp: content_ok_def)
  have cs': "next_id cs = Suc ?n" "rows cs = rows (comments db) @ [f ?n]" using cs by (auto simp: t_create_Inr)
  have z: "vote_sum g ?n (comment_votes db) = 0" for g
    using n(2) by (intro vote_sum_none) auto
  have "counted ?db i = (if i = ?n then Some (view (f ?n)) else counted db i)" for i
    using counted_None[of ?n db] n(1) c(1) by (force simp: counted_row cs' find_snoc split: option.splits)
  moreover obtain p where "view (f ?n) = (0, 0, 0, 0, p)" using c(2) by blast
  moreover have "comment_ids ?db = comment_ids db @ [?n]" by (simp add: comment_ids_def cs' c(1))
  ultimately show ?thesis
    using ok n by (auto simp: content_ok_def cs' z view_ok_def root_curve_def less_Suc_eq int64_max_def split: if_splits)
qed

lemma create_comment_content:
  assumes "create_comment op auth parent db = Inr db'" and ok: "content_ok db"
  shows "content_ok db'"
proof -
  obtain db1 cs ct where 1: "modify_account (a_name auth) (\<lambda>a. Inr
          ((if parent = None then a\<lparr>a_last_root_post := head_block_time db, a_post_bandwidth := a_post_bandwidth auth\<rparr> else a)
            \<lparr>a_last_post := head_block_time db, a_post_count := a_post_count a + 1\<rparr>)) db = Inr db1"
    and cs: "t_create comment_clash (written_comment op parent (head_block_time db)) (comments db1) = Inr cs"
    and r: "(case parent of None \<Rightarrow> Inr (db1\<lparr>comments := cs, comment_contents := ct\<rparr>)
      | Some p \<Rightarrow> touch_ancestors 1 p (db1\<lparr>comments := cs, comment_contents := ct\<rparr>)) = Inr db'"
    using assms(1) unfolding create_comment_def Let_def by auto
  have "content_ok db1" by (rule same_content_ok[OF modify_account_same[OF 1] ok])
  then have "content_ok (db1\<lparr>comments := cs, comment_contents := ct\<rparr>)"
    by (rule content_ok_create[OF _ cs]) (auto simp: written_comment_def new_comment_def view_def Let_def split: option.splits)
  with r show ?thesis by (auto split: option.splits dest: touch_ancestors_same intro: same_content_ok)
qed

lemma edit_comment_content:
  assumes "edit_comment patched op c parent db = Inr db'" and ok: "content_ok db"
  shows "content_ok db'"
proof -
  obtain db1 ct where 1: "modify_comment (c_id c) (\<lambda>com.
         fc_assert (c_parent_author com = (if parent = None then '''' else oco_parent_author op))
         (fc_assert (strcmp_equal (c_parent_permlink com) (oco_parent_permlink op))
         (Inr (com\<lparr>c_last_update := head_block_time db, c_active := head_block_time db\<rparr>)))) db = Inr db1"
    and db': "db' = db1\<lparr>comment_contents := ct\<rparr>"
    using assms(1) unfolding edit_comment_def by auto
  have "same_content db db1" by (rule modify_comment_same[OF 1]) (auto simp: view_def)
  moreover have "same_content db1 db'" by (simp add: db' same_content_def same_comments_def)
  ultimately show ?thesis using same_content_ok[OF same_content_trans ok] by blast
qed

lemma comment_content:
  assumes "comment_evaluator tc patched op db = Inr db'" and "content_ok db"
  shows "content_ok db'"
  using assms by (auto simp: comment_evaluator_def split: option.splits dest: create_comment_content edit_comment_content)

text \<open>Removing the votes of a comment, together with the comment or while its counters are reset.\<close>

lemma remove_votes_frame [simp]:
  "comments (remove_votes i db) = comments db" "reward_funds (remove_votes i db) = reward_funds db"
  "head_block_time (remove_votes i db) = head_block_time db" "comment_at j (remove_votes i db) = comment_at j db"
  "counted (remove_votes i db) = counted db" "comment_ids (remove_votes i db) = comment_ids db"
  by (simp_all add: remove_votes_def)

lemma remove_votes_sum: "vote_sum g j (comment_votes (remove_votes i db)) = (if j = i then 0 else vote_sum g j (comment_votes db))"
proof -
  have "filter (\<lambda>v. cv_comment v \<noteq> i \<and> cv_comment v = j) vs = (if j = i then [] else filter (\<lambda>v. cv_comment v = j) vs)"
    for vs :: "comment_vote_object list" by (induction vs) auto
  then show ?thesis by (auto simp: remove_votes_def vote_sum_filter conj_commute)
qed

lemma remove_votes_rows: "set (rows (comment_votes (remove_votes i db))) \<subseteq> set (rows (comment_votes db))"
  by (auto simp: remove_votes_def)

lemma find_del_other: "i \<noteq> j \<Longrightarrow> List.find (\<lambda>c. c_id c = i) (del_first (\<lambda>c. c_id c = j) cs) = List.find (\<lambda>c. c_id c = i) cs"
  by (induction cs) auto

lemma del_ids: "map c_id (del_first (\<lambda>c. c_id c = j) cs) = remove1 j (map c_id cs)"
  by (induction cs) auto

lemma delete_comment_content:
  assumes "delete_comment_evaluator op db = Inr db'" and ok: "content_ok db"
  shows "content_ok db'"
proof -
  obtain c db1 where c: "get_comment (odc_author op) (odc_permlink op) db = Inr c"
    and 1: "(if c_parent_author c \<noteq> '''' then
               bindE (get_comment (c_parent_author c) (c_parent_permlink c) (remove_votes (c_id c) db)) (\<lambda>parent.
                 touch_ancestors (- 1) parent (remove_votes (c_id c) db))
             else Inr (remove_votes (c_id c) db)) = Inr db1"
    and db': "db' = db1\<lparr>comments := t_remove (\<lambda>d. c_id d = c_id c) (comments db1)\<rparr>"
    using assms(1) unfolding delete_comment_evaluator_def Let_def by (auto simp del: if_Inr)
  let ?i = "c_id c"
  have s: "same_content (remove_votes ?i db) db1"
    using 1 by (auto split: if_splits dest: touch_ancestors_same)
  then have d: "distinct (comment_ids db1)" "comment_ids db1 = comment_ids db" "counted db1 = counted db"
    using ok by (auto simp: same_content_def same_comments_def content_ok_def)
  have ids: "comment_ids db' = remove1 ?i (comment_ids db1)"
    by (simp add: db' comment_ids_def t_remove_def del_ids)
  have "counted db' j = (if j = ?i then None else counted db j)" for j
  proof (cases "j = ?i")
    case True
    then have "j \<notin> set (comment_ids db')" using ids d(1) by simp
    then show ?thesis using True by (simp add: counted_None)
  qed (use d(3) in \<open>simp add: db' counted_row t_remove_def find_del_other fun_eq_iff\<close>)
  moreover have "root_curve db'" "next_id (comments db') = next_id (comments db)" "comment_votes db' = comment_votes (remove_votes ?i db)"
    using s ok by (auto simp: db' same_content_def same_comments_def content_ok_def root_curve_def t_remove_def)
  ultimately show ?thesis
    using ok d ids remove_votes_rows[of ?i db] by (auto simp: content_ok_def view_ok_def remove_votes_sum split: if_splits dest: notin_set_remove1)
qed

lemma comment_options_content:
  assumes "comment_options_evaluator op db = Inr db'" and ok: "content_ok db"
  shows "content_ok db'"
proof -
  obtain c db1 where 1: "modify_comment (c_id (c :: comment_object)) (\<lambda>c. Inr (c\<lparr>c_max_accepted_payout := ocop_max_accepted_payout op,
          c_percent_gamebank_dollars := ocop_percent_gamebank_dollars op, c_allow_votes := ocop_allow_votes op,
          c_allow_curation_rewards := ocop_allow_curation_rewards op\<rparr>)) db = Inr db1"
    and 2: "foldE (set_beneficiaries (c_id c)) (ocop_beneficiaries op) db1 = Inr db'"
    using assms(1) unfolding comment_options_evaluator_def fc_assertE_def by (auto simp del: if_Inr)
  have "same_content db db1" by (rule modify_comment_same[OF 1]) (auto simp: view_def)
  moreover have "same_content db1 db'"
  proof (rule foldE_same[OF 2, where g = "\<lambda>x. x"])
    fix bs db db'
    assume b: "set_beneficiaries (c_id c) bs db = Inr db'"
    have f: "c_id c'' = c_id c' \<and> view c'' = view c'" if "foldE (add_beneficiary db) bs c' = Inr c''" for c' c''
      by (rule foldE_invariant[OF _ _ that]) (auto simp: add_beneficiary_def view_def)
    show "same_content db db'"
      by (rule modify_comment_same[OF b[unfolded set_beneficiaries_def]]) (auto dest: f)
  qed
  ultimately show ?thesis using same_content_ok[OF same_content_trans ok] by blast
qed

section \<open>Payouts keep the counters\<close>

text \<open>
  A payout changes comments only in their payout fields, until the paid comment is reset. \<open>unpaid\<close> forgets
  these fields; any other observation of a comment factors through it.
\<close>

definition unpaid :: "comment_object \<Rightarrow> comment_object" where
  "unpaid c = c\<lparr>c_total_payout_value := GBC 0, c_curator_payout_value := GBC 0, c_beneficiary_payout_value := GBC 0, c_author_rewards := 0\<rparr>"

definition only_payouts :: "database \<Rightarrow> database \<Rightarrow> bool" where
  "only_payouts db db' \<longleftrightarrow> map unpaid (rows (comments db')) = map unpaid (rows (comments db)) \<and> next_id (comments db') = next_id (comments db) \<and>
     comment_votes db' = comment_votes db \<and> reward_funds db' = reward_funds db \<and> head_block_time db' = head_block_time db"

lemma only_payouts_refl [simp]: "only_payouts db db"
  by (simp add: only_payouts_def)

lemma only_payouts_trans: "only_payouts a b \<Longrightarrow> only_payouts b c \<Longrightarrow> only_payouts a c"
  by (simp add: only_payouts_def)

lemma map_modify:
  assumes "modify_comment i f db = Inr db'" and "\<And>c c'. f c = Inr c' \<Longrightarrow> V c' = V c"
  shows "map V (rows (comments db')) = map V (rows (comments db)) \<and> (\<exists>t. db' = db\<lparr>comments := t\<rparr> \<and> next_id t = next_id (comments db))"
proof -
  obtain c c' where c: "t_find (\<lambda>c. c_id c = i) (comments db) = Some c" "f c = Inr c'"
    and db': "db' = db\<lparr>comments := (comments db)\<lparr>rows := upd_first (\<lambda>c. c_id c = i) c' (rows (comments db))\<rparr>\<rparr>"
    using assms(1) by (auto simp: modify_comment_def t_modify_Inr)
  have "List.find P cs = Some c \<Longrightarrow> map V (upd_first P c' cs) = map V cs" for P cs
    by (induction cs) (auto simp: assms(2)[OF c(2)] split: if_splits)
  from this[OF c(1)[unfolded t_find_def]] db' show ?thesis
    by (auto intro!: exI[of _ "(comments db)\<lparr>rows := upd_first (\<lambda>c. c_id c = i) c' (rows (comments db))\<rparr>"])
qed

lemma modify_comment_payouts:
  assumes "modify_comment i f db = Inr db'" and "\<And>c c'. f c = Inr c' \<Longrightarrow> unpaid c' = unpaid c"
  shows "only_payouts db db'"
  using map_modify[OF assms(1), of unpaid] assms(2) by (auto simp: only_payouts_def)

lemma find_same_view:
  assumes "map V xs = map V ys" "\<And>x y. V x = V y \<Longrightarrow> P x = P y \<and> W x = W y"
  shows "map_option W (List.find P xs) = map_option W (List.find P ys)"
  using assms(1)
proof (induction xs arbitrary: ys)
  case (Cons x xs)
  then obtain y zs where "ys = y # zs" "V x = V y" "map V xs = map V zs" by auto
  then show ?case using Cons.IH assms(2)[of x y] by auto
qed simp

lemma unpaid_views: "unpaid x = unpaid y \<Longrightarrow> c_id x = c_id y \<and> view x = view y"
  by (auto simp: unpaid_def view_def dest!: arg_cong[where f = "\<lambda>c. (c_id c, view c)"])

lemma only_payouts_content:
  assumes "only_payouts db db'"
  shows "same_content db db'"
proof -
  have m: "map unpaid (rows (comments db')) = map unpaid (rows (comments db))" using assms by (simp add: only_payouts_def)
  have "counted db' i = counted db i" for i
    unfolding counted_row by (rule find_same_view[OF m]) (auto dest: unpaid_views)
  moreover have "comment_ids db' = comment_ids db"
  proof -
    have "map c_id (map unpaid cs) = map c_id cs" for cs by (induction cs) (auto simp: unpaid_def)
    with m show ?thesis by (metis comment_ids_def)
  qed
  ultimately show ?thesis using assms by (auto simp: same_content_def same_comments_def only_payouts_def)
qed

lemma modify_account_payouts: "modify_account n f db = Inr db' \<Longrightarrow> only_payouts db db'"
  by (auto simp: only_payouts_def dest!: modify_account_frame)

lemma foldE_payouts:
  assumes "foldE f xs s = Inr s'" and "\<And>x s s'. f x s = Inr s' \<Longrightarrow> only_payouts (g s) (g s')"
  shows "only_payouts (g s) (g s')"
  by (rule foldE_invariant[OF _ _ assms(1), where I = "\<lambda>t. only_payouts (g s) (g t)"])
    (auto intro: only_payouts_trans assms(2))

lemma create_vesting_payouts:
  assumes "create_vesting n (GBC x) True db = Inr (nv, db')"
  shows "only_payouts db db'"
proof -
  have "comments db' = comments db \<and> comment_votes db' = comment_votes db \<and> reward_funds db' = reward_funds db \<and>
      head_block_time db' = head_block_time db"
    using assms by (auto simp: create_vesting_def modify_dgpo_def adjust_reward_balance_def modify_reward_balance_def
        dest!: modify_account_frame)
  then show ?thesis by (simp add: only_payouts_def)
qed

lemma adjust_balance_payouts: "adjust_balance n (GBC x) db = Inr db' \<Longrightarrow> only_payouts db db'"
  by (auto simp: adjust_balance_def modify_balance_def dest: modify_account_payouts)

lemma pay_curator_payouts: "pay_curator m w item s = Inr s' \<Longrightarrow> only_payouts (snd s) (snd s')"
  by (auto simp: pay_curator_def split: prod.splits if_splits
      intro: only_payouts_trans dest!: create_vesting_payouts modify_account_payouts)

lemma pay_beneficiary_payouts: "pay_beneficiary m b s = Inr s' \<Longrightarrow> only_payouts (snd s) (snd s')"
  by (auto simp: pay_beneficiary_def split: prod.splits dest!: create_vesting_payouts)

lemma pay_curators_payouts:
  assumes "pay_curators c m db = Inr (x, db')"
  shows "only_payouts db db'"
proof (cases "c_allow_curation_rewards c \<and> c_total_vote_weight c > 0")
  case True
  then obtain u where f: "foldE (pay_curator m (ucast (c_total_vote_weight c))) (by_weight (comment_votes_of (c_id c) db)) (m, db) = Inr (u, db')"
    using assms by (auto simp: pay_curators_def)
  from foldE_payouts[OF f, where g = snd] show ?thesis using pay_curator_payouts by fastforce
qed (use assms in \<open>auto simp: pay_curators_def split: if_splits\<close>)

lemma pay_author_payouts:
  assumes "pay_author c t k b db = Inr db'"
  shows "only_payouts db db'"
proof -
  obtain g v nv db1 db2 db3 db4 where h: "create_vesting (c_author c) (GBC v) True db = Inr (nv, db1)"
      "adjust_balance (c_author c) (GBC g) db1 = Inr db2" "adjust_total_payout (c_id c) (GBC g) (GBC k) (GBC b) db2 = Inr db3"
      "modify_comment (c_id c) (\<lambda>c. bindE (safe_add (c_author_rewards c) t) (\<lambda>r. Inr (c\<lparr>c_author_rewards := r\<rparr>))) db3 = Inr db4"
    and a: "modify_account (c_author c) (\<lambda>a. bindE (safe_add (a_posting_rewards a) t) (\<lambda>r. Inr (a\<lparr>a_posting_rewards := r\<rparr>))) db4 = Inr db'"
    using assms unfolding pay_author_def by auto
  have "only_payouts db2 db3" by (rule modify_comment_payouts[OF h(3)[unfolded adjust_total_payout_def]]) (auto simp: unpaid_def)
  moreover have "only_payouts db3 db4" by (rule modify_comment_payouts[OF h(4)]) (auto simp: unpaid_def)
  ultimately show ?thesis
    using create_vesting_payouts[OF h(1)] adjust_balance_payouts[OF h(2)] modify_account_payouts[OF a] by (blast intro: only_payouts_trans)
qed

lemma pay_comment_payouts:
  assumes "pay_comment ctx c fwd db = Inr (claimed, db')"
  shows "only_payouts db db'"
proof -
  obtain rf reward where r: "get_reward_fund db = Inr rf" "get_rshare_reward (ctx\<lparr>crc_rshares := c_net_rshares c,
      crc_reward_weight := c_reward_weight c, crc_max_gbd := c_max_accepted_payout c,
      crc_reward_curve := rf_author_reward_curve rf, crc_content_constant := rf_content_constant rf\<rparr>) = Inr reward"
    using assms by (auto simp: pay_comment_def)
  show ?thesis
  proof (cases "reward > 0")
    case True
    then obtain cur x db1 t b k db2 where k: "pay_curators c cur db = Inr (x, db1)"
      and b: "foldE (pay_beneficiary t) (c_beneficiaries c) (0, db1) = Inr (b, db2)" and a: "pay_author c (t - b) k b db2 = Inr db'"
      using assms r by (auto simp: pay_comment_def dest!: safe_values)
    have "only_payouts db1 db2" using foldE_payouts[OF b, where g = snd] pay_beneficiary_payouts by fastforce
    then show ?thesis using pay_curators_payouts[OF k] pay_author_payouts[OF a] by (blast intro: only_payouts_trans)
  qed (use assms r in \<open>auto simp: pay_comment_def\<close>)
qed

lemma cashout_helper_content:
  assumes "cashout_comment_helper ctx c fwd db = Inr (claimed, db')" and ok: "content_ok db"
  shows "content_ok db' \<and> reward_funds db' = reward_funds db"
proof -
  obtain db1 db2 where 0: "(if c_net_rshares c > 0 then pay_comment ctx c fwd db else Inr (0, db)) = Inr (claimed, db1)"
    and 2: "modify_comment (c_id c) (\<lambda>c. Inr (reset_comment (head_block_time db1) c)) db1 = Inr db2"
    and 3: "db' = remove_votes (c_id c) db2"
    using assms(1) unfolding cashout_comment_helper_def bindE_Inr remove_votes_def by auto
  have s: "same_content db db1" using 0 by (auto split: if_splits dest!: pay_comment_payouts only_payouts_content)
  then have ok1: "content_ok db1" by (rule same_content_ok[OF _ ok])
  obtain d where f: "same_comments db1 db2" "comment_votes db2 = comment_votes db1"
    "counted db2 = (counted db1)(c_id c \<mapsto> view (reset_comment (head_block_time db1) d))"
    using modify_comment_content[OF 2] by (auto simp: reset_comment_def)
  have "content_ok db'"
  proof (rule content_ok_update[OF ok1])
    show "same_comments db1 db'" using f(1) by (simp add: 3 same_comments_def)
    show "counted db' = (counted db1)(c_id c \<mapsto> view (reset_comment (head_block_time db1) d))" by (simp add: 3 f(3))
    show "view_ok (comment_votes db') (c_id c) (view (reset_comment (head_block_time db1) d))"
      by (simp add: view_ok_def view_def reset_comment_def 3 remove_votes_sum int64_max_def)
    show "vote_sum g j (comment_votes db') = vote_sum g j (comment_votes db1)" if "j \<noteq> c_id c" for j g
      using that by (simp add: 3 remove_votes_sum f(2))
    show "\<forall>v\<in>set (rows (comment_votes db')). cv_comment v < next_id (comments db1)"
      using ok1 remove_votes_rows[of "c_id c" db2] f(2) by (auto simp: 3 content_ok_def)
  qed
  then show ?thesis using s f(1) by (simp add: 3 same_content_def same_comments_def)
qed

lemma content_ok_funds:
  assumes "content_ok db" "\<forall>f \<in> set fs. rf_curation_reward_curve f = square_root"
  shows "content_ok (db\<lparr>reward_funds := (reward_funds db)\<lparr>rows := fs\<rparr>\<rparr>)"
  using assms by (simp add: content_ok_def root_curve_def)

lemma write_fund_curve:
  assumes "foldE write_fund ps done = Inr fs" and "\<forall>f \<in> set done. rf_curation_reward_curve f = square_root"
    and "\<forall>p \<in> set ps. rf_curation_reward_curve (fst p) = square_root"
  shows "\<forall>f \<in> set fs. rf_curation_reward_curve f = square_root"
  using assms
proof (induction ps arbitrary: "done")
  case (Cons p ps)
  obtain rfo f where p: "p = (rfo, f)" by fastforce
  obtain b where "asset_sub (rf_reward_balance rfo) (GBC (rfc_gbc_awarded f)) = Inr b"
    and r: "foldE write_fund ps (done @ [rfo\<lparr>rf_recent_claims := rfc_recent_claims f, rf_reward_balance := b\<rparr>]) = Inr fs"
    using Cons.prems(1) by (auto simp: p write_fund_def[of "(rfo, f)"])
  show ?case by (rule Cons.IH[OF r]) (use Cons.prems p in auto)
qed simp

lemma process_comment_cashout_content:
  assumes "process_comment_cashout db = Inr db'" and ok: "content_ok db"
  shows "content_ok db'"
proof -
  define fs where "fs = map (decay_fund (head_block_time db)) (rows (reward_funds db))"
  define db0 where "db0 = db\<lparr>reward_funds := (reward_funds db)\<lparr>rows := fs\<rparr>\<rparr>"
  obtain funds funds' db1 fs' where d: "drain (t_size (comments db0)) next_cashout cashout_step (funds, db0) = Inr (funds', db1)"
    and w: "foldE write_fund (zip (rows (reward_funds db1)) funds') [] = Inr fs'"
    and db': "db' = db1\<lparr>reward_funds := (reward_funds db1)\<lparr>rows := fs'\<rparr>\<rparr>"
    using assms(1) by (auto simp: process_comment_cashout_def Let_def fs_def db0_def)
  have "content_ok db0"
    unfolding db0_def using ok by (intro content_ok_funds) (auto simp: fs_def decay_fund_def content_ok_def root_curve_def)
  then have "content_ok (snd (funds, db0))" by simp
  then have "content_ok (snd (funds', db1))"
  proof (rule drain_invariant[OF d, where I = "\<lambda>s. content_ok (snd s)"])
    fix c s s'
    assume "cashout_step c s = Inr s'" "content_ok (snd s)"
    then show "content_ok (snd s')" by (auto simp: cashout_step_def Let_def split: prod.splits dest: cashout_helper_content)
  qed
  then have 1: "content_ok db1" by simp
  then have "\<forall>f \<in> set fs'. rf_curation_reward_curve f = square_root"
    by (intro write_fund_curve[OF w]) (auto simp: content_ok_def root_curve_def dest: set_zip_leftD)
  then show ?thesis unfolding db' by (rule content_ok_funds[OF 1])
qed

section \<open>Every sequence of operations\<close>

text \<open>
  A step of the chain as far as comments are concerned: one of the operations above (an operation is
  applied only after its validation), a payout, or anything that leaves the tables of comments and votes and the curation curves of the funds alone, as
  every other operation does.
\<close>

inductive content_step :: "database \<Rightarrow> database \<Rightarrow> bool" where
  written: "comment_validate tc op = Inr () \<Longrightarrow> comment_evaluator tc patched op db = Inr db' \<Longrightarrow> content_step db db'"
| restricted: "comment_options_evaluator opt db = Inr db' \<Longrightarrow> content_step db db'"
| deleted: "delete_comment_evaluator del db = Inr db' \<Longrightarrow> content_step db db'"
| voted: "vote_evaluator vop db = Inr db' \<Longrightarrow> content_step db db'"
| paid_out: "process_comment_cashout db = Inr db' \<Longrightarrow> content_step db db'"
| elsewhere: "comments db' = comments db \<Longrightarrow> comment_votes db' = comment_votes db \<Longrightarrow>
    map rf_curation_reward_curve (rows (reward_funds db')) = map rf_curation_reward_curve (rows (reward_funds db)) \<Longrightarrow> content_step db db'"

lemma root_curve_map: "root_curve db \<longleftrightarrow> set (map rf_curation_reward_curve (rows (reward_funds db))) \<subseteq> {square_root}"
  by (auto simp: root_curve_def)

lemma content_step_keeps: "content_step db db' \<Longrightarrow> content_ok db \<Longrightarrow> content_ok db'"
proof (induction rule: content_step.induct)
  case (elsewhere db' db)
  then have "counted db' = counted db" "comment_ids db' = comment_ids db" by (simp_all add: fun_eq_iff counted_row comment_ids_def)
  with elsewhere show ?case by (simp add: content_ok_def root_curve_map)
qed (auto dest: comment_content comment_options_content delete_comment_content vote_content process_comment_cashout_content)

lemma content_reached:
  assumes "content_step\<^sup>*\<^sup>* db0 db" and "rows (comments db0) = []" "rows (comment_votes db0) = []" "root_curve db0"
  shows "content_ok db"
  using assms(1)
proof (induction rule: rtranclp_induct)
  case base
  have "counted db0 = (\<lambda>_. None)" using assms(2) by (simp add: fun_eq_iff counted_row)
  then show ?case using assms by (simp add: content_ok_def comment_ids_def)
qed (auto intro: content_step_keeps)

lemma comment_counters:
  assumes "content_ok db" "get_comment a p db = Inr c"
  shows "(c_cashout_time c \<noteq> time_maximum \<longrightarrow>
      c_net_rshares c = sum_list (map cv_rshares (comment_votes_of (c_id c) db)) \<and>
      c_net_votes c = word_of_int (sum_list (map (\<lambda>v. sgn (cv_rshares v)) (comment_votes_of (c_id c) db)))) \<and>
    weights (comment_votes_of (c_id c) db) \<le> uint (c_total_vote_weight c)"
  using content_ok_view[OF assms(1) get_comment_at[OF assms]]
  by (simp add: view_ok_def view_def vote_sum_filter weights_def comment_votes_of_def)


text \<open>
  C37. Curators are never paid more than their share. In every state reached from one without comments, for
  every comment and every share \<open>m\<close>, what \<^verbatim>\<open>pay_curators\<close> hands out lies between nothing and \<open>m\<close>, the rest
  is returned, and what is handed out is exactly what leaves the reserve.
\<close>

theorem curators_never_overpaid:
  assumes "content_step\<^sup>*\<^sup>* db0 db" and "rows (comments db0) = []" "rows (comment_votes db0) = []" "root_curve db0"
    and "get_comment author permlink db = Inr c" and "0 \<le> m" "m \<le> int64_max"
    and "pay_curators c m db = Inr ((unclaimed, claimed), db')"
  shows "0 \<le> claimed \<and> claimed \<le> m \<and> 0 \<le> unclaimed \<and> (c_allow_curation_rewards c \<longrightarrow> claimed + unclaimed = m) \<and>
    gap Liquid db' + gap Pending db' = gap Liquid db + gap Pending db - claimed"
  using curators_within_share[OF assms(8,6,7)] comment_counters[OF content_reached[OF assms(1-4)] assms(5)] by blast

section \<open>A concrete discussion\<close>

definition quiet_db :: database where
  "quiet_db = paying_db\<lparr>comments := empty_table, comment_votes := empty_table,
     accounts := \<lparr>next_id = 2, rows = [(new_account 0)\<lparr>a_name := ''alice''\<rparr>,
       (new_account 1)\<lparr>a_name := ''bob'', a_vesting_shares := GBS 1000000000000\<rparr>]\<rparr>,
     reward_funds := \<lparr>next_id = 1, rows = [post_fund]\<rparr>,
     dgpo := (dgpo paying_db)\<lparr>dgp_time := 1000, vote_power_reserve_rate := 10\<rparr>\<rparr>"

definition later_by :: "time_point_sec \<Rightarrow> database \<Rightarrow> database" where
  "later_by d db = db\<lparr>dgpo := (dgpo db)\<lparr>dgp_time := dgp_time (dgpo db) + d\<rparr>\<rparr>"

definition plain_text :: text_checks where "plain_text = \<lparr>is_utf8 = (\<lambda>_. True), json_is_valid = (\<lambda>_. True)\<rparr>"

definition alice_writes :: comment_operation where
  "alice_writes = \<lparr>oco_parent_author = '''', oco_parent_permlink = ''news'', oco_author = ''alice'', oco_permlink = ''post'',
     oco_title = ''t'', oco_body = ''b'', oco_json_metadata = ''''\<rparr>"

definition bob_votes :: vote_operation where
  "bob_votes = \<lparr>ovo_voter = ''bob'', ovo_author = ''alice'', ovo_permlink = ''post'', ovo_weight = 10000\<rparr>"

definition discussion :: "database result" where
  "discussion = bindE (comment_evaluator plain_text (\<lambda>_ _. None) alice_writes quiet_db) (\<lambda>db. vote_evaluator bob_votes (later_by 3600 db))"

lemma alice_valid: "is_valid_account_name ''alice''"
  by code_simp

lemma discussion_reached:
  assumes "discussion = Inr db"
  shows "content_step\<^sup>*\<^sup>* quiet_db db"
proof -
  obtain db1 where 1: "comment_evaluator plain_text (\<lambda>_ _. None) alice_writes quiet_db = Inr db1"
    and 2: "vote_evaluator bob_votes (later_by 3600 db1) = Inr db"
    using assms by (auto simp: discussion_def)
  have "content_step db1 (later_by 3600 db1)" by (rule content_step.elsewhere) (simp_all add: later_by_def)
  moreover have "comment_validate plain_text alice_writes = Inr ()"
    by (simp add: comment_validate_def alice_writes_def plain_text_def validate_account_name_def alice_valid concrete validate_permlink_def)
  ultimately show ?thesis
    by (meson content_step.written[OF _ 1] content_step.voted[OF 2] converse_rtranclp_into_rtranclp rtranclp.rtrancl_refl)
qed

lemma quiet_start: "rows (comments quiet_db) = []" "rows (comment_votes quiet_db) = []" "root_curve quiet_db"
  by (simp_all add: quiet_db_def empty_table_def root_curve_def post_fund_def)

lemmas discussion_eval = concrete paying_run discussion_def quiet_db_def later_by_def alice_writes_def bob_votes_def plain_text_def
  comment_evaluator_def create_comment_def check_post_interval_def validate_permlink_0_1_def GAMEBANK_MIN_PERMLINK_LENGTH_def GAMEBANK_MAX_PERMLINK_LENGTH_def written_comment_def
  vote_evaluator_def get_comment_def find_comment_def same_permlink_def c_str_def vote_strength_def
  get_effective_vesting_shares_def GAMEBANK_VOTE_REGENERATION_SECONDS_def find_vote_def cast_vote_def spend_power_def
  get_comment_by_id_def add_to_root_def curation_weight_def approx_sqrt_def find_msb_def msb_nat.simps comment_clash_def

lemma discussion_paid:
  "returning (bindE discussion (\<lambda>db. bindE (get_comment ''alice'' ''post'' db) (\<lambda>c. bindE (pay_curators c 1000 db) (\<lambda>p. Inr (db, c, p)))))
    (\<lambda>(db, c, p). c_net_votes c = 1 \<and> c_cashout_time c \<noteq> time_maximum \<and> fst p = (0, 1000))"
  by (simp add: discussion_eval returning_def cong: eager)


theorem curators_never_overpaid_witness:
  "\<exists>db c k u db'. content_step\<^sup>*\<^sup>* quiet_db db \<and> get_comment ''alice'' ''post'' db = Inr c \<and>
    pay_curators c 1000 db = Inr ((u, k), db') \<and> k = 1000 \<and> k \<le> 1000"
proof -
  obtain db c u k db' where r: "discussion = Inr db" "get_comment ''alice'' ''post'' db = Inr c" "pay_curators c 1000 db = Inr ((u, k), db')" "k = 1000"
    using returningD[OF discussion_paid] by auto
  from curators_never_overpaid[OF discussion_reached[OF r(1)] quiet_start r(2) _ _ r(3)] discussion_reached[OF r(1)] r
  show ?thesis by (auto simp: int64_max_def)
qed

end
