(* ===== verification/Discussion.thy ===== *)
theory Discussion
  imports Comments
begin

text \<open>
  The discussion tree. Replies name their parent by author and permlink; the evaluators of theory
  \<open>Comments\<close> walk from a new or deleted comment up to the root and count it in every ancestor. This theory
  shows that the links always form a tree in which a walk of that kind ends, that the recorded number of
  replies of a comment is exact, and that a comment is therefore deleted only when nothing hangs on it.
\<close>

section \<open>Links\<close>

definition link :: "comment_object \<Rightarrow> nat \<times> string \<times> string \<times> string \<times> string \<times> 16 word \<times> nat" where
  "link c = (c_id c, c_author c, c_permlink c, c_parent_author c, c_parent_permlink c, c_depth c, c_root_comment c)"

definition parent_of :: "database \<Rightarrow> comment_object \<Rightarrow> comment_object option" where
  "parent_of db c = (if c_parent_author c = '''' then None else find_comment (c_parent_author c) (c_parent_permlink c) db)"

fun climb :: "nat \<Rightarrow> database \<Rightarrow> comment_object \<Rightarrow> nat list" where
  "climb 0 db c = []"
| "climb (Suc n) db c = (case parent_of db c of None \<Rightarrow> [] | Some p \<Rightarrow> c_id p # climb n db p)"

definition ancestors :: "database \<Rightarrow> comment_object \<Rightarrow> nat list" where
  "ancestors db c = climb (unat (c_depth c)) db c"

text \<open>The comments that have a given comment among their ancestors.\<close>

definition replies :: "database \<Rightarrow> nat \<Rightarrow> nat" where
  "replies db i = length (filter (\<lambda>d. i \<in> set (ancestors db d)) (rows (comments db)))"

definition placed :: "database \<Rightarrow> comment_object \<Rightarrow> bool" where
  "placed db c \<longleftrightarrow> c_author c \<noteq> '''' \<and>
     (if c_parent_author c = '''' then c_depth c = 0 \<and> c_root_comment c = c_id c
      else \<exists>p. find_comment (c_parent_author c) (c_parent_permlink c) db = Some p \<and>
        unat (c_depth c) = Suc (unat (c_depth p)) \<and> c_root_comment c = c_root_comment p)"

definition permlink_key :: "comment_object \<Rightarrow> string \<times> string" where
  "permlink_key c = (c_author c, c_str (c_permlink c))"

definition tree_ok :: "database \<Rightarrow> bool" where
  "tree_ok db \<longleftrightarrow> distinct (comment_ids db) \<and> (\<forall>i \<in> set (comment_ids db). i < next_id (comments db)) \<and>
     distinct (map permlink_key (rows (comments db))) \<and> (\<forall>c \<in> set (rows (comments db)). placed db c)"

definition replies_ok :: "database \<Rightarrow> bool" where
  "replies_ok db \<longleftrightarrow> (\<forall>c \<in> set (rows (comments db)). c_children c = of_nat (replies db (c_id c)))"

text \<open>States with the same links.\<close>

definition same_links :: "database \<Rightarrow> database \<Rightarrow> bool" where
  "same_links db db' \<longleftrightarrow> map link (rows (comments db')) = map link (rows (comments db)) \<and> next_id (comments db') = next_id (comments db)"

lemma same_links_refl [simp]: "same_links db db"
  by (simp add: same_links_def)

lemma same_links_trans: "same_links a b \<Longrightarrow> same_links b c \<Longrightarrow> same_links a c"
  by (simp add: same_links_def)

lemma same_links_sym: "same_links a b \<Longrightarrow> same_links b a"
  by (simp add: same_links_def)

lemma linkD:
  assumes "link x = link y"
  shows "c_id x = c_id y" "c_author x = c_author y" "c_permlink x = c_permlink y" "c_parent_author x = c_parent_author y"
    "c_parent_permlink x = c_parent_permlink y" "c_depth x = c_depth y" "c_root_comment x = c_root_comment y" "permlink_key x = permlink_key y"
  using assms by (auto simp: link_def permlink_key_def)

lemma find_comment_links:
  "same_links db db' \<Longrightarrow> map_option link (find_comment a p db') = map_option link (find_comment a p db)"
  unfolding find_comment_def t_find_def
  by (rule find_same_view[where V = link]) (auto simp: same_links_def same_permlink_def dest: linkD)

lemma parent_of_links:
  assumes "same_links db db'" "link c' = link c"
  shows "map_option link (parent_of db' c') = map_option link (parent_of db c)"
  using find_comment_links[OF assms(1)] linkD[OF assms(2)] by (simp add: parent_of_def)

lemma climb_links: "same_links db db' \<Longrightarrow> link c' = link c \<Longrightarrow> climb n db' c' = climb n db c"
proof (induction n arbitrary: c c')
  case (Suc n)
  have "map_option link (parent_of db' c') = map_option link (parent_of db c)" by (rule parent_of_links[OF Suc.prems])
  then show ?case
    by (cases "parent_of db c"; cases "parent_of db' c'") (auto dest: linkD(1) Suc.IH[OF Suc.prems(1)])
qed simp

lemma ancestors_links:
  assumes "same_links db db'" "link c' = link c"
  shows "ancestors db' c' = ancestors db c"
  using climb_links[OF assms] linkD(6)[OF assms(2)] by (simp add: ancestors_def)

lemma same_rows:
  assumes "same_links db db'" "c' \<in> set (rows (comments db'))"
  obtains c where "c \<in> set (rows (comments db))" "link c' = link c"
proof -
  have "link c' \<in> set (map link (rows (comments db')))" using assms(2) by simp
  then have "link c' \<in> set (map link (rows (comments db)))" using assms(1) unfolding same_links_def by metis
  then show thesis using that by auto
qed

lemma map_via_link:
  assumes "same_links db db'" "\<And>x y. link x = link y \<Longrightarrow> f x = f y"
  shows "map f (rows (comments db')) = map f (rows (comments db))"
proof (rule nth_equalityI)
  have m: "map link (rows (comments db')) = map link (rows (comments db))" using assms(1) by (simp add: same_links_def)
  then have l: "length (rows (comments db')) = length (rows (comments db))" by (metis length_map)
  then show "length (map f (rows (comments db'))) = length (map f (rows (comments db)))" by simp
  fix i
  assume "i < length (map f (rows (comments db')))"
  then have i: "i < length (rows (comments db'))" by simp
  have "link (rows (comments db') ! i) = link (rows (comments db) ! i)" using m i l by (metis nth_map)
  then have "f (rows (comments db') ! i) = f (rows (comments db) ! i)" by (rule assms(2))
  then show "map f (rows (comments db')) ! i = map f (rows (comments db)) ! i" using i l by simp
qed

lemma replies_links:
  assumes "same_links db db'"
  shows "replies db' i = replies db i"
proof -
  have len: "length (filter P xs) = length (filter (\<lambda>b. b) (map P xs))" for P and xs :: "comment_object list" by (induction xs) auto
  have m: "map (\<lambda>d. i \<in> set (ancestors db' d)) (rows (comments db')) = map (\<lambda>d. i \<in> set (ancestors db' d)) (rows (comments db))"
  proof (rule map_via_link[OF assms])
    fix x y
    assume "link x = link y"
    from ancestors_links[OF same_links_refl this] show "(i \<in> set (ancestors db' x)) = (i \<in> set (ancestors db' y))" by simp
  qed
  have a: "ancestors db' d = ancestors db d" for d by (rule ancestors_links[OF assms refl])
  show ?thesis by (simp only: replies_def len m) (simp only: a)
qed

lemma placed_links:
  assumes "same_links db db'" "link c' = link c" "placed db c"
  shows "placed db' c'"
proof -
  have "map_option link (find_comment (c_parent_author c) (c_parent_permlink c) db') =
      map_option link (find_comment (c_parent_author c) (c_parent_permlink c) db)" by (rule find_comment_links[OF assms(1)])
  moreover have "\<exists>p. find_comment (c_parent_author c) (c_parent_permlink c) db = Some p \<and>
      unat (c_depth c) = Suc (unat (c_depth p)) \<and> c_root_comment c = c_root_comment p" if "c_parent_author c \<noteq> ''''"
    using assms(3) that by (auto simp: placed_def)
  ultimately have "\<exists>p. find_comment (c_parent_author c) (c_parent_permlink c) db' = Some p \<and>
      unat (c_depth c) = Suc (unat (c_depth p)) \<and> c_root_comment c = c_root_comment p" if "c_parent_author c \<noteq> ''''"
    using that by (cases "find_comment (c_parent_author c) (c_parent_permlink c) db'") (auto simp: link_def)
  then show ?thesis using assms(3) linkD[OF assms(2)] by (simp add: placed_def split: if_splits)
qed

lemma tree_ok_links:
  assumes "same_links db db'" "tree_ok db"
  shows "tree_ok db'"
proof -
  have "comment_ids db' = comment_ids db" unfolding comment_ids_def by (rule map_via_link[OF assms(1)]) (rule linkD)
  moreover have "map permlink_key (rows (comments db')) = map permlink_key (rows (comments db))"
    by (rule map_via_link[OF assms(1)]) (rule linkD)
  moreover have "\<forall>c' \<in> set (rows (comments db')). placed db' c'"
    using assms(2) placed_links[OF assms(1)] by (auto simp: tree_ok_def elim!: same_rows[OF assms(1)])
  ultimately show ?thesis using assms by (simp add: tree_ok_def same_links_def)
qed

section \<open>Climbing a tree\<close>

lemma parent_depth:
  assumes "tree_ok db" "c \<in> set (rows (comments db))" "parent_of db c = Some p"
  shows "p \<in> set (rows (comments db))" "unat (c_depth c) = Suc (unat (c_depth p))"
  using assms by (auto simp: parent_of_def tree_ok_def placed_def find_comment_def dest: t_find_Some split: if_splits)

lemma parent_of_None: "tree_ok db \<Longrightarrow> c \<in> set (rows (comments db)) \<Longrightarrow> parent_of db c = None \<longleftrightarrow> c_depth c = 0"
  by (auto simp: parent_of_def tree_ok_def placed_def unat_eq_0 split: if_splits)

lemma ancestors_unfold:
  assumes "tree_ok db" "c \<in> set (rows (comments db))"
  shows "ancestors db c = (case parent_of db c of None \<Rightarrow> [] | Some p \<Rightarrow> c_id p # ancestors db p)"
  using parent_depth[OF assms] parent_of_None[OF assms] by (auto simp: ancestors_def split: option.splits)

lemma climb_above:
  "tree_ok db \<Longrightarrow> c \<in> set (rows (comments db)) \<Longrightarrow> i \<in> set (climb n db c) \<Longrightarrow>
    \<exists>a \<in> set (rows (comments db)). c_id a = i \<and> unat (c_depth a) < unat (c_depth c)"
proof (induction n arbitrary: c)
  case (Suc n)
  then obtain p where p: "parent_of db c = Some p" "i = c_id p \<or> i \<in> set (climb n db p)" by (cases "parent_of db c") auto
  note d = parent_depth[OF Suc.prems(1,2) p(1)]
  show ?case using p(2) Suc.IH[OF Suc.prems(1) d(1)] d by fastforce
qed simp

lemma row_of_id:
  "tree_ok db \<Longrightarrow> c \<in> set (rows (comments db)) \<Longrightarrow> d \<in> set (rows (comments db)) \<Longrightarrow> c_id c = c_id d \<Longrightarrow> c = d"
  by (metis comment_at_row option.inject tree_ok_def)

lemma not_own_ancestor:
  assumes "tree_ok db" "c \<in> set (rows (comments db))"
  shows "c_id c \<notin> set (ancestors db c)"
  using climb_above[OF assms, of "c_id c"] row_of_id[OF assms] by (fastforce simp: ancestors_def)

section \<open>The walk to the root\<close>

definition kids :: "database \<Rightarrow> nat \<Rightarrow> 32 word option" where
  "kids db i = map_option c_children (comment_at i db)"

lemma drain_done: "nxt s = None \<Longrightarrow> drain n nxt step s = Inr s"
  by (cases n) auto

lemma touch_one:
  assumes "comment_at (c_id p) db = Some p"
  shows "\<exists>db1. modify_comment (c_id p) (\<lambda>p. Inr (p\<lparr>c_children := c_children p + d, c_active := t\<rparr>)) db = Inr db1 \<and> same_links db db1 \<and>
    kids db1 = (kids db)(c_id p \<mapsto> c_children p + d)"
proof -
  let ?f = "\<lambda>p. Inr (p\<lparr>c_children := c_children p + d, c_active := t\<rparr>) :: comment_object result"
  obtain db1 where m: "modify_comment (c_id p) ?f db = Inr db1"
    using comment_store.update_returns[OF assms, of ?f] by (auto simp: returns_iff)
  have "same_links db db1" using map_modify[OF m, of link] by (auto simp: same_links_def link_def)
  moreover have "kids db1 = (kids db)(c_id p \<mapsto> c_children p + d)"
    using comment_store.lookup_update[OF m assms refl] by (auto simp: kids_def fun_eq_iff)
  ultimately show ?thesis using m by blast
qed

lemma walk_exact:
  assumes "tree_ok db" "p \<in> set (rows (comments db))" "unat (c_depth p) < n"
  shows "\<exists>db'. drain n fst (touch_parent d) (Some p, db) = Inr (None, db') \<and> same_links db db' \<and>
    (\<forall>i. kids db' i = map_option (\<lambda>k. if i \<in> set (c_id p # ancestors db p) then k + d else k) (kids db i))"
  using assms
proof (induction n arbitrary: p db)
  case (Suc n)
  have at: "comment_at (c_id p) db = Some p" using Suc.prems by (auto simp: tree_ok_def intro: comment_at_row)
  obtain db1 where m: "modify_comment (c_id p) (\<lambda>p. Inr (p\<lparr>c_children := c_children p + d, c_active := head_block_time db\<rparr>)) db = Inr db1"
    and l: "same_links db db1" and k: "kids db1 = (kids db)(c_id p \<mapsto> c_children p + d)"
    using touch_one[OF at] by blast
  have kp: "kids db (c_id p) = Some (c_children p)" using at by (simp add: kids_def)
  note u = ancestors_unfold[OF Suc.prems(1,2)]
  show ?case
  proof (cases "parent_of db p")
    case None
    then have "c_parent_author p = ''''" using Suc.prems by (auto simp: parent_of_def tree_ok_def placed_def split: if_splits)
    then have "drain (Suc n) fst (touch_parent d) (Some p, db) = Inr (None, db1)"
      using m by (simp add: touch_parent_def drain_done)
    then show ?thesis using l k kp u None by (auto simp: fun_eq_iff option.map_ident)
  next
    case (Some q)
    note qd = parent_depth[OF Suc.prems(1,2) Some]
    have pa: "c_parent_author p \<noteq> ''''" "find_comment (c_parent_author p) (c_parent_permlink p) db = Some q"
      using Some by (auto simp: parent_of_def split: if_splits)
    obtain q' where q': "find_comment (c_parent_author p) (c_parent_permlink p) db1 = Some q'" "link q' = link q"
      using find_comment_links[OF l, of "c_parent_author p" "c_parent_permlink p"] pa(2) by auto
    have r': "q' \<in> set (rows (comments db1))" using q'(1) by (auto simp: find_comment_def dest: t_find_Some)
    have a: "ancestors db1 q' = ancestors db q" "c_id q' = c_id q" using ancestors_links[OF l q'(2)] linkD[OF q'(2)] by auto
    have "unat (c_depth q') < n" using qd(2) Suc.prems(3) linkD(6)[OF q'(2)] by simp
    from Suc.IH[OF tree_ok_links[OF l Suc.prems(1)] r' this] obtain db' where
      d: "drain n fst (touch_parent d) (Some q', db1) = Inr (None, db')" and l': "same_links db1 db'"
      and k': "\<forall>i. kids db' i = map_option (\<lambda>k. if i \<in> set (c_id q # ancestors db q) then k + d else k) (kids db1 i)"
      unfolding a by blast
    have "drain (Suc n) fst (touch_parent d) (Some p, db) = Inr (None, db')"
      using m q'(1) d pa by (simp add: touch_parent_def get_comment_def find_comment_def t_get_def)
    moreover have "c_id p \<notin> set (c_id q # ancestors db q)" using not_own_ancestor[OF Suc.prems(1,2)] u Some by simp
    ultimately show ?thesis
      using same_links_trans[OF l l'] k' k kp u Some by (auto simp: fun_eq_iff)
  qed
qed simp

lemma walk_enough:
  assumes "tree_ok db" "p \<in> set (rows (comments db))" "unat (c_depth p) < n" "unat (c_depth p) < m"
  shows "drain n fst (touch_parent d) (Some p, db) = drain m fst (touch_parent d) (Some p, db)"
proof -
  have more: "drain n nxt step s = Inr t \<Longrightarrow> nxt t = None \<Longrightarrow> drain (n + k) nxt step s = Inr t"
    for n k and nxt :: "'s \<Rightarrow> 'r option" and step s t
    by (induction n arbitrary: s) (auto simp: drain_done split: option.splits)
  obtain db' where "drain (Suc (unat (c_depth p))) fst (touch_parent d) (Some p, db) = Inr (None, db')"
    using walk_exact[OF assms(1,2), of "Suc (unat (c_depth p))"] by blast
  from more[OF this, of "n - Suc (unat (c_depth p))"] more[OF this, of "m - Suc (unat (c_depth p))"] assms(3,4)
  show ?thesis by simp
qed

lemma touch_ancestors_exact:
  assumes "touch_ancestors d p db = Inr db'" "tree_ok db" "p \<in> set (rows (comments db))"
  shows "same_links db db' \<and> (\<forall>i. kids db' i = map_option (\<lambda>k. if i \<in> set (c_id p # ancestors db p) then k + d else k) (kids db i))"
  using walk_exact[OF assms(2,3), of "Suc (unat (c_depth p))" d] assms(1) by (auto simp: touch_ancestors_def)

section \<open>Writing and deleting\<close>

lemma kids_row: "tree_ok db \<Longrightarrow> c \<in> set (rows (comments db)) \<Longrightarrow> kids db (c_id c) = Some (c_children c)"
  by (auto simp: kids_def tree_ok_def dest: comment_at_row)

lemma replies_okI:
  assumes "tree_ok db" "\<And>c k. c \<in> set (rows (comments db)) \<Longrightarrow> kids db (c_id c) = Some k \<Longrightarrow> k = of_nat (replies db (c_id c))"
  shows "replies_ok db"
  using assms kids_row[OF assms(1)] by (auto simp: replies_ok_def)

lemma replies_okD: "replies_ok db \<Longrightarrow> kids db i = Some k \<Longrightarrow> k = of_nat (replies db i)"
  by (auto simp: replies_ok_def kids_def comment_at_def dest!: t_find_Some)

text \<open>A state whose comments are those of another one and a last one.\<close>

lemma find_comment_snoc:
  "rows (comments db') = rows (comments db) @ [c] \<Longrightarrow> find_comment a p db = Some q \<Longrightarrow> find_comment a p db' = Some q"
  by (simp add: find_comment_def t_find_def find_snoc)

lemma parent_of_snoc:
  assumes "rows (comments db') = rows (comments db) @ [c]" "tree_ok db" "x \<in> set (rows (comments db))"
  shows "parent_of db' x = parent_of db x"
proof -
  have "placed db x" using assms(2,3) by (simp add: tree_ok_def)
  then show ?thesis using find_comment_snoc[OF assms(1)] by (fastforce simp: parent_of_def placed_def)
qed

lemma climb_snoc:
  assumes "rows (comments db') = rows (comments db) @ [c]" "tree_ok db"
  shows "x \<in> set (rows (comments db)) \<Longrightarrow> climb n db' x = climb n db x"
proof (induction n arbitrary: x)
  case (Suc n)
  then show ?case using parent_of_snoc[OF assms] parent_depth(1)[OF assms(2)] by (auto split: option.splits)
qed simp

lemma ancestors_snoc:
  "rows (comments db') = rows (comments db) @ [c] \<Longrightarrow> tree_ok db \<Longrightarrow> x \<in> set (rows (comments db)) \<Longrightarrow> ancestors db' x = ancestors db x"
  by (simp add: ancestors_def climb_snoc)

lemma replies_snoc:
  assumes "rows (comments db') = rows (comments db) @ [c]" "tree_ok db"
  shows "replies db' i = replies db i + (if i \<in> set (ancestors db' c) then 1 else 0)"
proof -
  have "filter (\<lambda>d. i \<in> set (ancestors db' d)) (rows (comments db)) = filter (\<lambda>d. i \<in> set (ancestors db d)) (rows (comments db))"
    using ancestors_snoc[OF assms] by (intro filter_cong) auto
  then show ?thesis by (simp add: replies_def assms(1))
qed

lemma replies_none: "tree_ok db \<Longrightarrow> i \<notin> set (comment_ids db) \<Longrightarrow> replies db i = 0"
  using climb_above by (fastforce simp: replies_def ancestors_def comment_ids_def filter_empty_conv)

lemma tree_ok_snoc:
  assumes ok: "tree_ok db" and r: "rows (comments db') = rows (comments db) @ [c]" "next_id (comments db') = Suc (next_id (comments db))"
    and c: "c_id c = next_id (comments db)" "permlink_key c \<notin> permlink_key ` set (rows (comments db))" "placed db' c"
  shows "tree_ok db'"
proof -
  have "placed db' x" if "x \<in> set (rows (comments db))" for x
  proof -
    have "placed db x" using ok that by (simp add: tree_ok_def)
    then show ?thesis using find_comment_snoc[OF r(1)] by (fastforce simp: placed_def)
  qed
  then show ?thesis using ok r c by (fastforce simp: tree_ok_def comment_ids_def)
qed

lemma find_self: "get_comment a pl db = Inr p \<Longrightarrow> find_comment (c_author p) (c_permlink p) db = Some p"
proof -
  assume g: "get_comment a pl db = Inr p"
  then have "same_permlink a pl p" by (auto simp: get_comment_def dest: t_find_Some)
  then have "same_permlink (c_author p) (c_permlink p) = same_permlink a pl" by (auto simp: same_permlink_def fun_eq_iff)
  with g show ?thesis by (simp add: get_comment_def find_comment_def)
qed

lemma create_tree:
  assumes "create_comment op auth parent db = Inr db'" and ok: "tree_ok db" "replies_ok db" and "oco_author op \<noteq> ''''"
    and p: "\<And>p. parent = Some p \<Longrightarrow> get_comment (oco_parent_author op) (oco_parent_permlink op) db = Inr p \<and> c_depth p < 0xffff"
  shows "tree_ok db' \<and> replies_ok db'"
proof -
  let ?n = "next_id (comments db)"
  define c where "c = written_comment op parent (head_block_time db) ?n"
  obtain db1 cs ct where 1: "modify_account (a_name auth) (\<lambda>a. Inr
          ((if parent = None then a\<lparr>a_last_root_post := head_block_time db, a_post_bandwidth := a_post_bandwidth auth\<rparr> else a)
            \<lparr>a_last_post := head_block_time db, a_post_count := a_post_count a + 1\<rparr>)) db = Inr db1"
    and cs: "t_create comment_clash (written_comment op parent (head_block_time db)) (comments db1) = Inr cs"
    and r: "(case parent of None \<Rightarrow> Inr (db1\<lparr>comments := cs, comment_contents := ct\<rparr>)
      | Some p \<Rightarrow> touch_ancestors 1 p (db1\<lparr>comments := cs, comment_contents := ct\<rparr>)) = Inr db'"
    using assms(1) unfolding create_comment_def Let_def by auto
  define db2 where "db2 = db1\<lparr>comments := cs, comment_contents := ct\<rparr>"
  have "comments db1 = comments db" using modify_account_frame[OF 1] by auto
  with cs have rows: "rows (comments db2) = rows (comments db) @ [c]" "next_id (comments db2) = Suc ?n"
    and key: "permlink_key c \<notin> permlink_key ` set (rows (comments db))"
    by (auto simp: db2_def c_def t_create_Inr comment_clash_def same_permlink_def permlink_key_def)
  have cn: "c_id c = ?n" "c_children c = 0" "c_author c = oco_author op"
    by (auto simp: c_def written_comment_def new_comment_def Let_def split: option.splits)
  have par: "parent_of db2 c = parent" and pl: "placed db2 c"
  proof -
    have "parent_of db2 c = parent \<and> placed db2 c"
    proof (cases parent)
      case None
      then show ?thesis using cn assms(4) by (simp add: parent_of_def placed_def c_def written_comment_def new_comment_def)
    next
      case (Some q)
      note g = find_comment_snoc[OF rows(1) find_self[OF conjunct1[OF p[OF Some]]]]
      have "q \<in> set (rows (comments db))" using p[OF Some] by (auto simp: get_comment_def dest: t_find_Some)
      then have "c_author q \<noteq> ''''" using ok by (auto simp: tree_ok_def placed_def)
      moreover have "unat (c_depth q + 1) = Suc (unat (c_depth q))"
        using p[OF Some] by (simp add: unat_word_ariths word_less_nat_alt)
      ultimately show ?thesis
        using g cn assms(4) by (simp add: parent_of_def placed_def c_def written_comment_def new_comment_def Some add.commute)
    qed
    then show "parent_of db2 c = parent" "placed db2 c" by auto
  qed
  have t2: "tree_ok db2" by (rule tree_ok_snoc[OF ok(1) rows cn(1) key pl])
  have in2: "c \<in> set (rows (comments db2))" by (simp add: rows)
  have k2: "kids db2 i = (if i = ?n then Some 0 else kids db i)" for i
    using kids_row[OF t2 in2] cn by (auto simp: kids_def comment_at_def t_find_def rows find_snoc split: option.splits)
  have k': "same_links db2 db' \<and> (\<forall>i. kids db' i = map_option (\<lambda>k. if i \<in> set (ancestors db2 c) then k + 1 else k) (kids db2 i))"
  proof (cases parent)
    case None
    then show ?thesis using r ancestors_unfold[OF t2 in2] par by (simp add: db2_def option.map_ident)
  next
    case (Some q)
    have "q \<in> set (rows (comments db2))" using p[OF Some] by (auto simp: get_comment_def rows dest: t_find_Some)
    from touch_ancestors_exact[OF _ t2 this] r ancestors_unfold[OF t2 in2] par show ?thesis
      by (auto simp: Some db2_def)
  qed
  have t': "tree_ok db'" using tree_ok_links[OF conjunct1[OF k'] t2] .
  moreover have "replies_ok db'"
  proof (rule replies_okI[OF t'])
    fix x k
    assume "kids db' (c_id x) = Some k"
    then obtain k0 where k0: "kids db2 (c_id x) = Some k0" "k = (if c_id x \<in> set (ancestors db2 c) then k0 + 1 else k0)"
      using k' by auto
    have e: "replies db' (c_id x) = replies db (c_id x) + (if c_id x \<in> set (ancestors db2 c) then 1 else 0)"
      using replies_links[OF conjunct1[OF k']] replies_snoc[OF rows(1) ok(1)] by simp
    have "?n \<notin> set (comment_ids db)" using ok(1) by (auto simp: tree_ok_def)
    then show "k = of_nat (replies db' (c_id x))"
      using k0 e k2 not_own_ancestor[OF t2 in2] replies_none[OF ok(1)] replies_okD[OF ok(2)] cn(1)
      by (cases "c_id x = ?n") auto
  qed
  ultimately show ?thesis ..
qed

lemma find_del_keep: "List.find P xs = Some q \<Longrightarrow> \<not> Q q \<Longrightarrow> List.find P (del_first Q xs) = Some q"
  by (induction xs) (auto split: if_splits)

lemma distinct_map_del: "distinct (map f xs) \<Longrightarrow> distinct (map f (del_first P xs))"
  using set_del_first by (induction xs) fastforce+

lemma length_filter_del:
  "List.find P xs = Some e \<Longrightarrow> length (filter Q xs) = length (filter Q (del_first P xs)) + (if Q e then 1 else 0)"
  by (induction xs) (auto split: if_splits)

text \<open>Removing a comment on which nothing hangs.\<close>

lemma remove_leaf:
  assumes ok: "tree_ok db" and c: "c \<in> set (rows (comments db))" and leaf: "replies db (c_id c) = 0"
    and db': "db' = db\<lparr>comments := t_remove (\<lambda>d. c_id d = c_id c) (comments db)\<rparr>"
  shows "tree_ok db' \<and> (\<forall>i. replies db i = replies db' i + (if i \<in> set (ancestors db c) then 1 else 0)) \<and>
    (\<forall>i. i \<noteq> c_id c \<longrightarrow> kids db' i = kids db i) \<and> (\<forall>d \<in> set (rows (comments db')). c_id d \<noteq> c_id c)"
proof -
  have rows': "rows (comments db') = del_first (\<lambda>d. c_id d = c_id c) (rows (comments db))" by (simp add: db' t_remove_def)
  have sub: "d \<in> set (rows (comments db))" if "d \<in> set (rows (comments db'))" for d using that set_del_first by (fastforce simp: rows')
  have ids: "comment_ids db' = remove1 (c_id c) (comment_ids db)" by (simp add: comment_ids_def rows' del_ids)
  then have "c_id c \<notin> set (comment_ids db')" using ok by (simp add: tree_ok_def)
  then have other: "c_id d \<noteq> c_id c" if "d \<in> set (rows (comments db'))" for d using that by (metis comment_ids_def image_eqI list.set_map)
  have anc: "c_id c \<notin> set (ancestors db d)" if "d \<in> set (rows (comments db))" for d
    using leaf that by (auto simp: replies_def filter_empty_conv)
  have keep: "find_comment a p db' = Some q" if "find_comment a p db = Some q" "c_id q \<noteq> c_id c" for a p q
    using that by (simp add: find_comment_def t_find_def rows' find_del_keep)
  have par: "parent_of db' d = parent_of db d" if d: "d \<in> set (rows (comments db))" for d
  proof (cases "parent_of db d")
    case None
    then show ?thesis using ok d by (auto simp: parent_of_def tree_ok_def placed_def split: if_splits)
  next
    case (Some q)
    then have "c_id q \<noteq> c_id c" using anc[OF d] ancestors_unfold[OF ok d] by auto
    then show ?thesis using Some keep by (auto simp: parent_of_def split: if_splits)
  qed
  have "climb n db' d = climb n db d" if "d \<in> set (rows (comments db))" for n d
    using that
  proof (induction n arbitrary: d)
    case (Suc n)
    then show ?case using par parent_depth(1)[OF ok] by (auto split: option.splits)
  qed simp
  then have an: "ancestors db' d = ancestors db d" if "d \<in> set (rows (comments db))" for d using that by (simp add: ancestors_def)
  have "placed db' d" if "d \<in> set (rows (comments db'))" for d
  proof -
    have d: "d \<in> set (rows (comments db))" using sub that .
    then have "placed db d" using ok by (simp add: tree_ok_def)
    then show ?thesis using par[OF d] by (auto simp: placed_def parent_of_def split: if_splits)
  qed
  then have "tree_ok db'"
    using ok ids set_remove1_subset[of "c_id c" "comment_ids db"]
    by (auto simp: tree_ok_def rows' distinct_map_del db' t_remove_def)
  moreover have "replies db i = replies db' i + (if i \<in> set (ancestors db c) then 1 else 0)" for i
  proof -
    have "List.find (\<lambda>d. c_id d = c_id c) (rows (comments db)) = Some c"
      using comment_at_row[of db c] ok c by (simp add: tree_ok_def comment_at_def t_find_def)
    from length_filter_del[OF this, of "\<lambda>d. i \<in> set (ancestors db d)"]
    have "replies db i = length (filter (\<lambda>d. i \<in> set (ancestors db d)) (rows (comments db'))) + (if i \<in> set (ancestors db c) then 1 else 0)"
      by (simp add: replies_def rows')
    moreover have "filter (\<lambda>d. i \<in> set (ancestors db d)) (rows (comments db')) = filter (\<lambda>d. i \<in> set (ancestors db' d)) (rows (comments db'))"
      using an sub by (intro filter_cong) auto
    ultimately show ?thesis by (simp add: replies_def)
  qed
  moreover have "kids db' i = kids db i" if "i \<noteq> c_id c" for i
    using that by (simp add: kids_def comment_at_def t_find_def rows' find_del_other)
  ultimately show ?thesis using other by blast
qed

lemma replies_below:
  assumes "tree_ok db" "c \<in> set (rows (comments db))"
  shows "replies db (c_id c) < next_id (comments db)"
proof -
  have "length (comment_ids db) = card (set (comment_ids db))" using assms(1) by (simp add: tree_ok_def distinct_card)
  also have "\<dots> \<le> card {..<next_id (comments db)}" using assms(1) by (intro card_mono) (auto simp: tree_ok_def)
  finally have "length (rows (comments db)) \<le> next_id (comments db)" by (simp add: comment_ids_def)
  moreover have "replies db (c_id c) < length (rows (comments db))"
    unfolding replies_def using not_own_ancestor[OF assms] by (intro length_filter_less[OF assms(2)])
  ultimately show ?thesis by simp
qed

lemma delete_tree:
  assumes "delete_comment_evaluator op db = Inr db'" and ok: "tree_ok db" "replies_ok db" and few: "next_id (comments db) \<le> 2 ^ 32"
  shows "tree_ok db' \<and> replies_ok db'"
proof -
  obtain c db1 where g: "get_comment (odc_author op) (odc_permlink op) db = Inr c" and z: "c_children c = 0"
    and 1: "(if c_parent_author c \<noteq> '''' then
               bindE (get_comment (c_parent_author c) (c_parent_permlink c) (remove_votes (c_id c) db)) (\<lambda>parent.
                 touch_ancestors (- 1) parent (remove_votes (c_id c) db))
             else Inr (remove_votes (c_id c) db)) = Inr db1"
    and db': "db' = db1\<lparr>comments := t_remove (\<lambda>d. c_id d = c_id c) (comments db1)\<rparr>"
    using assms(1) unfolding delete_comment_evaluator_def Let_def by (auto simp del: if_Inr)
  let ?db = "remove_votes (c_id c) db" and ?A = "set (ancestors db c)"
  have l0: "same_links db ?db" and k0: "kids ?db i = kids db i" for i by (simp_all add: same_links_def kids_def)
  have c: "c \<in> set (rows (comments db))" using g by (auto simp: get_comment_def dest: t_find_Some)
  have k1: "same_links db db1 \<and> (\<forall>i. kids db1 i = map_option (\<lambda>k. if i \<in> ?A then k + - 1 else k) (kids db i))"
  proof (cases "c_parent_author c = ''''")
    case True
    then show ?thesis using 1 l0 k0 ancestors_unfold[OF ok(1) c] by (simp add: parent_of_def option.map_ident)
  next
    case False
    then obtain p where p: "find_comment (c_parent_author c) (c_parent_permlink c) ?db = Some p" "touch_ancestors (- 1) p ?db = Inr db1"
      using 1 by (auto simp: get_comment_def find_comment_def)
    then have pr: "p \<in> set (rows (comments ?db))" "parent_of db c = Some p"
      using False by (auto simp: find_comment_def parent_of_def dest: t_find_Some)
    from touch_ancestors_exact[OF p(2) tree_ok_links[OF l0 ok(1)] pr(1)] ancestors_links[OF l0 refl, of p] ancestors_unfold[OF ok(1) c] pr(2)
    show ?thesis using same_links_trans[OF l0] k0 by simp
  qed
  then have l: "same_links db db1" by simp
  have leaf: "replies db (c_id c) = 0"
  proof -
    have "replies db (c_id c) < 2 ^ 32" using replies_below[OF ok(1) c] few by simp
    moreover have "(of_nat (replies db (c_id c)) :: 32 word) = 0" using ok(2) c z by (simp add: replies_ok_def)
    ultimately show ?thesis by (auto simp: word_of_nat_eq_0_iff dest: nat_dvd_not_less)
  qed
  obtain c1 where c1: "c1 \<in> set (rows (comments db1))" "link c = link c1" using same_rows[OF same_links_sym[OF l] c] by blast
  have e: "c_id c1 = c_id c" "ancestors db1 c1 = ancestors db c" using linkD[OF c1(2)] ancestors_links[OF l c1(2)[symmetric]] by auto
  note rl = remove_leaf[OF tree_ok_links[OF l ok(1)] c1(1), unfolded e, OF _ db'] and rr = replies_links[OF l]
  have t: "tree_ok db'" and o: "\<forall>d \<in> set (rows (comments db')). c_id d \<noteq> c_id c" using rl leaf rr by simp_all
  have "replies_ok db'"
  proof (rule replies_okI[OF t])
    fix x k
    assume x: "x \<in> set (rows (comments db'))" "kids db' (c_id x) = Some k"
    then have "kids db1 (c_id x) = Some k" using rl leaf rr o by simp
    then obtain k0 where k0: "kids db (c_id x) = Some k0" "k = (if c_id x \<in> ?A then k0 + - 1 else k0)" using k1 by auto
    moreover have "replies db (c_id x) = replies db' (c_id x) + (if c_id x \<in> ?A then 1 else 0)" using rl leaf rr by simp
    ultimately show "k = of_nat (replies db' (c_id x))" using replies_okD[OF ok(2) k0(1)] by simp
  qed
  with t show ?thesis ..
qed

section \<open>Operations that do not move comments\<close>

definition same_tree :: "database \<Rightarrow> database \<Rightarrow> bool" where
  "same_tree db db' \<longleftrightarrow> same_links db db' \<and> map c_children (rows (comments db')) = map c_children (rows (comments db))"

lemma same_tree_refl [simp]: "same_tree db db"
  by (simp add: same_tree_def)

lemma same_tree_trans: "same_tree a b \<Longrightarrow> same_tree b c \<Longrightarrow> same_tree a c"
  by (auto simp: same_tree_def intro: same_links_trans)

lemma same_tree_comments: "comments db' = comments db \<Longrightarrow> same_tree db db'"
  by (simp add: same_tree_def same_links_def)

lemma same_tree_ok:
  assumes "same_tree db db'" "tree_ok db" "replies_ok db"
  shows "tree_ok db' \<and> replies_ok db'"
proof -
  have l: "same_links db db'" and ch: "map c_children (rows (comments db')) = map c_children (rows (comments db))"
    using assms(1) by (simp_all add: same_tree_def)
  have "map link xs = map link ys \<Longrightarrow> map c_children xs = map c_children ys \<Longrightarrow>
    \<forall>c \<in> set ys. c_children c = of_nat (replies db (c_id c)) \<Longrightarrow> \<forall>c \<in> set xs. c_children c = of_nat (replies db' (c_id c))" for xs ys
    by (induction xs arbitrary: ys) (auto simp: replies_links[OF l] dest: linkD(1))
  then show ?thesis using tree_ok_links[OF l assms(2)] assms(3) l ch by (auto simp: replies_ok_def same_links_def)
qed

lemma modify_comment_tree:
  assumes "modify_comment i f db = Inr db'" and "\<And>c c'. f c = Inr c' \<Longrightarrow> link c' = link c \<and> c_children c' = c_children c"
  shows "same_tree db db'"
  using map_modify[OF assms(1), of link] map_modify[OF assms(1), of c_children] assms(2) by (auto simp: same_tree_def same_links_def)

lemma modify_account_tree: "modify_account n f db = Inr db' \<Longrightarrow> same_tree db db'"
  by (auto intro: same_tree_comments dest!: modify_account_frame)

lemma add_to_root_tree: "add_to_root i r db = Inr db' \<Longrightarrow> same_tree db db'"
  unfolding add_to_root_def by (erule modify_comment_tree) (auto simp: link_def)

lemma edit_tree:
  assumes "edit_comment patched op c parent db = Inr db'"
  shows "same_tree db db'"
proof -
  obtain db1 ct where 1: "modify_comment (c_id c) (\<lambda>com.
         fc_assert (c_parent_author com = (if parent = None then '''' else oco_parent_author op))
         (fc_assert (strcmp_equal (c_parent_permlink com) (oco_parent_permlink op))
         (Inr (com\<lparr>c_last_update := head_block_time db, c_active := head_block_time db\<rparr>)))) db = Inr db1"
    and db': "db' = db1\<lparr>comment_contents := ct\<rparr>"
    using assms(1) unfolding edit_comment_def by auto
  have "same_tree db db1" by (rule modify_comment_tree[OF 1]) (auto simp: link_def)
  then show ?thesis by (simp add: db' same_tree_def same_links_def)
qed

lemma options_tree:
  assumes "comment_options_evaluator op db = Inr db'"
  shows "same_tree db db'"
proof -
  obtain c db1 where 1: "modify_comment (c_id (c :: comment_object)) (\<lambda>c. Inr (c\<lparr>c_max_accepted_payout := ocop_max_accepted_payout op,
          c_percent_gamebank_dollars := ocop_percent_gamebank_dollars op, c_allow_votes := ocop_allow_votes op,
          c_allow_curation_rewards := ocop_allow_curation_rewards op\<rparr>)) db = Inr db1"
    and 2: "foldE (set_beneficiaries (c_id c)) (ocop_beneficiaries op) db1 = Inr db'"
    using assms(1) unfolding comment_options_evaluator_def fc_assertE_def by (auto simp del: if_Inr)
  have "same_tree db db1" by (rule modify_comment_tree[OF 1]) (auto simp: link_def)
  moreover have "same_tree db1 db'"
  proof (rule foldE_invariant[OF _ _ 2, where I = "same_tree db1"])
    fix bs x x'
    assume b: "set_beneficiaries (c_id c) bs x = Inr x'" "same_tree db1 x"
    have f: "link c'' = link c' \<and> c_children c'' = c_children c'" if "foldE (add_beneficiary x) bs c' = Inr c''" for c' c''
      by (rule foldE_invariant[OF _ _ that]) (auto simp: add_beneficiary_def link_def)
    have "same_tree x x'" by (rule modify_comment_tree[OF b(1)[unfolded set_beneficiaries_def]]) (auto dest: f)
    with b(2) show "same_tree db1 x'" by (rule same_tree_trans)
  qed simp
  ultimately show ?thesis by (rule same_tree_trans)
qed

lemma cast_vote_tree:
  assumes "cast_vote c who p (cur, used, r) db = Inr db'"
  shows "same_tree db db'"
proof -
  define s where "s = (if p < 0 then - r else r)"
  obtain db1 db2 db3 root m vs where 1: "spend_power who cur used db = Inr db1"
    and 2: "modify_comment (c_id c) (\<lambda>c.
            bindE (safe_add (c_net_rshares c) s) (\<lambda>n.
            bindE (safe_add (c_abs_rshares c) r) (\<lambda>a.
            bindE (if s > 0 then safe_add (c_vote_rshares c) s else Inr (c_vote_rshares c)) (\<lambda>v.
              Inr (c\<lparr>c_net_rshares := n, c_abs_rshares := a, c_vote_rshares := v,
                c_net_votes := (if s > 0 then c_net_votes c + 1 else c_net_votes c - 1)\<rparr>))))) db1 = Inr db2"
    and 3: "add_to_root (c_id (root :: comment_object)) r db2 = Inr db3"
    and 5: "(if m \<noteq> 0 then
         modify_comment (c_id c) (\<lambda>c. Inr (c\<lparr>c_total_vote_weight := c_total_vote_weight c + m\<rparr>)) (db3\<lparr>comment_votes := vs\<rparr>)
       else Inr (db3\<lparr>comment_votes := vs\<rparr>)) = Inr db'"
    using assms(1) unfolding cast_vote_def Let_def prod.case s_def[symmetric] by (auto simp del: if_Inr)
  have "same_tree db db1" using modify_account_tree[OF 1[unfolded spend_power_def]] .
  moreover have "same_tree db1 db2" by (rule modify_comment_tree[OF 2]) (auto simp: link_def simp del: if_Inr)
  moreover have "same_tree db2 db3" by (rule add_to_root_tree[OF 3])
  moreover have "same_tree db3 (db3\<lparr>comment_votes := vs\<rparr>)" by (rule same_tree_comments) simp
  moreover have "same_tree (db3\<lparr>comment_votes := vs\<rparr>) db'"
  proof (cases "m = 0")
    case False
    with 5 have "modify_comment (c_id c) (\<lambda>c. Inr (c\<lparr>c_total_vote_weight := c_total_vote_weight c + m\<rparr>)) (db3\<lparr>comment_votes := vs\<rparr>) = Inr db'"
      by simp
    then show ?thesis by (rule modify_comment_tree) (auto simp: link_def)
  qed (use 5 in simp)
  ultimately show ?thesis by (blast intro: same_tree_trans)
qed

lemma change_vote_tree:
  assumes "change_vote c who p (cur, used, r) itr db = Inr db'"
  shows "same_tree db db'"
proof -
  define s where "s = (if p < 0 then - r else r)"
  obtain db1 db2 db3 db4 root vs where 1: "spend_power who cur used db = Inr db1"
    and 2: "modify_comment (c_id c) (\<lambda>c.
            bindE (safe_sub (c_net_rshares c) (cv_rshares itr)) (\<lambda>n.
            bindE (safe_add n s) (\<lambda>n.
            bindE (safe_add (c_abs_rshares c) r) (\<lambda>a.
              Inr (c\<lparr>c_net_rshares := n, c_abs_rshares := a,
                c_net_votes := c_net_votes c + net_votes_change s (cv_rshares itr)\<rparr>))))) db1 = Inr db2"
    and 3: "add_to_root (c_id (root :: comment_object)) r db2 = Inr db3"
    and 4: "modify_comment (c_id c) (\<lambda>c. Inr (c\<lparr>c_total_vote_weight := c_total_vote_weight c - cv_weight itr\<rparr>)) db3 = Inr db4"
    and db': "db' = db4\<lparr>comment_votes := vs\<rparr>"
    using assms(1) unfolding change_vote_def Let_def prod.case s_def[symmetric] by (auto simp del: if_Inr)
  have "same_tree db db1" using modify_account_tree[OF 1[unfolded spend_power_def]] .
  moreover have "same_tree db1 db2" by (rule modify_comment_tree[OF 2]) (auto simp: link_def)
  moreover have "same_tree db2 db3" by (rule add_to_root_tree[OF 3])
  moreover have "same_tree db3 db4" by (rule modify_comment_tree[OF 4]) (auto simp: link_def)
  moreover have "same_tree db4 db'" by (rule same_tree_comments) (simp add: db')
  ultimately show ?thesis by (blast intro: same_tree_trans)
qed

lemma vote_tree:
  assumes "vote_evaluator op db = Inr db'"
  shows "same_tree db db'"
  using assms by (auto simp: vote_evaluator_def split: if_splits option.splits dest: cast_vote_tree change_vote_tree)

lemma only_payouts_tree: "only_payouts db db' \<Longrightarrow> same_tree db db'"
proof -
  assume "only_payouts db db'"
  then have m: "map unpaid (rows (comments db')) = map unpaid (rows (comments db))" "next_id (comments db') = next_id (comments db)"
    by (simp_all add: only_payouts_def)
  have "link (unpaid c) = link c" "c_children (unpaid c) = c_children c" for c
    by (simp_all add: unpaid_def link_def)
  then have "map (link \<circ> unpaid) = map link" "map (c_children \<circ> unpaid) = map c_children" by (simp_all add: comp_def)
  with m(1)[THEN arg_cong[where f = "map link"]] m(1)[THEN arg_cong[where f = "map c_children"]] m(2)
  show ?thesis by (simp add: same_tree_def same_links_def)
qed

lemma cashout_step_tree:
  assumes "cashout_step c s = Inr s'"
  shows "same_tree (snd s) (snd s')"
proof -
  obtain ctx fwd claimed db' where h: "cashout_comment_helper ctx c fwd (snd s) = Inr (claimed, db')" and s': "snd s' = db'"
    using assms by (auto simp: cashout_step_def Let_def split: prod.splits)
  from h obtain db1 db2 where 0: "(if c_net_rshares c > 0 then pay_comment ctx c fwd (snd s) else Inr (0, snd s)) = Inr (claimed, db1)"
    and 2: "modify_comment (c_id c) (\<lambda>c. Inr (reset_comment (head_block_time db1) c)) db1 = Inr db2"
    and "db' = db2\<lparr>comment_votes := (comment_votes db2)\<lparr>rows := filter (\<lambda>v. cv_comment v \<noteq> c_id c) (rows (comment_votes db2))\<rparr>\<rparr>"
    unfolding cashout_comment_helper_def bindE_Inr by auto
  then have 3: "comments (snd s') = comments db2" by (simp add: s')
  have "same_tree (snd s) db1" using 0 by (auto split: if_splits dest!: pay_comment_payouts only_payouts_tree)
  moreover have "same_tree db1 db2" by (rule modify_comment_tree[OF 2]) (auto simp: reset_comment_def link_def)
  moreover have "same_tree db2 (snd s')" by (rule same_tree_comments[OF 3])
  ultimately show ?thesis by (blast intro: same_tree_trans)
qed

lemma process_comment_cashout_tree:
  assumes "process_comment_cashout db = Inr db'"
  shows "same_tree db db'"
proof -
  define fs where "fs = map (decay_fund (head_block_time db)) (rows (reward_funds db))"
  define db0 where "db0 = db\<lparr>reward_funds := (reward_funds db)\<lparr>rows := fs\<rparr>\<rparr>"
  obtain funds funds' db1 fs' where d: "drain (t_size (comments db0)) next_cashout cashout_step (funds, db0) = Inr (funds', db1)"
    and db': "db' = db1\<lparr>reward_funds := (reward_funds db1)\<lparr>rows := fs'\<rparr>\<rparr>"
    using assms(1) by (auto simp: process_comment_cashout_def Let_def fs_def db0_def)
  have c: "comments db0 = comments db" "comments db' = comments db1" by (simp_all add: db0_def db')
  have "same_tree db0 (snd (funds', db1))"
    by (rule drain_invariant[OF d, where I = "\<lambda>s. same_tree db0 (snd s)"]) (auto intro: same_tree_trans cashout_step_tree)
  with same_tree_comments[OF c(1)] same_tree_comments[OF c(2)] show ?thesis by (auto intro: same_tree_trans)
qed

section \<open>Every reachable discussion\<close>

lemma comment_tree:
  assumes "comment_validate tc op = Inr ()" and "comment_evaluator tc patched op db = Inr db'" and ok: "tree_ok db" "replies_ok db"
  shows "tree_ok db' \<and> replies_ok db'"
proof -
  obtain auth parent where par: "(if oco_parent_author op \<noteq> '''' then
               bindE (get_comment (oco_parent_author op) (oco_parent_permlink op) db) (\<lambda>parent.
               fc_assert (c_depth parent < 0xffff) (Inr (Some parent)))
             else Inr None) = Inr parent"
    and r: "(case find_comment (oco_author op) (oco_permlink op) db of
         None \<Rightarrow> create_comment op auth parent db
       | Some comment \<Rightarrow> edit_comment patched op comment parent db) = Inr db'"
    using assms(2) unfolding comment_evaluator_def by (auto simp del: if_Inr)
  have "oco_author op \<noteq> ''''" using assms(1) by (auto simp: comment_validate_def validate_account_name_def is_valid_account_name_def)
  moreover have "get_comment (oco_parent_author op) (oco_parent_permlink op) db = Inr p \<and> c_depth p < 0xffff" if "parent = Some p" for p
    using par that by (auto split: if_splits)
  ultimately show ?thesis
    using r create_tree[OF _ ok] same_tree_ok[OF edit_tree ok] by (auto split: option.splits)
qed

lemma content_step_tree:
  assumes "content_step db db'" and "tree_ok db" "replies_ok db" "next_id (comments db) \<le> 2 ^ 32"
  shows "tree_ok db' \<and> replies_ok db'"
  using assms
proof (induction rule: content_step.induct)
  case (written tc op patched db db')
  then show ?case using comment_tree by blast
next
  case (deleted del db db')
  then show ?case using delete_tree by blast
qed (auto dest!: options_tree vote_tree process_comment_cashout_tree same_tree_comments dest: same_tree_ok)

lemma same_tree_next: "same_tree db db' \<Longrightarrow> next_id (comments db') = next_id (comments db)"
  by (simp add: same_tree_def same_links_def)

lemma create_comment_next:
  assumes "create_comment op auth parent db = Inr db'"
  shows "next_id (comments db') = Suc (next_id (comments db))"
proof -
  obtain db1 cs ct where 1: "modify_account (a_name auth) (\<lambda>a. Inr
          ((if parent = None then a\<lparr>a_last_root_post := head_block_time db, a_post_bandwidth := a_post_bandwidth auth\<rparr> else a)
            \<lparr>a_last_post := head_block_time db, a_post_count := a_post_count a + 1\<rparr>)) db = Inr db1"
    and cs: "t_create comment_clash (written_comment op parent (head_block_time db)) (comments db1) = Inr cs"
    and r: "(case parent of None \<Rightarrow> Inr (db1\<lparr>comments := cs, comment_contents := ct\<rparr>)
      | Some p \<Rightarrow> touch_ancestors 1 p (db1\<lparr>comments := cs, comment_contents := ct\<rparr>)) = Inr db'"
    using assms(1) unfolding create_comment_def Let_def by auto
  have "next_id cs = Suc (next_id (comments db))" using modify_account_frame[OF 1] cs by (auto simp: t_create_Inr)
  with r show ?thesis
    by (auto simp: same_content_def same_comments_def split: option.splits dest!: touch_ancestors_same)
qed

lemma content_step_next: "content_step db db' \<Longrightarrow> next_id (comments db) \<le> next_id (comments db')"
proof (induction rule: content_step.induct)
  case (written tc op patched db db')
  then show ?case
    by (auto simp: comment_evaluator_def split: option.splits dest!: create_comment_next edit_tree same_tree_next)
next
  case (deleted del db db')
  then show ?case
    by (auto simp: delete_comment_evaluator_def Let_def t_remove_def same_content_def same_comments_def split: if_splits
        dest!: touch_ancestors_same)
qed (auto dest: options_tree vote_tree process_comment_cashout_tree dest!: same_tree_next)

lemma reached_tree:
  assumes "content_step\<^sup>*\<^sup>* db0 db" and "rows (comments db0) = []" and "next_id (comments db) \<le> 2 ^ 32"
  shows "tree_ok db \<and> replies_ok db"
  using assms(1,3)
proof (induction rule: rtranclp_induct)
  case base
  then show ?case using assms(2) by (simp add: tree_ok_def replies_ok_def comment_ids_def)
next
  case (step db db')
  then show ?case using content_step_tree[OF step.hyps(2)] content_step_next[OF step.hyps(2)] by force
qed

text \<open>
  C38. The discussion is a tree, and replies are counted exactly. In every state reached from one without
  comments, while fewer than \<open>2\<^sup>3\<^sup>2\<close> comments were ever written: a comment without a parent is its own root
  at depth 0; every reply has its parent in the state, is one deeper and has the same root, so no deletion
  ever left a reply without its parent; and the recorded number of children of a comment is the number of
  comments below it.
\<close>

theorem discussion_tree_exact:
  assumes "content_step\<^sup>*\<^sup>* db0 db" and "rows (comments db0) = []" and "next_id (comments db) \<le> 2 ^ 32"
    and "c \<in> set (rows (comments db))"
  shows "(if c_parent_author c = '''' then c_depth c = 0 \<and> c_root_comment c = c_id c
      else \<exists>p. get_comment (c_parent_author c) (c_parent_permlink c) db = Inr p \<and>
        unat (c_depth c) = Suc (unat (c_depth p)) \<and> c_root_comment c = c_root_comment p) \<and>
    unat (c_children c) = replies db (c_id c)"
proof -
  have t: "tree_ok db" "replies_ok db" using reached_tree[OF assms(1-3)] by auto
  have "replies db (c_id c) < 2 ^ 32" using replies_below[OF t(1) assms(4)] assms(3) by linarith
  then have "unat (c_children c) = replies db (c_id c)"
    using t(2) assms(4) by (simp add: replies_ok_def unat_of_nat)
  moreover have "placed db c" using t(1) assms(4) by (simp add: tree_ok_def)
  ultimately show ?thesis by (auto simp: placed_def get_comment_def find_comment_def)
qed

text \<open>
  C39. The walk over the ancestors of a comment ends and touches each exactly once. In every reachable
  state, from every comment \<open>p\<close>, the loop of \<^verbatim>\<open>comment_evaluator\<close> and \<^verbatim>\<open>delete_comment_evaluator\<close> returns after
  at most \<open>depth + 1\<close> rounds, without meeting a missing parent, and changes the number of children of \<open>p\<close>
  and of its ancestors by the given amount and of no other comment.
\<close>

theorem ancestors_walk_complete:
  assumes "content_step\<^sup>*\<^sup>* db0 db" and "rows (comments db0) = []" and "next_id (comments db) \<le> 2 ^ 32"
    and "p \<in> set (rows (comments db))" and "unat (c_depth p) < n"
  shows "\<exists>db'. touch_ancestors d p db = Inr db' \<and> drain n fst (touch_parent d) (Some p, db) = Inr (None, db') \<and>
    (\<forall>c \<in> set (rows (comments db)). \<exists>c'. get_comment_by_id (c_id c) db' = Inr c' \<and>
      c_children c' = c_children c + (if c_id c \<in> set (c_id p # ancestors db p) then d else 0))"
proof -
  have t: "tree_ok db" using reached_tree[OF assms(1-3)] by auto
  obtain db' where 1: "drain n fst (touch_parent d) (Some p, db) = Inr (None, db')"
    and k: "\<forall>i. kids db' i = map_option (\<lambda>k. if i \<in> set (c_id p # ancestors db p) then k + d else k) (kids db i)"
    using walk_exact[OF t assms(4,5)] by blast
  have "drain (Suc (unat (c_depth p))) fst (touch_parent d) (Some p, db) = drain n fst (touch_parent d) (Some p, db)"
    by (rule walk_enough[OF t assms(4) lessI assms(5)])
  with 1 have "touch_ancestors d p db = Inr db'" by (simp add: touch_ancestors_def del: drain.simps)
  moreover have "\<exists>c'. get_comment_by_id (c_id c) db' = Inr c' \<and>
      c_children c' = c_children c + (if c_id c \<in> set (c_id p # ancestors db p) then d else 0)" if "c \<in> set (rows (comments db))" for c
    using k[rule_format, of "c_id c"] kids_row[OF t that] by (auto simp: kids_def comment_at_def get_comment_by_id_def)
  ultimately show ?thesis using 1 by blast
qed

section \<open>A concrete thread\<close>

definition bob_replies :: comment_operation where
  "bob_replies = \<lparr>oco_parent_author = ''alice'', oco_parent_permlink = ''post'', oco_author = ''bob'', oco_permlink = ''re-post'',
     oco_title = '''', oco_body = ''yes'', oco_json_metadata = ''''\<rparr>"

definition thread :: "database result" where
  "thread = bindE (comment_evaluator plain_text (\<lambda>_ _. None) alice_writes quiet_db) (\<lambda>db.
     comment_evaluator plain_text (\<lambda>_ _. None) bob_replies (later_by 3600 db))"

lemma thread_run:
  "returning thread (\<lambda>db. next_id (comments db) = 2 \<and>
    (\<exists>a b. rows (comments db) = [a, b] \<and> c_author a = ''alice'' \<and> c_children a = 1 \<and> c_depth b = 1 \<and> c_parent_author b = ''alice''))"
  by (simp add: discussion_eval thread_def bob_replies_def touch_ancestors_def touch_parent_def returning_def cong: eager)

lemma bob_valid: "is_valid_account_name ''bob''"
  by code_simp

lemma thread_reached:
  assumes "thread = Inr db"
  shows "content_step\<^sup>*\<^sup>* quiet_db db"
proof -
  obtain db1 where 1: "comment_evaluator plain_text (\<lambda>_ _. None) alice_writes quiet_db = Inr db1"
    and 2: "comment_evaluator plain_text (\<lambda>_ _. None) bob_replies (later_by 3600 db1) = Inr db"
    using assms by (auto simp: thread_def)
  have v: "comment_validate plain_text alice_writes = Inr ()" "comment_validate plain_text bob_replies = Inr ()"
    by (simp_all add: comment_validate_def alice_writes_def bob_replies_def plain_text_def validate_account_name_def alice_valid bob_valid
        concrete validate_permlink_def)
  have "content_step db1 (later_by 3600 db1)" by (rule content_step.elsewhere) (simp_all add: later_by_def)
  then show ?thesis
    by (meson content_step.written[OF v(1) 1] content_step.written[OF v(2) 2] converse_rtranclp_into_rtranclp rtranclp.rtrancl_refl)
qed

theorem discussion_tree_exact_witness:
  "\<exists>db a. content_step\<^sup>*\<^sup>* quiet_db db \<and> a \<in> set (rows (comments db)) \<and> c_children a = 1 \<and> replies db (c_id a) = 1"
proof -
  obtain db a b where r: "thread = Inr db" "next_id (comments db) = 2" "rows (comments db) = [a, b]" "c_children a = 1"
    using returningD[OF thread_run] by auto
  from discussion_tree_exact[OF thread_reached[OF r(1)] quiet_start(1), of a] thread_reached[OF r(1)] r show ?thesis
    by (intro exI[of _ db] exI[of _ a]) auto
qed

theorem ancestors_walk_complete_witness:
  "\<exists>db b db'. content_step\<^sup>*\<^sup>* quiet_db db \<and> b \<in> set (rows (comments db)) \<and> c_depth b = 1 \<and> touch_ancestors 1 b db = Inr db'"
proof -
  obtain db a b where r: "thread = Inr db" "next_id (comments db) = 2" "rows (comments db) = [a, b]" "c_depth b = 1"
    using returningD[OF thread_run] by auto
  from ancestors_walk_complete[OF thread_reached[OF r(1)] quiet_start(1), of b 2 1] obtain db' where "touch_ancestors 1 b db = Inr db'"
    using r by auto
  then show ?thesis using thread_reached[OF r(1)] r by (intro exI[of _ db] exI[of _ b] exI[of _ db']) simp
qed

end
