(* ===== verification/ForkDatabase.thy ===== *)
theory ForkDatabase
  imports Block
begin

text \<open>
  The fork database (src/libraries/chain/fork_database.cpp and fork_database.hpp): the tree of recent
  blocks from which the node chooses the longest branch. A \<^verbatim>\<open>shared_ptr<fork_item>\<close> is an address into
  the list \<open>fd_items\<close> of the items ever made, a \<^verbatim>\<open>weak_ptr\<close> is an address that counts only while
  something still owns the item: one of the two indices or the head. Of a block only its header is read,
  and the hash that gives its id is an argument. The theory shows that the database stays a tree of
  linked blocks, that a pushed block extends it or is refused for a stated reason, and that the walks
  over the tree end and return the branches they promise.
\<close>

section \<open>Items and the database\<close>

record fork_item =
  fi_prev :: "nat option"
  fi_num :: "32 word"
  fi_invalid :: bool
  fi_id :: block_id_type
  fi_data :: block_header

definition new_fork_item :: "(block_header \<Rightarrow> 224 word) \<Rightarrow> block_header \<Rightarrow> fork_item" where
  "new_fork_item hash d = \<lparr>fi_prev = None, fi_num = block_num d, fi_invalid = False, fi_id = header_id hash d, fi_data = d\<rparr>"

definition previous_id :: "fork_item \<Rightarrow> block_id_type" where
  "previous_id i = bh_previous (fi_data i)"

record fork_database =
  fd_items :: "fork_item list"
  fd_index :: "nat list"
  fd_unlinked_index :: "nat list"
  fd_head :: "nat option"
  fd_max_size :: "32 word"

definition empty_fork_database :: fork_database where
  "empty_fork_database = \<lparr>fd_items = [], fd_index = [], fd_unlinked_index = [], fd_head = None, fd_max_size = 1024\<rparr>"

abbreviation item_at :: "fork_database \<Rightarrow> nat \<Rightarrow> fork_item" where
  "item_at fd a \<equiv> fd_items fd ! a"

abbreviation num_at :: "fork_database \<Rightarrow> nat \<Rightarrow> 32 word" where
  "num_at fd a \<equiv> fi_num (fd_items fd ! a)"

definition owned :: "fork_database \<Rightarrow> nat \<Rightarrow> bool" where
  "owned fd a \<longleftrightarrow> a \<in> set (fd_index fd) \<or> a \<in> set (fd_unlinked_index fd) \<or> fd_head fd = Some a"

text \<open>\<^verbatim>\<open>weak_ptr::lock\<close>.\<close>

definition lock_ptr :: "fork_database \<Rightarrow> nat option \<Rightarrow> nat option" where
  "lock_ptr fd w = (case w of None \<Rightarrow> None | Some a \<Rightarrow> if owned fd a then Some a else None)"

definition prev_of :: "fork_database \<Rightarrow> nat \<Rightarrow> nat option" where
  "prev_of fd a = lock_ptr fd (fi_prev (item_at fd a))"

text \<open>\<open>find_id\<close> is the lookup by the unique hashed id; inserting an id that is present has no effect.\<close>

definition find_id :: "fork_database \<Rightarrow> nat list \<Rightarrow> block_id_type \<Rightarrow> nat option" where
  "find_id fd idx i = List.find (\<lambda>a. fi_id (item_at fd a) = i) idx"

definition insert_item :: "fork_database \<Rightarrow> nat \<Rightarrow> nat list \<Rightarrow> nat list" where
  "insert_item fd a idx = (if find_id fd idx (fi_id (item_at fd a)) = None then idx @ [a] else idx)"

section \<open>Operations\<close>

definition fork_reset :: "fork_database \<Rightarrow> fork_database" where
  "fork_reset fd = fd\<lparr>fd_head := None, fd_index := []\<rparr>"

definition fork_pop_block :: "fork_database \<Rightarrow> fork_database result" where
  "fork_pop_block fd = (case fd_head fd of
     None \<Rightarrow> Inl assert_exception
   | Some h \<Rightarrow> (case prev_of fd h of None \<Rightarrow> Inl assert_exception | Some p \<Rightarrow> Inr (fd\<lparr>fd_head := Some p\<rparr>)))"

definition make_item :: "fork_item \<Rightarrow> fork_database \<Rightarrow> nat \<times> fork_database" where
  "make_item i fd = (length (fd_items fd), fd\<lparr>fd_items := fd_items fd @ [i]\<rparr>)"

definition fork_start_block :: "(block_header \<Rightarrow> 224 word) \<Rightarrow> block_header \<Rightarrow> fork_database \<Rightarrow> fork_database" where
  "fork_start_block hash b fd =
     (let (item, fd1) = make_item (new_fork_item hash b) fd in
      fd1\<lparr>fd_index := insert_item fd1 item (fd_index fd1), fd_head := Some item\<rparr>)"

definition oldest_num :: "32 word \<Rightarrow> 32 word \<Rightarrow> int" where
  "oldest_num head_num max_size = max 0 (uint head_num - uint max_size)"

text \<open>\<^verbatim>\<open>_push_block\<close>: the range check, the link to the parent, insertion and the choice of the head.\<close>

definition link_item :: "fork_item \<Rightarrow> fork_database \<Rightarrow> fork_item result" where
  "link_item i fd =
     (case fd_head fd of
        None \<Rightarrow> Inr i
      | Some h \<Rightarrow>
          fc_assert (uint (fi_num i) > oldest_num (num_at fd h) (fd_max_size fd))
          (if previous_id i \<noteq> 0 then
             (case find_id fd (fd_index fd) (previous_id i) of
                None \<Rightarrow> Inl unlinkable_block_exception
              | Some p \<Rightarrow> fc_assert (\<not> fi_invalid (item_at fd p)) (Inr (i\<lparr>fi_prev := Some p\<rparr>)))
           else Inr i))"

definition push_item :: "nat \<Rightarrow> fork_database \<Rightarrow> fork_database result" where
  "push_item a fd =
     bindE (link_item (item_at fd a) fd) (\<lambda>i.
     let fd1 = fd\<lparr>fd_items := (fd_items fd)[a := i]\<rparr>;
         fd2 = fd1\<lparr>fd_index := insert_item fd1 a (fd_index fd1)\<rparr>
     in Inr (case fd_head fd of
          None \<Rightarrow> fd2\<lparr>fd_head := Some a\<rparr>
        | Some h \<Rightarrow> if fi_num i > num_at fd h then fd2\<lparr>fd_head := Some a\<rparr> else fd2))"

definition fork_push_block ::
    "(block_header \<Rightarrow> 224 word) \<Rightarrow> block_header \<Rightarrow> fork_database \<Rightarrow> (nat option \<times> fork_database) result" where
  "fork_push_block hash b fd =
     (let (item, fd1) = make_item (new_fork_item hash b) fd in
      bindE (push_item item fd1) (\<lambda>fd. Inr (fd_head fd, fd)))"

lemma remove1_shorter: "a \<in> set xs \<Longrightarrow> length (remove1 a xs) < length xs"
  using length_pos_if_in_set[of a xs] by (simp add: length_remove1)

text \<open>\<^verbatim>\<open>_push_next\<close> moves the cached items whose parent has arrived; nothing calls it.\<close>

definition waiting_for :: "block_id_type \<Rightarrow> fork_database \<Rightarrow> nat option" where
  "waiting_for i fd = List.find (\<lambda>a. previous_id (item_at fd a) = i) (fd_unlinked_index fd)"

lemma push_item_unlinked: "push_item a fd = Inr fd' \<Longrightarrow> fd_unlinked_index fd' = fd_unlinked_index fd"
  by (auto simp: push_item_def Let_def split: option.splits if_splits)

function push_next :: "block_id_type \<Rightarrow> fork_database \<Rightarrow> fork_database result" where
  "push_next i fd = (case waiting_for i fd of
     None \<Rightarrow> Inr fd
   | Some a \<Rightarrow> (case push_item a (fd\<lparr>fd_unlinked_index := remove1 a (fd_unlinked_index fd)\<rparr>) of
       Inl e \<Rightarrow> Inl e
     | Inr fd \<Rightarrow> push_next i fd))"
  by pat_completeness auto
termination
proof (relation "measure (\<lambda>(i, fd). length (fd_unlinked_index fd))", goal_cases)
  case (2 i fd a fd')
  then have "a \<in> set (fd_unlinked_index fd)" by (auto simp: waiting_for_def find_Some_iff)
  with push_item_unlinked[OF 2(2)] show ?case by (simp add: remove1_shorter)
qed simp

declare push_next.simps [simp del]

text \<open>
  \<^verbatim>\<open>set_max_size\<close> erases the first item by number as long as it is too old, in each index.
\<close>

definition first_by_num :: "fork_database \<Rightarrow> nat list \<Rightarrow> nat option" where
  "first_by_num fd idx = (case sort_key (num_at fd) idx of [] \<Rightarrow> None | a # _ \<Rightarrow> Some a)"

lemma first_by_num_in: "first_by_num fd idx = Some a \<Longrightarrow> a \<in> set idx"
proof -
  assume "first_by_num fd idx = Some a"
  then obtain xs where "sort_key (num_at fd) idx = a # xs" by (auto simp: first_by_num_def split: list.splits)
  then have "set (sort_key (num_at fd) idx) = insert a (set xs)" by (simp only: list.set(2))
  then show ?thesis by (metis insertI1 set_sort)
qed

function erase_older :: "fork_database \<Rightarrow> int \<Rightarrow> nat list \<Rightarrow> nat list" where
  "erase_older fd oldest idx = (case first_by_num fd idx of
     None \<Rightarrow> idx
   | Some a \<Rightarrow> if uint (num_at fd a) < oldest then erase_older fd oldest (remove1 a idx) else idx)"
  by pat_completeness auto
termination
  by (relation "measure (\<lambda>(fd, oldest, idx). length idx)")
    (auto dest!: first_by_num_in intro: remove1_shorter)

declare erase_older.simps [simp del]

definition set_max_size :: "32 word \<Rightarrow> fork_database \<Rightarrow> fork_database" where
  "set_max_size s fd =
     (let fd = fd\<lparr>fd_max_size := s\<rparr> in
      case fd_head fd of
        None \<Rightarrow> fd
      | Some h \<Rightarrow>
          let oldest = oldest_num (num_at fd h) s in
          fd\<lparr>fd_index := erase_older fd oldest (fd_index fd),
             fd_unlinked_index := erase_older fd oldest (fd_unlinked_index fd)\<rparr>)"

definition fork_is_known_block :: "block_id_type \<Rightarrow> fork_database \<Rightarrow> bool" where
  "fork_is_known_block i fd \<longleftrightarrow> find_id fd (fd_index fd) i \<noteq> None \<or> find_id fd (fd_unlinked_index fd) i \<noteq> None"

definition fork_fetch_block :: "block_id_type \<Rightarrow> fork_database \<Rightarrow> nat option" where
  "fork_fetch_block i fd = (case find_id fd (fd_index fd) i of
     Some a \<Rightarrow> Some a
   | None \<Rightarrow> find_id fd (fd_unlinked_index fd) i)"

definition fork_fetch_block_by_number :: "32 word \<Rightarrow> fork_database \<Rightarrow> nat list" where
  "fork_fetch_block_by_number n fd = filter (\<lambda>a. num_at fd a = n) (fd_index fd)"

definition fork_set_head :: "nat \<Rightarrow> fork_database \<Rightarrow> fork_database" where
  "fork_set_head h fd = fd\<lparr>fd_head := Some h\<rparr>"

definition fork_remove :: "block_id_type \<Rightarrow> fork_database \<Rightarrow> fork_database" where
  "fork_remove i fd = fd\<lparr>fd_index := filter (\<lambda>a. fi_id (item_at fd a) \<noteq> i) (fd_index fd)\<rparr>"

section \<open>Walks\<close>

text \<open>
  The loops follow the links without a bound of their own, so they are partial: \<open>None\<close> stands for a walk
  that does not end. \<open>descend_while\<close> is the loop that appears twice at the start of
  \<^verbatim>\<open>fetch_branch_from\<close>, \<open>descend_both\<close> the third one.
\<close>

partial_function (option) descend_while ::
    "fork_database \<Rightarrow> 32 word \<Rightarrow> nat \<Rightarrow> nat list \<Rightarrow> (nat \<times> nat list) result option" where
  [code]: "descend_while fd n a acc =
     (if block_num (fi_data (item_at fd a)) > n then
        (case prev_of fd a of
           None \<Rightarrow> Some (Inl assert_exception)
         | Some p \<Rightarrow> descend_while fd n p (acc @ [a]))
      else Some (Inr (a, acc)))"

partial_function (option) descend_both ::
    "fork_database \<Rightarrow> nat \<Rightarrow> nat \<Rightarrow> nat list \<Rightarrow> nat list \<Rightarrow> (nat list \<times> nat list) result option" where
  [code]: "descend_both fd a b xs ys =
     (if previous_id (item_at fd a) \<noteq> previous_id (item_at fd b) then
        (case prev_of fd a of
           None \<Rightarrow> Some (Inl assert_exception)
         | Some p \<Rightarrow> (case prev_of fd b of
             None \<Rightarrow> Some (Inl assert_exception)
           | Some q \<Rightarrow> descend_both fd p q (xs @ [a]) (ys @ [b])))
      else Some (Inr (xs @ [a], ys @ [b])))"

definition fetch_branch_from ::
    "block_id_type \<Rightarrow> block_id_type \<Rightarrow> fork_database \<Rightarrow> (nat list \<times> nat list) result option" where
  "fetch_branch_from first second fd =
     (case find_id fd (fd_index fd) first of None \<Rightarrow> Some (Inl assert_exception) | Some a \<Rightarrow>
      case find_id fd (fd_index fd) second of None \<Rightarrow> Some (Inl assert_exception) | Some b \<Rightarrow>
      case descend_while fd (block_num (fi_data (item_at fd b))) a [] of
        None \<Rightarrow> None | Some (Inl e) \<Rightarrow> Some (Inl e) | Some (Inr (a', xs)) \<Rightarrow>
      case descend_while fd (block_num (fi_data (item_at fd a'))) b [] of
        None \<Rightarrow> None | Some (Inl e) \<Rightarrow> Some (Inl e) | Some (Inr (b', ys)) \<Rightarrow>
      descend_both fd a' b' xs ys)"

partial_function (option) walk_to_num :: "fork_database \<Rightarrow> 32 word \<Rightarrow> nat \<Rightarrow> nat option option" where
  [code]: "walk_to_num fd n a =
     (if num_at fd a > n then
        (case prev_of fd a of None \<Rightarrow> Some None | Some p \<Rightarrow> walk_to_num fd n p)
      else Some (Some a))"

text \<open>Both are called only when there is a head.\<close>

definition walk_main_branch_to_num :: "32 word \<Rightarrow> nat \<Rightarrow> fork_database \<Rightarrow> nat option option" where
  "walk_main_branch_to_num n head fd = (if n > num_at fd head then Some None else walk_to_num fd n head)"

definition fetch_block_on_main_branch_by_number :: "32 word \<Rightarrow> nat \<Rightarrow> fork_database \<Rightarrow> nat option option" where
  "fetch_block_on_main_branch_by_number n head fd =
     (case fork_fetch_block_by_number n fd of
        [] \<Rightarrow> Some None
      | [a] \<Rightarrow> Some (Some a)
      | _ \<Rightarrow> walk_main_branch_to_num n head fd)"

section \<open>Block ids carry block numbers\<close>

lemma and_255: "x AND 0xFF = take_bit 8 x" for x :: "32 word"
  by (simp add: take_bit_eq_mask mask_eq_exp_minus_1)

lemma bit_byte:
  "bit (push_bit k (take_bit 8 (drop_bit m x))) n \<longleftrightarrow> k \<le> n \<and> n < k + 8 \<and> n < 32 \<and> bit x (m + (n - k))"
  for x :: "32 word"
  by (simp only: bit_push_bit_iff bit_take_bit_iff bit_drop_bit_eq possible_bit_word comp_apply) auto

lemma bit_endian_reverse:
  "bit (endian_reverse_u32 x) n \<longleftrightarrow>
     24 \<le> n \<and> n < 32 \<and> bit x (n - 24) \<or> 16 \<le> n \<and> n < 24 \<and> bit x (n - 8) \<or>
     8 \<le> n \<and> n < 16 \<and> bit x (n + 8) \<or> n < 8 \<and> bit x (n + 24)"
proof -
  have e: "endian_reverse_u32 x =
      (push_bit 24 (take_bit 8 (drop_bit 0 x)) OR push_bit 16 (take_bit 8 (drop_bit 8 x))) OR
      (push_bit 8 (take_bit 8 (drop_bit 16 x)) OR push_bit 0 (take_bit 8 (drop_bit 24 x)))"
    by (simp add: endian_reverse_u32_def and_255)
  have "16 \<le> n \<Longrightarrow> 8 + (n - 16) = n - 8" "8 \<le> n \<Longrightarrow> 16 + (n - 8) = n + 8" by simp_all
  then show ?thesis unfolding e bit_or_iff bit_byte by (auto simp: add.commute)
qed

lemma endian_reverse_twice: "endian_reverse_u32 (endian_reverse_u32 x) = x"
proof (rule bit_word_eqI)
  fix n assume "n < LENGTH(32)"
  then consider "n < 8" | "8 \<le> n" "n < 16" | "16 \<le> n" "n < 24" | "24 \<le> n" "n < 32" by fastforce
  then show "bit (endian_reverse_u32 (endian_reverse_u32 x)) n = bit x n"
  proof cases
    case 3
    then have "8 \<le> n - 8" "n - 8 < 16" by auto
    with 3 show ?thesis by (simp add: bit_endian_reverse)
  next
    case 4
    then have "n - 24 < 8" by auto
    with 4 show ?thesis by (simp add: bit_endian_reverse)
  qed (simp_all add: bit_endian_reverse)
qed

lemma num_from_header_id: "num_from_id (header_id hash b) = block_num b"
proof -
  have "ucast (header_id hash b) = endian_reverse_u32 (block_num b)"
    unfolding header_id_def by (rule bit_word_eqI) (simp add: bit_ucast_iff bit_or_iff bit_push_bit_iff)
  then show ?thesis by (simp add: num_from_id_def endian_reverse_twice)
qed

section \<open>The tree\<close>

text \<open>
  What a walk over links relies on: a node leads to a smaller node. A chain is a list in which each
  element leads to the next.
\<close>

fun follows :: "('a \<Rightarrow> 'a option) \<Rightarrow> 'a list \<Rightarrow> bool" where
  "follows f [] = True"
| "follows f [a] = True"
| "follows f (a # b # xs) \<longleftrightarrow> f a = Some b \<and> follows f (b # xs)"

lemma follows_snoc: "xs \<noteq> [] \<Longrightarrow> follows f (xs @ [b]) \<longleftrightarrow> follows f xs \<and> f (last xs) = Some b"
  by (induction f xs rule: follows.induct) auto

lemma follows_Cons: "follows f (a # xs) \<longleftrightarrow> xs = [] \<or> f a = Some (hd xs) \<and> follows f xs"
  by (cases xs) auto

locale linked_nodes =
  fixes good :: "'s \<Rightarrow> bool" and node :: "'s \<Rightarrow> nat \<Rightarrow> bool" and prev :: "'s \<Rightarrow> nat \<Rightarrow> nat option"
  assumes prev_node: "good s \<Longrightarrow> node s a \<Longrightarrow> prev s a = Some p \<Longrightarrow> p < a \<and> node s p"
begin

lemma node_induct:
  assumes "good s" and "node s a"
    and step: "\<And>a. node s a \<Longrightarrow> (\<And>p. prev s a = Some p \<Longrightarrow> p < a \<Longrightarrow> node s p \<Longrightarrow> P p) \<Longrightarrow> P a"
  shows "P a"
  using assms(2)
proof (induction a rule: less_induct)
  case (less a)
  show ?case
  proof (rule step)
    show "node s a" by (fact less.prems)
    show "P p" if "p < a" "node s p" for p using less.IH[of p] that by simp
  qed
qed

lemma chain_descends:
  assumes "good s" and "node s (hd xs)" and "follows (prev s) xs"
  shows "sorted_wrt (>) xs \<and> (\<forall>x\<in>set xs. node s x)"
  using assms(2,3)
proof (induction xs)
  case Nil
  then show ?case by simp
next
  case (Cons a xs)
  show ?case
  proof (cases xs)
    case Nil
    with Cons.prems show ?thesis by simp
  next
    case (Cons b ys)
    with Cons.prems have p: "prev s a = Some b" by simp
    with prev_node[OF assms(1)] Cons.prems have b: "b < a" "node s b" by auto
    have i: "sorted_wrt (>) xs \<and> (\<forall>x\<in>set xs. node s x)"
      using Cons.prems(2) b(2) by (intro Cons.IH) (simp_all add: Cons)
    then have "\<forall>x\<in>set xs. x < a" using b(1) by (auto simp: Cons)
    with i Cons.prems(1) show ?thesis by simp
  qed
qed

lemma chain_distinct:
  assumes "good s" and "node s (hd xs)" and "follows (prev s) xs"
  shows "distinct xs"
proof -
  have "sorted_wrt (\<lambda>x y. x \<noteq> y) xs"
    using chain_descends[OF assms] by (auto intro: sorted_wrt_mono_rel[of _ "(>)"])
  then show ?thesis by (induction xs) auto
qed

end

definition fork_tree :: "(block_header \<Rightarrow> 224 word) \<Rightarrow> fork_database \<Rightarrow> bool" where
  "fork_tree hash fd \<longleftrightarrow>
     (\<forall>a. owned fd a \<longrightarrow> a < length (fd_items fd)) \<and>
     (\<forall>a<length (fd_items fd).
        fi_num (item_at fd a) = block_num (fi_data (item_at fd a)) \<and>
        fi_id (item_at fd a) = header_id hash (fi_data (item_at fd a)) \<and>
        \<not> fi_invalid (item_at fd a) \<and>
        (\<forall>p. fi_prev (item_at fd a) = Some p \<longrightarrow>
           p < a \<and> fi_id (item_at fd p) = previous_id (item_at fd a) \<and> num_at fd a \<noteq> 0)) \<and>
     distinct (map (\<lambda>a. fi_id (item_at fd a)) (fd_index fd)) \<and>
     fd_unlinked_index fd = []"

lemma fork_itemD:
  assumes "fork_tree hash fd" and "a < length (fd_items fd)"
  shows "num_at fd a = block_num (fi_data (item_at fd a))"
    and "fi_id (item_at fd a) = header_id hash (fi_data (item_at fd a))"
    and "\<not> fi_invalid (item_at fd a)"
    and "fi_prev (item_at fd a) = Some p \<Longrightarrow> p < a"
    and "fi_prev (item_at fd a) = Some p \<Longrightarrow> fi_id (item_at fd p) = previous_id (item_at fd a)"
    and "fi_prev (item_at fd a) = Some p \<Longrightarrow> num_at fd a \<noteq> 0"
  using assms unfolding fork_tree_def by blast+

lemma owned_in_items: "fork_tree hash fd \<Longrightarrow> owned fd a \<Longrightarrow> a < length (fd_items fd)"
  by (simp add: fork_tree_def)

lemma prev_ofD:
  assumes "fork_tree hash fd" and "owned fd a" and "prev_of fd a = Some p"
  shows "p < a" and "owned fd p" and "fi_id (item_at fd p) = previous_id (item_at fd a)"
    and "num_at fd a = num_at fd p + 1" and "unat (num_at fd a) = Suc (unat (num_at fd p))"
proof -
  have o: "owned fd p" and p: "fi_prev (item_at fd a) = Some p"
    using assms(3) by (auto simp: prev_of_def lock_ptr_def split: option.splits if_splits)
  show "owned fd p" by (fact o)
  have a: "a < length (fd_items fd)" "p < length (fd_items fd)"
    using owned_in_items[OF assms(1)] assms(2) o by auto
  show "p < a" by (rule fork_itemD(4)[OF assms(1) a(1) p])
  show i: "fi_id (item_at fd p) = previous_id (item_at fd a)" by (rule fork_itemD(5)[OF assms(1) a(1) p])
  have "num_from_id (fi_id (item_at fd p)) = num_at fd p"
    by (simp only: fork_itemD(1,2)[OF assms(1) a(2)] num_from_header_id)
  with i have "num_from_id (bh_previous (fi_data (item_at fd a))) = num_at fd p" by (simp add: previous_id_def)
  then show e: "num_at fd a = num_at fd p + 1"
    by (simp only: fork_itemD(1)[OF assms(1) a(1)] block_num_def)
  with fork_itemD(6)[OF assms(1) a(1) p] have "1 + num_at fd p \<noteq> 0" by (simp add: add.commute)
  from unatSuc[OF this] e show "unat (num_at fd a) = Suc (unat (num_at fd p))" by (simp add: add.commute)
qed

interpretation fork_links: linked_nodes "fork_tree hash" owned prev_of for hash
  by unfold_locales (auto dest: prev_ofD)

section \<open>Every operation keeps the tree\<close>

inductive fork_reach :: "(block_header \<Rightarrow> 224 word) \<Rightarrow> fork_database \<Rightarrow> bool" for hash where
  fork_empty: "fork_reach hash empty_fork_database"
| fork_started: "fork_reach hash fd \<Longrightarrow> fork_reach hash (fork_start_block hash b fd)"
| fork_pushed: "fork_reach hash fd \<Longrightarrow> fork_push_block hash b fd = Inr (h, fd') \<Longrightarrow> fork_reach hash fd'"
| fork_popped: "fork_reach hash fd \<Longrightarrow> fork_pop_block fd = Inr fd' \<Longrightarrow> fork_reach hash fd'"
| fork_cleared: "fork_reach hash fd \<Longrightarrow> fork_reach hash (fork_reset fd)"
| fork_resized: "fork_reach hash fd \<Longrightarrow> fork_reach hash (set_max_size n fd)"
| fork_removed: "fork_reach hash fd \<Longrightarrow> fork_reach hash (fork_remove i fd)"
| fork_headed: "fork_reach hash fd \<Longrightarrow> h < length (fd_items fd) \<Longrightarrow> fork_reach hash (fork_set_head h fd)"

text \<open>\<open>tree_items\<close> is the part of the invariant about the items alone.\<close>

definition tree_item :: "(block_header \<Rightarrow> 224 word) \<Rightarrow> fork_item list \<Rightarrow> nat \<Rightarrow> bool" where
  "tree_item hash is a \<longleftrightarrow>
     fi_num (is ! a) = block_num (fi_data (is ! a)) \<and> fi_id (is ! a) = header_id hash (fi_data (is ! a)) \<and>
     \<not> fi_invalid (is ! a) \<and>
     (\<forall>p. fi_prev (is ! a) = Some p \<longrightarrow> p < a \<and> fi_id (is ! p) = previous_id (is ! a) \<and> fi_num (is ! a) \<noteq> 0)"

lemma fork_tree_iff:
  "fork_tree hash fd \<longleftrightarrow>
     (\<forall>a. owned fd a \<longrightarrow> a < length (fd_items fd)) \<and> (\<forall>a<length (fd_items fd). tree_item hash (fd_items fd) a) \<and>
     distinct (map (\<lambda>a. fi_id (item_at fd a)) (fd_index fd)) \<and> fd_unlinked_index fd = []"
  by (simp add: fork_tree_def tree_item_def)

text \<open>An operation that only lets go of items or moves the head to an item keeps the tree.\<close>

lemma fork_tree_restrict:
  assumes "fork_tree hash fd" and "fd_items fd' = fd_items fd" and "fd_unlinked_index fd' = []"
    and "\<exists>P. fd_index fd' = filter P (fd_index fd)"
    and "\<And>h. fd_head fd' = Some h \<Longrightarrow> h < length (fd_items fd)"
  shows "fork_tree hash fd'"
proof -
  obtain P where P: "fd_index fd' = filter P (fd_index fd)" using assms(4) by blast
  have "owned fd' a \<Longrightarrow> a < length (fd_items fd)" for a
    using assms(1,3,5) P by (auto simp: fork_tree_iff owned_def)
  with assms(1-3) P show ?thesis by (simp add: fork_tree_iff distinct_map_filter)
qed

lemma tree_item_append:
  assumes "a < length is" and "tree_item hash is a"
  shows "tree_item hash (is @ [i]) a"
  using assms by (auto simp: tree_item_def nth_append)

lemma find_id_Some: "find_id fd idx i = Some p \<Longrightarrow> p \<in> set idx \<and> fi_id (item_at fd p) = i"
  by (auto simp: find_id_def find_Some_iff)

lemma find_id_None: "find_id fd idx i = None \<longleftrightarrow> (\<forall>a\<in>set idx. fi_id (item_at fd a) \<noteq> i)"
  by (auto simp: find_id_def find_None_iff)

text \<open>Adding one item, linked or not, under the unique index.\<close>

lemma fork_tree_add:
  assumes t: "fork_tree hash fd" and i: "fd_items fd' = fd_items fd @ [i]"
    and ti: "tree_item hash (fd_items fd') (length (fd_items fd))"
    and idx: "fd_index fd' = insert_item fd' (length (fd_items fd)) (fd_index fd)"
    and u: "fd_unlinked_index fd' = []"
    and h: "fd_head fd' = fd_head fd \<or> fd_head fd' = Some (length (fd_items fd))"
  shows "fork_tree hash fd'"
proof -
  let ?n = "length (fd_items fd)"
  have old: "a \<in> set (fd_index fd) \<Longrightarrow> a < ?n" for a using t by (simp add: fork_tree_iff owned_def)
  then have nth: "a \<in> set (fd_index fd) \<Longrightarrow> item_at fd' a = item_at fd a" for a by (simp add: i nth_append)
  have "owned fd' a \<Longrightarrow> a < length (fd_items fd')" for a
    using t h u old by (auto simp: owned_def fork_tree_iff i idx insert_item_def less_Suc_eq split: if_splits)
  moreover have "\<forall>a<length (fd_items fd'). tree_item hash (fd_items fd') a"
    using t ti by (auto simp: i less_Suc_eq fork_tree_iff tree_item_append)
  moreover have "distinct (map (\<lambda>a. fi_id (item_at fd' a)) (fd_index fd))"
  proof -
    have e: "map (\<lambda>a. fi_id (item_at fd' a)) (fd_index fd) = map (\<lambda>a. fi_id (item_at fd a)) (fd_index fd)"
      using nth by simp
    show ?thesis unfolding e using t by (simp add: fork_tree_iff)
  qed
  then have "distinct (map (\<lambda>a. fi_id (item_at fd' a)) (fd_index fd'))"
    by (auto simp: idx insert_item_def find_id_None)
  ultimately show ?thesis using u by (simp add: fork_tree_iff)
qed

lemma index_nth_append:
  assumes "fork_tree hash fd" and "owned fd a"
  shows "(fd_items fd @ is) ! a = item_at fd a"
  using owned_in_items[OF assms] by (simp add: nth_append)

lemma find_cong: "(\<And>x. x \<in> set xs \<Longrightarrow> P x = Q x) \<Longrightarrow> List.find P xs = List.find Q xs"
  by (induction xs) auto

lemma link_item_append:
  assumes t: "fork_tree hash fd"
  shows "link_item i (fd\<lparr>fd_items := fd_items fd @ is\<rparr>) = link_item i fd"
proof -
  note nth = index_nth_append[OF t]
  have "find_id (fd\<lparr>fd_items := fd_items fd @ is\<rparr>) (fd_index fd) (previous_id i) = find_id fd (fd_index fd) (previous_id i)"
    unfolding find_id_def by (rule find_cong) (simp add: nth owned_def)
  then show ?thesis
    by (auto simp: link_item_def nth owned_def split: option.splits dest!: find_id_Some)
qed

text \<open>The state after a block was linked as the item \<open>i\<close>.\<close>

definition with_item :: "fork_item \<Rightarrow> fork_database \<Rightarrow> fork_database" where
  "with_item i fd =
     (let n = length (fd_items fd); fd1 = fd\<lparr>fd_items := fd_items fd @ [i]\<rparr> in
      fd1\<lparr>fd_index := insert_item fd1 n (fd_index fd),
          fd_head := (case fd_head fd of None \<Rightarrow> Some n | Some h \<Rightarrow> if fi_num i > num_at fd h then Some n else Some h)\<rparr>)"

lemma link_item_same:
  "link_item i fd = Inr i' \<Longrightarrow> fi_num i' = fi_num i \<and> fi_id i' = fi_id i \<and> fi_data i' = fi_data i \<and> fi_invalid i' = fi_invalid i"
  by (auto simp: link_item_def split: option.splits if_splits)

lemma push_block_form:
  assumes t: "fork_tree hash fd"
  shows "fork_push_block hash b fd =
    bindE (link_item (new_fork_item hash b) fd) (\<lambda>i. Inr (fd_head (with_item i fd), with_item i fd))"
proof -
  have "num_at (fd\<lparr>fd_items := fd_items fd @ is\<rparr>) h = num_at fd h" if "fd_head fd = Some h" for h "is"
    using that by (simp add: index_nth_append[OF t] owned_def)
  then show ?thesis
    by (cases "link_item (new_fork_item hash b) fd")
      (auto simp: fork_push_block_def make_item_def push_item_def link_item_append[OF t] with_item_def Let_def
        insert_item_def find_id_def split: option.splits)
qed

lemma link_item_tree:
  assumes t: "fork_tree hash fd" and l: "link_item (new_fork_item hash b) fd = Inr i"
  shows "tree_item hash (fd_items fd @ [i]) (length (fd_items fd))"
proof -
  have s: "fi_num i = block_num b" "fi_id i = header_id hash b" "fi_data i = b" "\<not> fi_invalid i"
    using link_item_same[OF l] by (simp_all add: new_fork_item_def)
  have "p < length (fd_items fd) \<and> fi_id (item_at fd p) = previous_id i \<and> fi_num i \<noteq> 0" if "fi_prev i = Some p" for p
  proof -
    from l that have n: "fi_num i \<noteq> 0"
      by (auto simp: link_item_def new_fork_item_def oldest_num_def split: option.splits if_splits)
    from l that have "find_id fd (fd_index fd) (previous_id (new_fork_item hash b)) = Some p"
      by (auto simp: link_item_def new_fork_item_def split: option.splits if_splits)
    from find_id_Some[OF this] t show ?thesis
      using n by (auto simp: fork_tree_iff owned_def previous_id_def s new_fork_item_def)
  qed
  with s show ?thesis by (auto simp: tree_item_def nth_append)
qed

lemma fork_push_tree:
  assumes t: "fork_tree hash fd" and p: "fork_push_block hash b fd = Inr (h, fd')"
  shows "fork_tree hash fd'"
proof -
  obtain i where l: "link_item (new_fork_item hash b) fd = Inr i" and f: "fd' = with_item i fd"
    using p by (auto simp: push_block_form[OF t])
  show ?thesis
  proof (rule fork_tree_add[OF t, of _ i])
    show "tree_item hash (fd_items fd') (length (fd_items fd))"
      using link_item_tree[OF t l] by (simp add: f with_item_def Let_def)
  qed (use t in \<open>auto simp: f with_item_def Let_def insert_item_def find_id_def fork_tree_iff split: option.splits\<close>)
qed

lemma fork_start_tree: "fork_tree hash fd \<Longrightarrow> fork_tree hash (fork_start_block hash b fd)"
  by (rule fork_tree_add[of _ _ _ "new_fork_item hash b"])
    (auto simp: fork_start_block_def make_item_def Let_def tree_item_def new_fork_item_def insert_item_def find_id_def fork_tree_iff)

lemma owned_prev: "prev_of fd a = Some p \<Longrightarrow> owned fd p"
  by (auto simp: prev_of_def lock_ptr_def split: option.splits if_splits)

lemma fork_pop_tree:
  assumes t: "fork_tree hash fd" and p: "fork_pop_block fd = Inr fd'"
  shows "fork_tree hash fd'"
proof -
  obtain q where q: "owned fd q" "fd' = fd\<lparr>fd_head := Some q\<rparr>"
    using p by (auto simp: fork_pop_block_def split: option.splits dest: owned_prev)
  show ?thesis
    by (rule fork_tree_restrict[OF t]) (use t q in \<open>auto simp: fork_tree_iff intro: exI[of _ "\<lambda>_. True"]\<close>)
qed

lemma filter_remove1_False: "\<not> P a \<Longrightarrow> filter P (remove1 a xs) = filter P xs"
  by (induction xs) auto

lemma first_by_num_least:
  assumes "first_by_num fd idx = Some a" and "b \<in> set idx"
  shows "num_at fd a \<le> num_at fd b"
proof -
  obtain xs where s: "sort_key (num_at fd) idx = a # xs"
    using assms(1) by (auto simp: first_by_num_def split: list.splits)
  have "b \<in> set (a # xs)" using assms(2) by (simp only: s[symmetric] set_sort)
  moreover have "sorted (map (num_at fd) (a # xs))" by (simp only: s[symmetric] sorted_sort_key)
  ultimately show ?thesis by auto
qed

text \<open>Erasing the lowest item while it is too low keeps exactly the items that are not too low.\<close>

lemma erase_older_filter: "erase_older fd oldest idx = filter (\<lambda>a. oldest \<le> uint (num_at fd a)) idx"
proof (induction fd oldest idx rule: erase_older.induct)
  case (1 fd oldest idx)
  show ?case
  proof (cases "first_by_num fd idx")
    case None
    then have "sort_key (num_at fd) idx = []" by (auto simp: first_by_num_def split: list.splits)
    then have "idx = []" by (metis length_sort length_0_conv)
    then show ?thesis by (simp add: erase_older.simps first_by_num_def)
  next
    case (Some a)
    show ?thesis
    proof (cases "uint (num_at fd a) < oldest")
      case True
      with 1[OF Some True] Some show ?thesis
        by (simp add: erase_older.simps[of fd oldest idx] filter_remove1_False)
    next
      case False
      with first_by_num_least[OF Some] have "\<forall>b\<in>set idx. oldest \<le> uint (num_at fd b)"
        by (force simp: word_le_def)
      with Some False show ?thesis by (simp add: erase_older.simps[of fd oldest idx])
    qed
  qed
qed

lemma fork_resize_tree:
  assumes t: "fork_tree hash fd"
  shows "fork_tree hash (set_max_size n fd)"
  by (rule fork_tree_restrict[OF t])
    (use t in \<open>auto simp: set_max_size_def Let_def erase_older_filter fork_tree_iff owned_def split: option.splits
      intro: exI[of _ "\<lambda>_. True"]\<close>)

lemma fork_remove_tree:
  assumes t: "fork_tree hash fd"
  shows "fork_tree hash (fork_remove i fd)"
  by (rule fork_tree_restrict[OF t]) (use t in \<open>auto simp: fork_remove_def fork_tree_iff owned_def\<close>)

lemma fork_set_head_tree:
  assumes t: "fork_tree hash fd" and "h < length (fd_items fd)"
  shows "fork_tree hash (fork_set_head h fd)"
  by (rule fork_tree_restrict[OF t])
    (use assms in \<open>auto simp: fork_set_head_def fork_tree_iff intro: exI[of _ "\<lambda>_. True"]\<close>)

lemma fork_reset_tree:
  assumes t: "fork_tree hash fd"
  shows "fork_tree hash (fork_reset fd)"
  by (rule fork_tree_restrict[OF t])
    (use assms in \<open>auto simp: fork_reset_def fork_tree_iff intro: exI[of _ "\<lambda>_. False"]\<close>)

lemma fork_empty_tree: "fork_tree hash empty_fork_database"
  by (simp add: empty_fork_database_def fork_tree_iff owned_def)

lemma fork_reach_tree: "fork_reach hash fd \<Longrightarrow> fork_tree hash fd"
  by (induction rule: fork_reach.induct)
    (blast intro: fork_empty_tree fork_start_tree fork_push_tree fork_pop_tree fork_resize_tree fork_remove_tree
      fork_set_head_tree fork_reset_tree)+

section \<open>The walks end and return what they promise\<close>

lemma owned_block_num: "fork_tree hash fd \<Longrightarrow> owned fd a \<Longrightarrow> block_num (fi_data (item_at fd a)) = num_at fd a"
  using fork_itemD(1) owned_in_items by metis

lemma prev_num_bounds:
  assumes "fork_tree hash fd" and "owned fd a" and "prev_of fd a = Some p"
  shows "num_at fd p < num_at fd a" and "n < num_at fd a \<Longrightarrow> n \<le> num_at fd p"
  using prev_ofD(5)[OF assms] by (simp_all add: word_le_nat_alt word_less_nat_alt)

text \<open>A descent visits a chain of items above \<open>n\<close> and stops at the first that is not above.\<close>

definition descent :: "fork_database \<Rightarrow> 32 word \<Rightarrow> nat \<Rightarrow> nat list \<Rightarrow> nat \<Rightarrow> bool" where
  "descent fd n a xs b \<longleftrightarrow> follows (prev_of fd) (xs @ [b]) \<and> hd (xs @ [b]) = a \<and> owned fd b \<and>
     (\<forall>x\<in>set xs. owned fd x \<and> num_at fd x > n) \<and> num_at fd b \<le> n \<and> (n \<le> num_at fd a \<longrightarrow> num_at fd b = n)"

text \<open>A descent fails only at an item whose parent is no longer held.\<close>

definition cut_off :: "fork_database \<Rightarrow> nat \<Rightarrow> nat \<Rightarrow> bool" where
  "cut_off fd a c \<longleftrightarrow> (\<exists>xs. follows (prev_of fd) (xs @ [c]) \<and> hd (xs @ [c]) = a) \<and> prev_of fd c = None"

lemma cut_off_step: "prev_of fd a = Some p \<Longrightarrow> cut_off fd p c \<Longrightarrow> cut_off fd a c"
  unfolding cut_off_def by (metis append_Cons append_is_Nil_conv follows_Cons list.sel(1) not_Cons_self2)

lemma cut_off_here: "prev_of fd a = None \<Longrightarrow> cut_off fd a a"
  unfolding cut_off_def by (auto intro: exI[of _ "[]"])

lemma descent_step:
  assumes "fork_tree hash fd" and "owned fd a" and "n < num_at fd a" and "prev_of fd a = Some p" and "descent fd n p xs b"
  shows "descent fd n a (a # xs) b"
proof -
  have "follows (prev_of fd) (a # xs @ [b])"
    using assms(4,5) by (simp add: descent_def follows_Cons)
  moreover have "num_at fd b = n" using prev_num_bounds(2)[OF assms(1,2,4,3)] assms(5) by (simp add: descent_def)
  ultimately show ?thesis using assms by (simp add: descent_def)
qed

lemma descent_here: "owned fd a \<Longrightarrow> num_at fd a \<le> n \<Longrightarrow> descent fd n a [] a"
  by (simp add: descent_def)

lemma descend_while_ends:
  assumes t: "fork_tree hash fd" and "owned fd a"
  shows "(\<exists>b xs. descend_while fd n a acc = Some (Inr (b, acc @ xs)) \<and> descent fd n a xs b) \<or>
         descend_while fd n a acc = Some (Inl assert_exception) \<and> (\<exists>c. cut_off fd a c)"
  using assms(2)
proof (induction a arbitrary: acc rule: fork_links.node_induct[OF t, consumes 1, case_names step])
  case (step a)
  note n = owned_block_num[OF t step.hyps] and eq = descend_while.simps[of fd n a acc]
  consider "num_at fd a \<le> n" | "n < num_at fd a" "prev_of fd a = None"
    | p where "n < num_at fd a" "prev_of fd a = Some p" by fastforce
  then show ?case
  proof cases
    case 1
    with step.hyps have "descend_while fd n a acc = Some (Inr (a, acc @ [])) \<and> descent fd n a [] a"
      by (simp add: eq n descent_here leD)
    then show ?thesis by blast
  next
    case 2
    then show ?thesis using cut_off_here[of fd a] by (auto simp: eq n)
  next
    case 3
    then have e: "descend_while fd n a acc = descend_while fd n p (acc @ [a])" by (simp add: eq n)
    have p: "p < a" "owned fd p" using prev_ofD[OF t step.hyps 3(2)] by simp_all
    from step.IH[OF 3(2) p, of "acc @ [a]"] show ?thesis
    proof
      assume "\<exists>b xs. descend_while fd n p (acc @ [a]) = Some (Inr (b, (acc @ [a]) @ xs)) \<and> descent fd n p xs b"
      then obtain b xs where "descend_while fd n a acc = Some (Inr (b, acc @ (a # xs)))" "descent fd n p xs b"
        by (auto simp: e)
      with descent_step[OF t step.hyps 3] show ?thesis by blast
    qed (use cut_off_step[OF 3(2)] e in auto)
  qed
qed

text \<open>
  The joint descent keeps the two chains at the same height and stops at the first pair with the same
  parent.
\<close>

definition fork_point :: "fork_database \<Rightarrow> nat \<Rightarrow> nat \<Rightarrow> nat list \<Rightarrow> nat list \<Rightarrow> bool" where
  "fork_point fd a b xs ys \<longleftrightarrow> xs \<noteq> [] \<and> ys \<noteq> [] \<and> hd xs = a \<and> hd ys = b \<and>
     follows (prev_of fd) xs \<and> follows (prev_of fd) ys \<and> length xs = length ys \<and>
     previous_id (item_at fd (last xs)) = previous_id (item_at fd (last ys)) \<and>
     (\<forall>i<length xs - 1. previous_id (item_at fd (xs ! i)) \<noteq> previous_id (item_at fd (ys ! i)))"

lemma fork_point_step:
  assumes "previous_id (item_at fd a) \<noteq> previous_id (item_at fd b)" "prev_of fd a = Some p" "prev_of fd b = Some q"
    and "fork_point fd p q xs ys"
  shows "fork_point fd a b (a # xs) (b # ys)"
  using assms by (auto simp: fork_point_def follows_Cons nth_Cons split: nat.splits)

lemma descend_both_ends:
  assumes t: "fork_tree hash fd" and "owned fd a" and "owned fd b"
  shows "(\<exists>us vs. descend_both fd a b xs ys = Some (Inr (xs @ us, ys @ vs)) \<and> fork_point fd a b us vs) \<or>
         descend_both fd a b xs ys = Some (Inl assert_exception) \<and> (\<exists>c. cut_off fd a c \<or> cut_off fd b c)"
  using assms(2,3)
proof (induction a arbitrary: b xs ys rule: fork_links.node_induct[OF t, consumes 1, case_names step])
  case (step a)
  note eq = descend_both.simps[of fd a b xs ys]
  consider "previous_id (item_at fd a) = previous_id (item_at fd b)"
    | "previous_id (item_at fd a) \<noteq> previous_id (item_at fd b)" "prev_of fd a = None \<or> prev_of fd b = None"
    | p q where "previous_id (item_at fd a) \<noteq> previous_id (item_at fd b)" "prev_of fd a = Some p" "prev_of fd b = Some q"
    by fastforce
  then show ?case
  proof cases
    case 1
    then have "descend_both fd a b xs ys = Some (Inr (xs @ [a], ys @ [b])) \<and> fork_point fd a b [a] [b]"
      by (simp add: eq fork_point_def)
    then show ?thesis by blast
  next
    case 2
    then show ?thesis using cut_off_here[of fd] by (auto simp: eq split: option.splits)
  next
    case 3
    then have e: "descend_both fd a b xs ys = descend_both fd p q (xs @ [a]) (ys @ [b])" by (simp add: eq)
    have p: "p < a" "owned fd p" "owned fd q"
      using prev_ofD[OF t step.hyps 3(2)] prev_ofD[OF t step.prems 3(3)] by simp_all
    from step.IH[OF 3(2) p, of "xs @ [a]" "ys @ [b]"] show ?thesis
    proof
      assume "\<exists>us vs. descend_both fd p q (xs @ [a]) (ys @ [b]) = Some (Inr ((xs @ [a]) @ us, (ys @ [b]) @ vs)) \<and> fork_point fd p q us vs"
      then obtain us vs where "descend_both fd a b xs ys = Some (Inr (xs @ (a # us), ys @ (b # vs)))" "fork_point fd p q us vs"
        by (auto simp: e)
      with fork_point_step[OF 3] show ?thesis by blast
    qed (use cut_off_step[OF 3(2)] cut_off_step[OF 3(3)] e in auto)
  qed
qed

text \<open>
  The two branches as the source describes them: chains from the two blocks down to the same prior
  block, with no earlier pair at the same distance from the ends that shares its prior block.
\<close>

definition branches_of :: "fork_database \<Rightarrow> nat \<Rightarrow> nat \<Rightarrow> nat list \<Rightarrow> nat list \<Rightarrow> bool" where
  "branches_of fd a b xs ys \<longleftrightarrow> xs \<noteq> [] \<and> ys \<noteq> [] \<and> hd xs = a \<and> hd ys = b \<and>
     follows (prev_of fd) xs \<and> follows (prev_of fd) ys \<and>
     num_at fd (last xs) = num_at fd (last ys) \<and>
     previous_id (item_at fd (last xs)) = previous_id (item_at fd (last ys)) \<and>
     (\<forall>i. 0 < i \<and> i < min (length xs) (length ys) \<longrightarrow>
        previous_id (item_at fd (rev xs ! i)) \<noteq> previous_id (item_at fd (rev ys ! i)))"

lemma follows_append:
  "xs \<noteq> [] \<Longrightarrow> ys \<noteq> [] \<Longrightarrow> follows f (xs @ ys) \<longleftrightarrow> follows f xs \<and> f (last xs) = Some (hd ys) \<and> follows f ys"
  by (induction f xs rule: follows.induct) (auto simp: follows_Cons hd_append)

lemma join_descent:
  assumes "descent fd n a us c" and "vs \<noteq> []" and "hd vs = c" and "follows (prev_of fd) vs"
  shows "follows (prev_of fd) (us @ vs)" and "hd (us @ vs) = a"
proof -
  show "hd (us @ vs) = a" using assms by (cases us) (auto simp: descent_def)
  show "follows (prev_of fd) (us @ vs)"
    using assms follows_append[of us vs "prev_of fd"] follows_append[of us "[c]" "prev_of fd"]
    by (cases "us = []") (auto simp: descent_def)
qed

text \<open>Along a chain the numbers fall by one each step, so the height fixes the position.\<close>

lemma chain_nums:
  assumes t: "fork_tree hash fd" and "owned fd (hd xs)" and "follows (prev_of fd) xs" and "i < length xs"
  shows "num_at fd (xs ! i) + of_nat i = num_at fd (hd xs)"
  using assms(2-4)
proof (induction xs arbitrary: i)
  case Nil
  then show ?case by simp
next
  case (Cons a xs)
  show ?case
  proof (cases i)
    case (Suc j)
    then have p: "prev_of fd a = Some (hd xs)" "follows (prev_of fd) xs" "j < length xs"
      using Cons.prems by (auto simp: follows_Cons)
    note q = prev_ofD[OF t _ p(1)]
    have "num_at fd (xs ! j) + of_nat j = num_at fd (hd xs)" using Cons.IH[of j] Cons.prems q p by simp
    then show ?thesis using Suc q(4) Cons.prems by (simp add: algebra_simps)
  qed simp
qed

lemma descents_meet:
  assumes "descent fd (num_at fd b) a us c" and "descent fd (num_at fd c) b vs d"
  shows "us = [] \<or> vs = []" and "num_at fd c = num_at fd d"
proof -
  have u: "us \<noteq> [] \<Longrightarrow> num_at fd b < num_at fd a"
    using assms(1) by (cases us) (auto simp: descent_def)
  have v: "vs \<noteq> [] \<Longrightarrow> num_at fd c < num_at fd b"
    using assms(2) by (cases vs) (auto simp: descent_def)
  have "num_at fd b < num_at fd a \<Longrightarrow> num_at fd c = num_at fd b" using assms(1) by (simp add: descent_def)
  with u v show "us = [] \<or> vs = []" by force
  have "num_at fd c \<le> num_at fd b" using assms(1) by (simp add: descent_def)
  with assms(2) show "num_at fd c = num_at fd d" by (simp add: descent_def)
qed

lemma branches_join:
  assumes t: "fork_tree hash fd" and d: "descent fd (num_at fd b) a us c" "descent fd (num_at fd c) b vs d"
    and f: "fork_point fd c d ps qs"
  shows "branches_of fd a b (us @ ps) (vs @ qs)"
proof -
  note m = descents_meet[OF d]
  from f have p: "ps \<noteq> []" "hd ps = c" "follows (prev_of fd) ps" and q: "qs \<noteq> []" "hd qs = d" "follows (prev_of fd) qs"
    and l: "length ps = length qs" by (simp_all add: fork_point_def)
  have o: "owned fd c" "owned fd d" using d by (simp_all add: descent_def)
  have "num_at fd (last ps) = num_at fd (last qs)"
    using chain_nums[OF t, of ps "length ps - 1"] chain_nums[OF t, of qs "length ps - 1"] p q l o m(2)
    by (simp add: last_conv_nth) (metis add_right_cancel)
  moreover have "previous_id (item_at fd (rev (us @ ps) ! i)) \<noteq> previous_id (item_at fd (rev (vs @ qs) ! i))"
    if i: "0 < i" "i < min (length (us @ ps)) (length (vs @ qs))" for i
  proof -
    have "i < length ps" using i m(1) l by auto
    then have "rev (us @ ps) ! i = ps ! (length ps - Suc i)" "rev (vs @ qs) ! i = qs ! (length ps - Suc i)"
      using l by (simp_all add: nth_append rev_nth)
    with f i \<open>i < length ps\<close> show ?thesis by (simp add: fork_point_def)
  qed
  ultimately show ?thesis
    using join_descent[OF d(1) p] join_descent[OF d(2) q] f p q by (simp add: branches_of_def fork_point_def)
qed

inductive ancestor :: "fork_database \<Rightarrow> nat \<Rightarrow> nat \<Rightarrow> bool" for fd z where
  itself: "ancestor fd z z"
| beyond: "prev_of fd a = Some p \<Longrightarrow> ancestor fd z p \<Longrightarrow> ancestor fd z a"

lemma ancestor_num: "ancestor fd z a \<Longrightarrow> fork_tree hash fd \<Longrightarrow> owned fd a \<Longrightarrow> z = a \<or> num_at fd z < num_at fd a"
proof (induction rule: ancestor.induct)
  case (beyond a p)
  note p = prev_ofD(2)[OF beyond.prems beyond.hyps(1)] prev_num_bounds(1)[OF beyond.prems beyond.hyps(1)]
  with beyond.IH[OF beyond.prems(1)] show ?case by auto
qed simp

lemma ancestor_cases:
  assumes "ancestor fd z a" and "z \<noteq> a"
  obtains p where "prev_of fd a = Some p" "ancestor fd z p"
  using assms by (auto elim: ancestor.cases)

lemma descend_while_reaches:
  assumes t: "fork_tree hash fd" and "owned fd a" and "ancestor fd z a" and n: "num_at fd z \<le> n"
  shows "\<exists>b xs. descend_while fd n a acc = Some (Inr (b, xs)) \<and> ancestor fd z b"
  using assms(2,3)
proof (induction a arbitrary: acc rule: fork_links.node_induct[OF t, consumes 1, case_names step])
  case (step a)
  show ?case
  proof (cases "num_at fd a \<le> n")
    case True
    with step show ?thesis by (auto simp: descend_while.simps[of fd n a] owned_block_num[OF t] leD)
  next
    case False
    with n have "z \<noteq> a" by auto
    with step.prems obtain p where p: "prev_of fd a = Some p" "ancestor fd z p" by (rule ancestor_cases)
    with step.IH[OF p(1) prev_ofD(1,2)[OF t step.hyps p(1)] p(2)] False step.hyps show ?thesis
      by (simp add: descend_while.simps[of fd n a] owned_block_num[OF t] not_le)
  qed
qed

lemma descend_both_reaches:
  assumes t: "fork_tree hash fd" and "owned fd a" and "owned fd b" and "ancestor fd z a" and "ancestor fd z b"
    and "num_at fd a = num_at fd b"
  shows "\<exists>r. descend_both fd a b xs ys = Some (Inr r)"
  using assms(2-6)
proof (induction a arbitrary: b xs ys rule: fork_links.node_induct[OF t, consumes 1, case_names step])
  case (step a)
  show ?case
  proof (cases "previous_id (item_at fd a) = previous_id (item_at fd b)")
    case True
    then show ?thesis by (simp add: descend_both.simps[of fd a b])
  next
    case False
    then have "a \<noteq> b" by auto
    then have "z \<noteq> a" "z \<noteq> b"
      using ancestor_num[OF step.prems(3) t step.prems(1)] ancestor_num[OF step.prems(2) t step.hyps] step.prems(4) by auto
    then obtain p q where p: "prev_of fd a = Some p" "ancestor fd z p" and q: "prev_of fd b = Some q" "ancestor fd z q"
      using step.prems(2,3) by (metis ancestor_cases)
    have "num_at fd p = num_at fd q"
      using prev_ofD(4)[OF t step.hyps p(1)] prev_ofD(4)[OF t step.prems(1) q(1)] step.prems(4) by simp
    with step.IH[OF p(1) prev_ofD(1,2)[OF t step.hyps p(1)] prev_ofD(2)[OF t step.prems(1) q(1)] p(2) q(2)] False p q
    show ?thesis by (simp add: descend_both.simps[of fd a b])
  qed
qed

lemma fetch_branch_cases:
  assumes t: "fork_tree hash fd"
    and a: "find_id fd (fd_index fd) first = Some a" and b: "find_id fd (fd_index fd) second = Some b"
  shows "(\<exists>xs ys. fetch_branch_from first second fd = Some (Inr (xs, ys)) \<and> branches_of fd a b xs ys) \<or>
         fetch_branch_from first second fd = Some (Inl assert_exception)"
proof -
  have o: "owned fd a" "owned fd b" using find_id_Some[OF a] find_id_Some[OF b] by (simp_all add: owned_def)
  note f = fetch_branch_from_def[of first second fd] a b owned_block_num[OF t]
  consider c us where "descend_while fd (num_at fd b) a [] = Some (Inr (c, us))" "descent fd (num_at fd b) a us c"
    | "descend_while fd (num_at fd b) a [] = Some (Inl assert_exception)"
    using descend_while_ends[OF t o(1), of "num_at fd b" "[]"] by auto
  then show ?thesis
  proof cases
    case (1 c us)
    then have oc: "owned fd c" by (simp add: descent_def)
    consider d vs where "descend_while fd (num_at fd c) b [] = Some (Inr (d, vs))" "descent fd (num_at fd c) b vs d"
      | "descend_while fd (num_at fd c) b [] = Some (Inl assert_exception)"
      using descend_while_ends[OF t o(2), of "num_at fd c" "[]"] by auto
    then show ?thesis
    proof cases
      case (1 d vs)
      then have od: "owned fd d" by (simp add: descent_def)
      have e: "fetch_branch_from first second fd = descend_both fd c d us vs"
        using \<open>descend_while fd (num_at fd b) a [] = _\<close> 1(1) by (simp add: f o oc)
      show ?thesis
        using descend_both_ends[OF t oc od, of us vs] branches_join[OF t \<open>descent fd (num_at fd b) a us c\<close> 1(2)]
        unfolding e by blast
    qed (use 1(1) in \<open>simp add: f o oc\<close>)
  qed (simp add: f o)
qed

lemma fetch_branch_meets:
  assumes t: "fork_tree hash fd"
    and a: "find_id fd (fd_index fd) first = Some a" and b: "find_id fd (fd_index fd) second = Some b"
    and z: "ancestor fd z a" "ancestor fd z b"
  shows "\<exists>r. fetch_branch_from first second fd = Some (Inr r)"
proof -
  have o: "owned fd a" "owned fd b" using find_id_Some[OF a] find_id_Some[OF b] by (simp_all add: owned_def)
  have "num_at fd z \<le> num_at fd b" using ancestor_num[OF z(2) t o(2)] by auto
  from descend_while_reaches[OF t o(1) z(1) this, of "[]"]
  obtain c us where c: "descend_while fd (num_at fd b) a [] = Some (Inr (c, us))" "ancestor fd z c" by blast
  with descend_while_ends[OF t o(1), of "num_at fd b" "[]"] have dc: "descent fd (num_at fd b) a us c" by auto
  then have oc: "owned fd c" by (simp add: descent_def)
  have "num_at fd z \<le> num_at fd c" using ancestor_num[OF c(2) t oc] by auto
  from descend_while_reaches[OF t o(2) z(2) this, of "[]"]
  obtain d vs where d: "descend_while fd (num_at fd c) b [] = Some (Inr (d, vs))" "ancestor fd z d" by blast
  with descend_while_ends[OF t o(2), of "num_at fd c" "[]"] have dd: "descent fd (num_at fd c) b vs d" by auto
  then have od: "owned fd d" by (simp add: descent_def)
  have "fetch_branch_from first second fd = descend_both fd c d us vs"
    using c d by (simp add: fetch_branch_from_def a b owned_block_num[OF t] o oc)
  with descend_both_reaches[OF t oc od c(2) d(2) descents_meet(2)[OF dc dd]] show ?thesis by simp
qed

lemma walk_to_num_ends:
  assumes t: "fork_tree hash fd" and "owned fd a"
  shows "\<exists>r. walk_to_num fd n a = Some r \<and>
    (case r of None \<Rightarrow> \<exists>c. cut_off fd a c \<and> n < num_at fd c
     | Some b \<Rightarrow> ancestor fd b a \<and> num_at fd b \<le> n \<and> (n \<le> num_at fd a \<longrightarrow> num_at fd b = n))"
  using assms(2)
proof (induction a rule: fork_links.node_induct[OF t, consumes 1, case_names step])
  case (step a)
  consider "num_at fd a \<le> n" | "n < num_at fd a" "prev_of fd a = None"
    | p where "n < num_at fd a" "prev_of fd a = Some p" by fastforce
  then show ?case
  proof cases
    case 1
    then show ?thesis by (auto simp: walk_to_num.simps[of fd n a] leD intro: ancestor.itself)
  next
    case 2
    then show ?thesis using cut_off_here[of fd a] by (auto simp: walk_to_num.simps[of fd n a])
  next
    case 3
    note p = prev_ofD(1,2)[OF t step.hyps 3(2)] prev_num_bounds(2)[OF t step.hyps 3(2,1)]
    have e: "walk_to_num fd n a = walk_to_num fd n p" using 3 by (simp add: walk_to_num.simps[of fd n a])
    obtain r where r: "walk_to_num fd n p = Some r"
      "case r of None \<Rightarrow> \<exists>c. cut_off fd p c \<and> n < num_at fd c
       | Some b \<Rightarrow> ancestor fd b p \<and> num_at fd b \<le> n \<and> (n \<le> num_at fd p \<longrightarrow> num_at fd b = n)"
      using step.IH[OF 3(2) p(1,2)] by blast
    have "case r of None \<Rightarrow> \<exists>c. cut_off fd a c \<and> n < num_at fd c
       | Some b \<Rightarrow> ancestor fd b a \<and> num_at fd b \<le> n \<and> (n \<le> num_at fd a \<longrightarrow> num_at fd b = n)"
      using r(2) p(3) 3(2) by (auto split: option.splits intro: ancestor.beyond cut_off_step)
    with e r(1) show ?thesis by auto
  qed
qed

section \<open>Properties\<close>

text \<open>
  C18. Whatever sequence of operations built it, the fork database is a tree of linked blocks: every
  held item has the number and the id of its block, ids in the index are unique, an item's parent is the
  block its header names, one lower, and following parents never returns to an item. Nothing is ever put
  in the cache of unlinked blocks.
\<close>

theorem fork_database_linked:
  assumes "fork_reach hash fd" and "owned fd a"
  shows "num_at fd a = block_num (fi_data (item_at fd a)) \<and> fi_id (item_at fd a) = header_id hash (fi_data (item_at fd a)) \<and>
    inj_on (\<lambda>a. fi_id (item_at fd a)) (set (fd_index fd)) \<and>
    (\<forall>p. prev_of fd a = Some p \<longrightarrow>
      fi_id (item_at fd p) = bh_previous (fi_data (item_at fd a)) \<and> unat (num_at fd a) = unat (num_at fd p) + 1) \<and>
    (\<forall>xs. hd xs = a \<and> follows (prev_of fd) xs \<longrightarrow> distinct xs) \<and>
    fd_unlinked_index fd = []"
proof -
  note t = fork_reach_tree[OF assms(1)]
  have "num_at fd a = block_num (fi_data (item_at fd a))" "fi_id (item_at fd a) = header_id hash (fi_data (item_at fd a))"
    using fork_itemD(1,2)[OF t owned_in_items[OF t assms(2)]] by blast+
  moreover have "inj_on (\<lambda>a. fi_id (item_at fd a)) (set (fd_index fd))" "fd_unlinked_index fd = []"
    using t by (simp_all add: fork_tree_iff distinct_map)
  moreover have "fi_id (item_at fd p) = bh_previous (fi_data (item_at fd a)) \<and> unat (num_at fd a) = unat (num_at fd p) + 1"
    if "prev_of fd a = Some p" for p using prev_ofD(3,5)[OF t assms(2) that] by (simp add: previous_id_def)
  moreover have "distinct xs" if "hd xs = a" "follows (prev_of fd) xs" for xs
    using fork_links.chain_distinct[OF t, of xs] assms(2) that by simp
  ultimately show ?thesis by blast
qed

definition demo_hash :: "block_header \<Rightarrow> 224 word" where
  "demo_hash b = push_bit 32 (ucast (bh_timestamp b))"

definition demo_block :: "block_id_type \<Rightarrow> time_point_sec \<Rightarrow> block_header" where
  "demo_block prev t = \<lparr>bh_previous = prev, bh_timestamp = t, bh_witness = ''initminer'',
     bh_transaction_merkle_root = 0, bh_extensions = []\<rparr>"

definition demo_first :: block_header where "demo_first = demo_block 0 3"
definition demo_left :: block_header where "demo_left = demo_block 0x301000000 6"
definition demo_right :: block_header where "demo_right = demo_block 0x301000000 9"
definition demo_left2 :: block_header where "demo_left2 = demo_block 0x602000000 12"

lemma demo_ids [simp]:
  "header_id demo_hash demo_first = 0x301000000" "header_id demo_hash demo_left = 0x602000000"
  "header_id demo_hash demo_right = 0x902000000" "header_id demo_hash demo_left2 = 0xC03000000"
  by (code_simp; fail)+

lemma demo_nums [simp]:
  "block_num demo_first = 1" "block_num demo_left = 2" "block_num demo_right = 2" "block_num demo_left2 = 3"
  by (code_simp; fail)+

lemma demo_previous [simp]:
  "bh_previous demo_first = 0" "bh_previous demo_left = 0x301000000"
  "bh_previous demo_right = 0x301000000" "bh_previous demo_left2 = 0x602000000"
  by (simp_all add: demo_first_def demo_left_def demo_right_def demo_left2_def demo_block_def)

definition demo_forks :: fork_database where
  "demo_forks = \<lparr>
     fd_items = [new_fork_item demo_hash demo_first,
       (new_fork_item demo_hash demo_left)\<lparr>fi_prev := Some 0\<rparr>,
       (new_fork_item demo_hash demo_right)\<lparr>fi_prev := Some 0\<rparr>,
       (new_fork_item demo_hash demo_left2)\<lparr>fi_prev := Some 1\<rparr>],
     fd_index = [0, 1, 2, 3], fd_unlinked_index = [], fd_head = Some 3, fd_max_size = 1024\<rparr>"

lemmas demo_run = fork_push_block_def push_item_def link_item_def make_item_def insert_item_def find_id_def
  fork_start_block_def previous_id_def new_fork_item_def oldest_num_def empty_fork_database_def

lemma demo_forks_reach: "fork_reach demo_hash demo_forks"
proof -
  define fd1 where "fd1 = fork_start_block demo_hash demo_first empty_fork_database"
  have 1: "fork_reach demo_hash fd1" unfolding fd1_def by (intro fork_reach.intros)
  obtain fd2 where 2: "fork_push_block demo_hash demo_left fd1 = Inr (Some 1, fd2)"
    and e2: "fd2 = \<lparr>fd_items = [new_fork_item demo_hash demo_first, (new_fork_item demo_hash demo_left)\<lparr>fi_prev := Some 0\<rparr>],
      fd_index = [0, 1], fd_unlinked_index = [], fd_head = Some 1, fd_max_size = 1024\<rparr>"
    by (simp add: fd1_def demo_run Let_def)
  obtain fd3 where 3: "fork_push_block demo_hash demo_right fd2 = Inr (Some 1, fd3)"
    and e3: "fd3 = \<lparr>fd_items = [new_fork_item demo_hash demo_first, (new_fork_item demo_hash demo_left)\<lparr>fi_prev := Some 0\<rparr>,
        (new_fork_item demo_hash demo_right)\<lparr>fi_prev := Some 0\<rparr>],
      fd_index = [0, 1, 2], fd_unlinked_index = [], fd_head = Some 1, fd_max_size = 1024\<rparr>"
    by (simp add: e2 demo_run Let_def)
  have "fork_push_block demo_hash demo_left2 fd3 = Inr (Some 3, demo_forks)"
    by (simp add: e3 demo_run Let_def demo_forks_def)
  with fork_pushed[OF fork_pushed[OF 1 2] 3] show ?thesis by (rule fork_pushed)
qed

lemma demo_prev: "prev_of demo_forks 3 = Some 1" "prev_of demo_forks 1 = Some 0" "prev_of demo_forks 2 = Some 0"
  by (simp_all add: demo_forks_def prev_of_def lock_ptr_def owned_def)

lemma demo_owned: "owned demo_forks 3" "owned demo_forks 2"
  by (simp_all add: demo_forks_def owned_def)

lemma demo_find: "find_id demo_forks (fd_index demo_forks) 0xC03000000 = Some 3"
  "find_id demo_forks (fd_index demo_forks) 0x902000000 = Some 2"
  by (simp_all add: demo_forks_def find_id_def new_fork_item_def)

lemma demo_ancestors: "ancestor demo_forks 0 3" "ancestor demo_forks 0 2"
  using demo_prev by (meson ancestor.intros)+

theorem fork_database_linked_witness:
  "fi_id (item_at demo_forks 1) = bh_previous (fi_data (item_at demo_forks 3)) \<and>
   unat (num_at demo_forks 3) = unat (num_at demo_forks 1) + 1 \<and> distinct [3, 1, 0::nat]"
proof -
  have "follows (prev_of demo_forks) [3, 1, 0]" using demo_prev by simp
  with fork_database_linked[OF demo_forks_reach demo_owned(1)] demo_prev(1) show ?thesis by (metis list.sel(1))
qed

lemma fork_push_block_parts:
  assumes r: "fork_reach hash fd" and h: "fd_head fd = Some h"
  shows "fork_push_block hash b fd = Inl assert_exception \<longleftrightarrow>
      uint (block_num b) \<le> max 0 (uint (num_at fd h) - uint (fd_max_size fd))" (is ?too_old)
    and "fork_push_block hash b fd = Inl unlinkable_block_exception \<longleftrightarrow>
      uint (block_num b) > max 0 (uint (num_at fd h) - uint (fd_max_size fd)) \<and> bh_previous b \<noteq> 0 \<and>
      (\<forall>a\<in>set (fd_index fd). fi_id (item_at fd a) \<noteq> bh_previous b)" (is ?unlinkable)
    and "fork_push_block hash b fd = Inl e \<Longrightarrow> e = assert_exception \<or> e = unlinkable_block_exception"
    and "fork_push_block hash b fd = Inr (h', fd') \<Longrightarrow>
      fork_is_known_block (header_id hash b) fd' \<and>
      (\<forall>a\<in>set (fd_index fd). a \<in> set (fd_index fd') \<and> item_at fd' a = item_at fd a) \<and>
      h' = fd_head fd' \<and>
      (if block_num b > num_at fd h
       then \<exists>n. h' = Some n \<and> fi_data (item_at fd' n) = b \<and>
         (bh_previous b \<noteq> 0 \<longrightarrow> (\<exists>p\<in>set (fd_index fd). prev_of fd' n = Some p \<and> fi_id (item_at fd p) = bh_previous b))
       else h' = Some h)"
proof -
  note t = fork_reach_tree[OF r]
  note form = push_block_form[OF t, of b]
  have v: "find_id fd (fd_index fd) i = Some p \<Longrightarrow> \<not> fi_invalid (item_at fd p)" for i p
    using fork_itemD(3)[OF t] find_id_Some[of fd "fd_index fd" i p] owned_in_items[OF t] by (auto simp: owned_def)
  show ?too_old ?unlinkable
    "fork_push_block hash b fd = Inl e \<Longrightarrow> e = assert_exception \<or> e = unlinkable_block_exception"
    by (auto simp: form link_item_def h oldest_num_def new_fork_item_def previous_id_def find_id_None v fc_assert_def
      split: option.splits if_splits dest: find_id_Some)
  show "fork_is_known_block (header_id hash b) fd' \<and>
      (\<forall>a\<in>set (fd_index fd). a \<in> set (fd_index fd') \<and> item_at fd' a = item_at fd a) \<and> h' = fd_head fd' \<and>
      (if block_num b > num_at fd h
       then \<exists>n. h' = Some n \<and> fi_data (item_at fd' n) = b \<and>
         (bh_previous b \<noteq> 0 \<longrightarrow> (\<exists>p\<in>set (fd_index fd). prev_of fd' n = Some p \<and> fi_id (item_at fd p) = bh_previous b))
       else h' = Some h)" if push: "fork_push_block hash b fd = Inr (h', fd')"
  proof -
    obtain i where l: "link_item (new_fork_item hash b) fd = Inr i" and f: "fd' = with_item i fd" "h' = fd_head fd'"
      using push by (auto simp: form)
    let ?n = "length (fd_items fd)"
    have s: "fi_num i = block_num b" "fi_id i = header_id hash b" "fi_data i = b"
      using link_item_same[OF l] by (simp_all add: new_fork_item_def)
    have it: "fd_items fd' = fd_items fd @ [i]" and idx: "fd_index fd' = insert_item fd' ?n (fd_index fd)"
      by (simp_all add: f with_item_def Let_def insert_item_def find_id_def)
    have keep: "a \<in> set (fd_index fd') \<and> item_at fd' a = item_at fd a" if "a \<in> set (fd_index fd)" for a
      using that owned_in_items[OF t, of a] by (auto simp: idx it insert_item_def owned_def nth_append)
    have known: "fork_is_known_block (header_id hash b) fd'"
      using s(2) find_id_None[of fd' "fd_index fd'" "header_id hash b"]
      by (auto simp: fork_is_known_block_def idx insert_item_def it find_id_None split: if_splits)
    have link: "\<exists>p\<in>set (fd_index fd). prev_of fd' ?n = Some p \<and> fi_id (item_at fd p) = bh_previous b" if nz: "bh_previous b \<noteq> 0"
    proof -
      obtain p where p: "find_id fd (fd_index fd) (bh_previous b) = Some p" "fi_prev i = Some p"
        using l h nz by (auto simp: link_item_def new_fork_item_def previous_id_def split: option.splits if_splits)
      with find_id_Some[OF p(1)] keep[of p] show ?thesis
        by (auto simp: prev_of_def lock_ptr_def it owned_def intro!: bexI[of _ p])
    qed
    have hd: "h' = (if block_num b > num_at fd h then Some ?n else Some h)"
      by (simp add: f with_item_def Let_def h s)
    have "fi_data (item_at fd' ?n) = b" by (simp add: it s)
    with known keep link hd f(2) show ?thesis by simp
  qed
qed

text \<open>
  C17. Pushing a block either links it or throws, for exactly three reasons: the block is too old for
  the window, its parent is unknown, or (never in practice) its parent is flagged invalid. A linked block
  is findable by its id, the other blocks stay, and the head that is returned is the new block if it is
  higher than the head before, and the head before otherwise: of blocks of the same height the first one
  seen stays in front.
\<close>

theorem fork_push_block_exact:
  assumes r: "fork_reach hash fd" and h: "fd_head fd = Some h"
  shows "(fork_push_block hash b fd = Inl assert_exception \<longleftrightarrow>
      uint (block_num b) \<le> max 0 (uint (num_at fd h) - uint (fd_max_size fd))) \<and>
    (fork_push_block hash b fd = Inl unlinkable_block_exception \<longleftrightarrow>
      uint (block_num b) > max 0 (uint (num_at fd h) - uint (fd_max_size fd)) \<and> bh_previous b \<noteq> 0 \<and>
      (\<forall>a\<in>set (fd_index fd). fi_id (item_at fd a) \<noteq> bh_previous b)) \<and>
    (\<forall>e. fork_push_block hash b fd = Inl e \<longrightarrow> e = assert_exception \<or> e = unlinkable_block_exception) \<and>
    (\<forall>h' fd'. fork_push_block hash b fd = Inr (h', fd') \<longrightarrow>
      fork_is_known_block (header_id hash b) fd' \<and>
      (\<forall>a\<in>set (fd_index fd). a \<in> set (fd_index fd') \<and> item_at fd' a = item_at fd a) \<and>
      h' = fd_head fd' \<and>
      (if block_num b > num_at fd h
       then \<exists>n. h' = Some n \<and> fi_data (item_at fd' n) = b \<and>
         (bh_previous b \<noteq> 0 \<longrightarrow> (\<exists>p\<in>set (fd_index fd). prev_of fd' n = Some p \<and> fi_id (item_at fd p) = bh_previous b))
       else h' = Some h))"
  by (intro conjI allI impI fork_push_block_parts(1-3)[OF assms] fork_push_block_parts(4)[OF assms])

definition demo_stray :: block_header where "demo_stray = demo_block 0x702000000 15"

theorem fork_push_block_exact_witness:
  "(\<exists>fd'. fork_push_block demo_hash demo_left demo_forks = Inr (Some 3, fd') \<and> fork_is_known_block 0x602000000 fd') \<and>
   fork_push_block demo_hash demo_stray demo_forks = Inl unlinkable_block_exception"
proof -
  have h: "fd_head demo_forks = Some 3" by (simp add: demo_forks_def)
  have n: "num_at demo_forks 3 = 3" by (simp add: demo_forks_def new_fork_item_def)
  obtain h' fd' where p: "fork_push_block demo_hash demo_left demo_forks = Inr (h', fd')"
    by (simp add: demo_forks_def demo_run Let_def)
  have s: "block_num demo_stray = 3" "bh_previous demo_stray = 0x702000000" by code_simp+
  have "h' = Some 3 \<and> fork_is_known_block 0x602000000 fd'"
    using fork_push_block_exact[OF demo_forks_reach h, of demo_left] p by (auto simp: n)
  moreover have "fork_push_block demo_hash demo_stray demo_forks = Inl unlinkable_block_exception"
    using fork_push_block_exact[OF demo_forks_reach h, of demo_stray] by (simp add: s demo_forks_def new_fork_item_def)
  ultimately show ?thesis using p by blast
qed

text \<open>
  C16. Asked for the branches of two known blocks, the fork database always comes to an end. The lists it
  returns are chains of parents that begin with the two blocks and end, at the same height, in two
  blocks with the same prior block, and no pair higher up at the same height has that. If the two blocks
  have an ancestor in common that is still held, the branches are returned; an unknown block or a branch
  that was cut off before they meet is an assertion failure.
\<close>

theorem fetch_branch_from_exact:
  assumes r: "fork_reach hash fd"
  shows "(case (find_id fd (fd_index fd) first, find_id fd (fd_index fd) second) of
     (Some a, Some b) \<Rightarrow>
       (\<exists>xs ys. fetch_branch_from first second fd = Some (Inr (xs, ys)) \<and> branches_of fd a b xs ys) \<or>
       fetch_branch_from first second fd = Some (Inl assert_exception) \<and> (\<nexists>z. ancestor fd z a \<and> ancestor fd z b)
   | _ \<Rightarrow> fetch_branch_from first second fd = Some (Inl assert_exception))"
proof -
  note t = fork_reach_tree[OF r]
  consider "find_id fd (fd_index fd) first = None \<or> find_id fd (fd_index fd) second = None"
    | a b where "find_id fd (fd_index fd) first = Some a" "find_id fd (fd_index fd) second = Some b" by fastforce
  then show ?thesis
  proof cases
    case 1
    then show ?thesis by (auto simp: fetch_branch_from_def split: option.splits)
  next
    case 2
    from fetch_branch_cases[OF t 2] fetch_branch_meets[OF t 2] have
      "(\<exists>xs ys. fetch_branch_from first second fd = Some (Inr (xs, ys)) \<and> branches_of fd a b xs ys) \<or>
       fetch_branch_from first second fd = Some (Inl assert_exception) \<and> (\<nexists>z. ancestor fd z a \<and> ancestor fd z b)"
      by fastforce
    with 2 show ?thesis by simp
  qed
qed

theorem fetch_branch_from_exact_witness:
  "(\<exists>xs ys. fetch_branch_from 0xC03000000 0x902000000 demo_forks = Some (Inr (xs, ys)) \<and> branches_of demo_forks 3 2 xs ys) \<and>
   fetch_branch_from 0xC03000000 7 demo_forks = Some (Inl assert_exception)"
proof -
  have n: "find_id demo_forks (fd_index demo_forks) 7 = None"
    by (simp add: demo_forks_def find_id_def new_fork_item_def)
  show ?thesis
    using fetch_branch_from_exact[OF demo_forks_reach, of "0xC03000000" 7] n demo_find demo_ancestors
      fetch_branch_from_exact[OF demo_forks_reach, of "0xC03000000" "0x902000000"] by fastforce
qed

text \<open>
  Looking up a height on the main branch ends; it walks from the head to the ancestor of exactly
  that height, or to nothing if that part of the branch is no longer held. Setting the size of the window
  erases exactly the blocks below it, which are the oldest, and keeps the head.
\<close>

theorem main_branch_window_exact:
  assumes r: "fork_reach hash fd" and h: "fd_head fd = Some h"
  shows "\<exists>w. walk_main_branch_to_num n h fd = Some w \<and>
      (case w of None \<Rightarrow> n > num_at fd h \<or> (\<exists>c. cut_off fd h c \<and> n < num_at fd c)
       | Some b \<Rightarrow> ancestor fd b h \<and> num_at fd b = n)"
    and "fd_index (set_max_size s fd) =
      filter (\<lambda>a. uint (num_at fd h) - uint s \<le> uint (num_at fd a)) (fd_index fd)"
    and "h \<in> set (fd_index fd) \<Longrightarrow> h \<in> set (fd_index (set_max_size s fd))"
proof -
  note t = fork_reach_tree[OF r]
  have o: "owned fd h" using h by (simp add: owned_def)
  obtain w where w: "walk_to_num fd n h = Some w"
    "case w of None \<Rightarrow> \<exists>c. cut_off fd h c \<and> n < num_at fd c
     | Some b \<Rightarrow> ancestor fd b h \<and> num_at fd b \<le> n \<and> (n \<le> num_at fd h \<longrightarrow> num_at fd b = n)"
    using walk_to_num_ends[OF t o] by blast
  then show "\<exists>w. walk_main_branch_to_num n h fd = Some w \<and>
      (case w of None \<Rightarrow> n > num_at fd h \<or> (\<exists>c. cut_off fd h c \<and> n < num_at fd c)
       | Some b \<Rightarrow> ancestor fd b h \<and> num_at fd b = n)"
    by (cases "n > num_at fd h") (auto simp: walk_main_branch_to_num_def not_less split: option.splits)
  have "max 0 d \<le> uint x \<longleftrightarrow> d \<le> uint x" for d and x :: "32 word" by auto
  then show e: "fd_index (set_max_size s fd) = filter (\<lambda>a. uint (num_at fd h) - uint s \<le> uint (num_at fd a)) (fd_index fd)"
    by (simp add: set_max_size_def Let_def h erase_older_filter oldest_num_def)
  show "h \<in> set (fd_index (set_max_size s fd))" if "h \<in> set (fd_index fd)" using that by (simp add: e)
qed

theorem main_branch_window_exact_witness:
  "(\<exists>w. walk_main_branch_to_num 2 3 demo_forks = Some (Some w) \<and> ancestor demo_forks w 3 \<and> num_at demo_forks w = 2) \<and>
   fd_index (set_max_size 1 demo_forks) = [1, 2, 3]"
proof -
  have h: "fd_head demo_forks = Some 3" by (simp add: demo_forks_def)
  have n: "num_at demo_forks 3 = 3" by (simp add: demo_forks_def new_fork_item_def)
  have p: "walk_main_branch_to_num 2 3 demo_forks = Some (Some 1)"
    using demo_prev by (simp add: walk_main_branch_to_num_def n walk_to_num.simps[of _ _ 3])
      (simp add: walk_to_num.simps[of _ _ 1] walk_to_num.simps[of _ _ "Suc 0"] demo_forks_def new_fork_item_def)
  have "fd_index (set_max_size 1 demo_forks) = [1, 2, 3]"
    unfolding main_branch_window_exact(2)[OF demo_forks_reach h] by (simp add: demo_forks_def new_fork_item_def)
  with main_branch_window_exact(1)[OF demo_forks_reach h, of 2] p show ?thesis by auto
qed

text \<open>
  The lookup by height does not look at the branch when only one block of that height is known: after
  the head was popped it still returns the block above the head.
\<close>

theorem lookup_off_main_branch:
  "\<exists>fd. fork_pop_block demo_forks = Inr fd \<and> fd_head fd = Some 1 \<and>
     fetch_block_on_main_branch_by_number 3 1 fd = Some (Some 3) \<and> \<not> ancestor fd 3 1"
proof -
  let ?fd = "demo_forks\<lparr>fd_head := Some 1\<rparr>"
  have "fork_pop_block demo_forks = Inr ?fd" using demo_prev by (simp add: fork_pop_block_def demo_forks_def)
  moreover from fork_popped[OF demo_forks_reach this] have t: "fork_tree demo_hash ?fd" by (rule fork_reach_tree)
  have "\<not> ancestor ?fd 3 1"
    using ancestor_num[OF _ t, of 3 1] by (auto simp: owned_def demo_forks_def new_fork_item_def)
  ultimately show ?thesis
    by (simp add: fetch_block_on_main_branch_by_number_def fork_fetch_block_by_number_def)
      (simp add: demo_forks_def new_fork_item_def)
qed

end
