(* ===== verification/Delegations.thy ===== *)
theory Delegations
  imports Accounts
begin

text \<open>
  The books on delegated shares, over every operation that writes them: \<^verbatim>\<open>delegate_vesting_shares\<close>, the
  return of ended delegations (\<^verbatim>\<open>clear_expired_delegations\<close>), the end of the delegations made with new
  accounts (\<^verbatim>\<open>reclaim_account_creation_delegations\<close>), and the three ways of making an account. The
  evaluators are those of the theories of vesting and of accounts; here is the invariant that ties the
  two counters of an account (\<^verbatim>\<open>delegated_vesting_shares\<close>, \<^verbatim>\<open>received_vesting_shares\<close>) to the delegation
  objects, and that all of them keep it.
\<close>

section \<open>What leaves the books alone\<close>

definition same_books :: "database \<Rightarrow> database \<Rightarrow> bool" where
  "same_books db db' \<longleftrightarrow>
     (\<forall>n. acct_delegated n db' = acct_delegated n db \<and> acct_received n db' = acct_received n db) \<and>
     vesting_delegations db' = vesting_delegations db \<and> delegation_expirations db' = delegation_expirations db"

lemma same_books_refl [simp]: "same_books db db"
  by (simp add: same_books_def)

lemma same_books_trans [trans]: "same_books db db1 \<Longrightarrow> same_books db1 db2 \<Longrightarrow> same_books db db2"
  by (simp add: same_books_def)

lemma same_books_inv: "same_books db db' \<Longrightarrow> delegation_inv db \<Longrightarrow> delegation_inv db'"
  by (simp add: same_books_def delegation_inv_def)

lemma same_books_accounts:
  "accounts db' = accounts db \<Longrightarrow> vesting_delegations db' = vesting_delegations db \<Longrightarrow>
   delegation_expirations db' = delegation_expirations db \<Longrightarrow> same_books db db'"
  using accounts_cong[of db' db] by (simp add: same_books_def)

definition same_counters :: "account_object \<Rightarrow> account_object \<Rightarrow> bool" where
  "same_counters a a' \<longleftrightarrow> a_name a' = a_name a \<and> a_delegated_vesting_shares a' = a_delegated_vesting_shares a \<and>
     a_received_vesting_shares a' = a_received_vesting_shares a"

lemma modify_account_books:
  assumes "modify_account k f db = Inr db'" "\<And>a a'. find_account k db = Some a \<Longrightarrow> f a = Inr a' \<Longrightarrow> same_counters a a'"
  shows "same_books db db'"
proof -
  obtain a a' where a: "find_account k db = Some a" "f a = Inr a'" using accts.update_found[OF assms(1)] by blast
  have "find_account n db' = (if n = k then Some a' else find_account n db)" for n
    using accts.lookup_update[OF assms(1) a, of n] assms(2)[OF a] find_account_name[OF a(1)] by (simp add: same_counters_def)
  then show ?thesis using a assms(2)[OF a] modify_account_frame[OF assms(1)]
    by (auto simp: same_books_def acct_delegated_def acct_received_def same_counters_def)
qed

lemma accrue_gbd_books:
  assumes "accrue_gbd a db = Inr (a', db')"
  shows "accounts db' = accounts db \<and> vesting_delegations db' = vesting_delegations db \<and>
    delegation_expirations db' = delegation_expirations db \<and> same_counters a a'"
  using assms by (auto simp: accrue_gbd_def Let_def pay_interest_supply_def same_counters_def split: if_splits)

lemma adjust_balance_books: "adjust_balance n d db = Inr db' \<Longrightarrow> same_books db db'"
proof -
  assume "adjust_balance n d db = Inr db'"
  note h = this[unfolded adjust_balance_def modify_balance_def]
  obtain a where a: "find_account n db = Some a" using h by auto
  consider "symbol d = GBD_SYMBOL" | "symbol d \<noteq> GBD_SYMBOL" by blast
  then show "same_books db db'"
  proof cases
    case 1
    then obtain a' db1 b where acc: "accrue_gbd a db = Inr (a', db1)"
      and m: "modify_account n (\<lambda>_. Inr (a'\<lparr>a_gbd_balance := b\<rparr>)) db1 = Inr db'" using h a by auto
    note e = accrue_gbd_books[OF acc]
    have "same_books db1 db'"
      by (rule modify_account_books[OF m]) (use a e find_account_cong[of db1 db] in \<open>auto simp: same_counters_def\<close>)
    then show ?thesis using same_books_accounts[of db1 db] e same_books_trans by blast
  next
    case 2
    then show ?thesis using h a by (auto split: if_splits intro!: modify_account_books simp: same_counters_def)
  qed
qed

lemma adjust_witness_votes_books: "adjust_witness_votes n d db = Inr db' \<Longrightarrow> same_books db db'"
  unfolding adjust_witness_votes_def
  by (erule foldE_invariant[where I = "same_books db", rotated -1])
    (auto simp: adjust_witness_vote_def modify_witness_def same_books_def acct_delegated_def acct_received_def find_account_def)

lemma adjust_proxied_books: "adjust_proxied_witness_votes n d k db = Inr db' \<Longrightarrow> same_books db db'"
proof (rule adjust_proxied_invariant[where I = "same_books db"], assumption, goal_cases)
  case (2 m e s s')
  then show ?case using adjust_witness_votes_books same_books_trans by blast
next
  case (3 m f s s')
  have "same_books s s'" by (rule modify_account_books[OF 3(3)]) (use 3(4) in \<open>force simp: same_counters_def\<close>)
  then show ?case using 3(2) same_books_trans by blast
qed simp

lemma create_vesting_books: "create_vesting n liquid False db = Inr (nv, db') \<Longrightarrow> same_books db db'"
proof -
  assume "create_vesting n liquid False db = Inr (nv, db')"
  then obtain db1 f db2 where "adjust_balance n nv db = Inr db1" "modify_dgpo f db1 = Inr db2"
    "adjust_proxied_witness_votes n (amount nv) 0 db2 = Inr db'"
    by (auto simp: create_vesting_def simp del: modify_dgpo_Inr)
  then have "same_books db db1" "same_books db1 db2" "same_books db2 db'"
    by (auto intro: same_books_accounts adjust_balance_books adjust_proxied_books)
  then show "same_books db db'" by (meson same_books_trans)
qed

lemma create_account_authority_books: "create_account_authority n o1 o2 o3 u db = Inr db' \<Longrightarrow> same_books db db'"
  by (auto simp: create_account_authority_def intro: same_books_accounts)

section \<open>A new account\<close>

text \<open>A new account has delegated nothing, and has received what its creator lends it.\<close>

lemma create_account_books:
  assumes "create_account g db = Inr db'" "\<And>i. a_name (g (new_account i)) = n \<and>
      amount (a_delegated_vesting_shares (g (new_account i))) = 0 \<and> amount (a_received_vesting_shares (g (new_account i))) = r"
  shows "(\<forall>m. acct_delegated m db' = acct_delegated m db \<and> acct_received m db' = acct_received m db + (if m = n then r else 0)) \<and>
    vesting_delegations db' = vesting_delegations db \<and> delegation_expirations db' = delegation_expirations db"
proof -
  let ?a = "g (new_account (next_id (accounts db)))"
  have c: "\<forall>w\<in>set (rows (accounts db)). a_name w \<noteq> n"
    "db' = db\<lparr>accounts := (accounts db)\<lparr>next_id := next_id (accounts db) + 1, rows := rows (accounts db) @ [?a]\<rparr>\<rparr>"
    using assms(1) assms(2)[of "next_id (accounts db)"] by (auto simp: create_account_def t_create_Inr account_clash_def)
  have last: "List.find P (xs @ [y]) = (case List.find P xs of None \<Rightarrow> if P y then Some y else None | Some x \<Rightarrow> Some x)"
    for P y and xs :: "account_object list" by (induction xs) auto
  have none: "List.find (\<lambda>a. a_name a = n) (rows (accounts db)) = None" using c(1) by (simp add: find_None_iff)
  have "find_account m db' = (if m = n then Some ?a else find_account m db) \<and> (m = n \<longrightarrow> find_account m db = None)" for m
    using assms(2)[of "next_id (accounts db)"] none
    by (cases "m = n") (auto simp: c(2) find_account_def t_find_def last split: option.splits)
  then show ?thesis using c(2) assms(2)[of "next_id (accounts db)"]
    by (auto simp: acct_delegated_def acct_received_def)
qed

text \<open>
  The common part of the three creations: the creator lends the shares, the new account has received
  them, and a delegation object records the loan unless it is empty.
\<close>

lemma new_account_inv:
  assumes "modify_account r f db = Inr db1" "create_account g db1 = Inr db2"
    "create_account_authority n o1 o2 o3 u db2 = Inr db3" "delegation_inv db"
    and f: "\<And>a a'. f a = Inr a' \<Longrightarrow> a_name a' = a_name a \<and>
      amount (a_delegated_vesting_shares a') = amount (a_delegated_vesting_shares a) + amount s \<and>
      amount (a_received_vesting_shares a') = amount (a_received_vesting_shares a)"
    and g: "\<And>i. a_name (g (new_account i)) = n \<and>
      amount (a_delegated_vesting_shares (g (new_account i))) = 0 \<and> amount (a_received_vesting_shares (g (new_account i))) = amount s"
    and lent: "(if amount s > 0 then create_delegation r n s t db3 else Inr db3) = Inr db4" "0 \<le> amount s"
  shows "delegation_inv db4"
proof -
  note m = delegation_account[OF assms(1), where d = "amount s" and r = 0]
  have m: "\<forall>k. acct_delegated k db1 = acct_delegated k db + (if k = r then amount s else 0) \<and>
      acct_received k db1 = acct_received k db \<and>
      vesting_delegations db1 = vesting_delegations db \<and> delegation_expirations db1 = delegation_expirations db"
    using m f by simp
  note c = create_account_books[OF assms(2) g] and a = create_account_authority_books[OF assms(3), unfolded same_books_def]
  show ?thesis
  proof (cases "amount s > 0")
    case True
    then have d: "create_delegation r n s t db3 = Inr db4" using lent by simp
    from delegation_tables(1)[OF d] show ?thesis
      using m c a assms(4) accounts_cong[of db4 db3] by (auto simp: delegation_inv_def)
  next
    case False
    then show ?thesis using m c a lent assms(4) by (auto simp: delegation_inv_def)
  qed
qed

lemma initialized_counters:
  "a_name (initialize_account_object n k p b r h acc) = n"
  "a_delegated_vesting_shares (initialize_account_object n k p b r h acc) = a_delegated_vesting_shares acc"
  "a_received_vesting_shares (initialize_account_object n k p b r h acc) = a_received_vesting_shares acc"
  by (simp_all add: initialize_account_object_def Let_def)

lemmas new_counters = initialized_counters new_account_def

lemma account_create_inv:
  assumes "account_create_evaluator op db = Inr db'" "delegation_inv db"
    and "\<And>p s. get_vesting_share_price (dgpo db) = Inr p \<Longrightarrow> asset_times_price (oac_fee op) p = Inr s \<Longrightarrow> 0 \<le> amount s"
  shows "delegation_inv db'"
proof -
  obtain c where c: "find_account (oac_creator op) db = Some c" using assms(1) by (auto simp: account_create_evaluator_def Let_def)
  show ?thesis
  proof (cases "a_name c = GAMEBANK_INIT_MINER_NAME")
    case True
    with c assms(1) obtain p s db1 g db2 db3 t where "get_vesting_share_price (dgpo db) = Inr p" "asset_times_price (oac_fee op) p = Inr s"
      and h: "modify_account (oac_creator op) (add_delegated s) db = Inr db1" "create_account g db1 = Inr db2"
      "g = (\<lambda>acc. (initialize_account_object (oac_new_account_name op) (oac_memo_key op) (dgpo db) False (oac_creator op) (get_hardfork db) acc)
              \<lparr>a_json_metadata := oac_json_metadata op, a_received_vesting_shares := s\<rparr>)"
      "create_account_authority (oac_new_account_name op) (oac_owner op) (oac_active op) (oac_posting op) 0 db2 = Inr db3"
      "(if amount s > 0 then create_delegation (oac_creator op) (oac_new_account_name op) s t db3 else Inr db3) = Inr db'"
      unfolding account_create_evaluator_def Let_def by (auto split del: if_split)
    then have "0 \<le> amount s" using assms(3) by blast
    then show ?thesis
      by (intro new_account_inv[OF h(1,2,4) assms(2) _ _ h(5)]) (auto simp: h(3) new_counters add_delegated_def dest!: asset_dest)
  next
    case False
    with c assms(1) obtain db1 g db2 db3 where
      h: "modify_account (oac_creator op) (\<lambda>c. bindE (asset_sub (a_balance c) (oac_fee op)) (\<lambda>b. Inr (c\<lparr>a_balance := b\<rparr>))) db = Inr db1"
      "create_account g db1 = Inr db2"
      "g = (\<lambda>acc. (initialize_account_object (oac_new_account_name op) (oac_memo_key op) (dgpo db) False (oac_creator op) (get_hardfork db) acc)
              \<lparr>a_json_metadata := oac_json_metadata op\<rparr>)"
      "create_account_authority (oac_new_account_name op) (oac_owner op) (oac_active op) (oac_posting op) 0 db2 = Inr db3"
      and v: "same_books db3 db'"
      unfolding account_create_evaluator_def Let_def by (auto split: if_splits dest: create_vesting_books)
    have "delegation_inv db3"
      by (rule new_account_inv[OF h(1,2,4) assms(2), where s = "GBS 0"]) (auto simp: h(3) new_counters)
    then show ?thesis using same_books_inv[OF v] by simp
  qed
qed

lemma account_create_with_delegation_inv:
  assumes "account_create_with_delegation_evaluator op db = Inr db'" "delegation_inv db" "0 \<le> amount (oacd_delegation op)"
  shows "delegation_inv db'"
proof -
  let ?n = "oacd_new_account_name op"
  obtain db1 g db2 db3 t db4 where
    h: "modify_account (oacd_creator op) (\<lambda>c.
             bindE (asset_sub (a_balance c) (oacd_fee op)) (\<lambda>b.
             bindE (asset_add (a_delegated_vesting_shares c) (oacd_delegation op)) (\<lambda>d.
               Inr (c\<lparr>a_balance := b, a_delegated_vesting_shares := d\<rparr>)))) db = Inr db1"
      "create_account g db1 = Inr db2"
      "create_account_authority ?n (oacd_owner op) (oacd_active op) (oacd_posting op) 0 db2 = Inr db3"
      "g = (\<lambda>acc. (initialize_account_object ?n (oacd_memo_key op) (dgpo db) False (oacd_creator op) (get_hardfork db) acc)
               \<lparr>a_received_vesting_shares := oacd_delegation op, a_json_metadata := oacd_json_metadata op\<rparr>)"
      "(if amount (oacd_delegation op) > 0 then create_delegation (oacd_creator op) ?n (oacd_delegation op) t db3
                 else Inr db3) = Inr db4"
      "(if amount (oacd_fee op) > 0 then bindE (create_vesting ?n (oacd_fee op) False db4) (\<lambda>(_, db5). Inr db5)
          else Inr db4) = Inr db'"
    using assms(1) unfolding account_create_with_delegation_evaluator_def Let_def bindE_Inr fc_assert_Inr fc_assertE_Inr
    by (elim exE conjE) (rule that, (assumption | rule refl)+)
  have "delegation_inv db4"
    by (rule new_account_inv[OF h(1-3) assms(2), where s = "oacd_delegation op" and t = t])
      (use h(5) assms(3) in \<open>auto simp: h(4) new_counters split: if_splits dest!: asset_dest\<close>)
  moreover have "same_books db4 db'" using h(6) by (auto split: if_splits dest: create_vesting_books)
  ultimately show ?thesis using same_books_inv by blast
qed

lemma create_claimed_account_inv:
  assumes "create_claimed_account_evaluator op db = Inr db'" "delegation_inv db"
  shows "delegation_inv db'"
proof -
  obtain db1 g db2 where
    h: "modify_account (occa_creator op) (\<lambda>a. bindE (safe_sub (a_pending_claimed_accounts a) 1) (\<lambda>c.
                 Inr (a\<lparr>a_pending_claimed_accounts := c\<rparr>))) db = Inr db1" "create_account g db1 = Inr db2"
      "create_account_authority (occa_new_account_name op) (occa_owner op) (occa_active op) (occa_posting op) 0 db2 = Inr db'"
      "g = (\<lambda>acc. (initialize_account_object (occa_new_account_name op) (occa_memo_key op) (dgpo db) False (occa_creator op) (get_hardfork db) acc)
               \<lparr>a_json_metadata := occa_json_metadata op\<rparr>)"
    using assms(1) unfolding create_claimed_account_evaluator_def Let_def by auto
  show ?thesis by (rule new_account_inv[OF h(1-3) assms(2), where s = "GBS 0"]) (auto simp: h(4) new_counters)
qed

section \<open>The books over every operation\<close>

text \<open>
  Delegations and account creations come in transactions whose operations have passed \<^verbatim>\<open>validate\<close>. The
  premise of \<^verbatim>\<open>account_create\<close> excludes only the wrap-around of \<^verbatim>\<open>asset * price\<close>, which yields a negative
  value in shares for a fee worth more than \<open>2\<^sup>6\<^sup>3\<close> of them.
  \<^verbatim>\<open>reclaim_account_creation_delegations\<close> increments its iterator after removing the element it points
  to, which is undefined behaviour in the source; the step here is the intended one, to the next
  delegation in order.
\<close>

inductive delegation_step :: "database \<Rightarrow> database \<Rightarrow> bool" where
  ds_delegate: "delegate_vesting_shares_evaluator op db = Inr db' \<Longrightarrow> delegate_vesting_shares_validate op = Inr () \<Longrightarrow>
    delegation_step db db'"
| ds_return: "clear_expired_delegations db = Inr db' \<Longrightarrow> delegation_step db db'"
| ds_reclaim: "reclaim_account_creation_delegations db = Inr db' \<Longrightarrow> delegation_step db db'"
| ds_create: "account_create_evaluator op db = Inr db' \<Longrightarrow>
    (\<And>p s. get_vesting_share_price (dgpo db) = Inr p \<Longrightarrow> asset_times_price (oac_fee op) p = Inr s \<Longrightarrow> 0 \<le> amount s) \<Longrightarrow>
    delegation_step db db'"
| ds_create_delegated: "account_create_with_delegation_evaluator op db = Inr db' \<Longrightarrow>
    account_create_with_delegation_validate tc op = Inr () \<Longrightarrow> delegation_step db db'"
| ds_create_claimed: "create_claimed_account_evaluator op db = Inr db' \<Longrightarrow> delegation_step db db'"

lemma delegation_step_inv: "delegation_step db db' \<Longrightarrow> delegation_inv db \<Longrightarrow> delegation_inv db'"
proof (induction rule: delegation_step.induct)
  case (ds_delegate op db db')
  then have "0 \<le> amount (odvs_vesting_shares op)" by (auto simp: delegate_vesting_shares_validate_def)
  then show ?case using delegate_vesting_shares_inv ds_delegate by blast
next
  case (ds_create_delegated op db db' tc)
  then have "0 \<le> amount (oacd_delegation op)" by (auto simp: account_create_with_delegation_validate_def)
  then show ?case using account_create_with_delegation_inv ds_create_delegated by blast
qed (use clear_expired_delegations_inv reclaim_account_creation_delegations_inv account_create_inv create_claimed_account_inv in blast)+

text \<open>
  C19. The books on delegated shares match. Over any sequence of validated delegations (new, increased,
  decreased and ended ones), returns of expired delegations, ends of account-creation delegations and
  creations of accounts of all three kinds, the delegated shares recorded for every account equal the sum
  of its delegations plus those on their way back, and its received shares the sum of the delegations to
  it; a name without an account appears in none. The conversion of the fee of \<^verbatim>\<open>account_create\<close> into
  shares is assumed not to wrap around, and \<^verbatim>\<open>reclaim_account_creation_delegations\<close> is taken to continue
  with the next delegation where its source increments the iterator of a removed one.
\<close>

theorem delegation_accounted:
  assumes "delegation_step\<^sup>*\<^sup>* db db'" "delegation_inv db"
  shows "delegation_inv db'"
  using assms by (induction rule: rtranclp_induct) (auto dest: delegation_step_inv)

theorem delegation_accounted_witness:
  "delegation_inv vested_db \<and> (\<exists>db'. delegate_vesting_shares_evaluator example_delegation vested_db = Inr db' \<and> delegation_inv db')"
proof -
  have inv: "delegation_inv vested_db"
    by (auto simp: delegation_inv_def vested_db_def concrete acct_delegated_def acct_received_def t_sum_def split: if_splits)
  have v: "delegate_vesting_shares_validate example_delegation = Inr ()"
    by (simp add: delegate_vesting_shares_validate_def example_delegation_def validate_account_name_def valid_names fc_assertE_def fc_assert_def must_def)
  have p: "asset_times_price (GBC 10) \<lparr>base = GBC 1000, quote = GBS 1000000\<rparr> = Inr (GBS 10000)"
    "asset_times_price (GBC 1) \<lparr>base = GBC 1000, quote = GBS 1000000\<rparr> = Inr (GBS 1000)"
    using asset_times_price_base[of "GBC 10" "\<lparr>base = GBC 1000, quote = GBS 1000000\<rparr>"]
      asset_times_price_base[of "GBC 1" "\<lparr>base = GBC 1000, quote = GBS 1000000\<rparr>"]
    by (simp_all add: price_validate_def int64_max_def int64_of_quotient_def)
  have m: "safe_mul 1 10 = Inr 10" by (simp add: safe_mul_exact in_int64_def int64_min_def int64_max_def)
  have "returns (delegate_vesting_shares_evaluator example_delegation vested_db)"
    by (simp add: delegate_vesting_shares_evaluator_def example_delegation_def vested_db_def concrete min_delegation_amounts_def
        get_vesting_share_price_def mk_price_def price_validate_def p m default_chain_properties_def new_witness_schedule_def
        create_delegation_def add_delegated_def add_received_def)
  then obtain db' where db': "delegate_vesting_shares_evaluator example_delegation vested_db = Inr db'" by (auto simp: returns_iff)
  then show ?thesis using inv delegation_accounted[OF r_into_rtranclp[of delegation_step, OF ds_delegate[OF db' v]] inv] by blast
qed

end
