(* ===== verification/Chainbase.thy ===== *)
theory Chainbase
  imports Table
begin

text \<open>
  The undo history of an object table: \<^verbatim>\<open>generic_index\<close> of
  src/libraries/chainbase/include/chainbase/chainbase.hpp with its stack of \<^verbatim>\<open>undo_state\<close>s, each of
  which records only what changed since its session began. The specification is a stack of full
  copies of the table; the theorem is a simulation, for every sequence of creating, modifying and
  removing objects and of starting, undoing, squashing and committing sessions. Applying and popping
  blocks, and the pending transactions of the node, rest on it.
\<close>

section \<open>The index\<close>

text \<open>
  The objects by id, \<^verbatim>\<open>_indices\<close> as a map; the stack has its back (the current session) first. Keys of
  the three containers of an \<^verbatim>\<open>undo_state\<close> are ids. \<open>clash\<close> compares two objects by their unique
  secondary keys, as in theory \<open>Table\<close>.
\<close>

record 'v undo_state =
  old_values :: "nat \<rightharpoonup> 'v"
  removed_values :: "nat \<rightharpoonup> 'v"
  new_ids :: "nat set"
  old_next_id :: nat
  us_revision :: int

record 'v generic_index =
  indices :: "nat \<rightharpoonup> 'v"
  gi_next_id :: nat
  stack :: "'v undo_state list"
  revision :: int

definition taken :: "('v \<Rightarrow> 'v \<Rightarrow> bool) \<Rightarrow> 'v \<Rightarrow> nat \<Rightarrow> nat \<Rightarrow> (nat \<rightharpoonup> 'v) \<Rightarrow> bool" where
  "taken clash v i n m = list_ex (\<lambda>j. j \<noteq> i \<and> (case m j of None \<Rightarrow> False | Some w \<Rightarrow> clash v w)) [0..<n]"

text \<open>\<^verbatim>\<open>on_create\<close>, \<^verbatim>\<open>on_modify\<close> and \<^verbatim>\<open>on_remove\<close> change the current session's state, if there is one.\<close>

definition with_head :: "('v undo_state \<Rightarrow> 'v undo_state) \<Rightarrow> 'v generic_index \<Rightarrow> 'v generic_index" where
  "with_head f g = g\<lparr>stack := (case stack g of [] \<Rightarrow> [] | head # rest \<Rightarrow> f head # rest)\<rparr>"

definition on_create :: "nat \<Rightarrow> 'v undo_state \<Rightarrow> 'v undo_state" where
  "on_create i head = head\<lparr>new_ids := insert i (new_ids head)\<rparr>"

definition on_modify :: "nat \<Rightarrow> 'v \<Rightarrow> 'v undo_state \<Rightarrow> 'v undo_state" where
  "on_modify i v head =
     (if i \<in> new_ids head then head
      else if old_values head i \<noteq> None then head
      else head\<lparr>old_values := (old_values head)(i \<mapsto> v)\<rparr>)"

definition on_remove :: "nat \<Rightarrow> 'v \<Rightarrow> 'v undo_state \<Rightarrow> 'v undo_state" where
  "on_remove i v head =
     (if i \<in> new_ids head then head\<lparr>new_ids := new_ids head - {i}\<rparr>
      else (case old_values head i of
          Some w \<Rightarrow> head\<lparr>removed_values := (if removed_values head i \<noteq> None then removed_values head else (removed_values head)(i \<mapsto> w)),
              old_values := (old_values head)(i := None)\<rparr>
        | None \<Rightarrow>
            if removed_values head i \<noteq> None then head
            else head\<lparr>removed_values := (removed_values head)(i \<mapsto> v)\<rparr>))"

definition emplace :: "('v \<Rightarrow> 'v \<Rightarrow> bool) \<Rightarrow> (nat \<Rightarrow> 'v) \<Rightarrow> 'v generic_index \<Rightarrow> 'v generic_index result" where
  "emplace clash c g =
     (let new_id = gi_next_id g; v = c new_id in
      if taken clash v new_id (gi_next_id g) (indices g) then Inl logic_error
      else Inr (with_head (on_create new_id) (g\<lparr>indices := (indices g)(new_id \<mapsto> v), gi_next_id := gi_next_id g + 1\<rparr>)))"

text \<open>
  A modification that clashes with another object throws. The container has then already erased the
  object, while the undo state records its old value; the model gives no state on this path, which
  modifications that keep the keys of an object, as the refinement below requires, never take.
\<close>

definition modify :: "('v \<Rightarrow> 'v \<Rightarrow> bool) \<Rightarrow> nat \<Rightarrow> ('v \<Rightarrow> 'v) \<Rightarrow> 'v generic_index \<Rightarrow> 'v generic_index result" where
  "modify clash i f g = (case indices g i of None \<Rightarrow> Inl out_of_range
     | Some v \<Rightarrow>
        let g' = with_head (on_modify i v) g in
        if taken clash (f v) i (gi_next_id g) (indices g) then Inl logic_error
        else Inr (g'\<lparr>indices := (indices g')(i \<mapsto> f v)\<rparr>))"

definition remove :: "nat \<Rightarrow> 'v generic_index \<Rightarrow> 'v generic_index result" where
  "remove i g = (case indices g i of None \<Rightarrow> Inl out_of_range
     | Some v \<Rightarrow> let g' = with_head (on_remove i v) g in Inr (g'\<lparr>indices := (indices g')(i := None)\<rparr>))"

section \<open>Sessions\<close>

definition enabled :: "'v generic_index \<Rightarrow> bool" where
  "enabled g \<longleftrightarrow> stack g \<noteq> []"

definition start_undo_session :: "'v generic_index \<Rightarrow> 'v generic_index" where
  "start_undo_session g =
     g\<lparr>stack := \<lparr>old_values = Map.empty, removed_values = Map.empty, new_ids = {},
                 old_next_id = gi_next_id g, us_revision = revision g + 1\<rparr> # stack g,
       revision := revision g + 1\<rparr>"

text \<open>The two loops of \<^verbatim>\<open>undo\<close> that put values back, in the order of the ids.\<close>

definition put_back :: "('v \<Rightarrow> 'v \<Rightarrow> bool) \<Rightarrow> (nat \<rightharpoonup> 'v) \<Rightarrow> nat \<Rightarrow> nat \<Rightarrow> (nat \<rightharpoonup> 'v) \<Rightarrow> (nat \<rightharpoonup> 'v) result" where
  "put_back clash old n i m = (case old i of None \<Rightarrow> Inr m
     | Some v \<Rightarrow> if m i = None then Inl out_of_range
               else if taken clash v i n m then Inl logic_error else Inr (m(i \<mapsto> v)))"

definition bring_back :: "('v \<Rightarrow> 'v \<Rightarrow> bool) \<Rightarrow> (nat \<rightharpoonup> 'v) \<Rightarrow> nat \<Rightarrow> nat \<Rightarrow> (nat \<rightharpoonup> 'v) \<Rightarrow> (nat \<rightharpoonup> 'v) result" where
  "bring_back clash removed n i m = (case removed i of None \<Rightarrow> Inr m
     | Some v \<Rightarrow> if m i \<noteq> None \<or> taken clash v i n m then Inl logic_error else Inr (m(i \<mapsto> v)))"

definition undo :: "('v \<Rightarrow> 'v \<Rightarrow> bool) \<Rightarrow> 'v generic_index \<Rightarrow> 'v generic_index result" where
  "undo clash g = (case stack g of [] \<Rightarrow> Inr g
     | head # rest \<Rightarrow>
        let n = gi_next_id g in
        bindE (foldE (put_back clash (old_values head) n) [0..<n] (indices g)) (\<lambda>m1.
        let m2 = (\<lambda>i. if i \<in> new_ids head then None else m1 i) in
        bindE (foldE (bring_back clash (removed_values head) n) [0..<n] m2) (\<lambda>m3.
          Inr (g\<lparr>indices := m3, gi_next_id := old_next_id head, stack := rest, revision := revision g - 1\<rparr>))))"

text \<open>
  \<^verbatim>\<open>squash\<close>. The loops over the three containers of the last state change a container of the previous
  state at the key they visit only, so each loop is written for all keys at once: values it had not
  seen, then the new ids, then the removals.
\<close>

definition merge_states :: "'v undo_state \<Rightarrow> 'v undo_state \<Rightarrow> 'v undo_state" where
  "merge_states state prev =
     (let old1 = (\<lambda>i. if old_values state i \<noteq> None \<and> i \<notin> new_ids prev \<and> old_values prev i = None
                      then old_values state i else old_values prev i);
          new1 = new_ids prev \<union> new_ids state;
          gone = (\<lambda>i. removed_values state i \<noteq> None) in
      prev\<lparr>old_values := (\<lambda>i. if gone i \<and> i \<notin> new1 then None else old1 i),
           new_ids := {i \<in> new1. \<not> gone i},
           removed_values := (\<lambda>i. if gone i \<and> i \<notin> new1 \<and> removed_values prev i = None
              then (if old1 i \<noteq> None then old1 i else removed_values state i) else removed_values prev i)\<rparr>)"

definition squash :: "'v generic_index \<Rightarrow> 'v generic_index" where
  "squash g = (case stack g of [] \<Rightarrow> g
     | [_] \<Rightarrow> g\<lparr>stack := []\<rparr>
     | state # prev_state # rest \<Rightarrow> g\<lparr>stack := merge_states state prev_state # rest, revision := revision g - 1\<rparr>)"

definition commit :: "int \<Rightarrow> 'v generic_index \<Rightarrow> 'v generic_index" where
  "commit r g = g\<lparr>stack := rev (dropWhile (\<lambda>u. us_revision u \<le> r) (rev (stack g)))\<rparr>"

definition undo_all :: "('v \<Rightarrow> 'v \<Rightarrow> bool) \<Rightarrow> 'v generic_index \<Rightarrow> 'v generic_index result" where
  "undo_all clash g = foldE (\<lambda>_. undo clash) (stack g) g"

definition set_revision :: "int \<Rightarrow> 'v generic_index \<Rightarrow> 'v generic_index result" where
  "set_revision r g = (if stack g \<noteq> [] then Inl logic_error else Inr (g\<lparr>revision := r\<rparr>))"

section \<open>The specification: a stack of copies\<close>

type_synonym 'v snapshot = "(nat \<rightharpoonup> 'v) \<times> nat"

record 'v history =
  now :: "'v snapshot"
  saved :: "('v snapshot \<times> int) list"
  h_revision :: int

definition h_emplace :: "('v \<Rightarrow> 'v \<Rightarrow> bool) \<Rightarrow> (nat \<Rightarrow> 'v) \<Rightarrow> 'v history \<Rightarrow> 'v history result" where
  "h_emplace clash c h = (case now h of (m, n) \<Rightarrow>
     if taken clash (c n) n n m then Inl logic_error else Inr (h\<lparr>now := (m(n \<mapsto> c n), n + 1)\<rparr>))"

definition h_modify :: "('v \<Rightarrow> 'v \<Rightarrow> bool) \<Rightarrow> nat \<Rightarrow> ('v \<Rightarrow> 'v) \<Rightarrow> 'v history \<Rightarrow> 'v history result" where
  "h_modify clash i f h = (case now h of (m, n) \<Rightarrow> (case m i of None \<Rightarrow> Inl out_of_range
     | Some v \<Rightarrow> if taken clash (f v) i n m then Inl logic_error else Inr (h\<lparr>now := (m(i \<mapsto> f v), n)\<rparr>)))"

definition h_remove :: "nat \<Rightarrow> 'v history \<Rightarrow> 'v history result" where
  "h_remove i h = (case now h of (m, n) \<Rightarrow>
     if m i = None then Inl out_of_range else Inr (h\<lparr>now := (m(i := None), n)\<rparr>))"

definition h_start :: "'v history \<Rightarrow> 'v history" where
  "h_start h = h\<lparr>saved := (now h, h_revision h + 1) # saved h, h_revision := h_revision h + 1\<rparr>"

definition h_undo :: "'v history \<Rightarrow> 'v history" where
  "h_undo h = (case saved h of [] \<Rightarrow> h | (s, _) # rest \<Rightarrow> h\<lparr>now := s, saved := rest, h_revision := h_revision h - 1\<rparr>)"

definition h_squash :: "'v history \<Rightarrow> 'v history" where
  "h_squash h = (case saved h of [] \<Rightarrow> h | [_] \<Rightarrow> h\<lparr>saved := []\<rparr>
     | _ # p # rest \<Rightarrow> h\<lparr>saved := p # rest, h_revision := h_revision h - 1\<rparr>)"

definition h_commit :: "int \<Rightarrow> 'v history \<Rightarrow> 'v history" where
  "h_commit r h = h\<lparr>saved := rev (dropWhile (\<lambda>s. snd s \<le> r) (rev (saved h)))\<rparr>"

section \<open>The abstraction relation\<close>

text \<open>
  What an \<^verbatim>\<open>undo_state\<close> says about the table at the start of its session (\<open>B\<close>) and now (\<open>T\<close>): an object
  of \<open>B\<close> was changed, was removed or is untouched, and the new ids are those created since. A changed
  object keeps its unique keys.
\<close>

definition keeps_keys :: "('v \<Rightarrow> 'v \<Rightarrow> bool) \<Rightarrow> 'v \<Rightarrow> 'v \<Rightarrow> bool" where
  "keeps_keys clash v w \<longleftrightarrow> clash v = clash w"

fun diff :: "('v \<Rightarrow> 'v \<Rightarrow> bool) \<Rightarrow> 'v snapshot \<Rightarrow> 'v snapshot \<Rightarrow> 'v undo_state \<Rightarrow> bool" where
  "diff clash (B, nb) (T, nt) u \<longleftrightarrow> old_next_id u = nb \<and> nb \<le> nt \<and> new_ids u = {i. nb \<le> i \<and> T i \<noteq> None} \<and>
     (\<forall>i. case B i of
        None \<Rightarrow> old_values u i = None \<and> removed_values u i = None \<and> (i < nb \<longrightarrow> T i = None)
      | Some b \<Rightarrow>
          old_values u i = Some b \<and> removed_values u i = None \<and> (\<exists>t. T i = Some t \<and> keeps_keys clash b t) \<or>
          old_values u i = None \<and> removed_values u i = Some b \<and> T i = None \<or>
          old_values u i = None \<and> removed_values u i = None \<and> T i = Some b)"

definition table_ok :: "('v \<Rightarrow> 'v \<Rightarrow> bool) \<Rightarrow> 'v snapshot \<Rightarrow> bool" where
  "table_ok clash s \<longleftrightarrow> (\<forall>i. snd s \<le> i \<longrightarrow> fst s i = None) \<and>
     (\<forall>i j v w. i \<noteq> j \<longrightarrow> fst s i = Some v \<longrightarrow> fst s j = Some w \<longrightarrow> \<not> clash v w)"

fun linked :: "('v \<Rightarrow> 'v \<Rightarrow> bool) \<Rightarrow> 'v undo_state list \<Rightarrow> 'v snapshot \<Rightarrow> ('v snapshot \<times> int) list \<Rightarrow> bool" where
  "linked clash [] T [] = table_ok clash T"
| "linked clash (u # us) T ((B, r) # bs) \<longleftrightarrow> table_ok clash T \<and> diff clash B T u \<and> us_revision u = r \<and> linked clash us B bs"
| "linked clash us T bs = False"

definition represents :: "('v \<Rightarrow> 'v \<Rightarrow> bool) \<Rightarrow> 'v generic_index \<Rightarrow> 'v history \<Rightarrow> bool" where
  "represents clash g h \<longleftrightarrow> now h = (indices g, gi_next_id g) \<and> h_revision h = revision g \<and>
     linked clash (stack g) (indices g, gi_next_id g) (saved h)"

lemma linked_ok: "linked clash us T bs \<Longrightarrow> table_ok clash T"
  by (cases "(clash, us, T, bs)" rule: linked.cases) auto

lemma table_okD:
  "table_ok clash (m, n) \<Longrightarrow> m i = Some v \<Longrightarrow> m j = Some w \<Longrightarrow> i \<noteq> j \<Longrightarrow> \<not> clash v w"
  "table_ok clash (m, n) \<Longrightarrow> m i = Some v \<Longrightarrow> i < n"
  unfolding table_ok_def by (simp, metis linorder_not_le option.distinct(1) fst_conv snd_conv)

lemma not_taken: "table_ok clash (m, n) \<Longrightarrow> \<not> taken clash v i n m \<Longrightarrow> j \<noteq> i \<Longrightarrow> m j = Some w \<Longrightarrow> \<not> clash v w"
  using table_okD(2)[of clash m n j w] by (auto simp: taken_def list_ex_iff split: option.splits)

lemma takenD: "taken clash v i n m \<Longrightarrow> \<exists>j w. j \<noteq> i \<and> m j = Some w \<and> clash v w"
  by (auto simp: taken_def list_ex_iff split: option.splits)

section \<open>Undoing\<close>

lemma put_back_all:
  assumes "table_ok clash (T, n)" "\<And>i v. old i = Some v \<Longrightarrow> \<exists>t. T i = Some t \<and> keeps_keys clash v t" "symp clash" "k \<le> n"
  shows "foldE (put_back clash old n) [0..<k] T = Inr (\<lambda>i. if i < k \<and> old i \<noteq> None then old i else T i)"
  using assms(4)
proof (induction k)
  case (Suc k)
  let ?m = "\<lambda>i. if i < k \<and> old i \<noteq> None then old i else T i"
  have sy: "clash v w = clash w v" for v w using assms(3) by (auto simp: symp_def)
  have "put_back clash old n k ?m = Inr (\<lambda>i. if i < Suc k \<and> old i \<noteq> None then old i else T i)"
  proof (cases "old k")
    case None
    then show ?thesis by (auto simp: put_back_def less_Suc_eq fun_eq_iff)
  next
    case (Some v)
    then obtain t where t: "T k = Some t" "keeps_keys clash v t" using assms(2) by blast
    have "\<not> clash v w" if jk: "j \<noteq> k" and mj: "?m j = Some w" for j w
    proof -
      obtain u where u: "T j = Some u" "keeps_keys clash w u"
        using mj assms(2)[of j w] by (cases "j < k \<and> old j \<noteq> None") (auto simp: keeps_keys_def)
      have "clash v w = clash t w" using t by (simp add: keeps_keys_def)
      also have "\<dots> = clash t u" using u(2) sy[of t w] sy[of t u] by (simp add: keeps_keys_def)
      finally show ?thesis using table_okD(1)[OF assms(1) t(1) u(1)] jk by simp
    qed
    then have "\<not> taken clash v k n ?m" by (blast dest: takenD)
    then show ?thesis using Some t(1) by (auto simp: put_back_def less_Suc_eq fun_eq_iff)
  qed
  then show ?case using Suc by (simp add: foldE_append del: upt_Suc add: upt_Suc_append)
qed simp

lemma bring_back_all:
  assumes "table_ok clash (B, nb)" "\<And>i v. removed i = Some v \<Longrightarrow> B i = Some v" "k \<le> n"
  shows "foldE (bring_back clash removed n) [0..<k] (\<lambda>i. if removed i = None then B i else None) =
    Inr (\<lambda>i. if removed i = None \<or> i < k then B i else None)"
  using assms(3)
proof (induction k)
  case (Suc k)
  let ?m = "\<lambda>i. if removed i = None \<or> i < k then B i else None"
  have "bring_back clash removed n k ?m = Inr (\<lambda>i. if removed i = None \<or> i < Suc k then B i else None)"
  proof (cases "removed k")
    case None
    then show ?thesis by (auto simp: bring_back_def less_Suc_eq fun_eq_iff)
  next
    case (Some v)
    have "\<not> taken clash v k n ?m"
      using table_okD(1)[OF assms(1) assms(2)[OF Some]] by (fastforce dest!: takenD split: if_splits)
    then show ?thesis using Some assms(2)[OF Some] by (auto simp: bring_back_def less_Suc_eq fun_eq_iff)
  qed
  then show ?case using Suc by (simp add: foldE_append del: upt_Suc add: upt_Suc_append)
qed simp

lemma undo_diff:
  assumes "stack g = u # us" "diff clash (B, nb) (indices g, gi_next_id g) u" "table_ok clash (B, nb)"
    and "table_ok clash (indices g, gi_next_id g)" "symp clash"
  shows "undo clash g = Inr (g\<lparr>indices := B, gi_next_id := nb, stack := us, revision := revision g - 1\<rparr>)"
proof -
  let ?n = "gi_next_id g" and ?T = "indices g"
  note D = assms(2)[simplified]
  have row: "case B i of None \<Rightarrow> old_values u i = None \<and> removed_values u i = None \<and> (i < nb \<longrightarrow> ?T i = None)
      | Some b \<Rightarrow> old_values u i = Some b \<and> removed_values u i = None \<and> (\<exists>t. ?T i = Some t \<and> keeps_keys clash b t) \<or>
          old_values u i = None \<and> removed_values u i = Some b \<and> ?T i = None \<or>
          old_values u i = None \<and> removed_values u i = None \<and> ?T i = Some b" for i
    using D by blast
  have b: "B i \<noteq> None \<Longrightarrow> i < nb" for i using table_okD(2)[OF assms(3)] by auto
  have t: "?T i \<noteq> None \<Longrightarrow> i < ?n" for i using table_okD(2)[OF assms(4)] by auto
  have o: "\<exists>t. ?T i = Some t \<and> keeps_keys clash v t" if "old_values u i = Some v" for i v
    using row[of i] that by (cases "B i") auto
  have r: "B i = Some v" if "removed_values u i = Some v" for i v using row[of i] that by (cases "B i") auto
  have 1: "foldE (put_back clash (old_values u) ?n) [0..<?n] ?T = Inr (\<lambda>i. if i < ?n \<and> old_values u i \<noteq> None then old_values u i else ?T i)"
    by (rule put_back_all[OF assms(4) o assms(5)]) simp_all
  have 2: "(\<lambda>i. if i \<in> new_ids u then None else if i < ?n \<and> old_values u i \<noteq> None then old_values u i else ?T i) =
      (\<lambda>i. if removed_values u i = None then B i else None)"
  proof
    fix i
    show "(if i \<in> new_ids u then None else if i < ?n \<and> old_values u i \<noteq> None then old_values u i else ?T i) =
      (if removed_values u i = None then B i else None)"
      using row[of i] b[of i] t[of i] D by (cases "B i") auto
  qed
  have 3: "foldE (bring_back clash (removed_values u) ?n) [0..<?n] (\<lambda>i. if removed_values u i = None then B i else None) =
      Inr (\<lambda>i. if removed_values u i = None \<or> i < ?n then B i else None)"
    by (rule bring_back_all[OF assms(3) r]) simp_all
  have 4: "(\<lambda>i. if removed_values u i = None \<or> i < ?n then B i else None) = B"
  proof
    fix i
    have "B i \<noteq> None \<Longrightarrow> i < ?n" using b[of i] D by simp
    then show "(if removed_values u i = None \<or> i < ?n then B i else None) = B i" by (cases "B i") auto
  qed
  show ?thesis by (simp only: undo_def assms(1) list.case Let_def 1 bindE.simps 2 3 4 D[THEN conjunct1])
qed

section \<open>Squashing and committing\<close>

lemma diff_row:
  "diff clash (B, nb) (T, nt) u \<Longrightarrow> B i = None \<Longrightarrow> old_values u i = None \<and> removed_values u i = None \<and> (i < nb \<longrightarrow> T i = None)"
  "diff clash (B, nb) (T, nt) u \<Longrightarrow> B i = Some b \<Longrightarrow>
     old_values u i = Some b \<and> removed_values u i = None \<and> (\<exists>t. T i = Some t \<and> keeps_keys clash b t) \<or>
     old_values u i = None \<and> removed_values u i = Some b \<and> T i = None \<or>
     old_values u i = None \<and> removed_values u i = None \<and> T i = Some b"
  unfolding diff.simps by (elim conjE, drule spec[of _ i], simp)+

lemma keeps_keys_trans: "keeps_keys clash a b \<Longrightarrow> keeps_keys clash b c \<Longrightarrow> keeps_keys clash a c"
  by (simp add: keeps_keys_def)

lemma merge_at:
  "old_values (merge_states w u) i = (if removed_values w i \<noteq> None \<and> i \<notin> new_ids u \<and> i \<notin> new_ids w then None
     else if old_values w i \<noteq> None \<and> i \<notin> new_ids u \<and> old_values u i = None then old_values w i else old_values u i)"
  "i \<in> new_ids (merge_states w u) \<longleftrightarrow> (i \<in> new_ids u \<or> i \<in> new_ids w) \<and> removed_values w i = None"
  "removed_values (merge_states w u) i =
     (if removed_values w i \<noteq> None \<and> i \<notin> new_ids u \<and> i \<notin> new_ids w \<and> removed_values u i = None
      then if old_values w i \<noteq> None \<and> old_values u i = None then old_values w i
           else if old_values u i \<noteq> None then old_values u i else removed_values w i
      else removed_values u i)"
  "old_next_id (merge_states w u) = old_next_id u" "us_revision (merge_states w u) = us_revision u"
  by (simp_all add: merge_states_def Let_def)

lemma merge_diff:
  assumes 1: "diff clash (B, nb) (S, ns) u" and 2: "diff clash (S, ns) (T, nt) w" and B: "table_ok clash (B, nb)" and S: "table_ok clash (S, ns)"
  shows "diff clash (B, nb) (T, nt) (merge_states w u)"
proof -
  let ?m = "merge_states w u"
  have h: "old_next_id u = nb" "nb \<le> ns" "new_ids u = {i. nb \<le> i \<and> S i \<noteq> None}"
    "ns \<le> nt" "new_ids w = {i. ns \<le> i \<and> T i \<noteq> None}" using 1 2 by simp_all
  have b: "B i \<noteq> None \<Longrightarrow> i < nb" "S i \<noteq> None \<Longrightarrow> i < ns" for i using table_okD(2)[OF B] table_okD(2)[OF S] by auto
  have iu: "i \<in> new_ids u \<longleftrightarrow> nb \<le> i \<and> S i \<noteq> None" and iw: "i \<in> new_ids w \<longleftrightarrow> ns \<le> i \<and> T i \<noteq> None" for i using h by auto
  have new: "i \<in> new_ids ?m \<longleftrightarrow> nb \<le> i \<and> T i \<noteq> None" for i
  proof (cases "S i")
    case None
    then show ?thesis using diff_row(1)[OF 2 None] h(2) by (auto simp: merge_at iu iw)
  next
    case (Some v)
    then have "i < ns" using b(2) by simp
    then show ?thesis using diff_row(2)[OF 2 Some] Some by (elim disjE conjE exE) (simp_all add: merge_at iu iw)
  qed
  have rest: "case B i of None \<Rightarrow> old_values ?m i = None \<and> removed_values ?m i = None \<and> (i < nb \<longrightarrow> T i = None)
      | Some b \<Rightarrow> old_values ?m i = Some b \<and> removed_values ?m i = None \<and> (\<exists>t. T i = Some t \<and> keeps_keys clash b t) \<or>
          old_values ?m i = None \<and> removed_values ?m i = Some b \<and> T i = None \<or>
          old_values ?m i = None \<and> removed_values ?m i = None \<and> T i = Some b" for i
  proof (cases "B i")
    case None
    note 1 = diff_row(1)[OF 1 None]
    show ?thesis
    proof (cases "S i")
      case N: None
      then show ?thesis using None 1 diff_row(1)[OF 2 N] h(2) by (simp add: merge_at)
    next
      case (Some v)
      then have "nb \<le> i" "i \<in> new_ids u" using 1 iu by (auto simp: not_less)
      then show ?thesis using None 1 by (simp add: merge_at)
    qed
  next
    case (Some v)
    then have i: "i < nb" "i < ns" "i \<notin> new_ids u" "i \<notin> new_ids w" using b(1) h(2) iu iw by fastforce+
    show ?thesis using diff_row(2)[OF 1 Some]
    proof (elim disjE conjE exE)
      fix t assume 1: "old_values u i = Some v" "removed_values u i = None" "S i = Some t" "keeps_keys clash v t"
      show ?thesis using diff_row(2)[OF 2 1(3)] 1 i Some keeps_keys_trans[OF 1(4)]
        by (elim disjE conjE exE) (simp_all add: merge_at)
    next
      assume 1: "old_values u i = None" "removed_values u i = Some v" "S i = None"
      show ?thesis using diff_row(1)[OF 2 1(3)] 1 i Some by (simp add: merge_at)
    next
      assume 1: "old_values u i = None" "removed_values u i = None" "S i = Some v"
      show ?thesis using diff_row(2)[OF 2 1(3)] 1 i Some by (elim disjE conjE exE) (simp_all add: merge_at)
    qed
  qed
  have "old_next_id ?m = nb" using h by (simp add: merge_at)
  then show ?thesis using new rest h by auto
qed

lemma linked_take: "linked clash us T bs \<Longrightarrow> linked clash (take k us) T (take k bs)"
proof (induction clash us T bs arbitrary: k rule: linked.induct)
  case (2 clash u us T B r bs)
  then show ?case by (cases k) auto
qed simp_all

lemma linked_revisions: "linked clash us T bs \<Longrightarrow> map us_revision us = map snd bs"
  by (induction clash us T bs rule: linked.induct) auto

lemma rev_dropWhile: "rev (dropWhile P (rev xs)) = take (length xs - length (takeWhile P (rev xs))) xs"
  by (simp add: dropWhile_eq_drop drop_rev)

lemma takeWhile_length_map: "length (takeWhile (\<lambda>x. P (f x)) xs) = length (takeWhile P (map f xs))"
  by (simp add: takeWhile_map comp_def)

lemma linked_commit:
  assumes "linked clash us T bs"
  shows "linked clash (rev (dropWhile (\<lambda>u. us_revision u \<le> r) (rev us))) T (rev (dropWhile (\<lambda>s. snd s \<le> r) (rev bs)))"
proof -
  have m: "map us_revision us = map snd bs" by (rule linked_revisions[OF assms])
  then have "length us = length bs" by (metis length_map)
  moreover have "length (takeWhile (\<lambda>u. us_revision u \<le> r) (rev us)) = length (takeWhile (\<lambda>s. snd s \<le> r) (rev bs))"
    using takeWhile_length_map[of "\<lambda>x. x \<le> r" us_revision "rev us"] takeWhile_length_map[of "\<lambda>x. x \<le> r" snd "rev bs"] m
    by (simp add: rev_map[symmetric])
  ultimately show ?thesis using linked_take[OF assms] by (simp add: rev_dropWhile)
qed

declare diff.simps [simp del]

lemma diff_head: "diff clash (M, nb) (T, nt) u \<Longrightarrow> old_next_id u = nb \<and> nb \<le> nt \<and> new_ids u = {j. nb \<le> j \<and> T j \<noteq> None}"
  by (simp add: diff.simps)

section \<open>The simulation\<close>

datatype 'v cb_op =
    Emplace "nat \<Rightarrow> 'v" | Modify nat "'v \<Rightarrow> 'v" | Remove nat
  | Start_session | Undo | Squash | Commit int | Undo_all

fun run_op :: "('v \<Rightarrow> 'v \<Rightarrow> bool) \<Rightarrow> 'v cb_op \<Rightarrow> 'v generic_index \<Rightarrow> 'v generic_index result" where
  "run_op clash (Emplace c) g = emplace clash c g"
| "run_op clash (Modify i f) g = modify clash i f g"
| "run_op clash (Remove i) g = remove i g"
| "run_op clash Start_session g = Inr (start_undo_session g)"
| "run_op clash Undo g = undo clash g"
| "run_op clash Squash g = Inr (squash g)"
| "run_op clash (Commit r) g = Inr (commit r g)"
| "run_op clash Undo_all g = undo_all clash g"

fun spec_op :: "('v \<Rightarrow> 'v \<Rightarrow> bool) \<Rightarrow> 'v cb_op \<Rightarrow> 'v history \<Rightarrow> 'v history result" where
  "spec_op clash (Emplace c) h = h_emplace clash c h"
| "spec_op clash (Modify i f) h = h_modify clash i f h"
| "spec_op clash (Remove i) h = h_remove i h"
| "spec_op clash Start_session h = Inr (h_start h)"
| "spec_op clash Undo h = Inr (h_undo h)"
| "spec_op clash Squash h = Inr (h_squash h)"
| "spec_op clash (Commit r) h = Inr (h_commit r h)"
| "spec_op clash Undo_all h = Inr ((h_undo ^^ length (saved h)) h)"

text \<open>Modifications do not touch unique keys; for the objects of the chain those are names and ids.\<close>

fun op_ok :: "('v \<Rightarrow> 'v \<Rightarrow> bool) \<Rightarrow> 'v cb_op \<Rightarrow> bool" where
  "op_ok clash (Modify i f) \<longleftrightarrow> (\<forall>v. keeps_keys clash v (f v))"
| "op_ok clash _ = True"

text \<open>Two results agree when both fail alike or both succeed in related states.\<close>

definition agree :: "('v \<Rightarrow> 'v \<Rightarrow> bool) \<Rightarrow> 'v generic_index result \<Rightarrow> 'v history result \<Rightarrow> bool" where
  "agree clash r s = (case (r, s) of (Inl e, Inl e') \<Rightarrow> e = e' | (Inr g, Inr h) \<Rightarrow> represents clash g h | _ \<Rightarrow> False)"

lemma linked_change:
  assumes "linked clash us T bs" "table_ok clash T'"
    and "\<And>u us' B r bs'. us = u # us' \<Longrightarrow> bs = (B, r) # bs' \<Longrightarrow> table_ok clash B \<Longrightarrow> diff clash B T u \<Longrightarrow>
      diff clash B T' (f u) \<and> us_revision (f u) = us_revision u"
  shows "linked clash (case us of [] \<Rightarrow> [] | u # us' \<Rightarrow> f u # us') T' bs"
  using assms by (cases "(clash, us, T, bs)" rule: linked.cases) (auto dest: linked_ok)

lemma table_ok_put:
  assumes "table_ok clash (m, n)" "\<And>j w. j \<noteq> i \<Longrightarrow> m j = Some w \<Longrightarrow> \<not> clash v w" "symp clash" "i < n'" "n \<le> n'"
  shows "table_ok clash (m(i \<mapsto> v), n')"
proof -
  have "\<not> clash x y" if "a \<noteq> b" "(m(i \<mapsto> v)) a = Some x" "(m(i \<mapsto> v)) b = Some y" for a b x y
  proof (cases "a = i")
    case True
    then show ?thesis using that assms(2)[of b y] by auto
  next
    case False
    then show ?thesis using that assms(2)[of a x] assms(3) table_okD(1)[OF assms(1), of a x b y]
      by (cases "b = i") (auto simp: symp_def)
  qed
  then show ?thesis using assms(1,4,5) unfolding table_ok_def by auto
qed

lemma table_ok_drop: "table_ok clash (m, n) \<Longrightarrow> table_ok clash (m(i := None), n)"
  unfolding table_ok_def by auto

text \<open>A change of one object, as seen by the state of the current session.\<close>

lemma diff_change:
  assumes "diff clash (M, nb) (T, nt) u" "nt \<le> nt'"
    and "\<And>j. j \<noteq> i \<Longrightarrow> T' j = T j \<and> old_values u' j = old_values u j \<and> removed_values u' j = removed_values u j"
    and "old_next_id u' = old_next_id u" "new_ids u' = {j. nb \<le> j \<and> T' j \<noteq> None}"
    and "case M i of None \<Rightarrow> old_values u' i = None \<and> removed_values u' i = None \<and> (i < nb \<longrightarrow> T' i = None)
      | Some b \<Rightarrow> old_values u' i = Some b \<and> removed_values u' i = None \<and> (\<exists>t. T' i = Some t \<and> keeps_keys clash b t) \<or>
          old_values u' i = None \<and> removed_values u' i = Some b \<and> T' i = None \<or>
          old_values u' i = None \<and> removed_values u' i = None \<and> T' i = Some b"
  shows "diff clash (M, nb) (T', nt') u'"
proof -
  have "case M j of None \<Rightarrow> old_values u' j = None \<and> removed_values u' j = None \<and> (j < nb \<longrightarrow> T' j = None)
      | Some b \<Rightarrow> old_values u' j = Some b \<and> removed_values u' j = None \<and> (\<exists>t. T' j = Some t \<and> keeps_keys clash b t) \<or>
          old_values u' j = None \<and> removed_values u' j = Some b \<and> T' j = None \<or>
          old_values u' j = None \<and> removed_values u' j = None \<and> T' j = Some b" for j
  proof (cases "j = i")
    case True
    show ?thesis using assms(6) unfolding True .
  next
    case False
    then show ?thesis using assms(3)[OF False] diff_row[OF assms(1), of j] by (cases "M j") auto
  qed
  then show ?thesis using diff_head[OF assms(1)] assms(2,4,5) by (simp add: diff.simps)
qed

lemma emplace_sim:
  assumes "represents clash g h" "symp clash"
  shows "agree clash (emplace clash c g) (h_emplace clash c h)"
proof (cases "taken clash (c (gi_next_id g)) (gi_next_id g) (gi_next_id g) (indices g)")
  case True
  then show ?thesis using assms(1) by (simp add: emplace_def h_emplace_def represents_def agree_def Let_def)
next
  case False
  let ?n = "gi_next_id g" and ?m = "indices g"
  let ?T = "(?m(?n \<mapsto> c ?n), ?n + 1)" and ?f = "on_create ?n"
  have l: "linked clash (stack g) (?m, ?n) (saved h)" and h: "now h = (?m, ?n)" using assms(1) by (auto simp: represents_def)
  note ok = linked_ok[OF l]
  have "table_ok clash ?T" by (rule table_ok_put[OF ok not_taken[OF ok False] assms(2)]) simp_all
  then have "linked clash (case stack g of [] \<Rightarrow> [] | u # us \<Rightarrow> ?f u # us) ?T (saved h)"
  proof (rule linked_change[OF l])
    fix u us' B r bs' assume B: "table_ok clash B" and d: "diff clash B (?m, ?n) u"
    obtain M nb where p: "B = (M, nb)" by (cases B)
    have hd: "old_next_id u = nb" "nb \<le> ?n" "new_ids u = {j. nb \<le> j \<and> ?m j \<noteq> None}" using diff_head d p by blast+
    then have "M ?n = None" using B p by (simp add: table_ok_def)
    then show "diff clash B ?T (?f u) \<and> us_revision (?f u) = us_revision u"
      using diff_row(1)[OF d[unfolded p], of ?n] hd(2,3) unfolding p
      by (auto simp: on_create_def intro!: diff_change[OF d[unfolded p], where i = ?n] split: if_splits)
  qed
  then show ?thesis using False h assms(1)
    by (auto simp: emplace_def h_emplace_def represents_def agree_def Let_def with_head_def)
qed

lemma modify_sim:
  assumes "represents clash g h" "symp clash" "\<And>v. keeps_keys clash v (f v)"
  shows "agree clash (modify clash i f g) (h_modify clash i f h)"
proof (cases "\<exists>v. indices g i = Some v \<and> \<not> taken clash (f v) i (gi_next_id g) (indices g)")
  case False
  then show ?thesis using assms(1)
    by (auto simp: modify_def h_modify_def represents_def agree_def Let_def split: option.splits)
next
  case True
  let ?n = "gi_next_id g" and ?m = "indices g"
  obtain v where v: "?m i = Some v" "\<not> taken clash (f v) i ?n ?m" using True by blast
  let ?T = "(?m(i \<mapsto> f v), ?n)"
  let ?f = "on_modify i v"
  have l: "linked clash (stack g) (?m, ?n) (saved h)" and h: "now h = (?m, ?n)" using assms(1) by (auto simp: represents_def)
  note ok = linked_ok[OF l]
  have "table_ok clash ?T"
    by (rule table_ok_put[OF ok not_taken[OF ok v(2)] assms(2)]) (use table_okD(2)[OF ok v(1)] in simp_all)
  then have "linked clash (case stack g of [] \<Rightarrow> [] | u # us \<Rightarrow> ?f u # us) ?T (saved h)"
  proof (rule linked_change[OF l])
    fix u us' B r bs' assume B: "table_ok clash B" and d: "diff clash B (?m, ?n) u"
    obtain M nb where p: "B = (M, nb)" by (cases B)
    have hd: "old_next_id u = nb" "nb \<le> ?n" "new_ids u = {j. nb \<le> j \<and> ?m j \<noteq> None}" using diff_head d p by blast+
    have dom: "M i \<noteq> None \<Longrightarrow> i < nb" using table_okD(2)[OF B[unfolded p]] by auto
    show "diff clash B ?T (?f u) \<and> us_revision (?f u) = us_revision u"
      using diff_row[OF d[unfolded p], of i] v(1) hd(2,3) dom assms(3) keeps_keys_trans[of clash _ v "f v"] unfolding p
      by (cases "M i") (auto simp: on_modify_def intro!: diff_change[OF d[unfolded p], where i = i] split: if_splits)
  qed
  then show ?thesis using v h assms(1)
    by (auto simp: modify_def h_modify_def represents_def agree_def Let_def with_head_def)
qed

lemma remove_sim:
  assumes "represents clash g h"
  shows "agree clash (remove i g) (h_remove i h)"
proof (cases "indices g i")
  case None
  then show ?thesis using assms(1) by (simp add: remove_def h_remove_def represents_def agree_def)
next
  case (Some v)
  let ?n = "gi_next_id g" and ?m = "indices g"
  let ?T = "(?m(i := None), ?n)"
  let ?f = "on_remove i v"
  have l: "linked clash (stack g) (?m, ?n) (saved h)" and h: "now h = (?m, ?n)" using assms(1) by (auto simp: represents_def)
  have "table_ok clash ?T" by (rule table_ok_drop[OF linked_ok[OF l]])
  then have "linked clash (case stack g of [] \<Rightarrow> [] | u # us \<Rightarrow> ?f u # us) ?T (saved h)"
  proof (rule linked_change[OF l])
    fix u us' B r bs' assume B: "table_ok clash B" and d: "diff clash B (?m, ?n) u"
    obtain M nb where p: "B = (M, nb)" by (cases B)
    have hd: "old_next_id u = nb" "nb \<le> ?n" "new_ids u = {j. nb \<le> j \<and> ?m j \<noteq> None}" using diff_head d p by blast+
    have dom: "M i \<noteq> None \<Longrightarrow> i < nb" using table_okD(2)[OF B[unfolded p]] by auto
    show "diff clash B ?T (?f u) \<and> us_revision (?f u) = us_revision u"
    proof (cases "i \<in> new_ids u")
      case True
      then have M: "M i = None" using dom hd(3) by (cases "M i") auto
      then show ?thesis using diff_row(1)[OF d[unfolded p] M] True hd(3) unfolding p
        by (intro conjI diff_change[OF d[unfolded p], where i = i]) (auto simp: on_remove_def split: if_splits)
    next
      case False
      then obtain b where M: "M i = Some b"
        using diff_row(1)[OF d[unfolded p], of i] hd(3) Some by (cases "M i") (auto simp: not_less)
      have nd: "i < nb" using dom M by simp
      show ?thesis using diff_row(2)[OF d[unfolded p] M] False hd(3) nd M Some unfolding p
        by (intro conjI diff_change[OF d[unfolded p], where i = i]) (elim disjE conjE exE; auto simp: on_remove_def split: if_splits)+
    qed
  qed
  then show ?thesis using Some h assms(1)
    by (auto simp: remove_def h_remove_def represents_def agree_def Let_def with_head_def)
qed

lemma start_sim: "represents clash g h \<Longrightarrow> represents clash (start_undo_session g) (h_start h)"
proof -
  assume r: "represents clash g h"
  let ?u = "\<lparr>old_values = Map.empty, removed_values = Map.empty, new_ids = {}, old_next_id = gi_next_id g, us_revision = revision g + 1\<rparr>"
  have ok: "table_ok clash (indices g, gi_next_id g)" using r linked_ok by (auto simp: represents_def)
  have "diff clash (indices g, gi_next_id g) (indices g, gi_next_id g) ?u"
    using ok by (auto simp: diff.simps table_ok_def split: option.splits)
  then show ?thesis using r ok by (simp add: represents_def start_undo_session_def h_start_def)
qed

lemma undo_sim:
  assumes "represents clash g h" "symp clash"
  shows "\<exists>g'. undo clash g = Inr g' \<and> represents clash g' (h_undo h) \<and> length (saved (h_undo h)) = length (saved h) - 1"
proof (cases "saved h")
  case Nil
  then have "stack g = []" using assms(1) by (cases "stack g") (auto simp: represents_def)
  then show ?thesis using Nil assms(1) by (simp add: undo_def h_undo_def)
next
  case (Cons s rest)
  obtain M nb r where s: "s = ((M, nb), r)" by (cases s) auto
  have l: "linked clash (stack g) (indices g, gi_next_id g) (((M, nb), r) # rest)"
    using assms(1) Cons s by (simp add: represents_def)
  then obtain u us where st: "stack g = u # us" by (cases "stack g") auto
  then have d: "diff clash (M, nb) (indices g, gi_next_id g) u" "linked clash us (M, nb) rest" using l by auto
  have "undo clash g = Inr (g\<lparr>indices := M, gi_next_id := nb, stack := us, revision := revision g - 1\<rparr>)"
    by (rule undo_diff[OF st d(1) linked_ok[OF d(2)] linked_ok[OF l] assms(2)])
  then show ?thesis using assms(1) Cons s d(2) by (simp add: represents_def h_undo_def)
qed

lemma squash_sim: "represents clash g h \<Longrightarrow> represents clash (squash g) (h_squash h)"
proof -
  assume r: "represents clash g h"
  then have l: "linked clash (stack g) (indices g, gi_next_id g) (saved h)" by (simp add: represents_def)
  consider "stack g = []" | u where "stack g = [u]" | w u us where "stack g = w # u # us" by (metis neq_Nil_conv)
  then show ?thesis
  proof cases
    case 1
    then show ?thesis using r l by (cases "saved h") (auto simp: squash_def h_squash_def)
  next
    case 2
    then obtain s where "saved h = [s]" using l by (cases "saved h"; cases "tl (saved h)") auto
    then show ?thesis using r linked_ok[OF l] 2 by (simp add: squash_def h_squash_def represents_def)
  next
    case (3 w u us)
    obtain S r2 B r1 bs where sv: "saved h = (S, r2) # (B, r1) # bs"
      using l 3 by (cases "saved h"; cases "tl (saved h)") auto
    obtain M nb N ns where p: "B = (M, nb)" "S = (N, ns)" by (cases B; cases S) auto
    have d: "diff clash (N, ns) (indices g, gi_next_id g) w" "diff clash (M, nb) (N, ns) u" "us_revision u = r1"
      "linked clash us (M, nb) bs" "table_ok clash (N, ns)" using l 3 sv p by auto
    have "diff clash (M, nb) (indices g, gi_next_id g) (merge_states w u)"
      by (rule merge_diff[OF d(2,1) linked_ok[OF d(4)] d(5)])
    moreover have "us_revision (merge_states w u) = r1" using d(3) by (simp add: merge_states_def Let_def)
    ultimately show ?thesis using r linked_ok[OF l] 3 sv p d(4)
      by (simp add: squash_def h_squash_def represents_def)
  qed
qed

lemma commit_sim: "represents clash g h \<Longrightarrow> represents clash (commit r g) (h_commit r h)"
  using linked_commit[of clash "stack g" "(indices g, gi_next_id g)" "saved h" r] by (simp add: represents_def commit_def h_commit_def)

lemma undo_all_sim:
  assumes "represents clash g h" "symp clash"
  shows "\<exists>g'. undo_all clash g = Inr g' \<and> represents clash g' ((h_undo ^^ length (saved h)) h)"
proof -
  have "\<exists>g'. foldE (\<lambda>_. undo clash) (xs :: 'a undo_state list) g = Inr g' \<and> represents clash g' ((h_undo ^^ length xs) h)" for xs
    using assms(1)
  proof (induction xs arbitrary: g h)
    case (Cons x xs)
    obtain g1 where 1: "undo clash g = Inr g1" "represents clash g1 (h_undo h)" using undo_sim[OF Cons.prems assms(2)] by blast
    from Cons.IH[OF 1(2)] obtain g' where g': "foldE (\<lambda>_. undo clash) xs g1 = Inr g'"
      "represents clash g' ((h_undo ^^ length xs) (h_undo h))" by blast
    then show ?case using 1(1) by (auto simp: funpow_swap1)
  qed simp
  moreover have "length (stack g) = length (saved h)"
    using assms(1) linked_revisions[of clash "stack g" "(indices g, gi_next_id g)" "saved h"] by (metis length_map represents_def)
  ultimately show ?thesis unfolding undo_all_def by metis
qed

lemma op_sim:
  assumes "represents clash g h" "symp clash" "op_ok clash op"
  shows "agree clash (run_op clash op g) (spec_op clash op h)"
proof (cases op)
  case (Modify i f)
  then show ?thesis using modify_sim[OF assms(1,2), of f i] assms(3) by simp
next
  case (Emplace c)
  then show ?thesis using emplace_sim[OF assms(1,2)] by simp
next
  case (Remove i)
  then show ?thesis using remove_sim[OF assms(1)] by simp
next
  case Undo
  then show ?thesis using undo_sim[OF assms(1,2)] by (auto simp: agree_def)
next
  case Undo_all
  then show ?thesis using undo_all_sim[OF assms(1,2)] by (auto simp: agree_def)
qed (use assms(1) start_sim squash_sim commit_sim in \<open>auto simp: agree_def\<close>)

text \<open>
  C2. The differential undo history refines a stack of full copies: from related states, every sequence
  of object changes and session operations fails exactly when the specification fails, with the same
  exception, and otherwise ends in related states; in particular \<^verbatim>\<open>undo\<close> never throws, and after it the
  objects, the next id and the revision are those saved when the session began. Object changes must
  leave unique keys alone.
\<close>

theorem undo_history_refines:
  assumes "represents clash g h" "symp clash" "\<forall>op \<in> set ops. op_ok clash op"
  shows "agree clash (foldE (run_op clash) ops g) (foldE (spec_op clash) ops h)"
  using assms(1,3)
proof (induction ops arbitrary: g h)
  case (Cons op ops)
  have a: "agree clash (run_op clash op g) (spec_op clash op h)" using op_sim[OF Cons.prems(1) assms(2)] Cons.prems(2) by simp
  then show ?case using Cons.IH Cons.prems(2)
    by (cases "run_op clash op g"; cases "spec_op clash op h") (auto simp: agree_def)
qed (simp add: agree_def)

definition example_index :: "(nat \<times> nat) generic_index" where
  "example_index = \<lparr>indices = Map.empty, gi_next_id = 0, stack = [], revision = 0\<rparr>"

definition example_ops :: "(nat \<times> nat) cb_op list" where
  "example_ops = [Emplace (\<lambda>i. (7, 1)), Start_session, Modify 0 (\<lambda>v. (fst v, 2)), Emplace (\<lambda>i. (8, 5)),
     Start_session, Remove 0, Modify 1 (\<lambda>v. (fst v, 6)), Squash, Undo]"

theorem undo_history_refines_witness:
  "\<exists>g'. foldE (run_op (\<lambda>v w. fst v = fst w)) example_ops example_index = Inr g' \<and>
     indices g' = [0 \<mapsto> (7, 1)] \<and> gi_next_id g' = 1 \<and> stack g' = [] \<and> revision g' = 0"
proof -
  let ?c = "\<lambda>v w :: nat \<times> nat. fst v = fst w"
  let ?h = "\<lparr>now = (Map.empty, 0), saved = [], h_revision = 0\<rparr> :: (nat \<times> nat) history"
  have r: "represents ?c example_index ?h" by (simp add: represents_def example_index_def table_ok_def)
  have o: "\<forall>op \<in> set example_ops. op_ok ?c op" by (simp add: example_ops_def keeps_keys_def)
  have s: "symp ?c" by (simp add: symp_def)
  have spec: "foldE (spec_op ?c) example_ops ?h = Inr \<lparr>now = ([0 \<mapsto> (7, 1)], 1), saved = [], h_revision = 0\<rparr>"
    by (simp add: example_ops_def h_emplace_def h_start_def h_modify_def h_remove_def h_squash_def h_undo_def taken_def)
  from undo_history_refines[OF r s o] show ?thesis unfolding spec
    by (auto simp: agree_def represents_def split: sum.splits elim: linked.elims)
qed

text \<open>
  Without that condition \<^verbatim>\<open>undo\<close> can throw: it puts old values back one by one in the order of their
  ids, and a value may meet its own key in an object that has not been put back yet. Here two objects
  had the keys 1 and 2, which became 3 and 1.
\<close>

lemma undo_meets_taken_key:
  "foldE (run_op (\<lambda>v w. fst v = fst w))
     [Emplace (\<lambda>i. (1, i)), Emplace (\<lambda>i. (2, i)), Start_session, Modify 0 (\<lambda>v. (3, 0)), Modify 1 (\<lambda>v. (1, 1)), Undo] example_index
   = Inl logic_error"
  by (simp add: example_index_def emplace_def with_head_def on_create_def on_modify_def start_undo_session_def modify_def undo_def
      put_back_def taken_def Let_def upt_rec)

end
