(* ===== verification/Spec2Isabelle.thy ===== *)
theory Spec2Isabelle
  imports Discussion ForkDatabase Delegations Chainbase
begin

text \<open>
  A verification development for gamebankcore, a blockchain node in C++ derived from Steem. The
  program's own core is the chain state machine: a database of objects kept in indexed tables with an
  undo history (src/libraries/chainbase), the protocol's data types and operations
  (src/libraries/protocol), and the evaluators and block processing that change the database
  (src/libraries/chain). This development models that core and proves the properties that make it a
  ledger: tokens are neither created nor destroyed by accident, balances move by exactly what an
  operation says, loops over due objects finish with nothing due, optimised bookkeeping agrees with
  what it stands for.

  \<^bold>\<open>How the model corresponds to the code.\<close> Every class of objects is a record (\<open>Objects\<close>), every
  \<^verbatim>\<open>multi_index_container\<close> a \<open>table\<close> of the record \<open>database\<close>; a secondary index is the rows sorted by
  its key. Every exception class is a constructor of \<open>exception\<close>; every operation that can throw
  returns \<open>exception + 'a\<close>, and \<open>bindE\<close> is ``evaluate, propagate the exception, go on''. A throwing
  operation changes nothing: the session it runs in is undone (theory \<open>Chainbase\<close>). Token amounts are
  \<^verbatim>\<open>fc::safe<int64_t>\<close>, integers whose operators check the 64-bit range; counters, times and
  fixed-point numbers are words of the source's width. A reference to an account object is its name.
  Each evaluator \<^verbatim>\<open>X_evaluator::do_apply\<close> is \<open>X_evaluator\<close>, each \<^verbatim>\<open>X_operation::validate\<close> is
  \<open>X_validate\<close>, each method of \<^verbatim>\<open>database\<close> has its own name. The build modelled is the live network
  (\<^verbatim>\<open>IS_TEST_NET\<close> undefined); whether hardfork 0.1 is active is read from the state. Virtual operations
  and signals to plugins are notifications and are not modelled.

  \<^bold>\<open>Theories.\<close>
  \<^item> \<open>Prelude\<close>: results and exceptions, loops over lists, \<^verbatim>\<open>fc::safe\<close> with the exactness of its guards.
  \<^item> \<open>Table\<close>: object tables; the locale \<open>keyed_store\<close> (what evaluators rely on when they modify objects
    found by key) and the locale \<open>draining\<close> (the loop ``process the first due object until none is
    due''), which gives that the number of objects bounds the rounds and that more rounds change nothing.
  \<^item> \<open>AssetSymbol\<close>, \<open>Asset\<close>: symbols with their check digit, NAI text and binary forms; asset and price
    arithmetic in 64 and 128 bits.
  \<^item> \<open>Objects\<close>, \<open>Operations\<close>: the chain objects; the operations with their validation.
  \<^item> \<open>Authority\<close>: account names, authorities, \<^verbatim>\<open>sign_state\<close>, \<^verbatim>\<open>verify_authority\<close>. The keys recovered from
    the signatures are an argument.
  \<^item> \<open>Balance\<close>: the balance, supply, vesting and vote primitives of database.cpp, with the measure \<open>gap\<close>:
    for each ledger (liquid, dollar, vesting, pending vesting) the recorded supply minus all holdings.
    Each primitive has a lemma that says how it moves every gap; conservation theorems add them up.
  \<^item> \<open>Genesis\<close>: \<^verbatim>\<open>init_genesis\<close>.
  \<^item> \<open>Transfers\<close>: transfers, savings, escrow. \<open>Vesting\<close>: power down, routes, delegation, rewards,
    conversion. \<open>Withdrawal\<close>: the payment of vesting withdrawals over routes. \<open>Market\<close>: limit orders.
    \<open>Ledger\<close>: the audit \<^verbatim>\<open>validate_invariants\<close>, sound for the objects it counts; it counts neither
    investments in crowdfundings nor the balances of contracts.
  \<^item> \<open>Chainbase\<close>: the undo history of one index, refined to a stack of snapshots.
  \<^item> \<open>Votes\<close>: \<^verbatim>\<open>account_witness_vote_evaluator\<close>, \<^verbatim>\<open>account_witness_proxy_evaluator\<close> and
    \<^verbatim>\<open>decline_voting_rights_evaluator\<close> (gamebank_evaluator.cpp) with \<^verbatim>\<open>process_decline_voting_rights\<close>. The
    votes that the balance primitives push through proxies onto witnesses are exactly the weights of the
    accounts that approve them, and proxies never form a loop.
  \<^item> \<open>Accounts\<close>: creation, update and recovery of accounts, witness registration and feeds, with the sweep
    \<^verbatim>\<open>account_recovery_processing\<close>. Who can change an owner authority, and when a recovery succeeds.
  \<^item> \<open>Delegations\<close>: the books on delegated shares over every operation that writes them, those of \<open>Vesting\<close>
    and the account creations of \<open>Accounts\<close>.
  \<^item> \<open>Funds\<close>: crowdfunding, investment and their settlement in \<^verbatim>\<open>process_crowdfunding\<close>, and the trade of
    non-fungible funds. Conservation, the exact effect of a settlement (at most one crowdfunding is ever
    settled), that the audit rejects pledged tokens, who may change a fund's owner.
  \<^item> \<open>Schedule\<close>: witness_schedule.cpp, the choice and the shuffle of the witnesses of a round, the virtual
    schedule, the median chain properties and the counting of version votes.
  \<^item> \<open>Block\<close>: slots, block headers and their extensions, missed blocks and participation,
    irreversibility, the price feed, virtual supply and hardforks (database.cpp, block.cpp).
  \<^item> \<open>Rewards\<close>: the reward curves (util/reward.cpp), inflation (\<^verbatim>\<open>process_funds\<close>, \<^verbatim>\<open>pay_reward_funds\<close>) and the
    payout of comments (\<^verbatim>\<open>pay_curators\<close>, \<^verbatim>\<open>cashout_comment_helper\<close>, \<^verbatim>\<open>process_comment_cashout\<close>). Payouts
    conserve liquid and pending tokens taken together, since a reward too small for one vesting share is
    recorded as both; the integer square root is monotone.
  \<^item> \<open>Comments\<close>: writing, editing, restricting and deleting comments, voting and changing votes. The
    counters of a comment agree with its votes along every sequence of operations, so curators are never
    paid more than their share. \<open>Discussion\<close>: the links between comments form a tree, the walks over the
    ancestors of a comment end, and the number of replies below a comment is exact.
  \<^item> \<open>ForkDatabase\<close>: fork_database.cpp, with shared and weak pointers as addresses of items. Reachable
    databases are trees of linked blocks (the locale \<open>linked_nodes\<close> carries the induction over links), a
    pushed block is linked or refused, the walks to a fork point and along the main branch end.

  \<^bold>\<open>Composition.\<close> The theories are layered like the calls: \<open>Balance\<close> gives the \<open>gap\<close> lemmas of the
  primitives, the evaluators of \<open>Transfers\<close>, \<open>Vesting\<close>, \<open>Market\<close> and \<open>Funds\<close> compose them, the sweeps
  run them for every due object through the locale \<open>draining\<close>, \<open>Ledger\<close> relates the gaps to the audit,
  and \<open>Chainbase\<close> says what is left of a failed operation.

  \<^bold>\<open>Bounds.\<close> Loops over due objects run at most as many rounds as there are objects (\<open>draining\<close>);
  the withdrawal loop, whose iterator moves to the next account by date before the current one is paid
  and dated a week later, can meet an account at most once for each week it is overdue and is bounded by
  the sum of those weeks; recursion over proxies is bounded by the depth limit of the source. Each bound is proved to be
  enough, so it is not part of the behaviour.

  \<^bold>\<open>Not modelled.\<close> Networking, plugins and APIs, the wallet, the vendored \<^verbatim>\<open>fc\<close> library apart from
  \<^verbatim>\<open>safe\<close>, JSON conversion, the word list of \<^verbatim>\<open>utilities\<close> and the block log are input and output,
  third-party code or presentation. Contract execution depends on the Lua virtual machine, which is C
  code driven through its own stack interface, and is left out with the two evaluators that only prepare
  it. Of the chain library, proof of work, custom operations and the driver that applies whole
  blocks are not modelled.
\<close>

end
